(* ===== verification/Prelude.thy ===== *)
theory Prelude
  imports Main "HOL-Library.Word" "HOL-Library.Multiset"
begin

text \<open>
  Shared vocabulary of the development: the machine types of the C sources, the
  \<open>named_theorems\<close> collections that the component theories fill, generic facts on lists and
  words, counting the threads in a state, the reachable states of a step relation, and two interface locales that components
  instantiate: \<open>codec\<close> (a decoder inverts an encoder) and \<open>transition_system\<close> (an invariant
  of all reachable states).
\<close>

unbundle bit_operations_syntax

type_synonym u8 = "8 word"
type_synonym u16 = "16 word"
type_synonym u32 = "32 word"
type_synonym u64 = "64 word"
type_synonym bytes = "u8 list"

named_theorems tree_simps "structural rewriting for the AVL index"
named_theorems layout_simps "numeric constants of the encrypted file layout"
named_theorems wheel_simps "unfolding rules of the timer wheel"

subsection \<open>Lists\<close>

lemma distinct_split_unique:
  assumes "distinct (xs @ a # ys)" and "xs @ a # ys = us @ a # vs"
  shows "us = xs \<and> vs = ys"
proof -
  have "a \<notin> set xs" "a \<notin> set ys" using assms(1) by auto
  moreover from this have "a \<notin> set us"
    using assms by (metis distinct_append not_distinct_conv_prefix append_Cons_eq_iff)
  ultimately show ?thesis
    using assms(2) by (metis append_Cons_eq_iff)
qed

lemma find_hd_dropWhile:
  "List.find P xs = (let ys = dropWhile (\<lambda>x. \<not> P x) xs in if ys = [] then None else Some (hd ys))"
  by (induction xs) auto

subsection \<open>Bytes and words in memory\<close>

text \<open>The targets are little-endian: the bytes of a word from the lowest address, and back.\<close>

definition le_bytes :: "nat \<Rightarrow> 'a::len word \<Rightarrow> bytes" where
  "le_bytes n w = map (\<lambda>i. ucast (drop_bit (8 * i) w)) [0..<n]"

fun le_load :: "bytes \<Rightarrow> 'a::len word" where
  "le_load [] = 0"
| "le_load (b # bs) = ucast b OR push_bit 8 (le_load bs)"

lemma length_le_bytes [simp]: "length (le_bytes n w) = n"
  by (simp add: le_bytes_def)

lemma bit_le_load:
  "bit (le_load bs :: 'a::len word) i \<longleftrightarrow>
     i < LENGTH('a) \<and> i div 8 < length bs \<and> bit (bs ! (i div 8)) (i mod 8)"
proof (induction bs arbitrary: i)
  case (Cons b bs)
  show ?case
  proof (cases "i < 8")
    case True
    then show ?thesis by (auto simp: bit_simps)
  next
    case False
    then obtain j where j: "i = j + 8" by (metis add.commute le_Suc_ex not_less)
    moreover have "(j + 8) div 8 = Suc (j div 8)" "(j + 8) mod 8 = j mod 8" by simp_all
    moreover have "\<not> bit b (j + 8)" by (auto dest: bit_imp_le_length)
    ultimately show ?thesis using Cons.IH [of j]
      by (simp only: le_load.simps) (auto simp: bit_simps simp del: add_is_0 dest: bit_imp_le_length)
  qed
qed simp

lemma le_load_le_bytes:
  "LENGTH('a::len) \<le> 8 * n \<Longrightarrow> le_load (le_bytes n (w :: 'a word)) = w"
  by (rule bit_word_eqI) (auto simp: bit_le_load le_bytes_def bit_simps div_less_iff_less_mult mult.commute)

lemma le_bytes_le_load:
  "length bs = n \<Longrightarrow> LENGTH('a::len) = 8 * n \<Longrightarrow> le_bytes n (le_load bs :: 'a word) = bs"
proof (rule nth_equalityI)
  fix i assume a: "length bs = n" "LENGTH('a) = 8 * n" "i < length (le_bytes n (le_load bs :: 'a word))"
  then have i: "i < n" by simp
  show "le_bytes n (le_load bs :: 'a word) ! i = bs ! i"
    by (rule bit_word_eqI) (use a i in \<open>auto simp: le_bytes_def bit_simps bit_le_load\<close>)
qed simp

lemma unat_take_8: "unat (take_bit 8 (w :: 'a::len word)) < 256"
  using take_bit_nat_less_exp [of 8 "unat w"] by (simp add: unsigned_take_bit_eq)

subsection \<open>Counting threads\<close>

definition count_of :: "('a \<Rightarrow> bool) \<Rightarrow> ('t::finite \<Rightarrow> 'a) \<Rightarrow> nat" where
  "count_of P ts = card {t. P (ts t)}"

text \<open>One thread changes: its share is separated from the rest.\<close>

definition others :: "('a \<Rightarrow> bool) \<Rightarrow> ('t::finite \<Rightarrow> 'a) \<Rightarrow> 't \<Rightarrow> nat" where
  "others P ts t = card {u. u \<noteq> t \<and> P (ts u)}"

lemma count_of_others: "count_of P ts = others P ts t + of_bool (P (ts t))"
proof (cases "P (ts t)")
  case True
  then have "{u. P (ts u)} = insert t {u. u \<noteq> t \<and> P (ts u)}" by auto
  with True show ?thesis by (simp add: count_of_def others_def)
next
  case False
  then have "{u. P (ts u)} = {u. u \<noteq> t \<and> P (ts u)}" by auto
  with False show ?thesis by (simp add: count_of_def others_def)
qed

lemma others_upd [simp]: "others P (ts(t := th)) t = others P ts t"
proof -
  have "{u. u \<noteq> t \<and> P ((ts(t := th)) u)} = {u. u \<noteq> t \<and> P (ts u)}" by auto
  then show ?thesis by (simp only: others_def)
qed

lemma count_of_upd: "count_of P (ts(t := th)) = others P ts t + of_bool (P th)"
  by (simp add: count_of_others [of P "ts(t := th)" t])

lemma count_ge1: "P (ts t) \<Longrightarrow> count_of P ts \<ge> 1"
  by (simp add: count_of_others [where t = t])

lemma count_le1_unique:
  assumes "count_of P ts \<le> 1" "P (ts t)" "P (ts u)"
  shows "t = u"
proof (rule ccontr)
  assume "t \<noteq> u"
  then have "others P ts t \<noteq> 0" using assms(3) by (auto simp: others_def)
  then show False using assms(1,2) by (simp add: count_of_others [where t = t])
qed

lemma count_pos_iff: "count_of P ts > 0 \<longleftrightarrow> (\<exists>t. P (ts t))"
  by (auto simp: count_of_def card_gt_0_iff)

subsection \<open>Interfaces\<close>

inductive reaches :: "('s \<Rightarrow> bool) \<Rightarrow> ('s \<Rightarrow> 's \<Rightarrow> bool) \<Rightarrow> 's \<Rightarrow> bool" for init step where
  reaches_init: "init s \<Longrightarrow> reaches init step s"
| reaches_step: "reaches init step s \<Longrightarrow> step s s' \<Longrightarrow> reaches init step s'"

locale transition_system =
  fixes init :: "'s \<Rightarrow> bool" and step :: "'s \<Rightarrow> 's \<Rightarrow> bool" and inv :: "'s \<Rightarrow> bool"
  assumes inv_init: "init s \<Longrightarrow> inv s"
    and inv_step: "inv s \<Longrightarrow> step s s' \<Longrightarrow> inv s'"
begin

lemma inv_reaches: "reaches init step s \<Longrightarrow> inv s"
  by (induction rule: reaches.induct) (blast intro: inv_init inv_step)+

lemma reaches_invariant_conj:
  assumes "\<And>s. init s \<Longrightarrow> more s" "\<And>s s'. inv s \<Longrightarrow> inv s' \<Longrightarrow> more s \<Longrightarrow> step s s' \<Longrightarrow> more s'"
    and "reaches init step s"
  shows "more s"
  using assms(3) by (induction rule: reaches.induct) (blast intro: assms(1,2) inv_reaches reaches_step)+

end

locale codec =
  fixes encode :: "'a \<Rightarrow> 'b" and decode :: "'b \<Rightarrow> 'a option" and valid :: "'a \<Rightarrow> bool"
  assumes decode_encode: "valid x \<Longrightarrow> decode (encode x) = Some x"
begin

lemma encode_inj_on: "inj_on encode (Collect valid)"
  by (rule inj_onI) (metis decode_encode mem_Collect_eq option.inject)

lemma encode_eq_iff: "valid x \<Longrightarrow> valid y \<Longrightarrow> encode x = encode y \<longleftrightarrow> x = y"
  by (metis decode_encode option.inject)

end

end
