(* ===== verification/PTree.thy ===== *)
theory PTree
  imports Prelude
begin

text \<open>
  \<open>pclsync/ptree.c\<close> and \<open>pclsync/ptree.h\<close>: the intrusive AVL tree behind the interval tree,
  the throttled task index, the sector log and other ordered sets of the client.

  A node of the C tree is a \<open>Node left p height right\<close>, where \<open>p\<close> is the node's address: all
  operations receive and return addresses, as the C code receives \<open>psync_tree *\<close>. The parent
  pointers are not stored: a pointer into the tree is a subtree together with the list of
  \<open>frame\<close>s up to the root (\<open>locate\<close>), so \<open>e = e->parent\<close> is the removal of one frame.
  The stored \<open>height\<close> field is kept as the code keeps it, stale values included.
\<close>

datatype 'p ptree = Null | Node "'p ptree" 'p int "'p ptree"

text \<open>\<open>FL q h r\<close>: we are \<open>q->left\<close>; \<open>FR l q h\<close>: we are \<open>q->right\<close>.\<close>

datatype 'p frame = FL 'p int "'p ptree" | FR "'p ptree" 'p int

fun fill :: "'p ptree \<Rightarrow> 'p frame \<Rightarrow> 'p ptree" where
  "fill t (FL q h r) = Node t q h r"
| "fill t (FR l q h) = Node l q h t"

fun plug :: "'p ptree \<Rightarrow> 'p frame list \<Rightarrow> 'p ptree" where
  "plug t [] = t"
| "plug t (f # fs) = plug (fill t f) fs"

fun locate :: "'p \<Rightarrow> 'p ptree \<Rightarrow> 'p frame list \<Rightarrow> ('p ptree \<times> 'p frame list) option" where
  "locate p Null fs = None"
| "locate p (Node l q h r) fs =
     (if p = q then Some (Node l q h r, fs)
      else case locate p l (FL q h r # fs) of
             Some z \<Rightarrow> Some z
           | None \<Rightarrow> locate p r (FR l q h # fs))"

fun inorder :: "'p ptree \<Rightarrow> 'p list" where
  "inorder Null = []"
| "inorder (Node l p h r) = inorder l @ p # inorder r"

subsection \<open>Heights and rotations\<close>

fun ptree_height :: "'p ptree \<Rightarrow> int" where
  "ptree_height Null = 0"
| "ptree_height (Node l p h r) = h"

fun ptree_left :: "'p ptree \<Rightarrow> 'p ptree" where
  "ptree_left Null = Null"
| "ptree_left (Node l p h r) = l"

fun ptree_right :: "'p ptree \<Rightarrow> 'p ptree" where
  "ptree_right Null = Null"
| "ptree_right (Node l p h r) = r"

definition ptree_max :: "int \<Rightarrow> int \<Rightarrow> int" where
  "ptree_max a b = (if a > b then a else b)"

fun ptree_recalc_height :: "'p ptree \<Rightarrow> 'p ptree" where
  "ptree_recalc_height (Node l p h r) =
     Node l p (ptree_max (ptree_height l) (ptree_height r) + 1) r"
| "ptree_recalc_height Null = Null"

text \<open>
  The rotations dereference the child that moves up; \<open>rotate_child_nonnull\<close> below shows that
  the rebalancing loops only rotate nodes that have it, so the last equations are never used.
\<close>

fun ptree_rotate_left :: "'p ptree \<Rightarrow> 'p ptree" where
  "ptree_rotate_left (Node l p h (Node a q k b)) =
     (let e = (if a \<noteq> Null then ptree_recalc_height (Node l p h a)
               else Node l p (ptree_height l + 1) a)
      in ptree_recalc_height (Node e q k b))"
| "ptree_rotate_left t = t"

fun ptree_rotate_right :: "'p ptree \<Rightarrow> 'p ptree" where
  "ptree_rotate_right (Node (Node a q k b) p h r) =
     (let e = (if b \<noteq> Null then ptree_recalc_height (Node b p h r)
               else Node b p (ptree_height r + 1) r)
      in ptree_recalc_height (Node a q k e))"
| "ptree_rotate_right t = t"

definition ptree_init_node :: "'p \<Rightarrow> 'p ptree" where
  "ptree_init_node p = Node Null p 1 Null"

text \<open>The two rotation blocks of the loops (\<open>dheight == 2\<close> and \<open>dheight == -2\<close>).\<close>

fun rotate_left_heavy :: "'p ptree \<Rightarrow> 'p ptree" where
  "rotate_left_heavy (Node l p h r) =
     (let l' = (if ptree_height (ptree_right l) > ptree_height (ptree_left l)
                then ptree_rotate_left l else l)
      in ptree_rotate_right (Node l' p h r))"
| "rotate_left_heavy Null = Null"

fun rotate_right_heavy :: "'p ptree \<Rightarrow> 'p ptree" where
  "rotate_right_heavy (Node l p h r) =
     (let r' = (if ptree_height (ptree_left r) > ptree_height (ptree_right r)
                then ptree_rotate_right r else r)
      in ptree_rotate_left (Node l p h r'))"
| "rotate_right_heavy Null = Null"

subsection \<open>Insertion\<close>

text \<open>The loop of \<open>ptree_go_up_rebalance_add\<close>: the current node \<open>e\<close> and the frames above it.\<close>

fun ptree_go_up_rebalance_add :: "'p ptree \<Rightarrow> 'p frame list \<Rightarrow> 'p ptree" where
  "ptree_go_up_rebalance_add (Node l p h r) fs =
     (let lheight = ptree_height l; rheight = ptree_height r; dheight = lheight - rheight in
      if dheight = 0 then plug (Node l p h r) fs
      else if dheight = 1 \<or> dheight = -1 then
        (let e = Node l p (rheight + (dheight + 1) div 2 + 1) r in
         case fs of [] \<Rightarrow> e
                  | f # fs' \<Rightarrow> ptree_go_up_rebalance_add (fill e f) fs')
      else if dheight = 2 then plug (rotate_left_heavy (Node l p h r)) fs
      else plug (rotate_right_heavy (Node l p h r)) fs)"
| "ptree_go_up_rebalance_add Null fs = plug Null fs"

text \<open>\<open>while (node->left) node = node->left\<close> and its mirror image, with the path walked.\<close>

fun down_left :: "'p ptree \<Rightarrow> 'p frame list \<Rightarrow> 'p ptree \<times> 'p frame list" where
  "down_left (Node l p h r) fs =
     (if l \<noteq> Null then down_left l (FL p h r # fs) else (Node l p h r, fs))"
| "down_left Null fs = (Null, fs)"

fun down_right :: "'p ptree \<Rightarrow> 'p frame list \<Rightarrow> 'p ptree \<times> 'p frame list" where
  "down_right (Node l p h r) fs =
     (if r \<noteq> Null then down_right r (FR l p h # fs) else (Node l p h r, fs))"
| "down_right Null fs = (Null, fs)"

fun node_ptr :: "'p ptree \<Rightarrow> 'p option" where
  "node_ptr Null = None"
| "node_ptr (Node l p h r) = Some p"

definition ptree_get_first :: "'p ptree \<Rightarrow> 'p option" where
  "ptree_get_first tree = node_ptr (fst (down_left tree []))"

definition ptree_get_last :: "'p ptree \<Rightarrow> 'p option" where
  "ptree_get_last tree = node_ptr (fst (down_right tree []))"

fun set_left :: "'p ptree \<Rightarrow> 'p ptree \<Rightarrow> 'p ptree" where
  "set_left (Node l p h r) t = Node t p h r"
| "set_left Null t = Null"

fun set_right :: "'p ptree \<Rightarrow> 'p ptree \<Rightarrow> 'p ptree" where
  "set_right (Node l p h r) t = Node l p h t"
| "set_right Null t = Null"

text \<open>The part of \<open>ptree_get_add_after\<close> that runs with a tree and a node.\<close>

definition add_after_node :: "'p ptree \<Rightarrow> 'p \<Rightarrow> 'p \<Rightarrow> 'p ptree" where
  "add_after_node tree node newnode =
     (case locate node tree [] of
        Some (Node l p h r, fs) \<Rightarrow>
          (if r \<noteq> Null then
             (let (n, fs') = down_left r (FR l p h # fs)
              in ptree_go_up_rebalance_add (set_left n (ptree_init_node newnode)) fs')
           else ptree_go_up_rebalance_add (Node l p h (ptree_init_node newnode)) fs)
      | _ \<Rightarrow> tree)"

definition add_before_node :: "'p ptree \<Rightarrow> 'p \<Rightarrow> 'p \<Rightarrow> 'p ptree" where
  "add_before_node tree node newnode =
     (case locate node tree [] of
        Some (Node l p h r, fs) \<Rightarrow>
          (if l \<noteq> Null then
             (let (n, fs') = down_right l (FL p h r # fs)
              in ptree_go_up_rebalance_add (set_right n (ptree_init_node newnode)) fs')
           else ptree_go_up_rebalance_add (Node (ptree_init_node newnode) p h r) fs)
      | _ \<Rightarrow> tree)"

text \<open>
  A \<open>None\<close> node is the C \<open>NULL\<close>: add as the first (\<open>after\<close>) or the last (\<open>before\<close>)
  element. On a non-empty tree the first and the last node exist, so the mutual recursion of
  the C functions is one call deep.
\<close>

definition ptree_get_add_after :: "'p ptree \<Rightarrow> 'p option \<Rightarrow> 'p \<Rightarrow> 'p ptree" where
  "ptree_get_add_after tree node newnode =
     (if tree = Null then ptree_init_node newnode
      else case node of
             Some n \<Rightarrow> add_after_node tree n newnode
           | None \<Rightarrow> (case ptree_get_first tree of
                        Some n \<Rightarrow> add_before_node tree n newnode
                      | None \<Rightarrow> tree))"

definition ptree_get_add_before :: "'p ptree \<Rightarrow> 'p option \<Rightarrow> 'p \<Rightarrow> 'p ptree" where
  "ptree_get_add_before tree node newnode =
     (if tree = Null then ptree_init_node newnode
      else case node of
             Some n \<Rightarrow> add_before_node tree n newnode
           | None \<Rightarrow> (case ptree_get_last tree of
                        Some n \<Rightarrow> add_after_node tree n newnode
                      | None \<Rightarrow> tree))"

subsection \<open>Deletion\<close>

fun ptree_go_up_rebalance_del :: "'p ptree \<Rightarrow> 'p frame list \<Rightarrow> 'p ptree" where
  "ptree_go_up_rebalance_del (Node l p h r) fs =
     (let lheight = ptree_height l; rheight = ptree_height r; dheight = lheight - rheight in
      if dheight = 0 then
        (let e = Node l p (rheight + 1) r in
         case fs of [] \<Rightarrow> e
                  | f # fs' \<Rightarrow> ptree_go_up_rebalance_del (fill e f) fs')
      else if dheight = 1 \<or> dheight = -1 then plug (Node l p h r) fs
      else
        (let e = (if dheight = 2 then rotate_left_heavy (Node l p h r)
                  else rotate_right_heavy (Node l p h r)) in
         case fs of [] \<Rightarrow> e
                  | f # fs' \<Rightarrow> ptree_go_up_rebalance_del (fill e f) fs'))"
| "ptree_go_up_rebalance_del Null fs = plug Null fs"

text \<open>\<open>ptree_replace_me_with\<close>: the node at path \<open>fs\<close> is replaced by \<open>repl\<close>.\<close>

definition ptree_replace_me_with :: "'p frame list \<Rightarrow> 'p ptree \<Rightarrow> 'p ptree" where
  "ptree_replace_me_with fs repl =
     (case fs of
        f # fs' \<Rightarrow> ptree_go_up_rebalance_del (fill repl f) fs'
      | [] \<Rightarrow> (if repl = Null then Null else ptree_go_up_rebalance_del repl []))"

text \<open>
  The two-children case of \<open>ptree_get_del\<close>: the in-order neighbour \<open>el\<close> is cut out of the
  higher subtree and copied over the deleted node (\<open>memcpy\<close>), keeping that node's stored
  height; the rebalancing starts at the old parent of \<open>el\<close>, or at \<open>el\<close> itself when the
  parent was the deleted node.
\<close>

definition del_take_left :: "'p ptree \<Rightarrow> int \<Rightarrow> 'p ptree \<Rightarrow> 'p frame list \<Rightarrow> 'p ptree" where
  "del_take_left l h r fs =
     (case down_right l [] of
        (Node a el k b, elfs) \<Rightarrow>
          (case elfs of
             [] \<Rightarrow> ptree_go_up_rebalance_del (Node a el h r) fs
           | f # rest \<Rightarrow> ptree_go_up_rebalance_del (fill a f) (rest @ FL el h r # fs))
      | (Null, _) \<Rightarrow> plug Null fs)"

definition del_take_right :: "'p ptree \<Rightarrow> int \<Rightarrow> 'p ptree \<Rightarrow> 'p frame list \<Rightarrow> 'p ptree" where
  "del_take_right l h r fs =
     (case down_left r [] of
        (Node a el k b, elfs) \<Rightarrow>
          (case elfs of
             [] \<Rightarrow> ptree_go_up_rebalance_del (Node l el h b) fs
           | f # rest \<Rightarrow> ptree_go_up_rebalance_del (fill b f) (rest @ FR l el h # fs))
      | (Null, _) \<Rightarrow> plug Null fs)"

definition ptree_get_del :: "'p ptree \<Rightarrow> 'p \<Rightarrow> 'p ptree" where
  "ptree_get_del tree node =
     (case locate node tree [] of
        Some (Node l p h r, fs) \<Rightarrow>
          (if l = Null \<and> r = Null then ptree_replace_me_with fs Null
           else if l = Null then ptree_replace_me_with fs r
           else if r = Null then ptree_replace_me_with fs l
           else if ptree_height l > ptree_height r then del_take_left l h r fs
           else del_take_right l h r fs)
      | _ \<Rightarrow> tree)"

subsection \<open>Traversal and search\<close>

text \<open>\<open>while (tree->parent && tree == tree->parent->right) tree = tree->parent;\<close> then the parent.\<close>

fun climb_from_right :: "'p frame list \<Rightarrow> 'p option" where
  "climb_from_right [] = None"
| "climb_from_right (FR l q h # fs) = climb_from_right fs"
| "climb_from_right (FL q h r # fs) = Some q"

fun climb_from_left :: "'p frame list \<Rightarrow> 'p option" where
  "climb_from_left [] = None"
| "climb_from_left (FL q h r # fs) = climb_from_left fs"
| "climb_from_left (FR l q h # fs) = Some q"

definition ptree_get_next :: "'p ptree \<Rightarrow> 'p \<Rightarrow> 'p option" where
  "ptree_get_next tree node =
     (case locate node tree [] of
        Some (Node l p h r, fs) \<Rightarrow>
          (if r \<noteq> Null then node_ptr (fst (down_left r [])) else climb_from_right fs)
      | _ \<Rightarrow> None)"

definition ptree_get_prev :: "'p ptree \<Rightarrow> 'p \<Rightarrow> 'p option" where
  "ptree_get_prev tree node =
     (case locate node tree [] of
        Some (Node l p h r, fs) \<Rightarrow>
          (if l \<noteq> Null then node_ptr (fst (down_right l [])) else climb_from_left fs)
      | _ \<Rightarrow> None)"

text \<open>
  The traversal that may free every node it leaves (\<open>ptree_for_each_element_call_safe\<close>):
  down to a node without children, then to the next leaf of the parent's right subtree or to
  the parent.
\<close>

fun down_safe :: "'p ptree \<Rightarrow> 'p frame list \<Rightarrow> 'p ptree \<times> 'p frame list" where
  "down_safe (Node l p h r) fs =
     (if l \<noteq> Null then down_safe l (FL p h r # fs)
      else if r \<noteq> Null then down_safe r (FR l p h # fs)
      else (Node l p h r, fs))"
| "down_safe Null fs = (Null, fs)"

definition ptree_get_first_safe :: "'p ptree \<Rightarrow> 'p option" where
  "ptree_get_first_safe tree = node_ptr (fst (down_safe tree []))"

definition ptree_get_next_safe :: "'p ptree \<Rightarrow> 'p \<Rightarrow> 'p option" where
  "ptree_get_next_safe tree node =
     (case locate node tree [] of
        Some (t, fs) \<Rightarrow>
          (case fs of
             [] \<Rightarrow> None
           | FR l q h # fs' \<Rightarrow> Some q
           | FL q h r # fs' \<Rightarrow>
               (if r = Null then Some q else node_ptr (fst (down_safe r (FR t q h # fs')))))
      | None \<Rightarrow> None)"

text \<open>\<open>ptree_get_added_at\<close>: the caller has already linked \<open>newnode\<close> below the node at \<open>fs\<close>.\<close>

definition ptree_get_added_at :: "'p frame list \<Rightarrow> 'p \<Rightarrow> 'p ptree" where
  "ptree_get_added_at fs newnode =
     (case fs of
        [] \<Rightarrow> ptree_init_node newnode
      | f # fs' \<Rightarrow> ptree_go_up_rebalance_add (fill (ptree_init_node newnode) f) fs')"

text \<open>The descent of \<open>ptree_get_add\<close>; \<open>cmp newnode el\<close> is the C comparison result.\<close>

fun add_search :: "('p \<Rightarrow> 'p \<Rightarrow> int) \<Rightarrow> 'p ptree \<Rightarrow> 'p \<Rightarrow> 'p ptree \<Rightarrow> 'p ptree" where
  "add_search cmp tree newnode (Node l el h r) =
     (if cmp newnode el < 0 then
        (if l \<noteq> Null then add_search cmp tree newnode l
         else ptree_get_add_before tree (Some el) newnode)
      else
        (if r \<noteq> Null then add_search cmp tree newnode r
         else ptree_get_add_after tree (Some el) newnode))"
| "add_search cmp tree newnode Null = tree"

definition ptree_get_add :: "('p \<Rightarrow> 'p \<Rightarrow> int) \<Rightarrow> 'p ptree \<Rightarrow> 'p \<Rightarrow> 'p ptree" where
  "ptree_get_add cmp tree newnode =
     (if tree = Null then ptree_get_add_after tree None newnode
      else add_search cmp tree newnode tree)"

subsection \<open>In-order contents\<close>

fun frame_before :: "'p frame \<Rightarrow> 'p list" where
  "frame_before (FL q h r) = []"
| "frame_before (FR l q h) = inorder l @ [q]"

fun frame_after :: "'p frame \<Rightarrow> 'p list" where
  "frame_after (FL q h r) = q # inorder r"
| "frame_after (FR l q h) = []"

fun before_path :: "'p frame list \<Rightarrow> 'p list" where
  "before_path [] = []"
| "before_path (f # fs) = before_path fs @ frame_before f"

fun after_path :: "'p frame list \<Rightarrow> 'p list" where
  "after_path [] = []"
| "after_path (f # fs) = frame_after f @ after_path fs"

lemma inorder_fill [tree_simps]: "inorder (fill t f) = frame_before f @ inorder t @ frame_after f"
  by (cases f) auto

lemma inorder_plug [tree_simps]:
  "inorder (plug t fs) = before_path fs @ inorder t @ after_path fs"
  by (induction fs arbitrary: t) (auto simp: inorder_fill)

lemma inorder_Null_iff [simp]: "inorder t = [] \<longleftrightarrow> t = Null"
  by (cases t) auto

lemma inorder_recalc [tree_simps]: "inorder (ptree_recalc_height t) = inorder t"
  by (cases t) auto

lemma inorder_rotate_left [tree_simps]: "inorder (ptree_rotate_left t) = inorder t"
  by (cases t rule: ptree_rotate_left.cases) (auto simp: Let_def)

lemma inorder_rotate_right [tree_simps]: "inorder (ptree_rotate_right t) = inorder t"
  by (cases t rule: ptree_rotate_right.cases) (auto simp: Let_def)

lemma inorder_rotate_heavy [tree_simps]:
  "inorder (rotate_left_heavy t) = inorder t" "inorder (rotate_right_heavy t) = inorder t"
  by (cases t; simp add: Let_def inorder_rotate_left inorder_rotate_right)+

lemma plug_append: "plug t (fs @ gs) = plug (plug t fs) gs"
  by (induction fs arbitrary: t) auto

lemma before_path_append [tree_simps]: "before_path (fs @ gs) = before_path gs @ before_path fs"
  by (induction fs) auto

lemma after_path_append [tree_simps]: "after_path (fs @ gs) = after_path fs @ after_path gs"
  by (induction fs) auto

declare rotate_left_heavy.simps [simp del] rotate_right_heavy.simps [simp del]

lemma inorder_go_up_add [tree_simps]:
  "inorder (ptree_go_up_rebalance_add t fs) = before_path fs @ inorder t @ after_path fs"
proof (induction fs arbitrary: t)
  case Nil
  then show ?case by (cases t) (auto simp: Let_def tree_simps)
next
  case (Cons f fs)
  then show ?case by (cases t) (auto simp: Let_def tree_simps)
qed

lemma inorder_go_up_del [tree_simps]:
  "inorder (ptree_go_up_rebalance_del t fs) = before_path fs @ inorder t @ after_path fs"
proof (induction fs arbitrary: t)
  case Nil
  then show ?case by (cases t) (auto simp: Let_def tree_simps)
next
  case (Cons f fs)
  then show ?case by (cases t) (auto simp: Let_def tree_simps)
qed

declare ptree_go_up_rebalance_add.simps [simp del] ptree_go_up_rebalance_del.simps [simp del]

lemma locate_Some:
  "locate p t fs = Some (u, gs) \<Longrightarrow> (\<exists>l h r. u = Node l p h r) \<and> plug u gs = plug t fs"
proof (induction t arbitrary: fs)
  case (Node l q h r)
  then show ?case by (fastforce split: if_splits option.splits)
qed simp

lemma locate_None_iff: "locate p t fs = None \<longleftrightarrow> p \<notin> set (inorder t)"
  by (induction t arbitrary: fs) (auto split: option.splits, metis option.distinct(1))

lemma locate_cases:
  assumes "p \<in> set (inorder t)"
  obtains l h r fs where "locate p t [] = Some (Node l p h r, fs)" "plug (Node l p h r) fs = t"
proof -
  obtain u fs where "locate p t [] = Some (u, fs)"
    using assms locate_None_iff [of p t "[]"] by fastforce
  then show ?thesis using locate_Some [of p t "[]" u fs] that by auto
qed

lemma down_left_Some:
  "t \<noteq> Null \<Longrightarrow> down_left t fs = (u, gs) \<Longrightarrow>
   \<exists>p h r ds. u = Node Null p h r \<and> gs = ds @ fs \<and> plug u ds = t \<and> before_path ds = []"
proof (induction t arbitrary: fs)
  case (Node l p h r)
  show ?case
  proof (cases "l = Null")
    case False
    with Node obtain q k s ds where "u = Node Null q k s" "gs = ds @ FL p h r # fs"
      "plug u ds = l" "before_path ds = []" by fastforce
    then show ?thesis
      by (intro exI [of _ q] exI [of _ k] exI [of _ s] exI [of _ "ds @ [FL p h r]"])
        (auto simp: tree_simps plug_append)
  qed (use Node in auto)
qed simp

lemma down_right_Some:
  "t \<noteq> Null \<Longrightarrow> down_right t fs = (u, gs) \<Longrightarrow>
   \<exists>p h l ds. u = Node l p h Null \<and> gs = ds @ fs \<and> plug u ds = t \<and> after_path ds = []"
proof (induction t arbitrary: fs)
  case (Node l p h r)
  show ?case
  proof (cases "r = Null")
    case False
    with Node obtain q k s ds where "u = Node s q k Null" "gs = ds @ FR l p h # fs"
      "plug u ds = r" "after_path ds = []" by fastforce
    then show ?thesis
      by (intro exI [of _ q] exI [of _ k] exI [of _ s] exI [of _ "ds @ [FR l p h]"])
        (auto simp: tree_simps plug_append)
  qed (use Node in auto)
qed simp

lemma down_left_cases:
  assumes "t \<noteq> Null"
  obtains p h r ds where "\<And>fs. down_left t fs = (Node Null p h r, ds @ fs)"
    "plug (Node Null p h r) ds = t" "before_path ds = []" "inorder t = p # inorder r @ after_path ds"
proof -
  have ext: "down_left t fs = (fst (down_left t []), snd (down_left t []) @ fs)" for fs
  proof (induction t arbitrary: fs)
    case (Node l p h r)
    show ?case using Node(1) [of "FL p h r # fs"] Node(1) [of "[FL p h r]"] by auto
  qed simp
  obtain u gs where d: "down_left t [] = (u, gs)" by fastforce
  obtain p h r ds where u: "u = Node Null p h r" "gs = ds" "plug u ds = t" "before_path ds = []"
    using down_left_Some [OF assms d] by auto
  moreover from u have "inorder t = p # inorder r @ after_path ds" by (auto simp: tree_simps)
  ultimately show ?thesis using ext d that by auto
qed

lemma down_right_cases:
  assumes "t \<noteq> Null"
  obtains p h l ds where "\<And>fs. down_right t fs = (Node l p h Null, ds @ fs)"
    "plug (Node l p h Null) ds = t" "after_path ds = []" "inorder t = before_path ds @ inorder l @ [p]"
proof -
  have ext: "down_right t fs = (fst (down_right t []), snd (down_right t []) @ fs)" for fs
  proof (induction t arbitrary: fs)
    case (Node l p h r)
    show ?case using Node(2) [of "FR l p h # fs"] Node(2) [of "[FR l p h]"] by auto
  qed simp
  obtain u gs where d: "down_right t [] = (u, gs)" by fastforce
  obtain p h l ds where u: "u = Node l p h Null" "gs = ds" "plug u ds = t" "after_path ds = []"
    using down_right_Some [OF assms d] by auto
  moreover from u have "inorder t = before_path ds @ inorder l @ [p]" by (auto simp: tree_simps)
  ultimately show ?thesis using ext d that by auto
qed

subsection \<open>Functional behaviour of the operations\<close>

text \<open>A pointer into the tree, seen in the in-order list.\<close>

lemma located_split:
  assumes "distinct (inorder t)" "inorder t = xs @ p # ys"
  obtains l h r fs where "locate p t [] = Some (Node l p h r, fs)" "plug (Node l p h r) fs = t"
    "xs = before_path fs @ inorder l" "ys = inorder r @ after_path fs"
proof -
  have "p \<in> set (inorder t)" using assms(2) by simp
  then obtain l h r fs where lo: "locate p t [] = Some (Node l p h r, fs)"
    and pl: "plug (Node l p h r) fs = t" by (rule locate_cases)
  have eq: "inorder t = (before_path fs @ inorder l) @ p # (inorder r @ after_path fs)"
    unfolding pl [symmetric] by (simp add: tree_simps)
  have "before_path fs @ inorder l = xs \<and> inorder r @ after_path fs = ys"
    by (rule distinct_split_unique [of _ p]) (use assms eq in auto)
  with lo pl that show ?thesis by auto
qed

lemma inorder_init_node [tree_simps]: "inorder (ptree_init_node n) = [n]"
  by (simp add: ptree_init_node_def)

lemma inorder_add_after_node:
  assumes "distinct (inorder t)" "inorder t = xs @ p # ys"
  shows "inorder (add_after_node t p n) = xs @ p # n # ys"
proof -
  obtain l h r fs where lo: "locate p t [] = Some (Node l p h r, fs)"
    "xs = before_path fs @ inorder l" "ys = inorder r @ after_path fs"
    by (rule located_split [OF assms])
  show ?thesis
  proof (cases "r = Null")
    case True
    with lo show ?thesis by (simp add: add_after_node_def tree_simps)
  next
    case False
    then obtain q k s ds where "\<And>fs. down_left r fs = (Node Null q k s, ds @ fs)"
      "before_path ds = []" "inorder r = q # inorder s @ after_path ds" by (rule down_left_cases) blast
    with lo False show ?thesis by (auto simp: add_after_node_def tree_simps)
  qed
qed

lemma inorder_add_before_node:
  assumes "distinct (inorder t)" "inorder t = xs @ p # ys"
  shows "inorder (add_before_node t p n) = xs @ n # p # ys"
proof -
  obtain l h r fs where lo: "locate p t [] = Some (Node l p h r, fs)"
    "xs = before_path fs @ inorder l" "ys = inorder r @ after_path fs"
    by (rule located_split [OF assms])
  show ?thesis
  proof (cases "l = Null")
    case True
    with lo show ?thesis by (simp add: add_before_node_def tree_simps)
  next
    case False
    then obtain q k s ds where "\<And>fs. down_right l fs = (Node s q k Null, ds @ fs)"
      "after_path ds = []" "inorder l = before_path ds @ inorder s @ [q]" by (rule down_right_cases) blast
    with lo False show ?thesis by (auto simp: add_before_node_def tree_simps)
  qed
qed

lemma inorder_replace_me_with:
  "inorder (ptree_replace_me_with fs t) = before_path fs @ inorder t @ after_path fs"
  by (cases fs) (auto simp: ptree_replace_me_with_def tree_simps)

lemma inorder_del_take_left:
  assumes "l \<noteq> Null"
  shows "inorder (del_take_left l h r fs) = before_path fs @ inorder l @ inorder r @ after_path fs"
proof -
  obtain q k s ds where d: "\<And>fs. down_right l fs = (Node s q k Null, ds @ fs)"
    "after_path ds = []" "inorder l = before_path ds @ inorder s @ [q]"
    using assms by (rule down_right_cases) blast
  then show ?thesis by (cases ds) (auto simp: del_take_left_def tree_simps)
qed

lemma inorder_del_take_right:
  assumes "r \<noteq> Null"
  shows "inorder (del_take_right l h r fs) = before_path fs @ inorder l @ inorder r @ after_path fs"
proof -
  obtain q k s ds where d: "\<And>fs. down_left r fs = (Node Null q k s, ds @ fs)"
    "before_path ds = []" "inorder r = q # inorder s @ after_path ds"
    using assms by (rule down_left_cases) blast
  then show ?thesis by (cases ds) (auto simp: del_take_right_def tree_simps)
qed

lemma inorder_get_del:
  assumes "distinct (inorder t)" "inorder t = xs @ p # ys"
  shows "inorder (ptree_get_del t p) = xs @ ys"
proof -
  obtain l h r fs where lo: "locate p t [] = Some (Node l p h r, fs)"
    "xs = before_path fs @ inorder l" "ys = inorder r @ after_path fs"
    by (rule located_split [OF assms])
  then show ?thesis
    by (auto simp: ptree_get_del_def inorder_replace_me_with inorder_del_take_left
        inorder_del_take_right)
qed

lemma climb_from_right_after:
  "climb_from_right fs = (if after_path fs = [] then None else Some (hd (after_path fs)))"
  by (induction fs rule: climb_from_right.induct) auto

lemma climb_from_left_before:
  "climb_from_left fs = (if before_path fs = [] then None else Some (last (before_path fs)))"
  by (induction fs rule: climb_from_left.induct) auto

lemma get_next_inorder:
  assumes "distinct (inorder t)" "inorder t = xs @ p # ys"
  shows "ptree_get_next t p = (if ys = [] then None else Some (hd ys))"
proof -
  obtain l h r fs where lo: "locate p t [] = Some (Node l p h r, fs)"
    "xs = before_path fs @ inorder l" "ys = inorder r @ after_path fs"
    by (rule located_split [OF assms])
  show ?thesis
  proof (cases "r = Null")
    case True
    with lo show ?thesis by (simp add: ptree_get_next_def climb_from_right_after)
  next
    case False
    then obtain q k s ds where d: "\<And>fs. down_left r fs = (Node Null q k s, ds @ fs)"
      "inorder r = q # inorder s @ after_path ds" by (rule down_left_cases) blast
    with lo False show ?thesis by (simp add: ptree_get_next_def)
  qed
qed

lemma get_prev_inorder:
  assumes "distinct (inorder t)" "inorder t = xs @ p # ys"
  shows "ptree_get_prev t p = (if xs = [] then None else Some (last xs))"
proof -
  obtain l h r fs where lo: "locate p t [] = Some (Node l p h r, fs)"
    "xs = before_path fs @ inorder l" "ys = inorder r @ after_path fs"
    by (rule located_split [OF assms])
  show ?thesis
  proof (cases "l = Null")
    case True
    with lo show ?thesis by (simp add: ptree_get_prev_def climb_from_left_before)
  next
    case False
    then obtain q k s ds where d: "\<And>fs. down_right l fs = (Node s q k Null, ds @ fs)"
      "inorder l = before_path ds @ inorder s @ [q]" by (rule down_right_cases) blast
    with lo False show ?thesis by (simp add: ptree_get_prev_def)
  qed
qed

lemma get_first_inorder:
  "ptree_get_first t = (case inorder t of [] \<Rightarrow> None | y # _ \<Rightarrow> Some y)"
proof (cases "t = Null")
  case False
  then obtain q k s ds where d: "\<And>fs. down_left t fs = (Node Null q k s, ds @ fs)"
    "inorder t = q # inorder s @ after_path ds" by (rule down_left_cases) blast
  then show ?thesis by (simp add: ptree_get_first_def)
qed (simp add: ptree_get_first_def)

lemma get_last_inorder:
  "ptree_get_last t = (if t = Null then None else Some (last (inorder t)))"
proof (cases "t = Null")
  case False
  then obtain q k s ds where d: "\<And>fs. down_right t fs = (Node s q k Null, ds @ fs)"
    "inorder t = before_path ds @ inorder s @ [q]" by (rule down_right_cases) blast
  with False show ?thesis by (simp add: ptree_get_last_def)
qed (simp add: ptree_get_last_def)

subsection \<open>The AVL invariant\<close>

text \<open>Stored heights are the real ones and siblings differ by at most one.\<close>

fun avl :: "'p ptree \<Rightarrow> bool" where
  "avl Null \<longleftrightarrow> True"
| "avl (Node l p h r) \<longleftrightarrow> avl l \<and> avl r \<and> h = max (ptree_height l) (ptree_height r) + 1 \<and>
     ptree_height l \<le> ptree_height r + 1 \<and> ptree_height r \<le> ptree_height l + 1"

text \<open>The frames above a subtree of height \<open>h\<close> are those of an AVL tree.\<close>

fun path_ok :: "int \<Rightarrow> 'p frame list \<Rightarrow> bool" where
  "path_ok h [] \<longleftrightarrow> True"
| "path_ok h (FL q k s # fs) \<longleftrightarrow> avl s \<and> h \<le> ptree_height s + 1 \<and> ptree_height s \<le> h + 1 \<and>
     k = max h (ptree_height s) + 1 \<and> path_ok k fs"
| "path_ok h (FR s q k # fs) \<longleftrightarrow> avl s \<and> h \<le> ptree_height s + 1 \<and> ptree_height s \<le> h + 1 \<and>
     k = max (ptree_height s) h + 1 \<and> path_ok k fs"

lemma avl_height_nonneg: "avl t \<Longrightarrow> 0 \<le> ptree_height t"
  by (induction t) auto

lemma avl_height_pos: "avl t \<Longrightarrow> 0 < ptree_height t \<longleftrightarrow> t \<noteq> Null"
  by (cases t) (auto dest: avl_height_nonneg)

lemma avl_plug_iff: "avl (plug t fs) \<Longrightarrow> avl t \<and> path_ok (ptree_height t) fs"
proof (induction fs arbitrary: t)
  case (Cons f fs)
  from Cons.IH [of "fill t f"] Cons.prems show ?case by (cases f) (auto simp: max.commute)
qed simp

lemma avl_plug: "avl t \<Longrightarrow> path_ok (ptree_height t) fs \<Longrightarrow> avl (plug t fs)"
proof (induction fs arbitrary: t)
  case (Cons f fs)
  then show ?case by (cases f) (auto simp: max.commute)
qed simp

text \<open>A child that has just grown is a fresh leaf or leans to one side.\<close>

fun lean :: "'p ptree \<Rightarrow> bool" where
  "lean Null \<longleftrightarrow> False"
| "lean (Node l p h r) \<longleftrightarrow> ptree_height l \<noteq> ptree_height r \<or> (l = Null \<and> r = Null)"

text \<open>The loop state of the insertion: \<open>e\<close>'s stored height is the one before a child grew.\<close>

fun grown :: "'p ptree \<Rightarrow> bool" where
  "grown Null \<longleftrightarrow> False"
| "grown (Node l p h r) \<longleftrightarrow> avl l \<and> avl r \<and>
    ((lean l \<and> h = max (ptree_height l - 1) (ptree_height r) + 1 \<and>
      ptree_height l - 1 \<le> ptree_height r + 1 \<and> ptree_height r \<le> ptree_height l) \<or>
     (lean r \<and> h = max (ptree_height l) (ptree_height r - 1) + 1 \<and>
      ptree_height r - 1 \<le> ptree_height l + 1 \<and> ptree_height l \<le> ptree_height r))"

lemma rotate_left_heavy_avl:
  assumes "avl l" "avl r" "ptree_height l - ptree_height r = 2"
  shows "avl (rotate_left_heavy (Node l p h r)) \<and>
         ptree_height (rotate_left_heavy (Node l p h r)) =
           (if lean l then ptree_height l else ptree_height l + 1)"
proof -
  have r0: "0 \<le> ptree_height r" using assms avl_height_nonneg by blast
  obtain a q k b where l: "l = Node a q k b"
    using assms r0 by (cases l) auto
  note pos = avl_height_nonneg [of a] avl_height_nonneg [of b]
  show ?thesis
  proof (cases "ptree_height b > ptree_height a")
    case True
    then obtain c u m d where b: "b = Node c u m d"
      using assms l pos by (cases b) auto
    then show ?thesis using True assms l pos
      by (auto simp: rotate_left_heavy.simps Let_def ptree_max_def max_def split: if_splits)
  next
    case False
    then show ?thesis using assms l pos r0
      by (auto simp: rotate_left_heavy.simps Let_def ptree_max_def max_def split: if_splits)
  qed
qed

lemma rotate_right_heavy_avl:
  assumes "avl l" "avl r" "ptree_height l - ptree_height r = - 2"
  shows "avl (rotate_right_heavy (Node l p h r)) \<and>
         ptree_height (rotate_right_heavy (Node l p h r)) =
           (if lean r then ptree_height r else ptree_height r + 1)"
proof -
  have l0: "0 \<le> ptree_height l" using assms avl_height_nonneg by blast
  obtain a q k b where r: "r = Node a q k b"
    using assms l0 by (cases r) auto
  note pos = avl_height_nonneg [of a] avl_height_nonneg [of b]
  show ?thesis
  proof (cases "ptree_height a > ptree_height b")
    case True
    then obtain c u m d where a: "a = Node c u m d"
      using assms r pos by (cases a) auto
    then show ?thesis using True assms r pos
      by (auto simp: rotate_right_heavy.simps Let_def ptree_max_def max_def split: if_splits)
  next
    case False
    then show ?thesis using assms r pos l0
      by (auto simp: rotate_right_heavy.simps Let_def ptree_max_def max_def split: if_splits)
  qed
qed

text \<open>The nodes that the loops rotate have the child that moves up.\<close>

lemma rotate_child_nonnull:
  "avl l \<Longrightarrow> avl r \<Longrightarrow> ptree_height l - ptree_height r = 2 \<Longrightarrow> l \<noteq> Null"
  "avl l \<Longrightarrow> avl r \<Longrightarrow> ptree_height l - ptree_height r = - 2 \<Longrightarrow> r \<noteq> Null"
  by (auto dest: avl_height_nonneg)

lemma go_up_rebalance_add_avl:
  "grown t \<Longrightarrow> path_ok (ptree_height t) fs \<Longrightarrow> avl (ptree_go_up_rebalance_add t fs)"
proof (induction fs arbitrary: t)
  case Nil
  then obtain l p h r where t: "t = Node l p h r" by (cases t) auto
  consider "ptree_height l = ptree_height r" | "ptree_height l = ptree_height r + 1"
    | "ptree_height l = ptree_height r - 1" | "ptree_height l - ptree_height r = 2"
    | "ptree_height l - ptree_height r = - 2"
    using Nil t by fastforce
  then show ?case using Nil t rotate_left_heavy_avl [of l r p h] rotate_right_heavy_avl [of l r p h]
    by cases (auto simp: ptree_go_up_rebalance_add.simps Let_def)
next
  case (Cons f fs)
  then obtain l p h r where t: "t = Node l p h r" by (cases t) auto
  let ?e = "Node l p (max (ptree_height l) (ptree_height r) + 1) r"
  consider "ptree_height l = ptree_height r" | "ptree_height l = ptree_height r + 1"
    | "ptree_height l = ptree_height r - 1" | "ptree_height l - ptree_height r = 2"
    | "ptree_height l - ptree_height r = - 2"
    using Cons t by fastforce
  then show ?case
  proof cases
    case 1
    with Cons.prems t avl_plug [of "Node l p h r" "f # fs"] show ?thesis
      by (auto simp: ptree_go_up_rebalance_add.simps Let_def)
  next
    case 2
    have "grown (fill ?e f)" "path_ok (ptree_height (fill ?e f)) fs"
      using 2 Cons.prems t by (cases f; auto)+
    from Cons.IH [OF this] 2 t show ?thesis
      by (simp add: ptree_go_up_rebalance_add.simps Let_def)
  next
    case 3
    have "grown (fill ?e f)" "path_ok (ptree_height (fill ?e f)) fs"
      using 3 Cons.prems t by (cases f; auto)+
    from Cons.IH [OF this] 3 t show ?thesis
      by (simp add: ptree_go_up_rebalance_add.simps Let_def)
  next
    case 4
    with Cons.prems t rotate_left_heavy_avl [of l r p h]
      avl_plug [of "rotate_left_heavy t" "f # fs"] show ?thesis
      by (auto simp: ptree_go_up_rebalance_add.simps Let_def)
  next
    case 5
    with Cons.prems t rotate_right_heavy_avl [of l r p h]
      avl_plug [of "rotate_right_heavy t" "f # fs"] show ?thesis
      by (auto simp: ptree_go_up_rebalance_add.simps Let_def)
  qed
qed

text \<open>The loop state of the deletion: a child of \<open>e\<close> shrank by one, or nothing changed below it.\<close>

fun shrunk :: "'p ptree \<Rightarrow> bool" where
  "shrunk Null \<longleftrightarrow> False"
| "shrunk (Node l p h r) \<longleftrightarrow> avl l \<and> avl r \<and>
    ((h = max (ptree_height l + 1) (ptree_height r) + 1 \<and>
      ptree_height l \<le> ptree_height r \<and> ptree_height r \<le> ptree_height l + 2) \<or>
     (h = max (ptree_height l) (ptree_height r + 1) + 1 \<and>
      ptree_height r \<le> ptree_height l \<and> ptree_height l \<le> ptree_height r + 2) \<or>
     avl (Node l p h r))"

lemma go_up_rebalance_del_avl:
  "shrunk t \<Longrightarrow> path_ok (ptree_height t) fs \<Longrightarrow> avl (ptree_go_up_rebalance_del t fs)"
proof (induction fs arbitrary: t)
  case Nil
  then obtain l p h r where t: "t = Node l p h r" by (cases t) auto
  consider "ptree_height l = ptree_height r" | "ptree_height l = ptree_height r + 1"
    | "ptree_height l = ptree_height r - 1" | "ptree_height l - ptree_height r = 2"
    | "ptree_height l - ptree_height r = - 2"
    using Nil t by fastforce
  then show ?case using Nil t rotate_left_heavy_avl [of l r p h] rotate_right_heavy_avl [of l r p h]
    by cases (auto simp: ptree_go_up_rebalance_del.simps Let_def)
next
  case (Cons f fs)
  then obtain l p h r where t: "t = Node l p h r" by (cases t) auto
  have up: "shrunk (fill e f) \<and> path_ok (ptree_height (fill e f)) fs"
    if "avl e" "ptree_height e = ptree_height t \<or> ptree_height e = ptree_height t - 1" for e
    using that Cons.prems by (cases f) (auto simp: max.commute)
  consider "ptree_height l = ptree_height r" | "ptree_height l = ptree_height r + 1"
    | "ptree_height l = ptree_height r - 1" | "ptree_height l - ptree_height r = 2"
    | "ptree_height l - ptree_height r = - 2"
    using Cons t by fastforce
  then show ?case
  proof cases
    case 1
    have "shrunk (fill (Node l p (ptree_height r + 1) r) f) \<and>
        path_ok (ptree_height (fill (Node l p (ptree_height r + 1) r) f)) fs"
      by (rule up) (use 1 Cons.prems t in auto)
    with Cons.IH 1 t show ?thesis by (simp add: ptree_go_up_rebalance_del.simps Let_def)
  next
    case 2
    with Cons.prems t avl_plug [of "Node l p h r" "f # fs"] show ?thesis
      by (auto simp: ptree_go_up_rebalance_del.simps Let_def)
  next
    case 3
    with Cons.prems t avl_plug [of "Node l p h r" "f # fs"] show ?thesis
      by (auto simp: ptree_go_up_rebalance_del.simps Let_def)
  next
    case 4
    have "shrunk (fill (rotate_left_heavy t) f) \<and> path_ok (ptree_height (fill (rotate_left_heavy t) f)) fs"
      by (rule up) (use 4 Cons.prems t rotate_left_heavy_avl [of l r p h] in \<open>auto split: if_splits\<close>)
    with Cons.IH 4 t show ?thesis by (simp add: ptree_go_up_rebalance_del.simps Let_def)
  next
    case 5
    have "shrunk (fill (rotate_right_heavy t) f) \<and> path_ok (ptree_height (fill (rotate_right_heavy t) f)) fs"
      by (rule up) (use 5 Cons.prems t rotate_right_heavy_avl [of l r p h] in \<open>auto split: if_splits\<close>)
    with Cons.IH 5 t show ?thesis by (simp add: ptree_go_up_rebalance_del.simps Let_def)
  qed
qed

lemma avl_locate:
  assumes "avl t" "locate p t [] = Some (u, fs)"
  shows "avl u \<and> path_ok (ptree_height u) fs"
  using locate_Some [OF assms(2)] assms(1) avl_plug_iff [of u fs] by auto

lemma path_ok_append: "path_ok h (fs @ gs) \<Longrightarrow> path_ok h fs"
  by (induction h fs rule: path_ok.induct) auto

lemma avl_plug_path:
  "avl (plug u ds) \<Longrightarrow> path_ok (ptree_height (plug u ds)) fs \<Longrightarrow> path_ok (ptree_height u) (ds @ fs)"
  using avl_plug_iff [of u "ds @ fs"] avl_plug [of "plug u ds" fs] by (simp add: plug_append)

lemma avl_init_node [simp]:
  "avl (ptree_init_node n)" "ptree_height (ptree_init_node n) = 1" "lean (ptree_init_node n)"
  by (auto simp: ptree_init_node_def)

lemma avl_add_after_node:
  assumes "avl t"
  shows "avl (add_after_node t p n)"
proof (cases "locate p t []")
  case (Some z)
  then obtain l h r fs where lo: "locate p t [] = Some (Node l p h r, fs)"
    using locate_Some [of p t "[]"] by (cases z) fastforce
  note ok = avl_locate [OF assms lo]
  show ?thesis
  proof (cases "r = Null")
    case True
    then have "grown (Node l p h (ptree_init_node n))"
      using ok avl_height_nonneg [of l] by (auto simp: ptree_init_node_def)
    then show ?thesis using True lo ok
      by (auto simp: add_after_node_def intro!: go_up_rebalance_add_avl)
  next
    case False
    then obtain q k s ds where d: "\<And>fs. down_left r fs = (Node Null q k s, ds @ fs)"
      "plug (Node Null q k s) ds = r" by (rule down_left_cases) blast
    have a: "avl (plug (Node Null q k s) (ds @ FR l p h # fs))"
      using locate_Some [OF lo] assms d(2) by (simp add: plug_append)
    from avl_plug_iff [OF this] have "grown (Node (ptree_init_node n) q k s)"
      "path_ok k (ds @ FR l p h # fs)" by (auto dest: avl_height_nonneg simp: ptree_init_node_def)
    then show ?thesis using False lo d(1)
      by (auto simp: add_after_node_def intro!: go_up_rebalance_add_avl)
  qed
qed (use assms in \<open>simp add: add_after_node_def\<close>)

lemma avl_add_before_node:
  assumes "avl t"
  shows "avl (add_before_node t p n)"
proof (cases "locate p t []")
  case (Some z)
  then obtain l h r fs where lo: "locate p t [] = Some (Node l p h r, fs)"
    using locate_Some [of p t "[]"] by (cases z) fastforce
  note ok = avl_locate [OF assms lo]
  show ?thesis
  proof (cases "l = Null")
    case True
    then have "grown (Node (ptree_init_node n) p h r)"
      using ok avl_height_nonneg [of r] by (auto simp: ptree_init_node_def)
    then show ?thesis using True lo ok
      by (auto simp: add_before_node_def intro!: go_up_rebalance_add_avl)
  next
    case False
    then obtain q k s ds where d: "\<And>fs. down_right l fs = (Node s q k Null, ds @ fs)"
      "plug (Node s q k Null) ds = l" by (rule down_right_cases) blast
    have a: "avl (plug (Node s q k Null) (ds @ FL p h r # fs))"
      using locate_Some [OF lo] assms d(2) by (simp add: plug_append)
    from avl_plug_iff [OF this] have "grown (Node s q k (ptree_init_node n))"
      "path_ok k (ds @ FL p h r # fs)" by (auto dest: avl_height_nonneg simp: ptree_init_node_def)
    then show ?thesis using False lo d(1)
      by (auto simp: add_before_node_def intro!: go_up_rebalance_add_avl)
  qed
qed (use assms in \<open>simp add: add_before_node_def\<close>)

lemma shrunk_fill:
  assumes "path_ok h (f # fs)" "avl u" "ptree_height u = h - 1 \<or> ptree_height u = h"
  shows "shrunk (fill u f) \<and> path_ok (ptree_height (fill u f)) fs"
  using assms by (cases f) (auto simp: max.commute)

lemma avl_replace_me_with:
  assumes "path_ok h fs" "avl u" "ptree_height u = h - 1"
  shows "avl (ptree_replace_me_with fs u)"
proof (cases fs)
  case Nil
  have "shrunk u" if "u \<noteq> Null" using assms(2) that by (cases u) auto
  then show ?thesis using Nil go_up_rebalance_del_avl [of u "[]"]
    by (simp add: ptree_replace_me_with_def)
next
  case (Cons f gs)
  with assms shrunk_fill [of h f gs u] show ?thesis
    by (simp add: ptree_replace_me_with_def go_up_rebalance_del_avl)
qed

lemma path_ok_rename:
  "path_ok k (ds @ FL p h r # fs) \<longleftrightarrow> path_ok k (ds @ FL q h r # fs)"
  "path_ok k (ds @ FR l p h # fs) \<longleftrightarrow> path_ok k (ds @ FR l q h # fs)"
  by (induction k ds rule: path_ok.induct) auto

lemma avl_del_take_left:
  assumes "avl (plug (Node l p h r) fs)" "l \<noteq> Null"
  shows "avl (del_take_left l h r fs)"
proof -
  obtain a el k ds where d: "\<And>fs. down_right l fs = (Node a el k Null, ds @ fs)"
    "plug (Node a el k Null) ds = l" using assms(2) by (rule down_right_cases) blast
  have "avl (plug (Node a el k Null) (ds @ FL p h r # fs))"
    using assms(1) d(2) by (simp add: plug_append)
  from avl_plug_iff [OF this]
  have a: "avl a" "ptree_height a = k - 1" and pk: "path_ok k (ds @ FL el h r # fs)"
    using path_ok_rename(1) [of k ds p h r fs el] by (auto dest: avl_height_nonneg)
  show ?thesis
  proof (cases ds)
    case Nil
    then have "shrunk (Node a el h r) \<and> path_ok h fs" using a pk by (auto simp: max.commute)
    then show ?thesis using Nil d(1) go_up_rebalance_del_avl [of "Node a el h r" fs]
      by (simp add: del_take_left_def del: shrunk.simps)
  next
    case (Cons f rest)
    then show ?thesis using shrunk_fill [of k f "rest @ FL el h r # fs" a] a pk d(1)
      by (simp add: del_take_left_def go_up_rebalance_del_avl)
  qed
qed

lemma avl_del_take_right:
  assumes "avl (plug (Node l p h r) fs)" "r \<noteq> Null"
  shows "avl (del_take_right l h r fs)"
proof -
  obtain b el k ds where d: "\<And>fs. down_left r fs = (Node Null el k b, ds @ fs)"
    "plug (Node Null el k b) ds = r" using assms(2) by (rule down_left_cases) blast
  have "avl (plug (Node Null el k b) (ds @ FR l p h # fs))"
    using assms(1) d(2) by (simp add: plug_append)
  from avl_plug_iff [OF this]
  have a: "avl b" "ptree_height b = k - 1" and pk: "path_ok k (ds @ FR l el h # fs)"
    using path_ok_rename(2) [of k ds l p h fs el] by (auto dest: avl_height_nonneg)
  show ?thesis
  proof (cases ds)
    case Nil
    then have "shrunk (Node l el h b) \<and> path_ok h fs" using a pk by (auto simp: max.commute)
    then show ?thesis using Nil d(1) go_up_rebalance_del_avl [of "Node l el h b" fs]
      by (simp add: del_take_right_def del: shrunk.simps)
  next
    case (Cons f rest)
    then show ?thesis using shrunk_fill [of k f "rest @ FR l el h # fs" b] a pk d(1)
      by (simp add: del_take_right_def go_up_rebalance_del_avl)
  qed
qed

lemma avl_get_del:
  assumes "avl t"
  shows "avl (ptree_get_del t p)"
proof (cases "locate p t []")
  case (Some z)
  then obtain l h r fs where lo: "locate p t [] = Some (Node l p h r, fs)"
    using locate_Some [of p t "[]"] by (cases z) fastforce
  have pl: "avl (plug (Node l p h r) fs)" using locate_Some [OF lo] assms by simp
  from avl_plug_iff [OF pl] have ok: "avl (Node l p h r)" "path_ok h fs" by auto
  have one: "avl (ptree_replace_me_with fs r)" if "l = Null"
    using that ok by (intro avl_replace_me_with [of h]) (auto dest: avl_height_nonneg)
  have two: "avl (ptree_replace_me_with fs l)" if "r = Null"
    using that ok by (intro avl_replace_me_with [of h]) (auto dest: avl_height_nonneg)
  show ?thesis
    using lo pl one two by (auto simp: ptree_get_del_def avl_del_take_left avl_del_take_right)
qed (use assms in \<open>simp add: ptree_get_del_def\<close>)

subsection \<open>The ordered index as an interface\<close>

text \<open>
  What the clients of the tree rely on: a sequence of nodes, insertion next to a node,
  removal, and stepping to the neighbours. \<open>ok\<close> is the representation invariant.
\<close>

locale ordered_index =
  fixes nodes :: "'t \<Rightarrow> 'p list"
    and ok :: "'t \<Rightarrow> bool"
    and after :: "'t \<Rightarrow> 'p \<Rightarrow> 'p \<Rightarrow> 't"
    and before :: "'t \<Rightarrow> 'p \<Rightarrow> 'p \<Rightarrow> 't"
    and del :: "'t \<Rightarrow> 'p \<Rightarrow> 't"
    and nxt :: "'t \<Rightarrow> 'p \<Rightarrow> 'p option"
    and prv :: "'t \<Rightarrow> 'p \<Rightarrow> 'p option"
  assumes ok_distinct: "ok t \<Longrightarrow> distinct (nodes t)"
    and nodes_after: "ok t \<Longrightarrow> nodes t = xs @ p # ys \<Longrightarrow> nodes (after t p n) = xs @ p # n # ys"
    and nodes_before: "ok t \<Longrightarrow> nodes t = xs @ p # ys \<Longrightarrow> nodes (before t p n) = xs @ n # p # ys"
    and nodes_del: "ok t \<Longrightarrow> nodes t = xs @ p # ys \<Longrightarrow> nodes (del t p) = xs @ ys"
    and ok_after: "ok t \<Longrightarrow> p \<in> set (nodes t) \<Longrightarrow> n \<notin> set (nodes t) \<Longrightarrow> ok (after t p n)"
    and ok_before: "ok t \<Longrightarrow> p \<in> set (nodes t) \<Longrightarrow> n \<notin> set (nodes t) \<Longrightarrow> ok (before t p n)"
    and ok_del: "ok t \<Longrightarrow> p \<in> set (nodes t) \<Longrightarrow> ok (del t p)"
    and nxt_node: "ok t \<Longrightarrow> nodes t = xs @ p # ys \<Longrightarrow> nxt t p = (if ys = [] then None else Some (hd ys))"
    and prv_node: "ok t \<Longrightarrow> nodes t = xs @ p # ys \<Longrightarrow> prv t p = (if xs = [] then None else Some (last xs))"
begin

lemma nxt_SomeD:
  assumes "ok t" "nodes t = xs @ p # ys" "nxt t p = Some q"
  obtains zs where "ys = q # zs"
  using nxt_node [OF assms(1,2)] assms(3) by (cases ys) auto

lemma nxt_NoneD: "ok t \<Longrightarrow> nodes t = xs @ p # ys \<Longrightarrow> nxt t p = None \<Longrightarrow> ys = []"
  using nxt_node by (cases ys) fastforce+

lemma prv_SomeD:
  assumes "ok t" "nodes t = xs @ p # ys" "prv t p = Some q"
  obtains zs where "xs = zs @ [q]"
  using prv_node [OF assms(1,2)] assms(3) by (metis append_butlast_last_id option.distinct(1) option.sel)

lemma set_del: "ok t \<Longrightarrow> p \<in> set (nodes t) \<Longrightarrow> set (nodes (del t p)) = set (nodes t) - {p}"
  using nodes_del ok_distinct by (fastforce dest: split_list)

lemma set_after: "ok t \<Longrightarrow> p \<in> set (nodes t) \<Longrightarrow> set (nodes (after t p n)) = insert n (set (nodes t))"
  using nodes_after by (fastforce dest: split_list)

lemma del_after:
  assumes "ok t" "p \<in> set (nodes t)" "n \<notin> set (nodes t)"
  shows "nodes (del (after t p n) n) = nodes t"
proof -
  obtain xs ys where t: "nodes t = xs @ p # ys" using assms(2) by (auto dest: split_list)
  have "nodes (after t p n) = (xs @ [p]) @ n # ys" using nodes_after [OF assms(1) t] by simp
  then have "nodes (del (after t p n) n) = (xs @ [p]) @ ys"
    by (rule nodes_del [OF ok_after [OF assms]])
  with t show ?thesis by simp
qed

end

definition index_ok :: "'p ptree \<Rightarrow> bool" where
  "index_ok t \<longleftrightarrow> avl t \<and> distinct (inorder t)"

lemma add_after_Some: "t \<noteq> Null \<Longrightarrow> ptree_get_add_after t (Some p) n = add_after_node t p n"
  by (simp add: ptree_get_add_after_def)

lemma add_before_Some: "t \<noteq> Null \<Longrightarrow> ptree_get_add_before t (Some p) n = add_before_node t p n"
  by (simp add: ptree_get_add_before_def)

lemma avl_get_add_after: "avl t \<Longrightarrow> avl (ptree_get_add_after t p n)"
  by (auto simp: ptree_get_add_after_def avl_add_after_node avl_add_before_node split: option.splits)

lemma avl_get_add_before: "avl t \<Longrightarrow> avl (ptree_get_add_before t p n)"
  by (auto simp: ptree_get_add_before_def avl_add_after_node avl_add_before_node split: option.splits)

lemma inorder_get_add_after:
  "distinct (inorder t) \<Longrightarrow> inorder t = xs @ p # ys \<Longrightarrow>
   inorder (ptree_get_add_after t (Some p) n) = xs @ p # n # ys"
  by (cases "t = Null") (auto simp: add_after_Some inorder_add_after_node)

lemma inorder_get_add_before:
  "distinct (inorder t) \<Longrightarrow> inorder t = xs @ p # ys \<Longrightarrow>
   inorder (ptree_get_add_before t (Some p) n) = xs @ n # p # ys"
  by (cases "t = Null") (auto simp: add_before_Some inorder_add_before_node)

interpretation pt: ordered_index inorder index_ok
  "\<lambda>t p n. ptree_get_add_after t (Some p) n" "\<lambda>t p n. ptree_get_add_before t (Some p) n"
  ptree_get_del ptree_get_next ptree_get_prev
proof (unfold_locales, goal_cases)
  case (2 t xs p ys n)
  then show ?case by (simp add: index_ok_def inorder_get_add_after)
next
  case (3 t xs p ys n)
  then show ?case by (simp add: index_ok_def inorder_get_add_before)
next
  case (4 t xs p ys)
  then show ?case by (simp add: index_ok_def inorder_get_del)
next
  case (5 t p n)
  then obtain xs ys where "inorder t = xs @ p # ys" by (auto dest: split_list)
  with 5 inorder_get_add_after [of t xs p ys n] show ?case
    by (auto simp: index_ok_def avl_get_add_after)
next
  case (6 t p n)
  then obtain xs ys where "inorder t = xs @ p # ys" by (auto dest: split_list)
  with 6 inorder_get_add_before [of t xs p ys n] show ?case
    by (auto simp: index_ok_def avl_get_add_before)
next
  case (7 t p)
  then obtain xs ys where "inorder t = xs @ p # ys" by (auto dest: split_list)
  with 7 inorder_get_del [of t xs p ys] show ?case
    by (auto simp: index_ok_def avl_get_del)
next
  case (8 t xs p ys)
  then show ?case by (simp add: index_ok_def get_next_inorder)
next
  case (9 t xs p ys)
  then show ?case by (simp add: index_ok_def get_prev_inorder)
qed (simp add: index_ok_def)

subsection \<open>Ordered insertion\<close>

lemma add_search_inorder:
  assumes "distinct (inorder tree)" "inorder tree = bs @ inorder t @ as" "t \<noteq> Null"
    and "inorder t = xs @ ys" "\<forall>x\<in>set xs. \<not> cmp n x < 0" "\<forall>y\<in>set ys. cmp n y < 0"
  shows "inorder (add_search cmp tree n t) = bs @ xs @ n # ys @ as"
  using assms(2-)
proof (induction t arbitrary: bs as xs ys)
  case (Node l el h r)
  show ?case
  proof (cases "cmp n el < 0")
    case True
    then have "el \<in> set ys" using Node.prems(3-5) by (metis Un_iff inorder.simps(2) list.set_intros(1)
          in_set_conv_decomp set_append)
    then obtain zs where zs: "ys = zs @ el # inorder r" "inorder l = xs @ zs"
      using Node.prems(2-5) True assms(1)
      by (auto simp: append_eq_append_conv2 Cons_eq_append_conv)
    show ?thesis
    proof (cases "l = Null")
      case True
      with zs Node.prems \<open>cmp n el < 0\<close> assms(1)
        inorder_get_add_before [of tree "bs" el "inorder r @ as" n]
      show ?thesis by simp
    next
      case False
      with zs Node.prems \<open>cmp n el < 0\<close> Node.IH(1) [of bs "el # inorder r @ as" xs zs]
      show ?thesis by simp
    qed
  next
    case False
    then have "el \<in> set xs" using Node.prems(3-5) by (metis Un_iff inorder.simps(2) list.set_intros(1)
          in_set_conv_decomp set_append)
    then obtain zs where zs: "xs = inorder l @ el # zs" "inorder r = zs @ ys"
      using Node.prems(2-5) False assms(1)
      by (auto simp: append_eq_append_conv2 Cons_eq_append_conv)
    show ?thesis
    proof (cases "r = Null")
      case True
      with zs Node.prems False assms(1)
        inorder_get_add_after [of tree "bs @ inorder l" el as n]
      show ?thesis by simp
    next
      case False
      with zs Node.prems \<open>\<not> cmp n el < 0\<close> Node.IH(2) [of "bs @ inorder l @ [el]" as zs ys]
      show ?thesis by simp
    qed
  qed
qed simp

lemma avl_get_add: "avl t \<Longrightarrow> avl (ptree_get_add cmp t n)"
proof -
  assume t: "avl t"
  have "avl (add_search cmp t n u)" for u
    by (induction u) (auto simp: t avl_get_add_after avl_get_add_before)
  with t show ?thesis by (simp add: ptree_get_add_def avl_get_add_after)
qed

subsection \<open>The freeing traversal\<close>

fun postorder :: "'p ptree \<Rightarrow> 'p list" where
  "postorder Null = []"
| "postorder (Node l p h r) = postorder l @ postorder r @ [p]"

lemma set_postorder [simp]: "set (postorder t) = set (inorder t)"
  by (induction t) auto

lemma postorder_Null_iff [simp]: "postorder t = [] \<longleftrightarrow> t = Null"
  by (cases t) auto

fun post_before :: "'p frame list \<Rightarrow> 'p list" where
  "post_before [] = []"
| "post_before (FL q h r # fs) = post_before fs"
| "post_before (FR l q h # fs) = post_before fs @ postorder l"

fun post_after :: "'p frame list \<Rightarrow> 'p list" where
  "post_after [] = []"
| "post_after (FL q h r # fs) = postorder r @ q # post_after fs"
| "post_after (FR l q h # fs) = q # post_after fs"

lemma postorder_plug: "postorder (plug t fs) = post_before fs @ postorder t @ post_after fs"
proof (induction fs arbitrary: t)
  case (Cons f fs)
  then show ?case by (cases f) auto
qed simp

lemma down_safe_first:
  "t \<noteq> Null \<Longrightarrow> node_ptr (fst (down_safe t fs)) = Some (hd (postorder t))"
proof (induction t arbitrary: fs)
  case (Node l p h r)
  then show ?case by (cases "l = Null") (auto simp: hd_append)
qed simp

lemma next_safe_postorder:
  assumes "distinct (postorder t)" "postorder t = xs @ p # ys"
  shows "ptree_get_next_safe t p = (if ys = [] then None else Some (hd ys))"
proof -
  have "p \<in> set (inorder t)" using assms(2) set_postorder [of t] by auto
  then obtain l h r fs where lo: "locate p t [] = Some (Node l p h r, fs)"
    and pl: "plug (Node l p h r) fs = t" by (rule locate_cases)
  have eq: "postorder t = (post_before fs @ postorder l @ postorder r) @ p # post_after fs"
    unfolding pl [symmetric] by (simp add: postorder_plug)
  have "post_before fs @ postorder l @ postorder r = xs \<and> post_after fs = ys"
    by (rule distinct_split_unique [of _ p]) (use assms eq in auto)
  then have "ys = post_after fs" by simp
  then show ?thesis using lo
    by (cases fs rule: post_after.cases) (auto simp: ptree_get_next_safe_def down_safe_first hd_append)
qed

subsection \<open>Logarithmic height\<close>

lemma avl_size_bound_aux:
  "avl t \<Longrightarrow> 2 ^ nat (ptree_height t) \<le> (Suc (length (inorder t)))\<^sup>2"
proof (induction t)
  case (Node l p h r)
  let ?L = "Suc (length (inorder l))" and ?R = "Suc (length (inorder r))"
  have hl: "0 \<le> ptree_height l" "0 \<le> ptree_height r" using Node.prems avl_height_nonneg by auto
  have IH: "2 ^ nat (ptree_height l) \<le> ?L\<^sup>2" "2 ^ nat (ptree_height r) \<le> ?R\<^sup>2"
    using Node by auto
  let ?m = "nat (min (ptree_height l) (ptree_height r))"
  let ?M = "nat (max (ptree_height l) (ptree_height r))"
  have mM: "?M \<le> Suc ?m" using Node.prems by auto
  have "(2::nat) ^ Suc ?M \<le> (?L + ?R)\<^sup>2"
  proof -
    have two: "(2::nat) ^ ?M \<le> 2 * 2 ^ ?m" using mM by (metis power_Suc power_increasing one_le_numeral)
    have lo: "(2::nat) ^ ?m \<le> ?L\<^sup>2" "(2::nat) ^ ?m \<le> ?R\<^sup>2"
      using order_trans [OF power_increasing [of ?m "nat (ptree_height l)" "2::nat"] IH(1)]
        order_trans [OF power_increasing [of ?m "nat (ptree_height r)" "2::nat"] IH(2)]
      by (auto simp: min_def)
    have "(2::nat) ^ ?m * 2 ^ ?m \<le> ?L\<^sup>2 * ?R\<^sup>2" using lo by (rule mult_le_mono)
    then have "((2::nat) ^ ?m)\<^sup>2 \<le> (?L * ?R)\<^sup>2"
      by (simp only: power_mult_distrib) (simp only: power2_eq_square)
    then have prod: "(2::nat) ^ ?m \<le> ?L * ?R" by (rule power2_le_imp_le) simp
    have "(2::nat) ^ ?M \<le> ?L\<^sup>2 \<or> (2::nat) ^ ?M \<le> ?R\<^sup>2" using IH by (auto simp: max_def)
    moreover have "(2::nat) ^ ?M \<le> 2 * (?L * ?R)" using two prod by linarith
    moreover have "(?L + ?R)\<^sup>2 = ?L\<^sup>2 + ?R\<^sup>2 + 2 * (?L * ?R)" by (simp only: power2_sum mult.assoc)
    ultimately show ?thesis by auto
  qed
  moreover have "nat h = Suc ?M" using Node.prems hl by (auto simp: max_def)
  ultimately show ?case by (simp add: algebra_simps)
qed simp

subsection \<open>Properties\<close>

definition tree3 :: "nat ptree" where
  "tree3 = ptree_get_add_after (ptree_get_add_before (ptree_init_node 5) (Some 5) 2) (Some 5) 9"

lemma tree3_eval: "tree3 = Node (Node Null 2 1 Null) 5 2 (Node Null 9 1 Null)"
  by (simp add: tree3_def ptree_get_add_after_def ptree_get_add_before_def add_after_node_def
      add_before_node_def ptree_init_node_def ptree_go_up_rebalance_add.simps)

text \<open>C10. \<open>ptree_get_add_after\<close> puts the new node directly behind the given node in the
  in-order sequence, moves no other node, and returns a tree whose stored heights are exact and
  whose siblings differ in height by at most one.\<close>

theorem add_after_correct:
  assumes "avl t" "distinct (inorder t)" "inorder t = xs @ p # ys"
  shows "inorder (ptree_get_add_after t (Some p) n) = xs @ p # n # ys \<and>
         avl (ptree_get_add_after t (Some p) n)"
  using assms by (simp add: inorder_get_add_after avl_get_add_after)

theorem add_after_correct_witness:
  "inorder (ptree_get_add_after tree3 (Some 2) 3) = [2, 3, 5, 9] \<and>
   avl (ptree_get_add_after tree3 (Some 2) 3)"
  using add_after_correct [of tree3 "[]" 2 "[5, 9]" 3] by (simp add: tree3_eval)

text \<open>C9. \<open>ptree_get_del\<close> removes exactly the given node from the in-order sequence and keeps
  the tree balanced, whichever of the four cases (no child, one child, either neighbour taken
  from a subtree) applies.\<close>

theorem del_correct:
  assumes "avl t" "distinct (inorder t)" "inorder t = xs @ p # ys"
  shows "inorder (ptree_get_del t p) = xs @ ys \<and> avl (ptree_get_del t p)"
  using assms by (simp add: inorder_get_del avl_get_del)

theorem del_correct_witness:
  "inorder (ptree_get_del tree3 5) = [2, 9] \<and> avl (ptree_get_del tree3 5)"
  using del_correct [of tree3 "[2]" 5 "[9]"] by (simp add: tree3_eval)

text \<open>\<open>ptree_get_add\<close> with a comparison that splits the sequence into elements not above
  and elements above the new node inserts it at that border (so behind equal elements) and keeps
  the tree balanced.\<close>

theorem get_add_sorted:
  assumes "avl t" "distinct (inorder t)" "inorder t = xs @ ys"
    and "\<forall>x\<in>set xs. \<not> cmp n x < 0" "\<forall>y\<in>set ys. cmp n y < 0"
  shows "inorder (ptree_get_add cmp t n) = xs @ n # ys \<and> avl (ptree_get_add cmp t n)"
proof (cases "t = Null")
  case True
  with assms show ?thesis
    by (simp add: ptree_get_add_def ptree_get_add_after_def inorder_init_node)
next
  case False
  then show ?thesis
    using add_search_inorder [of t "[]" t "[]" xs ys cmp n] assms avl_get_add [of t cmp n]
    by (simp add: ptree_get_add_def)
qed

theorem get_add_sorted_witness:
  "inorder (ptree_get_add (\<lambda>a b. int a - int b) tree3 7) = [2, 5, 7, 9] \<and>
   avl (ptree_get_add (\<lambda>a b. int a - int b) tree3 7)"
  using get_add_sorted [of tree3 "[2, 5]" "[9]" "\<lambda>a b. int a - int b" 7] by (simp add: tree3_eval)

text \<open>The freeing traversal \<open>ptree_for_each_element_call_safe\<close> walks the tree in post-order:
  it starts at the first node of the post-order sequence and steps to the successor in it, so a
  node is handed to the callback only after all its descendants, and the walk ends at the root.\<close>

theorem safe_traversal_postorder:
  assumes "distinct (inorder t)" "postorder t = xs @ p # ys"
  shows "ptree_get_first_safe t = Some (hd (postorder t)) \<and>
         ptree_get_next_safe t p = (if ys = [] then None else Some (hd ys))"
proof -
  have "t \<noteq> Null" using assms(2) by auto
  moreover have "distinct (postorder t)"
    using assms(1) by (induction t) auto
  ultimately show ?thesis
    using assms(2) by (simp add: ptree_get_first_safe_def down_safe_first next_safe_postorder)
qed

theorem safe_traversal_postorder_witness:
  "ptree_get_first_safe tree3 = Some 2 \<and> ptree_get_next_safe tree3 2 = Some 9"
  using safe_traversal_postorder [of tree3 "[]" 2 "[9, 5]"] by (simp add: tree3_eval)

text \<open>The height field of the root, which bounds every search loop over the tree, is at most
  twice the binary logarithm of the number of nodes plus one.\<close>

theorem avl_height_bound:
  assumes "avl t"
  shows "2 ^ nat (ptree_height t) \<le> (length (inorder t) + 1)\<^sup>2"
  using avl_size_bound_aux [OF assms] by simp

theorem avl_height_bound_witness:
  "2 ^ nat (ptree_height tree3) \<le> (length (inorder tree3) + 1)\<^sup>2 \<and> ptree_height tree3 = 2"
  using avl_height_bound [of tree3] by (simp add: tree3_eval)

end
