(* ===== verification/PIntervalTree.thy ===== *)
theory PIntervalTree
  imports PTree
begin

text \<open>
  \<open>pclsync/pintervaltree.c\<close> and \<open>pintervaltree.h\<close>: sets of byte ranges \<open>[from, to)\<close>, kept as
  disjoint, non-touching intervals in an AVL tree ordered by position.

  The state is the tree of node addresses with a store of the two \<open>uint64_t\<close> fields of each
  node. The operations that allocate take the address \<open>malloc\<close> returns as an argument. The
  loops are \<open>partial_function (option)\<close>: \<open>None\<close> would be a loop that never ends, and the
  theorems show that every loop returns.
\<close>

record 'p interval_tree =
  root :: "'p ptree"
  from_of :: "'p \<Rightarrow> u64"
  to_of :: "'p \<Rightarrow> u64"

definition set_from :: "'p \<Rightarrow> u64 \<Rightarrow> 'p interval_tree \<Rightarrow> 'p interval_tree" where
  "set_from p v T = T\<lparr>from_of := (from_of T)(p := v)\<rparr>"

definition set_to :: "'p \<Rightarrow> u64 \<Rightarrow> 'p interval_tree \<Rightarrow> 'p interval_tree" where
  "set_to p v T = T\<lparr>to_of := (to_of T)(p := v)\<rparr>"

definition psync_interval_new :: "'p \<Rightarrow> u64 \<Rightarrow> u64 \<Rightarrow> 'p interval_tree \<Rightarrow> 'p interval_tree" where
  "psync_interval_new new from to T = set_to new to (set_from new from T)"

definition psync_interval_tree_new :: "'p \<Rightarrow> u64 \<Rightarrow> u64 \<Rightarrow> 'p interval_tree \<Rightarrow> 'p interval_tree" where
  "psync_interval_tree_new new from to T =
     (psync_interval_new new from to T)\<lparr>root := ptree_get_add_after Null None new\<rparr>"

definition psync_interval_tree_get_next :: "'p interval_tree \<Rightarrow> 'p \<Rightarrow> 'p option" where
  "psync_interval_tree_get_next T p = ptree_get_next (root T) p"

definition psync_interval_tree_del :: "'p interval_tree \<Rightarrow> 'p \<Rightarrow> 'p interval_tree" where
  "psync_interval_tree_del T p = T\<lparr>root := ptree_get_del (root T) p\<rparr>"

subsection \<open>Adding a range\<close>

text \<open>Swallow the intervals after \<open>e\<close> that its new end has reached.\<close>

partial_function (option) psync_interval_tree_consume_intervals ::
    "'p interval_tree \<Rightarrow> 'p \<Rightarrow> 'p interval_tree option" where
  "psync_interval_tree_consume_intervals T e =
     (case psync_interval_tree_get_next T e of
        None \<Rightarrow> Some T
      | Some nx \<Rightarrow>
          (if from_of T nx > to_of T e then Some T
           else
             (let T1 = psync_interval_tree_del T nx in
              if to_of T nx \<ge> to_of T e then Some (set_to e (to_of T nx) T1)
              else psync_interval_tree_consume_intervals T1 e)))"

fun interval_add_descend ::
    "'p interval_tree \<Rightarrow> u64 \<Rightarrow> u64 \<Rightarrow> 'p \<Rightarrow> 'p ptree \<Rightarrow> 'p interval_tree option" where
  "interval_add_descend T from to new (Node l e h r) =
     (if from_of T e \<le> from \<and> to_of T e \<ge> from then
        (if to_of T e \<ge> to then Some T
         else psync_interval_tree_consume_intervals (set_to e to T) e)
      else if from_of T e > from then
        (if l \<noteq> Null then interval_add_descend T from to new l
         else if from_of T e \<le> to \<and> to_of T e \<ge> to then Some (set_from e from T)
         else psync_interval_tree_consume_intervals
                ((psync_interval_new new from to T)
                   \<lparr>root := ptree_get_add_before (root T) (Some e) new\<rparr>) new)
      else
        (if r \<noteq> Null then interval_add_descend T from to new r
         else psync_interval_tree_consume_intervals
                ((psync_interval_new new from to T)
                   \<lparr>root := ptree_get_add_after (root T) (Some e) new\<rparr>) new))"
| "interval_add_descend T from to new Null = Some T"

definition psync_interval_tree_add ::
    "'p interval_tree \<Rightarrow> u64 \<Rightarrow> u64 \<Rightarrow> 'p \<Rightarrow> 'p interval_tree option" where
  "psync_interval_tree_add T from to new =
     (if root T = Null then Some (psync_interval_tree_new new from to T)
      else interval_add_descend T from to new (root T))"

subsection \<open>Removing a range\<close>

fun first_containing_descend :: "'p interval_tree \<Rightarrow> u64 \<Rightarrow> 'p ptree \<Rightarrow> 'p option" where
  "first_containing_descend T point (Node l e h r) =
     (if point \<ge> to_of T e then
        (if r \<noteq> Null then first_containing_descend T point r
         else psync_interval_tree_get_next T e)
      else if point \<ge> from_of T e \<or> l = Null then Some e
      else first_containing_descend T point l)"
| "first_containing_descend T point Null = None"

definition psync_interval_tree_first_interval_containing_or_after ::
    "'p interval_tree \<Rightarrow> u64 \<Rightarrow> 'p option" where
  "psync_interval_tree_first_interval_containing_or_after T point =
     first_containing_descend T point (root T)"

partial_function (option) interval_remove_loop ::
    "u64 \<Rightarrow> u64 \<Rightarrow> 'p \<Rightarrow> 'p interval_tree \<Rightarrow> 'p option \<Rightarrow> 'p interval_tree option" where
  "interval_remove_loop from to new T tro =
     (case tro of
        None \<Rightarrow> Some T
      | Some tr \<Rightarrow>
          (if from_of T tr < from \<and> to_of T tr > to then
             Some (set_to tr from
                    ((psync_interval_new new to (to_of T tr) T)
                       \<lparr>root := ptree_get_add_after (root T) (Some tr) new\<rparr>))
           else
             (let ntr = psync_interval_tree_get_next T tr in
              if from \<le> from_of T tr \<and> from_of T tr < to then
                (let T1 = set_from tr to T in
                 interval_remove_loop from to new
                   (if from_of T1 tr \<ge> to_of T1 tr then psync_interval_tree_del T1 tr else T1) ntr)
              else if from_of T tr < from then
                interval_remove_loop from to new (set_to tr from T) ntr
              else Some T)))"

definition psync_interval_tree_remove ::
    "'p interval_tree \<Rightarrow> u64 \<Rightarrow> u64 \<Rightarrow> 'p \<Rightarrow> 'p interval_tree option" where
  "psync_interval_tree_remove T from to new =
     interval_remove_loop from to new T
       (psync_interval_tree_first_interval_containing_or_after T from)"

partial_function (option) interval_cut_loop ::
    "u64 \<Rightarrow> 'p interval_tree \<Rightarrow> 'p option \<Rightarrow> 'p interval_tree option" where
  "interval_cut_loop end T lasto =
     (case lasto of
        None \<Rightarrow> Some T
      | Some la \<Rightarrow>
          (if to_of T la > end then
             (if from_of T la < end then Some (set_to la end T)
              else interval_cut_loop end (psync_interval_tree_del T la)
                     (ptree_get_prev (root T) la))
           else Some T))"

definition psync_interval_tree_cut_end ::
    "'p interval_tree \<Rightarrow> u64 \<Rightarrow> 'p interval_tree option" where
  "psync_interval_tree_cut_end T end = interval_cut_loop end T (ptree_get_last (root T))"

subsection \<open>Abstraction and invariant\<close>

definition gap :: "'p interval_tree \<Rightarrow> 'p \<Rightarrow> 'p \<Rightarrow> bool" where
  "gap T x y \<longleftrightarrow> to_of T x < from_of T y"

definition itree_ok :: "'p interval_tree \<Rightarrow> bool" where
  "itree_ok T \<longleftrightarrow> index_ok (root T) \<and> sorted_wrt (gap T) (inorder (root T)) \<and>
     (\<forall>p\<in>set (inorder (root T)). from_of T p < to_of T p)"

text \<open>The set of byte offsets a tree stands for.\<close>

definition covered :: "'p interval_tree \<Rightarrow> u64 set" where
  "covered T = {v. \<exists>p\<in>set (inorder (root T)). from_of T p \<le> v \<and> v < to_of T p}"

lemma root_set_from [simp]: "root (set_from p v T) = root T"
  by (simp add: set_from_def)

lemma root_set_to [simp]: "root (set_to p v T) = root T"
  by (simp add: set_to_def)

lemma fields_set_from [simp]:
  "from_of (set_from p v T) q = (if q = p then v else from_of T q)" "to_of (set_from p v T) = to_of T"
  by (auto simp: set_from_def)

lemma fields_set_to [simp]:
  "to_of (set_to p v T) q = (if q = p then v else to_of T q)" "from_of (set_to p v T) = from_of T"
  by (auto simp: set_to_def)

lemma fields_new [simp]:
  "root (psync_interval_new n a b T) = root T"
  "from_of (psync_interval_new n a b T) q = (if q = n then a else from_of T q)"
  "to_of (psync_interval_new n a b T) q = (if q = n then b else to_of T q)"
  by (auto simp: psync_interval_new_def)

lemma sorted_gap_cong:
  assumes "\<And>x. x \<in> set xs \<Longrightarrow> from_of T' x = from_of T x \<and> to_of T' x = to_of T x"
  shows "sorted_wrt (gap T') xs \<longleftrightarrow> sorted_wrt (gap T) xs"
  using assms by (induction xs) (auto simp: gap_def)

lemma fields_del [simp]:
  "from_of (psync_interval_tree_del T p) = from_of T" "to_of (psync_interval_tree_del T p) = to_of T"
  "root (psync_interval_tree_del T p) = ptree_get_del (root T) p"
  by (auto simp: psync_interval_tree_del_def)

lemma gap_simps [simp]:
  "gap (psync_interval_tree_del T p) = gap T" "gap (T\<lparr>root := t\<rparr>) = gap T"
  by (auto simp: gap_def fun_eq_iff)

lemma sorted_gap_update [simp]:
  "p \<notin> set xs \<Longrightarrow> sorted_wrt (gap (set_to p v T)) xs \<longleftrightarrow> sorted_wrt (gap T) xs"
  "p \<notin> set xs \<Longrightarrow> sorted_wrt (gap (set_from p v T)) xs \<longleftrightarrow> sorted_wrt (gap T) xs"
  "p \<notin> set xs \<Longrightarrow> sorted_wrt (gap (psync_interval_new p a b T)) xs \<longleftrightarrow> sorted_wrt (gap T) xs"
  by (auto intro!: sorted_gap_cong)

lemma segment_covered: "p \<in> set (inorder (root T)) \<Longrightarrow> {from_of T p..<to_of T p} \<subseteq> covered T"
  by (auto simp: covered_def)

lemma ivl_join:
  "(a::'a::linorder) \<le> c \<Longrightarrow> c \<le> b \<Longrightarrow> b \<le> d \<Longrightarrow> {a..<d} = {a..<b} \<union> {c..<d}"
  by (auto simp: not_less intro: order.strict_trans2 order_trans)

lemma covered_set_to:
  assumes "p \<in> set (inorder (root T))" "to_of T p \<le> v"
  shows "covered (set_to p v T) = covered T \<union> {from_of T p..<v}"
  using assms by (auto simp: covered_def intro: order.strict_trans2)

lemma covered_set_from:
  assumes "p \<in> set (inorder (root T))" "v \<le> from_of T p"
  shows "covered (set_from p v T) = covered T \<union> {v..<to_of T p}"
  using assms by (auto simp: covered_def intro: order_trans)

lemma covered_del:
  assumes "index_ok (root T)" "p \<in> set (inorder (root T))"
  shows "covered (psync_interval_tree_del T p) \<union> {from_of T p..<to_of T p} = covered T"
  using assms pt.set_del [OF assms] by (auto simp: covered_def)

text \<open>The loop state of \<open>consume\<close>: everything is in order, except that \<open>e\<close> may reach into
  the intervals behind it.\<close>

definition consume_ok :: "'p interval_tree \<Rightarrow> 'p list \<Rightarrow> 'p \<Rightarrow> 'p list \<Rightarrow> bool" where
  "consume_ok T xs e ys \<longleftrightarrow> index_ok (root T) \<and> inorder (root T) = xs @ e # ys \<and>
     sorted_wrt (gap T) (xs @ [e]) \<and> sorted_wrt (gap T) (xs @ ys) \<and>
     (\<forall>y\<in>set ys. from_of T e \<le> from_of T y) \<and>
     (\<forall>p\<in>set (inorder (root T)). from_of T p < to_of T p)"

lemma consume_correct:
  "consume_ok T xs e ys \<Longrightarrow>
   \<exists>T'. psync_interval_tree_consume_intervals T e = Some T' \<and> itree_ok T' \<and> covered T' = covered T"
proof (induction ys arbitrary: T)
  case Nil
  then have "psync_interval_tree_consume_intervals T e = Some T"
    by (subst psync_interval_tree_consume_intervals.simps)
      (simp add: psync_interval_tree_get_next_def consume_ok_def pt.nxt_node)
  with Nil show ?case by (simp add: itree_ok_def consume_ok_def)
next
  case (Cons y ys)
  from Cons.prems have ok: "index_ok (root T)" and io: "inorder (root T) = xs @ e # y # ys"
    by (auto simp: consume_ok_def)
  have dis: "distinct (xs @ e # y # ys)" using pt.ok_distinct [OF ok] io by simp
  have nx: "psync_interval_tree_get_next T e = Some y"
    by (simp add: psync_interval_tree_get_next_def pt.nxt_node [OF ok io])
  let ?D = "psync_interval_tree_del T y"
  have D: "inorder (root ?D) = xs @ e # ys" "index_ok (root ?D)" "from_of ?D = from_of T"
      "to_of ?D = to_of T"
    using pt.nodes_del [of "root T" "xs @ [e]" y ys] ok io pt.ok_del [OF ok, of y]
    by (auto simp: psync_interval_tree_del_def)
  consider "from_of T y > to_of T e"
    | "from_of T y \<le> to_of T e" "to_of T y \<ge> to_of T e"
    | "from_of T y \<le> to_of T e" "to_of T y < to_of T e"
    by fastforce
  then show ?case
  proof cases
    case 1
    then have "psync_interval_tree_consume_intervals T e = Some T"
      by (subst psync_interval_tree_consume_intervals.simps) (simp add: nx)
    moreover have "itree_ok T" using Cons.prems 1 dis
      by (auto simp: itree_ok_def consume_ok_def sorted_wrt_append gap_def)
        (meson order.strict_trans)
    ultimately show ?thesis by simp
  next
    case 2
    let ?T = "set_to e (to_of T y) ?D"
    have "psync_interval_tree_consume_intervals T e = Some ?T"
      using 2 by (subst psync_interval_tree_consume_intervals.simps) (simp add: nx)
    moreover have "itree_ok ?T" using Cons.prems 2 dis D
      by (auto simp: itree_ok_def consume_ok_def sorted_wrt_append gap_def intro: order.strict_trans2)
    moreover have "covered ?T = covered T"
    proof -
      have "covered ?T = covered ?D \<union> {from_of T e..<to_of T y}"
        using covered_set_to [of e ?D "to_of T y"] D 2 by simp
      moreover have "{from_of T e..<to_of T y} = {from_of T e..<to_of T e} \<union> {from_of T y..<to_of T y}"
        using 2 Cons.prems io by (auto simp: consume_ok_def intro: order_trans order.strict_trans2)
      moreover have "{from_of T e..<to_of T e} \<subseteq> covered ?D" using segment_covered [of e ?D] D by simp
      ultimately show ?thesis using covered_del [OF ok, of y] io by auto
    qed
    ultimately show ?thesis by simp
  next
    case 3
    have "consume_ok ?D xs e ys" using Cons.prems dis D
      by (auto simp: consume_ok_def sorted_wrt_append gap_def)
    from Cons.IH [OF this] obtain T' where T': "psync_interval_tree_consume_intervals ?D e = Some T'"
      "itree_ok T'" "covered T' = covered ?D" by blast
    have "psync_interval_tree_consume_intervals T e = Some T'"
      using 3 T'(1) by (subst psync_interval_tree_consume_intervals.simps) (simp add: nx Let_def not_le)
    moreover have "covered ?D = covered T" using Cons.prems 3 D io
      by (auto simp: covered_def consume_ok_def intro: order.strict_trans order_trans)
    ultimately show ?thesis using T' by simp
  qed
qed

subsection \<open>Adding is set union\<close>

lemma sorted_gap_fields:
  assumes "sorted_wrt (gap T) (xs @ e # ys)" "\<forall>p\<in>set (xs @ e # ys). from_of T p < to_of T p"
  shows "\<forall>x\<in>set xs. to_of T x < from_of T e" "\<forall>y\<in>set ys. to_of T e < from_of T y"
  using assms by (auto simp: sorted_wrt_append gap_def)

lemma add_new_node:
  assumes "itree_ok T" "inorder (root T) = xs @ ys" "new \<notin> set (inorder (root T))" "from < to"
    and "\<forall>x\<in>set xs. to_of T x < from" "\<forall>y\<in>set ys. from < from_of T y"
    and T1: "T1 = (psync_interval_new new from to T)\<lparr>root := t\<rparr>" "index_ok t" "inorder t = xs @ new # ys"
  shows "\<exists>T'. psync_interval_tree_consume_intervals T1 new = Some T' \<and> itree_ok T' \<and>
              covered T' = covered T \<union> {from..<to}"
proof -
  have new: "new \<notin> set xs" "new \<notin> set ys" using assms(2,3) by auto
  have "sorted_wrt (gap T1) (xs @ ys) \<longleftrightarrow> sorted_wrt (gap T) (xs @ ys)"
    by (rule sorted_gap_cong) (use new T1 in auto)
  then have "consume_ok T1 xs new ys"
    using assms new by (auto simp: consume_ok_def itree_ok_def sorted_wrt_append gap_def)
  from consume_correct [OF this] obtain T' where
    "psync_interval_tree_consume_intervals T1 new = Some T'" "itree_ok T'" "covered T' = covered T1" by blast
  moreover have "covered T1 = covered T \<union> {from..<to}"
    using assms(2) new T1 by (auto simp: covered_def)
  ultimately show ?thesis by simp
qed

lemma add_descend_correct:
  assumes ok: "itree_ok T" and new: "new \<notin> set (inorder (root T))" and ft: "from < to"
  shows "inorder (root T) = bs @ inorder t @ as \<Longrightarrow> t \<noteq> Null \<Longrightarrow>
    \<forall>b\<in>set bs. to_of T b < from \<Longrightarrow> \<forall>a\<in>set as. from < from_of T a \<Longrightarrow>
    \<exists>T'. interval_add_descend T from to new t = Some T' \<and> itree_ok T' \<and>
         covered T' = covered T \<union> {from..<to}"
proof (induction t arbitrary: bs as)
  case (Node l e h r)
  let ?xs = "bs @ inorder l" and ?ys = "inorder r @ as"
  have io: "inorder (root T) = ?xs @ e # ?ys" using Node.prems by simp
  have ix: "index_ok (root T)" and so: "sorted_wrt (gap T) (?xs @ e # ?ys)"
    and ne: "\<forall>p\<in>set (?xs @ e # ?ys). from_of T p < to_of T p"
    using ok io by (auto simp: itree_ok_def)
  have dis: "distinct (?xs @ e # ?ys)" using pt.ok_distinct [OF ix] io by simp
  note g = sorted_gap_fields [OF so ne]
  have mem: "e \<in> set (inorder (root T))" using io by simp
  consider (inside) "from_of T e \<le> from" "from \<le> to_of T e" "to \<le> to_of T e"
    | (extend) "from_of T e \<le> from" "from \<le> to_of T e" "to_of T e < to"
    | (left) "from < from_of T e" "l \<noteq> Null"
    | (grow) "from < from_of T e" "l = Null" "from_of T e \<le> to" "to \<le> to_of T e"
    | (before) "from < from_of T e" "l = Null" "\<not> (from_of T e \<le> to \<and> to \<le> to_of T e)"
    | (right) "from_of T e \<le> from" "to_of T e < from" "r \<noteq> Null"
    | (after) "from_of T e \<le> from" "to_of T e < from" "r = Null"
    by (meson not_le)
  then show ?case
  proof cases
    case inside
    then have "{from..<to} \<subseteq> covered T" using mem
      by (auto simp: covered_def) (meson order_trans order.strict_trans2)
    with inside ok show ?thesis by (auto simp: Un_absorb2)
  next
    case extend
    let ?T = "set_to e to T"
    have e_y: "from_of T e \<le> from_of T y" if "y \<in> set ?ys" for y
      using g(2) that ne by (meson in_set_conv_decomp order.strict_trans order_less_imp_le)
    have e_to: "from_of T e < to" using extend ft by order
    have "sorted_wrt (gap ?T) (?xs @ [e])" "sorted_wrt (gap ?T) (?xs @ ?ys)"
      using so dis by (simp_all add: sorted_wrt_append gap_def) auto?
    then have "consume_ok ?T ?xs e ?ys" unfolding consume_ok_def
      using e_y e_to ne dis io ix by simp
    from consume_correct [OF this] obtain T' where "psync_interval_tree_consume_intervals ?T e = Some T'"
      "itree_ok T'" "covered T' = covered ?T" by blast
    moreover have "covered ?T = covered T \<union> {from..<to}"
      using covered_set_to [OF mem, of to] segment_covered [OF mem] extend
        ivl_join [of "from_of T e" "from" "to_of T e" to] by auto
    ultimately show ?thesis using extend by auto
  next
    case left
    have "\<forall>a\<in>set (e # ?ys). from < from_of T a"
      using left g ne by (auto intro: order.strict_trans)
    with Node.IH(1) [of bs "e # ?ys"] Node.prems left show ?thesis by auto
  next
    case grow
    let ?T = "set_from e from T"
    have "from < to_of T e" using grow ft by order
    moreover have "sorted_wrt (gap ?T) (?xs @ e # ?ys)"
      using so dis grow Node.prems by (simp add: sorted_wrt_append gap_def) auto?
    ultimately have "itree_ok ?T" unfolding itree_ok_def using ne dis io ix by simp
    moreover have "covered ?T = covered T \<union> {from..<to}"
      using covered_set_from [OF mem, of "from"] segment_covered [OF mem] grow
        ivl_join [of "from" "from_of T e" to "to_of T e"] by auto
    ultimately show ?thesis using grow by auto
  next
    case before
    have ys: "\<forall>y\<in>set (e # ?ys). from < from_of T y"
      using before g ne by (auto intro: order.strict_trans)
    have "\<exists>T'. psync_interval_tree_consume_intervals ((psync_interval_new new from to T)
        \<lparr>root := ptree_get_add_before (root T) (Some e) new\<rparr>) new = Some T' \<and> itree_ok T' \<and>
        covered T' = covered T \<union> {from..<to}"
      by (rule add_new_node [OF ok _ new ft _ ys refl pt.ok_before [OF ix mem new]])
        (use before Node.prems io pt.nodes_before [OF ix, of bs e ?ys] in auto)
    with before show ?thesis by auto
  next
    case right
    have "\<forall>b\<in>set (?xs @ [e]). to_of T b < from"
      using right g ne by (auto intro: order.strict_trans order.strict_trans2)
    with Node.IH(2) [of "?xs @ [e]" as] Node.prems right show ?thesis by auto
  next
    case after
    have xs: "\<forall>x\<in>set (?xs @ [e]). to_of T x < from"
      using after g ne by (auto intro: order.strict_trans order.strict_trans2)
    have "\<exists>T'. psync_interval_tree_consume_intervals ((psync_interval_new new from to T)
        \<lparr>root := ptree_get_add_after (root T) (Some e) new\<rparr>) new = Some T' \<and> itree_ok T' \<and>
        covered T' = covered T \<union> {from..<to}"
      by (rule add_new_node [OF ok _ new ft xs _ refl pt.ok_after [OF ix mem new], where ys = as])
        (use after Node.prems io pt.nodes_after [OF ix, of ?xs e as] in auto)
    with after show ?thesis by auto
  qed
qed simp

lemma covered_Null: "root T = Null \<Longrightarrow> covered T = {}"
  by (simp add: covered_def)

subsection \<open>Searching and removing\<close>

lemma find_gap:
  assumes "\<forall>b\<in>set bs. to_of T b \<le> point"
  shows "List.find (\<lambda>p. point < to_of T p) (bs @ xs) = List.find (\<lambda>p. point < to_of T p) xs"
  using assms by (induction bs) (auto simp: not_less)

lemma first_containing_descend_find:
  assumes ok: "itree_ok T"
  shows "inorder (root T) = bs @ inorder t @ as \<Longrightarrow> t \<noteq> Null \<Longrightarrow>
    \<forall>b\<in>set bs. to_of T b \<le> point \<Longrightarrow> \<forall>a\<in>set as. point < to_of T a \<Longrightarrow>
    first_containing_descend T point t = List.find (\<lambda>p. point < to_of T p) (inorder (root T))"
proof (induction t arbitrary: bs as)
  case (Node l e h r)
  let ?xs = "bs @ inorder l" and ?ys = "inorder r @ as"
  have io: "inorder (root T) = ?xs @ e # ?ys" using Node.prems by simp
  have ix: "index_ok (root T)" and so: "sorted_wrt (gap T) (?xs @ e # ?ys)"
    and ne: "\<forall>p\<in>set (?xs @ e # ?ys). from_of T p < to_of T p"
    using ok io by (auto simp: itree_ok_def)
  note g = sorted_gap_fields [OF so ne]
  have lo: "\<forall>x\<in>set ?xs. to_of T x < to_of T e"
    using g(1) ne by (metis in_set_conv_decomp order.strict_trans)
  have hi: "\<forall>y\<in>set ?ys. to_of T e < to_of T y"
    using g(2) ne by (metis Un_iff insert_iff list.set(2) order.strict_trans set_append)
  consider (next_one) "to_of T e \<le> point" "r = Null" | (right) "to_of T e \<le> point" "r \<noteq> Null"
    | (here) "point < to_of T e" "from_of T e \<le> point \<or> l = Null"
    | (left) "point < to_of T e" "point < from_of T e" "l \<noteq> Null"
    by (meson not_le)
  then show ?case
  proof cases
    case next_one
    have "\<forall>b\<in>set (?xs @ [e]). to_of T b \<le> point"
      using lo next_one by (auto intro: order.trans less_imp_le)
    from find_gap [OF this, of as]
    have "List.find (\<lambda>p. point < to_of T p) (inorder (root T)) = List.find (\<lambda>p. point < to_of T p) as"
      using io next_one by simp
    moreover have "first_containing_descend T point (Node l e h r) = (if as = [] then None else Some (hd as))"
      using next_one io ix by (simp add: psync_interval_tree_get_next_def pt.nxt_node [OF ix, of ?xs e as])
    ultimately show ?thesis using Node.prems(4) by (cases as) auto
  next
    case right
    have "\<forall>b\<in>set (?xs @ [e]). to_of T b \<le> point"
      using lo right by (auto intro: order.trans less_imp_le)
    with Node.IH(2) [of "?xs @ [e]" as] Node.prems right show ?thesis by simp
  next
    case here
    have "\<forall>b\<in>set ?xs. to_of T b \<le> point"
    proof (cases "l = Null")
      case True with Node.prems show ?thesis by simp
    next
      case False with here g(1) show ?thesis by (metis order.trans order_less_imp_le)
    qed
    from find_gap [OF this, of "e # ?ys"] here show ?thesis by (auto simp: io not_le [symmetric])
  next
    case left
    have "\<forall>a\<in>set (e # ?ys). point < to_of T a" using hi left by (auto intro: order.strict_trans)
    with Node.IH(1) [of bs "e # ?ys"] Node.prems left show ?thesis by (simp add: not_le [symmetric])
  qed
qed simp

lemma first_containing_find:
  assumes "itree_ok T"
  shows "psync_interval_tree_first_interval_containing_or_after T point =
         List.find (\<lambda>p. point < to_of T p) (inorder (root T))"
  using first_containing_descend_find [OF assms, of "[]" "root T" "[]"]
  by (cases "root T = Null") (auto simp: psync_interval_tree_first_interval_containing_or_after_def)

definition cov :: "'p interval_tree \<Rightarrow> 'p list \<Rightarrow> u64 set" where
  "cov T xs = (\<Union>p\<in>set xs. {from_of T p..<to_of T p})"

lemma cov_simps [simp]:
  "cov T [] = {}" "cov T (x # xs) = {from_of T x..<to_of T x} \<union> cov T xs"
  "cov T (xs @ ys) = cov T xs \<union> cov T ys" "cov (T\<lparr>root := t\<rparr>) xs = cov T xs"
  "cov (psync_interval_tree_del T p) xs = cov T xs"
  by (auto simp: cov_def)

lemma cov_update [simp]:
  "p \<notin> set xs \<Longrightarrow> cov (set_to p v T) xs = cov T xs"
  "p \<notin> set xs \<Longrightarrow> cov (set_from p v T) xs = cov T xs"
  "p \<notin> set xs \<Longrightarrow> cov (psync_interval_new p a b T) xs = cov T xs"
  unfolding cov_def by (rule SUP_cong; auto)+

lemma covered_cov: "covered T = cov T (inorder (root T))"
  by (auto simp: covered_def cov_def)

text \<open>Changing one interval in place keeps the order when its neighbours stay clear of it.\<close>

lemma itree_ok_split:
  assumes "inorder (root T) = xs @ e # ys"
  shows "itree_ok T \<longleftrightarrow> index_ok (root T) \<and> sorted_wrt (gap T) (xs @ ys) \<and>
    (\<forall>x\<in>set xs. to_of T x < from_of T e) \<and> (\<forall>y\<in>set ys. to_of T e < from_of T y) \<and>
    (\<forall>p\<in>set (xs @ ys). from_of T p < to_of T p) \<and> from_of T e < to_of T e"
  using assms by (auto simp: itree_ok_def sorted_wrt_append gap_def)

lemma itree_ok_shrink:
  assumes ok: "itree_ok T" and io: "inorder (root T) = xs @ e # ys"
    and v: "from_of T e \<le> a" "a < b" "b \<le> to_of T e"
  shows "itree_ok (set_from e a (set_to e b T))"
proof -
  have dis: "e \<notin> set xs" "e \<notin> set ys" using pt.ok_distinct [of "root T"] ok io by (auto simp: itree_ok_def)
  let ?T = "set_from e a (set_to e b T)"
  have io': "inorder (root ?T) = xs @ e # ys" using io by simp
  have ne: "p \<noteq> e" if "p \<in> set xs \<or> p \<in> set ys" for p using that dis by auto
  show ?thesis using ok v dis unfolding itree_ok_split [OF io] itree_ok_split [OF io']
    by (simp add: ne) (meson order.strict_trans1 order.strict_trans2)
qed

lemma set_from_same [simp]: "set_from p (from_of T p) T = T"
  by (simp add: set_from_def)

lemma set_to_same [simp]: "set_to p (to_of T p) T = T"
  by (simp add: set_to_def)

lemma set_from_to_commute: "set_from p a (set_to p b T) = set_to p b (set_from p a T)"
  by (simp add: set_from_def set_to_def)

lemma itree_ok_del:
  assumes ok: "itree_ok T" and io: "inorder (root T) = xs @ e # ys"
  shows "itree_ok (psync_interval_tree_del T e)"
    and "inorder (root (psync_interval_tree_del T e)) = xs @ ys"
proof -
  show io': "inorder (root (psync_interval_tree_del T e)) = xs @ ys"
    using pt.nodes_del [OF _ io] ok by (simp add: itree_ok_def)
  show "itree_ok (psync_interval_tree_del T e)"
    using ok pt.ok_del [of "root T" e] io'
    unfolding itree_ok_split [OF io] by (simp add: itree_ok_def io)
qed

lemma itree_ok_set_from:
  "itree_ok T \<Longrightarrow> inorder (root T) = xs @ e # ys \<Longrightarrow> from_of T e \<le> a \<Longrightarrow> a < to_of T e \<Longrightarrow>
   itree_ok (set_from e a T)"
  using itree_ok_shrink [of T xs e ys a "to_of T e"] by simp

lemma itree_ok_set_to:
  "itree_ok T \<Longrightarrow> inorder (root T) = xs @ e # ys \<Longrightarrow> from_of T e < b \<Longrightarrow> b \<le> to_of T e \<Longrightarrow>
   itree_ok (set_to e b T)"
  using itree_ok_shrink [of T xs e ys "from_of T e" b] by (simp add: set_from_to_commute)

text \<open>Deleting after the start was moved is the same as deleting.\<close>

lemma itree_ok_moved_del:
  assumes ok: "itree_ok T" and io: "inorder (root T) = xs @ e # ys"
  shows "itree_ok (psync_interval_tree_del (set_from e a T) e)"
    and "inorder (root (psync_interval_tree_del (set_from e a T) e)) = xs @ ys"
proof -
  have dis: "e \<notin> set xs" "e \<notin> set ys" using pt.ok_distinct [of "root T"] ok io by (auto simp: itree_ok_def)
  note d = itree_ok_del [OF ok io]
  show io': "inorder (root (psync_interval_tree_del (set_from e a T) e)) = xs @ ys" using d(2) by simp
  have ne: "p \<noteq> e" if "p \<in> set xs \<or> p \<in> set ys" for p using that dis by auto
  show "itree_ok (psync_interval_tree_del (set_from e a T) e)"
    using d io' dis by (simp add: itree_ok_def ne)
qed

lemma remove_loop_correct:
  assumes ft: "from < to"
  shows "itree_ok T \<Longrightarrow> inorder (root T) = xs @ ys \<Longrightarrow> new \<notin> set (xs @ ys) \<Longrightarrow>
    \<forall>y\<in>set ys. from < to_of T y \<Longrightarrow>
    \<exists>T'. interval_remove_loop from to new T (if ys = [] then None else Some (hd ys)) = Some T' \<and>
         itree_ok T' \<and> covered T' = cov T xs \<union> (cov T ys - {from..<to})"
proof (induction ys arbitrary: T xs)
  case Nil
  then show ?case by (subst interval_remove_loop.simps) (simp add: covered_cov)
next
  case (Cons tr ys)
  note io = Cons.prems(2)
  have ix: "index_ok (root T)" and dis: "distinct (xs @ tr # ys)"
    using Cons.prems pt.ok_distinct [of "root T"] by (auto simp: itree_ok_def)
  have so: "sorted_wrt (gap T) (xs @ tr # ys)" and ne: "\<forall>p\<in>set (xs @ tr # ys). from_of T p < to_of T p"
    using Cons.prems by (auto simp: itree_ok_def)
  note g = sorted_gap_fields [OF so ne]
  have nx: "psync_interval_tree_get_next T tr = (if ys = [] then None else Some (hd ys))"
    by (simp add: psync_interval_tree_get_next_def pt.nxt_node [OF ix io])
  have to_tr: "from < to_of T tr" and ys_to: "\<forall>y\<in>set ys. from < to_of T y" using Cons.prems by auto
  have trn: "tr \<notin> set xs" "tr \<notin> set ys" using dis by auto
  have ntr: "p \<noteq> tr" if "p \<in> set ys" for p using that trn by auto
  consider (split) "from_of T tr < from" "to < to_of T tr"
    | (head) "from_of T tr < from" "to_of T tr \<le> to"
    | (drop) "from \<le> from_of T tr" "from_of T tr < to" "to_of T tr \<le> to"
    | (tail) "from \<le> from_of T tr" "from_of T tr < to" "to < to_of T tr"
    | (out) "to \<le> from_of T tr"
    by (meson not_le)
  then show ?case
  proof cases
    case split
    let ?N = "(psync_interval_new new to (to_of T tr) T)\<lparr>root := ptree_get_add_after (root T) (Some tr) new\<rparr>"
    let ?T = "set_to tr from ?N"
    have nn: "new \<noteq> tr" "new \<notin> set xs" "new \<notin> set ys" using Cons.prems by auto
    have newp: "p \<noteq> new" if "p \<in> set xs \<or> p \<in> set ys" for p using that nn by auto
    have io': "inorder (root ?T) = (xs @ [tr]) @ new # ys"
      using pt.nodes_after [OF ix io] by simp
    have tlt: "to_of T tr < from_of T y" if "y \<in> set ys" for y using g(2) that by auto
    have "index_ok (root ?T)" using pt.ok_after [OF ix, of tr new] io nn by simp
    moreover have "sorted_wrt (gap ?T) (xs @ tr # ys)"
      using so trn nn split tlt ft
      by (simp add: sorted_wrt_append gap_def ntr newp) (meson order.strict_trans)
    moreover have "from_of T tr < from" "from < to" "to < to_of T tr" using split ft by auto
    ultimately have "itree_ok ?T" unfolding itree_ok_split [OF io']
      using nn ne g trn by (simp add: ntr newp) (meson order.strict_trans)
    moreover have "covered ?T = cov T xs \<union> (cov T (tr # ys) - {from..<to})"
    proof -
      have "cov T ys \<inter> {from..<to} = {}"
        using tlt split ft by (auto simp: cov_def) (meson leD le_less_trans less_imp_le order.strict_trans)
      moreover have "{from_of T tr..<to_of T tr} - {from..<to} =
          {from_of T tr..<from} \<union> {to..<to_of T tr}"
        using split ft by (auto simp: not_le not_less; order)
      moreover have "covered ?T = cov ?T ((xs @ [tr]) @ new # ys)" by (simp only: covered_cov io')
      ultimately show ?thesis
        using nn trn by (simp add: Un_Diff Diff_triv ac_simps)
    qed
    moreover have "interval_remove_loop from to new T (Some tr) = Some ?T"
      using split by (subst interval_remove_loop.simps) simp
    ultimately show ?thesis by simp
  next
    case head
    let ?T = "set_to tr from T"
    have "itree_ok ?T" by (rule itree_ok_set_to [OF Cons.prems(1) io]) (use head to_tr in auto)
    moreover have "cov ?T (xs @ [tr]) = cov T xs \<union> ({from_of T tr..<to_of T tr} - {from..<to})"
    proof -
      have "{from_of T tr..<to_of T tr} - {from..<to} = {from_of T tr..<from}"
        using head to_tr by (auto simp: not_le not_less; order)
      then show ?thesis using trn by simp
    qed
    ultimately obtain T' where
      "interval_remove_loop from to new ?T (if ys = [] then None else Some (hd ys)) = Some T'"
      "itree_ok T'" "covered T' = cov T xs \<union> ({from_of T tr..<to_of T tr} - {from..<to}) \<union> (cov T ys - {from..<to})"
      using Cons.IH [of ?T "xs @ [tr]"] io Cons.prems(3) ys_to trn by (auto simp: ntr)
    moreover have "interval_remove_loop from to new T (Some tr) =
        interval_remove_loop from to new ?T (if ys = [] then None else Some (hd ys))"
      using head not_le [THEN iffD2, OF head(1)] leD [OF head(2)]
      by (subst interval_remove_loop.simps) (simp add: nx Let_def)
    ultimately show ?thesis by auto
  next
    case drop
    let ?T = "psync_interval_tree_del (set_from tr to T) tr"
    note d = itree_ok_moved_del [OF Cons.prems(1) io, of to]
    obtain T' where
      "interval_remove_loop from to new ?T (if ys = [] then None else Some (hd ys)) = Some T'"
      "itree_ok T'" "covered T' = cov T xs \<union> (cov T ys - {from..<to})"
      using Cons.IH [of ?T xs] d Cons.prems(3) ys_to trn by (auto simp: ntr)
    moreover have "interval_remove_loop from to new T (Some tr) =
        interval_remove_loop from to new ?T (if ys = [] then None else Some (hd ys))"
      using drop leD [OF drop(1)] by (subst interval_remove_loop.simps) (simp add: nx Let_def)
    moreover have "cov T (tr # ys) - {from..<to} = cov T ys - {from..<to}"
      using drop by auto
    ultimately show ?thesis by simp
  next
    case tail
    let ?T = "set_from tr to T"
    have "itree_ok ?T" by (rule itree_ok_set_from [OF Cons.prems(1) io]) (use tail in auto)
    moreover have "cov ?T (xs @ [tr]) = cov T xs \<union> ({from_of T tr..<to_of T tr} - {from..<to})"
    proof -
      have "{from_of T tr..<to_of T tr} - {from..<to} = {to..<to_of T tr}"
        using tail by (auto simp: not_le not_less; order)
      then show ?thesis using trn by simp
    qed
    ultimately obtain T' where
      "interval_remove_loop from to new ?T (if ys = [] then None else Some (hd ys)) = Some T'"
      "itree_ok T'" "covered T' = cov T xs \<union> ({from_of T tr..<to_of T tr} - {from..<to}) \<union> (cov T ys - {from..<to})"
      using Cons.IH [of ?T "xs @ [tr]"] io Cons.prems(3) ys_to trn by (auto simp: ntr)
    moreover have "interval_remove_loop from to new T (Some tr) =
        interval_remove_loop from to new ?T (if ys = [] then None else Some (hd ys))"
      using tail leD [OF tail(1)] not_le [THEN iffD2, OF tail(3)]
      by (subst interval_remove_loop.simps) (simp add: nx Let_def)
    ultimately show ?thesis by auto
  next
    case out
    have "cov T (tr # ys) \<inter> {from..<to} = {}"
      using out g(2) ne by (auto simp: cov_def) (meson leD le_less_trans less_imp_le order.strict_trans)+
    then have "cov T (tr # ys) - {from..<to} = cov T (tr # ys)" by (rule Diff_triv)
    moreover have "interval_remove_loop from to new T (Some tr) = Some T"
      using ft out leD [OF out] order.strict_trans2 [OF ft out] less_imp_le
      by (subst interval_remove_loop.simps) (auto simp: nx Let_def)
    ultimately show ?thesis using Cons.prems(1) io by (simp add: covered_cov)
  qed
qed

lemma cut_loop_correct:
  "itree_ok T \<Longrightarrow> inorder (root T) = xs \<Longrightarrow>
   \<exists>T'. interval_cut_loop end T (if xs = [] then None else Some (last xs)) = Some T' \<and>
        itree_ok T' \<and> covered T' = covered T \<inter> {..<end}"
proof (induction xs arbitrary: T rule: rev_induct)
  case Nil
  then show ?case by (subst interval_cut_loop.simps) (simp add: covered_cov)
next
  case (snoc la xs)
  have io: "inorder (root T) = xs @ la # []" using snoc.prems by simp
  have ix: "index_ok (root T)" and dis: "distinct (xs @ [la])"
    using snoc.prems pt.ok_distinct [of "root T"] by (auto simp: itree_ok_def)
  have below: "\<forall>x\<in>set xs. to_of T x < from_of T la" and ne: "from_of T la < to_of T la"
    using snoc.prems(1) unfolding itree_ok_split [OF io] by auto
  have pv: "ptree_get_prev (root T) la = (if xs = [] then None else Some (last xs))"
    by (rule pt.prv_node [OF ix io])
  consider (keep) "to_of T la \<le> end" | (cut) "end < to_of T la" "from_of T la < end"
    | (drop) "end < to_of T la" "end \<le> from_of T la"
    by (meson not_le)
  then show ?case
  proof cases
    case keep
    have "cov T xs \<subseteq> {..<end}" "{from_of T la..<to_of T la} \<subseteq> {..<end}"
      using keep below ne by (auto simp: cov_def) (meson order.strict_trans order.strict_trans2)
    then have "covered T \<inter> {..<end} = covered T" using io by (auto simp: covered_cov)
    moreover have "interval_cut_loop end T (Some la) = Some T"
      using keep by (subst interval_cut_loop.simps) (simp add: not_less [symmetric])
    ultimately show ?thesis using snoc.prems(1) by simp
  next
    case cut
    have "cov T xs \<inter> {..<end} = cov T xs"
      using cut below by (auto simp: cov_def) (meson order.strict_trans)
    moreover have "{from_of T la..<to_of T la} \<inter> {..<end} = {from_of T la..<end}"
      using cut by auto
    moreover have "itree_ok (set_to la end T)"
      by (rule itree_ok_set_to [OF snoc.prems(1) io]) (use cut in auto)
    moreover have "interval_cut_loop end T (Some la) = Some (set_to la end T)"
      using cut by (subst interval_cut_loop.simps) simp
    ultimately show ?thesis using dis by (simp add: covered_cov io Int_Un_distrib2)
  next
    case drop
    let ?T = "psync_interval_tree_del T la"
    note d = itree_ok_del [OF snoc.prems(1) io]
    from snoc.IH [of ?T] d obtain T' where
      "interval_cut_loop end ?T (if xs = [] then None else Some (last xs)) = Some T'"
      "itree_ok T'" "covered T' = covered ?T \<inter> {..<end}" by auto
    moreover have "covered ?T \<inter> {..<end} = covered T \<inter> {..<end}"
      using d drop io by (auto simp: covered_cov)
    moreover have "interval_cut_loop end T (Some la) =
        interval_cut_loop end ?T (if xs = [] then None else Some (last xs))"
      using drop leD [OF drop(2)] by (subst interval_cut_loop.simps) (simp add: pv)
    ultimately show ?thesis by simp
  qed
qed

subsection \<open>The operations as set operations\<close>

definition sample_itree :: "nat interval_tree" where
  "sample_itree =
     \<lparr>root = Node (Node Null 0 1 Null) 1 2 (Node Null 2 1 Null),
      from_of = (\<lambda>p. if p = 0 then 10 else if p = 1 then 30 else 50),
      to_of = (\<lambda>p. if p = 0 then 20 else if p = 1 then 40 else 60)\<rparr>"

lemma sample_itree_ok: "itree_ok sample_itree" "inorder (root sample_itree) = [0, 1, 2]"
  by (simp_all add: sample_itree_def itree_ok_def index_ok_def gap_def)

text \<open>
  C5. Adding a range to a well-formed interval tree returns, keeps the tree balanced, its
  intervals sorted, non-empty, disjoint and non-touching, and the bytes it covers become
  exactly the old ones and the added range: overlapping and adjacent intervals are merged.
\<close>

theorem interval_add_correct:
  assumes "itree_ok T" "new \<notin> set (inorder (root T))" "from < to"
  shows "\<exists>T'. psync_interval_tree_add T from to new = Some T' \<and> itree_ok T' \<and>
              covered T' = covered T \<union> {from..<to}"
proof (cases "root T = Null")
  case True
  then show ?thesis using assms(3)
    by (simp add: psync_interval_tree_add_def psync_interval_tree_new_def ptree_get_add_after_def
        ptree_init_node_def itree_ok_def index_ok_def covered_cov)
next
  case False
  with add_descend_correct [OF assms, of "[]" "root T" "[]"] show ?thesis
    by (simp add: psync_interval_tree_add_def)
qed

theorem interval_add_correct_witness:
  "\<exists>T'. psync_interval_tree_add sample_itree 15 35 7 = Some T' \<and> itree_ok T' \<and>
        covered T' = covered sample_itree \<union> {15..<35}"
  by (rule interval_add_correct) (simp_all add: sample_itree_ok)

text \<open>
  C6. Removing a range returns, keeps the tree well formed, and the bytes it covers become
  exactly the old ones without the range: intervals inside it go away, intervals that overlap
  an end are trimmed, and one that contains the range is split in two.
\<close>

theorem interval_remove_correct:
  assumes "itree_ok T" "new \<notin> set (inorder (root T))" "from < to"
  shows "\<exists>T'. psync_interval_tree_remove T from to new = Some T' \<and> itree_ok T' \<and>
              covered T' = covered T - {from..<to}"
proof -
  let ?P = "\<lambda>p. from < to_of T p"
  define xs where "xs = takeWhile (\<lambda>p. \<not> ?P p) (inorder (root T))"
  define ys where "ys = dropWhile (\<lambda>p. \<not> ?P p) (inorder (root T))"
  have io: "inorder (root T) = xs @ ys" by (simp add: xs_def ys_def)
  have f: "List.find ?P (inorder (root T)) = (if ys = [] then None else Some (hd ys))"
    by (simp add: ys_def find_hd_dropWhile)
  have lo: "\<forall>x\<in>set xs. to_of T x \<le> from"
    by (auto simp: xs_def not_less dest!: set_takeWhileD)
  have hi: "\<forall>y\<in>set ys. from < to_of T y"
  proof (cases ys)
    case (Cons y zs)
    then have "from < to_of T y" unfolding ys_def by (metis dropWhile_eq_Cons_conv)
    then show ?thesis
      using assms(1) io Cons itree_ok_split [of T xs y zs]
      by auto (meson UnI2 order.strict_trans)
  qed simp
  have "cov T xs \<inter> {from..<to} = {}"
    using lo by (auto simp: cov_def) (meson leD order.strict_trans2)
  then have "covered T - {from..<to} = cov T xs \<union> (cov T ys - {from..<to})"
    by (simp add: covered_cov io Un_Diff Diff_triv)
  with remove_loop_correct [OF assms(3,1) io _ hi, of new] assms(2) show ?thesis
    by (simp add: psync_interval_tree_remove_def first_containing_find [OF assms(1)] f [unfolded io] io)
qed

theorem interval_remove_correct_witness:
  "\<exists>T'. psync_interval_tree_remove sample_itree 32 36 7 = Some T' \<and> itree_ok T' \<and>
        covered T' = covered sample_itree - {32..<36}"
  by (rule interval_remove_correct) (simp_all add: sample_itree_ok)

text \<open>
  Cutting the end (a file was truncated) returns, keeps the tree well formed and covers
  exactly the old bytes below the cut.
\<close>

theorem interval_cut_end_correct:
  assumes "itree_ok T"
  shows "\<exists>T'. psync_interval_tree_cut_end T end = Some T' \<and> itree_ok T' \<and>
              covered T' = covered T \<inter> {..<end}"
proof -
  have "ptree_get_last (root T) = (if inorder (root T) = [] then None else Some (last (inorder (root T))))"
    by (cases "root T = Null") (simp_all add: get_last_inorder ptree_get_last_def)
  with cut_loop_correct [OF assms refl, of "end"] show ?thesis
    by (simp add: psync_interval_tree_cut_end_def)
qed

theorem interval_cut_end_correct_witness:
  "\<exists>T'. psync_interval_tree_cut_end sample_itree 35 = Some T' \<and> itree_ok T' \<and>
        covered T' = covered sample_itree \<inter> {..<35}"
  by (rule interval_cut_end_correct) (rule sample_itree_ok)

text \<open>
  The search returns the first interval, in position order, that contains the point or
  lies after it, and \<open>NULL\<close> exactly when there is none.
\<close>

theorem first_containing_or_after_correct:
  assumes "itree_ok T"
  shows "psync_interval_tree_first_interval_containing_or_after T point =
         List.find (\<lambda>p. point < to_of T p) (inorder (root T))"
  using assms by (rule first_containing_find)

theorem first_containing_or_after_correct_witness:
  "psync_interval_tree_first_interval_containing_or_after sample_itree 45 = Some 2"
  unfolding first_containing_or_after_correct [OF sample_itree_ok(1)]
  by (simp add: sample_itree_ok(2)) (simp add: sample_itree_def)

end
