(* ===== verification/PList.thy ===== *)
theory PList
  imports Prelude
begin

text \<open>
  \<open>pclsync/plist.c\<close>: the in-place merge sort of the intrusive lists, and the extraction of the
  elements two lists share, with which the local scanner pairs deleted with created entries.

  A \<open>psync_list\<close> is the HOL list of its elements; \<open>cmp\<close> is the C comparison callback, an
  \<open>int\<close> of either sign. A position \<open>l1\<close> in a chain is the suffix that starts there, and the
  chain behind \<open>*tail\<close> is the list \<open>out\<close> already linked. \<open>unsigned long depth\<close> is a natural
  number: it stays below twice the length of the list.
\<close>

subsection \<open>Sorting\<close>

text \<open>
  The inner loop: \<open>l1\<close> holds the \<open>l1len\<close> elements left of the first run, \<open>l2\<close> everything from
  the second run on, of which \<open>l2len\<close> elements belong to the run. The result is the chain
  linked so far and the next \<open>l1\<close>. The loop is entered with both lists non-empty.
\<close>

fun merge_loop :: "('a \<Rightarrow> 'a \<Rightarrow> int) \<Rightarrow> 'a list \<Rightarrow> 'a list \<Rightarrow> nat \<Rightarrow> 'a list \<Rightarrow> 'a list \<times> 'a list" where
  "merge_loop cmp (x # l1) (y # l2) l2len out =
     (if cmp x y \<le> 0 then
        (if l1 = [] then (out @ [x] @ take l2len (y # l2), drop l2len (y # l2))
         else merge_loop cmp l1 (y # l2) l2len (out @ [x]))
      else
        (if l2len - 1 = 0 \<or> l2 = [] then (out @ [y] @ x # l1, l2)
         else merge_loop cmp (x # l1) l2 (l2len - 1) (out @ [y])))"
| "merge_loop cmp [] l2 l2len out = (out, l2)"
| "merge_loop cmp l1 [] l2len out = (out @ l1, [])"

text \<open>One pass over the list merges neighbouring runs of \<open>depth\<close> elements and counts the pairs.\<close>

partial_function (option) sort_pass ::
    "('a \<Rightarrow> 'a \<Rightarrow> int) \<Rightarrow> nat \<Rightarrow> 'a list \<Rightarrow> 'a list \<Rightarrow> nat \<Rightarrow> ('a list \<times> nat) option" where
  "sort_pass cmp depth l1 out cnt =
     (if l1 = [] then Some (out, cnt)
      else if length l1 \<le> depth then Some (out @ l1, cnt + 1)
      else (case merge_loop cmp (take depth l1) (drop depth l1) depth out of
              (out', l1') \<Rightarrow> sort_pass cmp depth l1' out' (cnt + 1)))"

partial_function (option) sort_loop ::
    "('a \<Rightarrow> 'a \<Rightarrow> int) \<Rightarrow> nat \<Rightarrow> 'a list \<Rightarrow> 'a list option" where
  "sort_loop cmp depth ls =
     (case sort_pass cmp depth ls [] 0 of
        None \<Rightarrow> None
      | Some r \<Rightarrow> (if snd r \<le> 1 then Some (fst r) else sort_loop cmp (depth * 2) (fst r)))"

definition psync_list_sort :: "('a \<Rightarrow> 'a \<Rightarrow> int) \<Rightarrow> 'a list \<Rightarrow> 'a list option" where
  "psync_list_sort cmp l = (if l = [] then Some [] else sort_loop cmp 1 l)"

subsection \<open>Extracting what two lists share\<close>

text \<open>\<open>k1\<close> and \<open>k2\<close> are the elements the cursors have passed, which stay in their lists.\<close>

fun extract_loop :: "('a \<Rightarrow> 'a \<Rightarrow> int) \<Rightarrow> 'a list \<Rightarrow> 'a list \<Rightarrow> 'a list \<Rightarrow> 'a list \<Rightarrow> 'a list \<Rightarrow> 'a list \<Rightarrow>
    ('a list \<times> 'a list) \<times> 'a list \<times> 'a list" where
  "extract_loop cmp k1 (x # li1) k2 (y # li2) e1 e2 =
     (let cr = cmp x y in
      if cr < 0 then extract_loop cmp (k1 @ [x]) li1 k2 (y # li2) e1 e2
      else if cr > 0 then extract_loop cmp k1 (x # li1) (k2 @ [y]) li2 e1 e2
      else extract_loop cmp k1 li1 k2 li2 (e1 @ [x]) (e2 @ [y]))"
| "extract_loop cmp k1 li1 k2 li2 e1 e2 = ((k1 @ li1, k2 @ li2), e1, e2)"

definition psync_list_extract_repeating ::
    "('a \<Rightarrow> 'a \<Rightarrow> int) \<Rightarrow> 'a list \<Rightarrow> 'a list \<Rightarrow> 'a list \<Rightarrow> 'a list \<Rightarrow>
     (('a list \<times> 'a list) \<times> 'a list \<times> 'a list) option" where
  "psync_list_extract_repeating cmp l1 l2 extracted1 extracted2 =
     (case psync_list_sort cmp l1 of
        None \<Rightarrow> None
      | Some s1 \<Rightarrow>
          (case psync_list_sort cmp l2 of
             None \<Rightarrow> None
           | Some s2 \<Rightarrow> Some (extract_loop cmp [] s1 [] s2 extracted1 extracted2)))"

subsection \<open>Comparison callbacks\<close>

text \<open>What the callers' comparisons satisfy: a total preorder with consistent signs.\<close>

definition cmp_ok :: "('a \<Rightarrow> 'a \<Rightarrow> int) \<Rightarrow> bool" where
  "cmp_ok cmp \<longleftrightarrow> (\<forall>a b. (cmp a b < 0) = (cmp b a > 0)) \<and>
     (\<forall>a b c. cmp a b \<le> 0 \<longrightarrow> cmp b c \<le> 0 \<longrightarrow> cmp a c \<le> 0)"

abbreviation cmp_le :: "('a \<Rightarrow> 'a \<Rightarrow> int) \<Rightarrow> 'a \<Rightarrow> 'a \<Rightarrow> bool" where
  "cmp_le cmp a b \<equiv> cmp a b \<le> 0"

lemma cmp_sgn: "cmp_ok cmp \<Longrightarrow> cmp a b < 0 \<longleftrightarrow> cmp b a > 0"
  by (simp add: cmp_ok_def)

lemma cmp_total: "cmp_ok cmp \<Longrightarrow> \<not> cmp a b \<le> 0 \<Longrightarrow> cmp b a \<le> 0"
  using cmp_sgn [of cmp b a] by simp

lemma cmp_refl: "cmp_ok cmp \<Longrightarrow> cmp a a \<le> 0"
  using cmp_sgn [of cmp a a] by linarith

lemma cmp_trans: "cmp_ok cmp \<Longrightarrow> cmp a b \<le> 0 \<Longrightarrow> cmp b c \<le> 0 \<Longrightarrow> cmp a c \<le> 0"
  unfolding cmp_ok_def by blast

lemma cmp_sym: "cmp_ok cmp \<Longrightarrow> cmp a b = 0 \<Longrightarrow> cmp b a = 0"
  using cmp_sgn [of cmp a b] cmp_sgn [of cmp b a] by simp

lemma cmp_less_trans: "cmp_ok cmp \<Longrightarrow> cmp a b < 0 \<Longrightarrow> cmp b c \<le> 0 \<Longrightarrow> cmp a c < 0"
  using cmp_sgn [of cmp a b] cmp_sgn [of cmp a c] cmp_trans [of cmp b c a] cmp_trans [of cmp a b c]
    cmp_sym [of cmp a c] by force

subsection \<open>The merge of two runs\<close>

fun merge_runs :: "('a \<Rightarrow> 'a \<Rightarrow> int) \<Rightarrow> 'a list \<Rightarrow> 'a list \<Rightarrow> 'a list" where
  "merge_runs cmp (x # xs) (y # ys) =
     (if cmp x y \<le> 0 then x # merge_runs cmp xs (y # ys) else y # merge_runs cmp (x # xs) ys)"
| "merge_runs cmp [] ys = ys"
| "merge_runs cmp xs [] = xs"

lemma merge_runs_Nil2 [simp]: "merge_runs cmp xs [] = xs"
  by (cases xs) auto

lemma merge_loop_runs:
  "l1 \<noteq> [] \<Longrightarrow> l2 \<noteq> [] \<Longrightarrow> l2len > 0 \<Longrightarrow>
   merge_loop cmp l1 l2 l2len out = (out @ merge_runs cmp l1 (take l2len l2), drop l2len l2)"
proof (induction cmp l1 l2 l2len out rule: merge_loop.induct)
  case (1 cmp x l1 y l2 l2len out)
  then obtain n where n: "l2len = Suc n" by (cases l2len) auto
  with 1 show ?case by (cases l1; cases n) (auto simp: n)
qed auto

lemma mset_merge_runs [simp]: "mset (merge_runs cmp xs ys) = mset xs + mset ys"
  by (induction cmp xs ys rule: merge_runs.induct) auto

lemma set_merge_runs [simp]: "set (merge_runs cmp xs ys) = set xs \<union> set ys"
  by (metis mset_merge_runs set_mset_mset set_mset_union)

lemma length_merge_runs [simp]: "length (merge_runs cmp xs ys) = length xs + length ys"
  by (metis mset_merge_runs size_mset size_union)

lemma sorted_merge_runs:
  "cmp_ok cmp \<Longrightarrow> sorted_wrt (cmp_le cmp) xs \<Longrightarrow> sorted_wrt (cmp_le cmp) ys \<Longrightarrow>
   sorted_wrt (cmp_le cmp) (merge_runs cmp xs ys)"
proof (induction cmp xs ys rule: merge_runs.induct)
  case (1 cmp x xs y ys)
  note tr = cmp_trans [OF 1(3)]
  show ?case
  proof (cases "cmp x y \<le> 0")
    case True
    with 1 tr [OF True] show ?thesis by auto
  next
    case False
    note yx = cmp_total [OF 1(3) False]
    with 1 False tr [OF yx] show ?thesis by auto
  qed
qed auto

text \<open>Equal elements keep their order: a class of equal elements is merged by appending.\<close>

lemma stable_merge_runs:
  "cmp_ok cmp \<Longrightarrow> sorted_wrt (cmp_le cmp) xs \<Longrightarrow> filter (\<lambda>z. cmp z a = 0) (merge_runs cmp xs ys) =
   filter (\<lambda>z. cmp z a = 0) xs @ filter (\<lambda>z. cmp z a = 0) ys"
proof (induction cmp xs ys rule: merge_runs.induct)
  case (1 cmp x xs y ys)
  have "filter (\<lambda>z. cmp z a = 0) (x # xs) = []" if "\<not> cmp x y \<le> 0" "cmp y a = 0"
  proof -
    have "cmp z a \<noteq> 0" if "z \<in> set (x # xs)" for z
    proof
      assume "cmp z a = 0"
      then have "cmp z y \<le> 0" using \<open>cmp y a = 0\<close> 1(3)
        by (metis cmp_sym cmp_trans order_refl)
      moreover have "cmp x z \<le> 0" using that 1(4) cmp_refl [OF 1(3)] by auto
      ultimately show False using \<open>\<not> cmp x y \<le> 0\<close> cmp_trans [OF 1(3)] by blast
    qed
    then show ?thesis by (auto simp: filter_empty_conv)
  qed
  with 1 show ?case by auto
qed auto

subsection \<open>Passes\<close>

text \<open>Every block of \<open>d\<close> elements (the last may be shorter) is sorted.\<close>

function runs_sorted :: "('a \<Rightarrow> 'a \<Rightarrow> int) \<Rightarrow> nat \<Rightarrow> 'a list \<Rightarrow> bool" where
  "runs_sorted cmp d l =
     (if length l \<le> d \<or> d = 0 then sorted_wrt (cmp_le cmp) l
      else sorted_wrt (cmp_le cmp) (take d l) \<and> runs_sorted cmp d (drop d l))"
  by pat_completeness auto
termination by (relation "measure (\<lambda>(cmp, d, l). length l)") auto

declare runs_sorted.simps [simp del]

lemma runs_sorted_one: "runs_sorted cmp 1 l"
  by (induction l) (subst runs_sorted.simps; auto)+

lemma runs_sorted_append:
  "length xs = d \<Longrightarrow> d > 0 \<Longrightarrow> sorted_wrt (cmp_le cmp) xs \<Longrightarrow> runs_sorted cmp d ys \<Longrightarrow>
   runs_sorted cmp d (xs @ ys)"
  by (subst runs_sorted.simps) (auto simp: runs_sorted.simps [of cmp d ys])

lemma runs_sorted_short: "length xs \<le> d \<Longrightarrow> runs_sorted cmp d xs \<longleftrightarrow> sorted_wrt (cmp_le cmp) xs"
  by (subst runs_sorted.simps) simp

lemma runs_sorted_take_drop:
  assumes "runs_sorted cmp d l" "d > 0"
  shows "sorted_wrt (cmp_le cmp) (take d l)" "runs_sorted cmp d (drop d l)"
  using assms runs_sorted.simps [of cmp d l]
  by (auto split: if_splits simp: runs_sorted_short)

definition same_class :: "('a \<Rightarrow> 'a \<Rightarrow> int) \<Rightarrow> 'a list \<Rightarrow> 'a list \<Rightarrow> bool" where
  "same_class cmp xs ys \<longleftrightarrow> mset xs = mset ys \<and>
     (\<forall>a. filter (\<lambda>z. cmp z a = 0) xs = filter (\<lambda>z. cmp z a = 0) ys)"

lemma same_class_refl [simp]: "same_class cmp xs xs"
  by (simp add: same_class_def)

lemma same_class_trans: "same_class cmp xs ys \<Longrightarrow> same_class cmp ys zs \<Longrightarrow> same_class cmp xs zs"
  by (simp add: same_class_def)

lemma same_class_append:
  "same_class cmp xs xs' \<Longrightarrow> same_class cmp ys ys' \<Longrightarrow> same_class cmp (xs @ ys) (xs' @ ys')"
  by (simp add: same_class_def)

lemma same_class_merge:
  "cmp_ok cmp \<Longrightarrow> sorted_wrt (cmp_le cmp) xs \<Longrightarrow> same_class cmp (merge_runs cmp xs ys) (xs @ ys)"
  by (simp add: same_class_def stable_merge_runs)

lemma sort_pass_correct:
  assumes "cmp_ok cmp" "d > 0"
  shows "runs_sorted cmp d l \<Longrightarrow>
    \<exists>l' n. sort_pass cmp d l out cnt = Some (out @ l', cnt + n) \<and> same_class cmp l' l \<and>
      runs_sorted cmp (d * 2) l' \<and> (n \<le> 1 \<longleftrightarrow> length l \<le> d * 2) \<and> (n = 0 \<longleftrightarrow> l = [])"
proof (induction l arbitrary: out cnt rule: length_induct)
  case (1 l)
  consider (nil) "l = []" | (short) "l \<noteq> []" "length l \<le> d" | (long) "d < length l" by fastforce
  then show ?case
  proof cases
    case nil
    then show ?thesis by (subst sort_pass.simps) (simp add: runs_sorted_short)
  next
    case short
    then have "sorted_wrt (cmp_le cmp) l" using 1 by (simp add: runs_sorted_short)
    with short show ?thesis by (subst sort_pass.simps) (simp add: runs_sorted_short)
  next
    case long
    define x y r where "x = take d l" and "y = take d (drop d l)" and "r = drop d (drop d l)"
    have l: "l = x @ y @ r" unfolding x_def y_def r_def by (simp only: append_take_drop_id)
    have lx: "length x = d" "x \<noteq> []" using long assms(2) by (auto simp: x_def)
    have dl: "drop d l \<noteq> []" using long by simp
    have sx: "sorted_wrt (cmp_le cmp) x" and sy: "sorted_wrt (cmp_le cmp) y" and rr: "runs_sorted cmp d r"
      using runs_sorted_take_drop [OF 1(2) assms(2)] runs_sorted_take_drop [OF _ assms(2), of cmp "drop d l"]
      by (auto simp: x_def y_def r_def)
    let ?m = "merge_runs cmp x y"
    have step: "sort_pass cmp d l out cnt = sort_pass cmp d r (out @ ?m) (cnt + 1)"
      using long dl assms(2) lx
      by (subst sort_pass.simps) (auto simp: merge_loop_runs x_def y_def r_def)
    have "length r < length l" using long assms(2) by (simp add: r_def)
    with 1(1) rr obtain l' n where IH: "sort_pass cmp d r (out @ ?m) (cnt + 1) = Some ((out @ ?m) @ l', cnt + 1 + n)"
      "same_class cmp l' r" "runs_sorted cmp (d * 2) l'" "n = 0 \<longleftrightarrow> r = []" by blast
    have "same_class cmp (?m @ l') l"
      using same_class_append [OF same_class_merge [OF assms(1) sx] IH(2)] l by simp
    moreover have sm: "sorted_wrt (cmp_le cmp) ?m" by (rule sorted_merge_runs [OF assms(1) sx sy])
    have "runs_sorted cmp (d * 2) (?m @ l')"
    proof (cases "r = []")
      case True
      then have "l' = []" using IH(2) by (simp add: same_class_def)
      then show ?thesis using sm lx by (simp add: runs_sorted_short y_def)
    next
      case False
      then have "length y = d" by (auto simp: y_def r_def)
      then show ?thesis using runs_sorted_append [OF _ _ sm IH(3)] lx assms(2) by simp
    qed
    moreover have "Suc n \<le> 1 \<longleftrightarrow> length l \<le> d * 2"
    proof (cases "r = []")
      case True
      with IH(4) have "n = 0" by simp
      moreover have "length l \<le> d * 2" using True by (simp add: r_def)
      ultimately show ?thesis by simp
    next
      case False
      then have "length l > d * 2" by (auto simp: r_def)
      with False IH(4) show ?thesis by auto
    qed
    ultimately show ?thesis using step IH(1)
      by (intro exI [of _ "?m @ l'"] exI [of _ "Suc n"]) (use long in auto)
  qed
qed

text \<open>The passes double the run length until one run is left.\<close>

lemma sort_loop_correct:
  "cmp_ok cmp \<Longrightarrow> d > 0 \<Longrightarrow> runs_sorted cmp d l \<Longrightarrow>
   \<exists>l'. sort_loop cmp d l = Some l' \<and> sorted_wrt (cmp_le cmp) l' \<and> same_class cmp l' l"
proof (induction "length l - d" arbitrary: d l rule: less_induct)
  case less
  from sort_pass_correct [OF less.prems, of "[]" 0] obtain l' n where
    p: "sort_pass cmp d l [] 0 = Some (l', n)" "same_class cmp l' l" "runs_sorted cmp (d * 2) l'"
      "n \<le> 1 \<longleftrightarrow> length l \<le> d * 2" by auto
  have len: "length l' = length l" using p(2) by (metis same_class_def size_mset)
  show ?case
  proof (cases "n \<le> 1")
    case True
    with p len have "sorted_wrt (cmp_le cmp) l'" by (simp add: runs_sorted_short)
    with True p show ?thesis by (subst sort_loop.simps) simp
  next
    case False
    with p(4) len less.prems(2) have "length l' - d * 2 < length l - d" by linarith
    from less.hyps [OF this less.prems(1) _ p(3)] less.prems(2) obtain l'' where
      "sort_loop cmp (d * 2) l' = Some l''" "sorted_wrt (cmp_le cmp) l''" "same_class cmp l'' l'" by auto
    with False p show ?thesis
      by (subst sort_loop.simps) (auto intro: same_class_trans)
  qed
qed

lemma list_sort_correct:
  assumes "cmp_ok cmp"
  shows "\<exists>l'. psync_list_sort cmp l = Some l' \<and> sorted_wrt (cmp_le cmp) l' \<and> same_class cmp l' l"
proof (cases "l = []")
  case False
  then show ?thesis using sort_loop_correct [OF assms _ runs_sorted_one, of l]
    by (simp add: psync_list_sort_def)
qed (simp add: psync_list_sort_def)

subsection \<open>Merge join of two sorted lists\<close>

text \<open>The result of the extraction: the pairs found, and what is left in either list.\<close>

definition extracted_ok :: "('a \<Rightarrow> 'a \<Rightarrow> int) \<Rightarrow> 'a list \<Rightarrow> 'a list \<Rightarrow> 'a list \<Rightarrow> 'a list \<Rightarrow>
    ('a list \<times> 'a list) \<times> 'a list \<times> 'a list \<Rightarrow> bool" where
  "extracted_ok cmp l1 l2 e1 e2 res \<longleftrightarrow> (case res of ((r1, r2), x1, x2) \<Rightarrow>
     (\<exists>m1 m2. x1 = e1 @ m1 \<and> x2 = e2 @ m2 \<and> list_all2 (\<lambda>a b. cmp a b = 0) m1 m2 \<and>
        mset l1 = mset r1 + mset m1 \<and> mset l2 = mset r2 + mset m2) \<and>
     sorted_wrt (cmp_le cmp) r1 \<and> sorted_wrt (cmp_le cmp) r2 \<and>
     (\<forall>a\<in>set r1. \<forall>b\<in>set r2. cmp a b \<noteq> 0))"

lemma extracted_ok_step:
  assumes "extracted_ok cmp (k1 @ li1) (k2 @ li2) (e1 @ [x]) (e2 @ [y]) res" "cmp x y = 0"
  shows "extracted_ok cmp (k1 @ x # li1) (k2 @ y # li2) e1 e2 res"
proof -
  obtain r1 r2 x1 x2 where res: "res = ((r1, r2), x1, x2)" by (metis prod.exhaust)
  from assms(1) obtain m1 m2 where "x1 = e1 @ x # m1" "x2 = e2 @ y # m2"
    "list_all2 (\<lambda>a b. cmp a b = 0) m1 m2" "mset (k1 @ li1) = mset r1 + mset m1"
    "mset (k2 @ li2) = mset r2 + mset m2"
    by (auto simp: extracted_ok_def res)
  then have "\<exists>m1 m2. x1 = e1 @ m1 \<and> x2 = e2 @ m2 \<and> list_all2 (\<lambda>a b. cmp a b = 0) m1 m2 \<and>
      mset (k1 @ x # li1) = mset r1 + mset m1 \<and> mset (k2 @ y # li2) = mset r2 + mset m2"
    using assms(2) by (intro exI [of _ "x # m1"] exI [of _ "y # m2"]) simp
  with assms(1) show ?thesis by (simp add: extracted_ok_def res)
qed

lemma extract_loop_correct:
  "cmp_ok cmp \<Longrightarrow> sorted_wrt (cmp_le cmp) (k1 @ li1) \<Longrightarrow> sorted_wrt (cmp_le cmp) (k2 @ li2) \<Longrightarrow>
   \<forall>a\<in>set k1. \<forall>b\<in>set (k2 @ li2). cmp a b \<noteq> 0 \<Longrightarrow> \<forall>b\<in>set k2. \<forall>a\<in>set (k1 @ li1). cmp a b \<noteq> 0 \<Longrightarrow>
   extracted_ok cmp (k1 @ li1) (k2 @ li2) e1 e2 (extract_loop cmp k1 li1 k2 li2 e1 e2)"
proof (induction cmp k1 li1 k2 li2 e1 e2 rule: extract_loop.induct)
  case (1 cmp k1 x li1 k2 y li2 e1 e2)
  consider (lt) "cmp x y < 0" | (gt) "cmp x y > 0" | (eq) "cmp x y = 0" by linarith
  then show ?case
  proof cases
    case lt
    have "cmp x b < 0" if "b \<in> set (y # li2)" for b
      using that lt 1(6) cmp_less_trans [OF 1(4) lt] by (auto simp: sorted_wrt_append)
    then have "extracted_ok cmp ((k1 @ [x]) @ li1) (k2 @ y # li2) e1 e2
        (extract_loop cmp (k1 @ [x]) li1 k2 (y # li2) e1 e2)"
      using 1(4-8) by (intro 1(1) [OF refl lt]) fastforce+
    with lt show ?thesis by simp
  next
    case gt
    have yx: "cmp y x < 0" using gt cmp_sgn [OF 1(4)] by blast
    have "cmp a y > 0" if "a \<in> set (x # li1)" for a
      using that gt 1(5) cmp_less_trans [OF 1(4) yx, of a] cmp_sgn [OF 1(4), of y a]
      by (auto simp: sorted_wrt_append)
    then have "extracted_ok cmp (k1 @ x # li1) ((k2 @ [y]) @ li2) e1 e2
        (extract_loop cmp k1 (x # li1) (k2 @ [y]) li2 e1 e2)"
      using 1(4-8) gt by (intro 1(2) [OF refl _ gt]) fastforce+
    with gt show ?thesis by simp
  next
    case eq
    have "extracted_ok cmp (k1 @ li1) (k2 @ li2) (e1 @ [x]) (e2 @ [y])
        (extract_loop cmp k1 li1 k2 li2 (e1 @ [x]) (e2 @ [y]))"
      using 1(4-8) eq by (intro 1(3) [OF refl]) (auto simp: sorted_wrt_append)
    with eq show ?thesis by (simp add: extracted_ok_step)
  qed
qed (auto simp: extracted_ok_def)

subsection \<open>The interface between the sort and the extraction\<close>

locale list_sorter =
  fixes srt :: "('a \<Rightarrow> 'a \<Rightarrow> int) \<Rightarrow> 'a list \<Rightarrow> 'a list option"
  assumes total: "cmp_ok cmp \<Longrightarrow> \<exists>l'. srt cmp l = Some l'"
    and ordered: "cmp_ok cmp \<Longrightarrow> srt cmp l = Some l' \<Longrightarrow> sorted_wrt (cmp_le cmp) l'"
    and same_elements: "cmp_ok cmp \<Longrightarrow> srt cmp l = Some l' \<Longrightarrow> mset l' = mset l"
begin

lemma extraction:
  assumes "cmp_ok cmp"
  obtains s1 s2 where "srt cmp l1 = Some s1" "srt cmp l2 = Some s2"
    "extracted_ok cmp l1 l2 e1 e2 (extract_loop cmp [] s1 [] s2 e1 e2)"
proof -
  obtain s1 s2 where s: "srt cmp l1 = Some s1" "srt cmp l2 = Some s2"
    using total [OF assms] by metis
  have "extracted_ok cmp ([] @ s1) ([] @ s2) e1 e2 (extract_loop cmp [] s1 [] s2 e1 e2)"
    by (rule extract_loop_correct) (use assms s ordered in auto)
  then have "extracted_ok cmp l1 l2 e1 e2 (extract_loop cmp [] s1 [] s2 e1 e2)"
    using same_elements [OF assms s(1)] same_elements [OF assms s(2)]
    by (simp add: extracted_ok_def)
  with s show thesis by (rule that)
qed

end

interpretation srt: list_sorter psync_list_sort
  by unfold_locales (metis list_sort_correct option.inject same_class_def)+

subsection \<open>Properties\<close>

text \<open>
  C37. The merge sort returns for every list and every total preorder; the result is sorted, has
  the same elements, and keeps equal elements in their order.
\<close>

theorem psync_list_sort_stable:
  assumes "cmp_ok cmp"
  shows "\<exists>l'. psync_list_sort cmp l = Some l' \<and> sorted_wrt (\<lambda>a b. cmp a b \<le> 0) l' \<and>
    mset l' = mset l \<and> (\<forall>a. filter (\<lambda>z. cmp z a = 0) l' = filter (\<lambda>z. cmp z a = 0) l)"
  using list_sort_correct [OF assms, of l] by (simp add: same_class_def)

lemma int_cmp_ok: "cmp_ok (\<lambda>a b :: int. a - b)"
  by (simp add: cmp_ok_def)

theorem psync_list_sort_stable_witness:
  "\<exists>l'. psync_list_sort (\<lambda>a b. a - b) [3, 1, 2, 1 :: int] = Some l' \<and>
    sorted_wrt (\<lambda>a b. a - b \<le> 0) l' \<and> mset l' = mset [3, 1, 2, 1] \<and>
    (\<forall>a. filter (\<lambda>z. z - a = 0) l' = filter (\<lambda>z. z - a = 0) [3, 1, 2, 1])"
  by (rule psync_list_sort_stable) (rule int_cmp_ok)

text \<open>
  The extraction returns; what it moves to the two result lists are pairs of equal
  elements, nothing is lost or duplicated, and no element left in the first list is equal to
  one left in the second.
\<close>

theorem psync_list_extract_repeating_correct:
  assumes "cmp_ok cmp"
  shows "\<exists>r1 r2 m1 m2. psync_list_extract_repeating cmp l1 l2 e1 e2 = Some ((r1, r2), e1 @ m1, e2 @ m2) \<and>
    list_all2 (\<lambda>a b. cmp a b = 0) m1 m2 \<and>
    mset l1 = mset r1 + mset m1 \<and> mset l2 = mset r2 + mset m2 \<and>
    (\<forall>a\<in>set r1. \<forall>b\<in>set r2. cmp a b \<noteq> 0)"
proof -
  obtain s1 s2 where s: "psync_list_sort cmp l1 = Some s1" "psync_list_sort cmp l2 = Some s2"
    and ok: "extracted_ok cmp l1 l2 e1 e2 (extract_loop cmp [] s1 [] s2 e1 e2)"
    by (rule srt.extraction [OF assms])
  obtain r1 r2 x1 x2 where res: "extract_loop cmp [] s1 [] s2 e1 e2 = ((r1, r2), x1, x2)"
    by (metis prod.exhaust)
  with ok s show ?thesis
    by (auto simp: extracted_ok_def psync_list_extract_repeating_def)
qed

theorem psync_list_extract_repeating_correct_witness:
  "\<exists>r1 r2 m1 m2. psync_list_extract_repeating (\<lambda>a b. a - b) [3, 1 :: int] [2, 3] [] [] =
      Some ((r1, r2), [] @ m1, [] @ m2) \<and>
    list_all2 (\<lambda>a b. a - b = 0) m1 m2 \<and>
    mset [3, 1] = mset r1 + mset m1 \<and> mset [2, 3] = mset r2 + mset m2 \<and>
    (\<forall>a\<in>set r1. \<forall>b\<in>set r2. a - b \<noteq> 0)"
  by (rule psync_list_extract_repeating_correct) (rule int_cmp_ok)

end
