(* ===== verification/PTimer.thy ===== *)
theory PTimer
  imports Prelude
begin

text \<open>
  \<open>pclsync/ptimer.c\<close>: the timer wheel. Three levels of 64 lists hold the timers; a timer of up
  to \<open>64 ^ (k + 1)\<close> seconds starts on level \<open>k\<close>, in the list its due second selects, and moves
  down a level when the second hand of its level reaches it.

  Timers are addresses \<open>'p\<close> with a store of their fields, a \<open>psync_list\<close> is a HOL list, and
  \<open>time_t\<close> is a natural number. \<open>current_time\<close> is \<open>psync_current_time\<close>. What a callback does
  to the wheel is the sequence of API calls it makes (\<open>api_call\<close>).
\<close>

definition TIMER_ARRAY_SIZE_SHIFT :: nat where "TIMER_ARRAY_SIZE_SHIFT = 6"
definition TIMER_ARRAY_SIZE :: nat where "TIMER_ARRAY_SIZE = 64"
definition TIMER_LEVELS :: nat where "TIMER_LEVELS = 3"
definition PTIMER_IS_RUNNING :: u32 where "PTIMER_IS_RUNNING = 1"
definition PTIMER_STOP_AFTER_RUN :: u32 where "PTIMER_STOP_AFTER_RUN = 2"

lemmas [wheel_simps] = TIMER_ARRAY_SIZE_SHIFT_def TIMER_ARRAY_SIZE_def TIMER_LEVELS_def

record timer =
  numsec :: nat
  runat :: nat
  level :: nat
  opts :: u32

record 'p wheel =
  current_time :: nat
  timerlists :: "nat \<Rightarrow> nat \<Rightarrow> 'p list"
  timer_of :: "'p \<Rightarrow> timer"

text \<open>\<open>psync_list_add_tail(&timerlists[k][s], p)\<close> and the field assignments.\<close>

definition list_add_tail :: "nat \<Rightarrow> nat \<Rightarrow> 'p \<Rightarrow> 'p wheel \<Rightarrow> 'p wheel" where
  "list_add_tail k s p W =
     W\<lparr>timerlists := (timerlists W)(k := (timerlists W k)(s := timerlists W k s @ [p]))\<rparr>"

definition list_init :: "nat \<Rightarrow> nat \<Rightarrow> 'p wheel \<Rightarrow> 'p wheel" where
  "list_init k s W = W\<lparr>timerlists := (timerlists W)(k := (timerlists W k)(s := []))\<rparr>"

definition set_timer :: "'p \<Rightarrow> (timer \<Rightarrow> timer) \<Rightarrow> 'p wheel \<Rightarrow> 'p wheel" where
  "set_timer p f W = W\<lparr>timer_of := (timer_of W)(p := f (timer_of W p))\<rparr>"

abbreviation runat_of :: "'p wheel \<Rightarrow> 'p \<Rightarrow> nat" where
  "runat_of W p \<equiv> runat (timer_of W p)"

subsection \<open>Turning the wheel\<close>

function timer_check_upper_levels :: "nat \<Rightarrow> nat \<Rightarrow> nat \<Rightarrow> 'p wheel \<Rightarrow> 'p wheel" where
  "timer_check_upper_levels tmdiv lev sh W =
     (let m = tmdiv mod TIMER_ARRAY_SIZE;
          W1 = (if m = 0 \<and> lev < TIMER_LEVELS - 2
                then timer_check_upper_levels (tmdiv div TIMER_ARRAY_SIZE) (lev + 1)
                       (sh + TIMER_ARRAY_SIZE_SHIFT) W
                else W);
          W2 = fold (\<lambda>p V. list_add_tail lev (drop_bit sh (runat_of V p) mod TIMER_ARRAY_SIZE) p V)
                 (timerlists W1 (lev + 1) m) W1
      in list_init (lev + 1) m W2)"
  by pat_completeness auto
termination by (relation "measure (\<lambda>(t, lev, sh, W). TIMER_LEVELS - lev)") (auto simp: wheel_simps)

declare timer_check_upper_levels.simps [simp del]

text \<open>The body of the loop of \<open>timer_prepare_timers\<close> for the second \<open>i\<close>.\<close>

definition timer_prepare_second :: "nat \<Rightarrow> 'p wheel \<times> 'p list \<Rightarrow> 'p wheel \<times> 'p list" where
  "timer_prepare_second i st =
     (let m = i mod TIMER_ARRAY_SIZE;
          W1 = (if m = 0 then timer_check_upper_levels (i div TIMER_ARRAY_SIZE) 0 0 (fst st) else fst st);
          due = timerlists W1 0 m;
          W2 = fold (\<lambda>p. set_timer p (\<lambda>t. t\<lparr>opts := opts t OR PTIMER_IS_RUNNING\<rparr>)) due W1
      in (list_init 0 m W2, snd st @ due))"

definition timer_prepare_timers :: "nat \<Rightarrow> nat \<Rightarrow> 'p wheel \<Rightarrow> 'p list \<Rightarrow> 'p wheel \<times> 'p list" where
  "timer_prepare_timers from to W lst = fold timer_prepare_second [from + 1..<to + 1] (W, lst)"

subsection \<open>Registering, stopping, re-arming\<close>

text \<open>The loop that picks the level: \<open>i\<close> and \<open>n\<close> when it ends.\<close>

fun timer_level_loop :: "nat \<Rightarrow> nat \<Rightarrow> nat \<Rightarrow> nat \<Rightarrow> nat \<times> nat" where
  "timer_level_loop 0 i n ns = (i, n)"
| "timer_level_loop (Suc left) i n ns =
     (if ns \<le> n then (i, n) else timer_level_loop left (i + 1) (n * TIMER_ARRAY_SIZE) ns)"

definition timer_insert :: "'p \<Rightarrow> nat \<Rightarrow> 'p wheel \<Rightarrow> 'p wheel" where
  "timer_insert p i W =
     list_add_tail i (drop_bit (i * TIMER_ARRAY_SIZE_SHIFT) (runat_of W p) mod TIMER_ARRAY_SIZE) p W"

definition ptimer_register :: "'p \<Rightarrow> nat \<Rightarrow> 'p wheel \<Rightarrow> 'p wheel" where
  "ptimer_register p ns W =
     (let (i, n) = timer_level_loop TIMER_LEVELS 0 TIMER_ARRAY_SIZE ns;
          (ns, i) = (if i = TIMER_LEVELS then (n div TIMER_ARRAY_SIZE, i - 1) else (ns, i))
      in timer_insert p i
           (set_timer p (\<lambda>t. \<lparr>numsec = ns, runat = current_time W + ns, level = i, opts = 0\<rparr>) W))"


datatype 'p api_call = Register 'p nat | Stop 'p







definition ptimer_init :: "nat \<Rightarrow> 'p wheel \<Rightarrow> 'p wheel" where
  "ptimer_init clock W = W\<lparr>timerlists := (\<lambda>k s. []), current_time := clock\<rparr>"

subsection \<open>The invariant\<close>

text \<open>
  A timer due at \<open>r\<close> in list \<open>s\<close> of level \<open>k\<close>, when the wheel has been turned to second \<open>pos\<close>:
  the hand of level \<open>k\<close> reaches the list after at most one turn, and exactly when it is due.
\<close>

definition slot_ok :: "nat \<Rightarrow> nat \<Rightarrow> nat \<Rightarrow> nat \<Rightarrow> bool" where
  "slot_ok k s pos r \<longleftrightarrow> pos div 64 ^ k < r div 64 ^ k \<and> r div 64 ^ k \<le> pos div 64 ^ k + 64 \<and>
     r div 64 ^ k mod 64 = s"

definition wheel_ok :: "'p wheel \<Rightarrow> nat \<Rightarrow> bool" where
  "wheel_ok W pos \<longleftrightarrow>
     (\<forall>k s. distinct (timerlists W k s)) \<and>
     (\<forall>k s p. p \<in> set (timerlists W k s) \<longrightarrow> k < 3 \<and> slot_ok k s pos (runat_of W p)) \<and>
     (\<forall>p k s k' s'. p \<in> set (timerlists W k s) \<longrightarrow> p \<in> set (timerlists W k' s') \<longrightarrow> k = k' \<and> s = s')"

definition pending :: "'p wheel \<Rightarrow> 'p set" where
  "pending W = {p. \<exists>k s. p \<in> set (timerlists W k s)}"

lemma slot_ok_later: "slot_ok k s pos r \<Longrightarrow> pos < r"
  unfolding slot_ok_def by (meson div_le_mono leD not_le_imp_less)

lemma wheel_okD:
  assumes "wheel_ok W pos"
  shows "distinct (timerlists W k s)"
    and "p \<in> set (timerlists W k s) \<Longrightarrow> k < 3"
    and "p \<in> set (timerlists W k s) \<Longrightarrow> slot_ok k s pos (runat_of W p)"
    and "p \<in> set (timerlists W k s) \<Longrightarrow> p \<in> set (timerlists W k' s') \<Longrightarrow> k = k' \<and> s = s'"
  using assms unfolding wheel_ok_def by blast+

lemma wheel_ok_later: "wheel_ok W pos \<Longrightarrow> p \<in> pending W \<Longrightarrow> pos < runat_of W p"
  using wheel_okD(3) slot_ok_later by (fastforce simp: pending_def)

subsection \<open>Moving a list down a level\<close>

text \<open>The loop of \<open>timer_check_upper_levels\<close> in closed form.\<close>

definition move_down :: "nat \<Rightarrow> nat \<Rightarrow> nat \<Rightarrow> 'p wheel \<Rightarrow> 'p wheel" where
  "move_down lev sh m W =
     list_init (lev + 1) m
       (fold (\<lambda>p V. list_add_tail lev (drop_bit sh (runat_of V p) mod 64) p V) (timerlists W (lev + 1) m) W)"

lemma fold_add_tail:
  "timerlists (fold (\<lambda>p V. list_add_tail lev (drop_bit sh (runat_of V p) mod 64) p V) ps W) k s =
     timerlists W k s @ (if k = lev then filter (\<lambda>p. drop_bit sh (runat_of W p) mod 64 = s) ps else [])"
  "timer_of (fold (\<lambda>p V. list_add_tail lev (drop_bit sh (runat_of V p) mod 64) p V) ps W) = timer_of W"
  "current_time (fold (\<lambda>p V. list_add_tail lev (drop_bit sh (runat_of V p) mod 64) p V) ps W) = current_time W"
  by (induction ps arbitrary: W) (auto simp: list_add_tail_def)

lemma move_down_lists:
  "timerlists (move_down lev sh m W) k s =
     (if k = lev then timerlists W k s @
        filter (\<lambda>p. drop_bit sh (runat_of W p) mod 64 = s) (timerlists W (lev + 1) m)
      else if k = lev + 1 \<and> s = m then [] else timerlists W k s)"
  by (simp add: move_down_def list_init_def fold_add_tail)

lemma move_down_same [simp]:
  "timer_of (move_down lev sh m W) = timer_of W"
  "current_time (move_down lev sh m W) = current_time W"
  by (simp_all add: move_down_def list_init_def fold_add_tail)

lemma check_upper_levels_eq:
  "timer_check_upper_levels t 0 0 W =
     move_down 0 0 (t mod 64)
       (if t mod 64 = 0 then move_down 1 6 (t div 64 mod 64) W else W)"
  by (simp add: timer_check_upper_levels.simps [of t 0 0] timer_check_upper_levels.simps [of "t div 64" "Suc 0" 6]
      wheel_simps move_down_def Let_def)

text \<open>Two numbers at most 64 apart that agree modulo 64.\<close>

lemma mod_window:
  fixes a r :: nat
  assumes "a < r" "r \<le> a + 64" "r mod 64 = (a + 1) mod 64"
  shows "r = a + 1"
proof -
  have "(r - (a + 1)) mod 64 = 0" using assms(3) assms(1)
    by (metis Suc_eq_plus1 Suc_leI mod_eq_dvd_iff_nat dvd_imp_mod_0)
  moreover have "r - (a + 1) < 64" using assms by linarith
  ultimately show ?thesis using assms(1) by simp
qed

text \<open>The hand of level \<open>k\<close> moves only at multiples of \<open>64 ^ k\<close>.\<close>

lemma div_step:
  fixes pos :: nat
  shows "(pos + 1) div 64 ^ k = (if (pos + 1) mod 64 ^ k = 0 then pos div 64 ^ k + 1 else pos div 64 ^ k)"
  by (metis One_nat_def Suc_eq_plus1 div_Suc mod_Suc)

lemma slot_due:
  assumes "slot_ok k ((pos + 1) div 64 ^ k mod 64) pos r" "(pos + 1) mod 64 ^ k = 0"
  shows "r div 64 ^ k = (pos + 1) div 64 ^ k"
proof -
  have "(pos + 1) div 64 ^ k = pos div 64 ^ k + 1" using div_step assms(2) by simp
  with assms mod_window show ?thesis by (auto simp: slot_ok_def)
qed

lemma slot_other:
  assumes "slot_ok k s pos r" "\<not> ((pos + 1) mod 64 ^ k = 0 \<and> s = (pos + 1) div 64 ^ k mod 64)"
  shows "slot_ok k s (pos + 1) r"
proof (cases "(pos + 1) mod 64 ^ k = 0")
  case True
  then have "(pos + 1) div 64 ^ k = pos div 64 ^ k + 1" using div_step by simp
  moreover from this have "r div 64 ^ k \<noteq> (pos + 1) div 64 ^ k" using assms True by (auto simp: slot_ok_def)
  ultimately show ?thesis using assms(1) by (auto simp: slot_ok_def)
next
  case False
  then have "(pos + 1) div 64 ^ k = pos div 64 ^ k" using div_step by simp
  then show ?thesis using assms(1) by (simp add: slot_ok_def)
qed

lemma slot_down:
  assumes r: "r div 64 ^ (k + 1) = (pos + 1) div 64 ^ (k + 1)" and i: "(pos + 1) mod 64 ^ (k + 1) = 0"
  shows "slot_ok k (r div 64 ^ k mod 64) pos r"
proof -
  have "(pos + 1) mod 64 ^ k = 0"
    using i by (metis dvd_imp_mod_0 dvd_trans le_imp_power_dvd le_add1 mod_0_imp_dvd)
  then have p: "(pos + 1) div 64 ^ k = pos div 64 ^ k + 1" using div_step by simp
  have q: "r div 64 ^ (k + 1) = r div 64 ^ k div 64"
    "(pos + 1) div 64 ^ (k + 1) = (pos + 1) div 64 ^ k div 64"
    by (simp_all add: div_mult2_eq [symmetric] mult.commute)
  have "(pos + 1) div 64 ^ k mod 64 = 0"
    using i by (metis mod_mult2_eq add_eq_0_iff_both_eq_0 mult_eq_0_iff power_Suc2 Suc_eq_plus1
        power_eq_0_iff zero_neq_numeral)
  then have "64 * ((pos + 1) div 64 ^ k div 64) = (pos + 1) div 64 ^ k"
    using mult_div_mod_eq [of 64 "(pos + 1) div 64 ^ k"] by linarith
  then have "(pos + 1) div 64 ^ k \<le> r div 64 ^ k" "r div 64 ^ k < (pos + 1) div 64 ^ k + 64"
    using r q by linarith+
  with p show ?thesis by (simp add: slot_ok_def)
qed

lemma drop_bit_level: "drop_bit (6 * k) (r::nat) = r div 64 ^ k"
  by (simp add: drop_bit_eq_div power_mult)

lemma pending_move_down:
  "pending (move_down lev sh m W) = pending W"
proof
  show "pending (move_down lev sh m W) \<subseteq> pending W"
    by (auto simp: pending_def move_down_lists split: if_splits)
  show "pending W \<subseteq> pending (move_down lev sh m W)"
  proof
    fix p assume "p \<in> pending W"
    then obtain k s where p: "p \<in> set (timerlists W k s)" by (auto simp: pending_def)
    show "p \<in> pending (move_down lev sh m W)"
    proof (cases "k = lev + 1 \<and> s = m")
      case True
      with p have "p \<in> set (timerlists (move_down lev sh m W) lev (drop_bit sh (runat_of W p) mod 64))"
        by (simp add: move_down_lists)
      then show ?thesis unfolding pending_def by blast
    next
      case False
      with p have "p \<in> set (timerlists (move_down lev sh m W) k s)" by (auto simp: move_down_lists)
      then show ?thesis unfolding pending_def by blast
    qed
  qed
qed

lemma move_down_ok:
  assumes ok: "wheel_ok W pos" and i: "(pos + 1) mod 64 ^ (lev + 1) = 0" and lev: "lev < 2"
    and m: "m = (pos + 1) div 64 ^ (lev + 1) mod 64"
  shows "wheel_ok (move_down lev (6 * lev) m W) pos"
proof -
  let ?W = "move_down lev (6 * lev) m W"
  note D = wheel_okD [OF ok]
  have src: "p \<in> set (timerlists W k s) \<or> (k = lev \<and> p \<in> set (timerlists W (lev + 1) m) \<and>
      runat_of W p div 64 ^ lev mod 64 = s)" if "p \<in> set (timerlists ?W k s)" for p k s
    using that by (auto simp: move_down_lists drop_bit_level split: if_splits)
  have gone: "p \<notin> set (timerlists ?W (lev + 1) m)" for p by (simp add: move_down_lists)
  have slot: "k < 3 \<and> slot_ok k s pos (runat_of W p)" if "p \<in> set (timerlists ?W k s)" for p k s
  proof (cases "p \<in> set (timerlists W k s)")
    case True
    with D(2,3) show ?thesis by blast
  next
    case False
    with src [OF that] have q: "k = lev" "p \<in> set (timerlists W (lev + 1) m)"
      "runat_of W p div 64 ^ lev mod 64 = s" by auto
    have "runat_of W p div 64 ^ (lev + 1) = (pos + 1) div 64 ^ (lev + 1)"
      by (rule slot_due [OF D(3) [OF q(2), unfolded m] i])
    from slot_down [OF this i] q lev show ?thesis by simp
  qed
  have dis: "distinct (timerlists ?W k s)" for k s
  proof -
    have "set (timerlists W lev s) \<inter> set (timerlists W (lev + 1) m) = {}"
      using D(4) [of _ lev s "lev + 1" m] by auto
    then show ?thesis using D(1) by (auto simp: move_down_lists)
  qed
  have uni: "k = k' \<and> s = s'"
    if "p \<in> set (timerlists ?W k s)" "p \<in> set (timerlists ?W k' s')" for p k s k' s'
  proof -
    have "(k, s) \<noteq> (lev + 1, m)" "(k', s') \<noteq> (lev + 1, m)" using that gone by auto
    then show ?thesis using src [OF that(1)] src [OF that(2)] D(4) by (metis)
  qed
  show ?thesis unfolding wheel_ok_def using slot dis uni by simp
qed

text \<open>What the upper levels hand down before second \<open>pos + 1\<close> is taken out.\<close>

lemma check_upper_levels_ok:
  assumes ok: "wheel_ok W pos" and i: "(pos + 1) mod 64 = 0"
  defines "W' \<equiv> timer_check_upper_levels ((pos + 1) div 64) 0 0 W"
  shows "wheel_ok W' pos" and "pending W' = pending W" and "timer_of W' = timer_of W"
    and "current_time W' = current_time W"
    and "timerlists W' 1 ((pos + 1) div 64 mod 64) = []"
    and "(pos + 1) mod 4096 = 0 \<Longrightarrow> timerlists W' 2 ((pos + 1) div 4096 mod 64) = []"
proof -
  let ?t = "(pos + 1) div 64"
  let ?W1 = "if ?t mod 64 = 0 then move_down 1 6 (?t div 64 mod 64) W else W"
  have W': "W' = move_down 0 0 (?t mod 64) ?W1" by (simp add: W'_def check_upper_levels_eq)
  have t: "?t div 64 = (pos + 1) div 64 ^ 2" by (simp add: div_mult2_eq [symmetric])
  have i2: "(pos + 1) mod 64 ^ 2 = 0 \<longleftrightarrow> ?t mod 64 = 0"
    using i mod_mult2_eq [of "pos + 1" 64 64] by simp
  have "wheel_ok (move_down 1 6 (?t div 64 mod 64) W) pos" if "?t mod 64 = 0"
    using move_down_ok [OF ok, of 1 "?t div 64 mod 64"] that i2 t by (simp add: numeral_2_eq_2)
  then have ok1: "wheel_ok ?W1 pos" using ok by simp
  show "wheel_ok W' pos" unfolding W'
    using move_down_ok [OF ok1, of 0 "?t mod 64"] i by simp
  show "pending W' = pending W" unfolding W' by (simp add: pending_move_down)
  show "timer_of W' = timer_of W" "current_time W' = current_time W" unfolding W' by simp_all
  show "timerlists W' 1 (?t mod 64) = []" unfolding W' by (simp add: move_down_lists)
  show "timerlists W' 2 ((pos + 1) div 4096 mod 64) = []" if "(pos + 1) mod 4096 = 0"
    using that i2 t unfolding W' by (simp add: move_down_lists)
qed

subsection \<open>One second of the wheel\<close>

definition mark_running :: "'p set \<Rightarrow> ('p \<Rightarrow> timer) \<Rightarrow> 'p \<Rightarrow> timer" where
  "mark_running D tm p = (if p \<in> D then (tm p)\<lparr>opts := opts (tm p) OR PTIMER_IS_RUNNING\<rparr> else tm p)"

lemma mark_running_fields [simp]:
  "runat (mark_running D tm p) = runat (tm p)" "numsec (mark_running D tm p) = numsec (tm p)"
  "level (mark_running D tm p) = level (tm p)"
  by (simp_all add: mark_running_def)

lemma mark_running_Un: "mark_running D (mark_running E tm) = mark_running (D \<union> E) tm"
  by (auto simp: mark_running_def fun_eq_iff)

lemma fold_mark:
  "timer_of (fold (\<lambda>p. set_timer p (\<lambda>t. t\<lparr>opts := opts t OR PTIMER_IS_RUNNING\<rparr>)) ps W) =
     mark_running (set ps) (timer_of W)"
  "timerlists (fold (\<lambda>p. set_timer p (\<lambda>t. t\<lparr>opts := opts t OR PTIMER_IS_RUNNING\<rparr>)) ps W) = timerlists W"
  "current_time (fold (\<lambda>p. set_timer p (\<lambda>t. t\<lparr>opts := opts t OR PTIMER_IS_RUNNING\<rparr>)) ps W) = current_time W"
  by (induction ps arbitrary: W) (auto simp: set_timer_def mark_running_def fun_eq_iff)

lemma prepare_second_eq:
  assumes "V = (if i mod 64 = 0 then timer_check_upper_levels (i div 64) 0 0 W else W)"
  shows "timer_prepare_second i (W, out) =
     (V\<lparr>timerlists := (timerlists V)(0 := (timerlists V 0)(i mod 64 := [])),
        timer_of := mark_running (set (timerlists V 0 (i mod 64))) (timer_of V)\<rparr>,
      out @ timerlists V 0 (i mod 64))"
  by (simp add: timer_prepare_second_def assms Let_def wheel_simps list_init_def fold_mark)

lemma prepare_second_ok:
  assumes ok: "wheel_ok W pos" and "timer_prepare_second (pos + 1) (W, out) = (W', out')"
  shows "\<exists>due. out' = out @ due \<and> distinct due \<and> set due = {p \<in> pending W. runat_of W p = pos + 1} \<and>
    wheel_ok W' (pos + 1) \<and> pending W' = pending W - set due \<and>
    timer_of W' = mark_running (set due) (timer_of W) \<and> current_time W' = current_time W"
proof -
  let ?i = "pos + 1"
  define V where "V = (if ?i mod 64 = 0 then timer_check_upper_levels (?i div 64) 0 0 W else W)"
  let ?due = "timerlists V 0 (?i mod 64)"
  have V: "wheel_ok V pos" "pending V = pending W" "timer_of V = timer_of W" "current_time V = current_time W"
    using check_upper_levels_ok [OF ok] ok by (auto simp: V_def)
  have V1: "timerlists V 1 (?i div 64 mod 64) = []" if "?i mod 64 = 0"
    using check_upper_levels_ok(5) [OF ok that] that by (simp add: V_def)
  have V2: "timerlists V 2 (?i div 4096 mod 64) = []" if "?i mod 4096 = 0"
  proof -
    have "?i mod 64 = 0" using that mod_mult2_eq [of ?i 64 64] by simp
    with check_upper_levels_ok(6) [OF ok this that] show ?thesis by (simp add: V_def)
  qed
  note D = wheel_okD [OF V(1)]
  have out': "out' = out @ ?due" and W': "W' = V\<lparr>timerlists := (timerlists V)(0 := (timerlists V 0)(?i mod 64 := [])),
      timer_of := mark_running (set ?due) (timer_of V)\<rparr>"
    using assms(2) unfolding prepare_second_eq [OF V_def] by auto
  have placed: "p \<in> set (timerlists W' k s) \<longleftrightarrow> p \<in> set (timerlists V k s) \<and> (k, s) \<noteq> (0, ?i mod 64)" for p k s
    by (simp add: W')
  have due: "runat_of W p = ?i" if "p \<in> set ?due" for p
    using slot_due [of 0 pos] D(3) [OF that] V(3) by simp
  have later: "slot_ok k s ?i (runat_of W p)" if "p \<in> set (timerlists W' k s)" for p k s
  proof (rule slot_other)
    from that have p: "p \<in> set (timerlists V k s)" and ks: "(k, s) \<noteq> (0, ?i mod 64)" unfolding placed by auto
    show "slot_ok k s pos (runat_of W p)" using D(3) [OF p] V(3) by simp
    have "k = 0 \<or> k = 1 \<or> k = 2" using D(2) [OF p] by linarith
    then show "\<not> (?i mod 64 ^ k = 0 \<and> s = ?i div 64 ^ k mod 64)"
      using p ks V1 V2 by auto
  qed
  have split: "pending W' = pending W - set ?due"
  proof -
    have "pending W' \<inter> set ?due = {}"
      using later due unfolding pending_def by (fastforce dest: slot_ok_later)
    moreover have "pending W' \<union> set ?due = pending V"
      unfolding pending_def placed by auto
    ultimately show ?thesis using V(2) by blast
  qed
  have "set ?due = {p \<in> pending W. runat_of W p = ?i}"
  proof -
    have "set ?due \<subseteq> pending W" using V(2) unfolding pending_def by blast
    moreover have "runat_of W p \<noteq> ?i" if "p \<in> pending W'" for p
      using that later unfolding pending_def by (fastforce dest: slot_ok_later)
    ultimately show ?thesis using split due by blast
  qed
  moreover have "wheel_ok W' ?i"
    unfolding wheel_ok_def
  proof (intro conjI allI impI)
    show "distinct (timerlists W' k s)" for k s using D(1) by (simp add: W')
    show "k < 3" if "p \<in> set (timerlists W' k s)" for p k s using that D(2) unfolding placed by blast
    show "slot_ok k s ?i (runat_of W' p)" if "p \<in> set (timerlists W' k s)" for p k s
      using later [OF that] V(3) by (simp add: W')
    show "k = k'" "s = s'" if "p \<in> set (timerlists W' k s)" "p \<in> set (timerlists W' k' s')" for p k s k' s'
      using that D(4) unfolding placed by blast+
  qed
  ultimately show ?thesis using out' D(1) split V W' by (intro exI [of _ ?due]) simp
qed

subsection \<open>Several seconds\<close>

lemma prepare_timers_Suc:
  "from \<le> to \<Longrightarrow> timer_prepare_timers from (Suc to) W out =
     timer_prepare_second (Suc to) (timer_prepare_timers from to W out)"
  by (simp add: timer_prepare_timers_def)

lemma prepare_timers_refl: "timer_prepare_timers t t W out = (W, out)"
  by (simp add: timer_prepare_timers_def)

lemma sorted_map_const: "(\<And>x. x \<in> set xs \<Longrightarrow> f x = c) \<Longrightarrow> sorted (map f xs)"
  by (induction xs) auto

text \<open>Turning the wheel from \<open>from\<close> to \<open>to\<close> takes out exactly the timers that are due.\<close>

definition turned :: "'p wheel \<Rightarrow> nat \<Rightarrow> 'p wheel \<Rightarrow> 'p list \<Rightarrow> bool" where
  "turned W to W' fired \<longleftrightarrow> wheel_ok W' to \<and> distinct fired \<and>
     set fired = {p \<in> pending W. runat_of W p \<le> to} \<and> sorted (map (runat_of W) fired) \<and>
     pending W' = pending W - set fired \<and> timer_of W' = mark_running (set fired) (timer_of W) \<and>
     current_time W' = current_time W"

lemma prepare_timers_ok:
  assumes ok: "wheel_ok W from" and "from \<le> to"
  shows "\<exists>fired W'. timer_prepare_timers from to W [] = (W', fired) \<and> turned W to W' fired"
  using assms(2)
proof (induction to rule: dec_induct)
  case base
  have "{p \<in> pending W. runat_of W p \<le> from} = {}" using wheel_ok_later [OF ok] by fastforce
  then show ?case using ok by (simp add: turned_def prepare_timers_refl mark_running_def fun_eq_iff)
next
  case (step to)
  then obtain fired W1 where IH: "timer_prepare_timers from to W [] = (W1, fired)" "turned W to W1 fired"
    by blast
  obtain W' out' where st: "timer_prepare_second (to + 1) (W1, fired) = (W', out')"
    by (metis prod.exhaust)
  from IH(2) have ok1: "wheel_ok W1 to" and tm: "\<And>p. runat_of W1 p = runat_of W p" and pd: "pending W1 = pending W - set fired"
    by (auto simp: turned_def)
  from prepare_second_ok [OF ok1 st, unfolded tm] obtain due where
    d: "out' = fired @ due" "distinct due" "set due = {p \<in> pending W1. runat_of W p = to + 1}"
      "wheel_ok W' (to + 1)" "pending W' = pending W1 - set due"
      "timer_of W' = mark_running (set due) (timer_of W1)" "current_time W' = current_time W1"
    by blast
  have "set out' = {p \<in> pending W. runat_of W p \<le> Suc to}"
    using d(1,3) IH(2) pd by (auto simp: turned_def)
  moreover have "distinct out'" using d(1-3) IH(2) pd by (auto simp: turned_def)
  moreover have "sorted (map (runat_of W) out')"
  proof -
    have "sorted (map (runat_of W) fired)" "\<forall>p\<in>set fired. runat_of W p \<le> to + 1"
      using IH(2) by (auto simp: turned_def)
    moreover have "sorted (map (runat_of W) due)" "\<forall>p\<in>set due. runat_of W p = to + 1"
      using d(3) sorted_map_const [of due "runat_of W" "to + 1"] by auto
    ultimately show ?thesis by (simp add: d(1) sorted_append)
  qed
  ultimately have "turned W (Suc to) W' out'"
    using d IH(2) pd by (auto simp: turned_def mark_running_Un Un_commute)
  with st IH(1) step.hyps show ?case by (simp add: prepare_timers_Suc)
qed

subsection \<open>Registering\<close>

text \<open>A timer's level fits its interval.\<close>

definition timer_ok :: "timer \<Rightarrow> bool" where
  "timer_ok t \<longleftrightarrow> level t < 3 \<and> 64 ^ level t \<le> numsec t \<and> numsec t \<le> 64 ^ (level t + 1)"

text \<open>
  Whether a timer of \<open>ns\<close> seconds that is registered at the second \<open>c\<close>, while the wheel stands at \<open>pos\<close>, gets a list its level's hand
  reaches only when the timer is due. At \<open>c = pos\<close> it always does; \<open>timer_thread\<close> writes the clock before it
  turns the wheel, and in between a long interval can wrap around.
\<close>

definition in_time :: "nat \<Rightarrow> nat \<Rightarrow> nat \<Rightarrow> nat \<Rightarrow> bool" where
  "in_time k pos c ns \<longleftrightarrow> pos \<le> c \<and> (c + ns) div 64 ^ k \<le> pos div 64 ^ k + 64"

lemma in_time_now: "ns \<le> 64 ^ (k + 1) \<Longrightarrow> in_time k pos pos ns"
proof -
  assume "ns \<le> 64 ^ (k + 1)"
  then have "(pos + ns) div 64 ^ k \<le> (pos + 64 * 64 ^ k) div 64 ^ k" by (intro div_le_mono) simp
  then show ?thesis by (simp add: in_time_def)
qed

lemma slot_ok_insert:
  assumes "64 ^ k \<le> ns" "in_time k pos c ns"
  shows "slot_ok k ((c + ns) div 64 ^ k mod 64) pos (c + ns)"
proof -
  have "pos + 64 ^ k \<le> c + ns" using assms by (simp add: in_time_def)
  then have "(pos + 64 ^ k) div 64 ^ k \<le> (c + ns) div 64 ^ k" by (rule div_le_mono)
  moreover have "(pos + 64 ^ k) div 64 ^ k = pos div 64 ^ k + 1" by (rule div_add_self2) simp
  ultimately show ?thesis using assms(2) by (simp add: slot_ok_def in_time_def)
qed

lemma list_add_tail_lists [simp]:
  "timerlists (list_add_tail k s p W) k' s' =
     (if k' = k \<and> s' = s then timerlists W k s @ [p] else timerlists W k' s')"
  "timer_of (list_add_tail k s p W) = timer_of W"
  "current_time (list_add_tail k s p W) = current_time W"
  by (simp_all add: list_add_tail_def)

lemma set_list_add_tail:
  "q \<in> set (timerlists (list_add_tail k s p W) k' s') \<longleftrightarrow>
     q \<in> set (timerlists W k' s') \<or> q = p \<and> k' = k \<and> s' = s"
  by auto

lemma set_timer_simps [simp]:
  "timerlists (set_timer p f W) = timerlists W"
  "timer_of (set_timer p f W) q = (if q = p then f (timer_of W p) else timer_of W q)"
  "current_time (set_timer p f W) = current_time W" "pending (set_timer p f W) = pending W"
  by (simp_all add: set_timer_def pending_def)

lemma wheel_ok_set_timer:
  "p \<notin> pending W \<Longrightarrow> wheel_ok (set_timer p f W) pos \<longleftrightarrow> wheel_ok W pos"
  unfolding wheel_ok_def pending_def by (auto; metis)

lemma timer_insert_fields [simp]:
  "timer_of (timer_insert p k W) = timer_of W" "current_time (timer_insert p k W) = current_time W"
  by (simp_all add: timer_insert_def)

lemma pending_insert [simp]: "pending (timer_insert p k W) = insert p (pending W)"
  unfolding pending_def timer_insert_def set_list_add_tail by blast

lemma timer_insert_ok:
  assumes ok: "wheel_ok W pos" and p: "p \<notin> pending W" and t: "timer_ok (timer_of W p)"
    and r: "runat_of W p = c + numsec (timer_of W p)" "in_time (level (timer_of W p)) pos c (numsec (timer_of W p))"
  shows "wheel_ok (timer_insert p (level (timer_of W p)) W) pos"
proof -
  let ?k = "level (timer_of W p)" and ?W = "timer_insert p (level (timer_of W p)) W"
  let ?s = "runat_of W p div 64 ^ ?k mod 64"
  note D = wheel_okD [OF ok]
  have lists: "timerlists ?W k s = (if k = ?k \<and> s = ?s then timerlists W k s @ [p] else timerlists W k s)" for k s
    using drop_bit_level [of ?k "runat_of W p"] by (simp add: timer_insert_def wheel_simps mult.commute)
  have new: "slot_ok ?k ?s pos (runat_of W p)" using slot_ok_insert t r by (simp add: timer_ok_def)
  have np: "p \<notin> set (timerlists W k s)" for k s using p by (auto simp: pending_def)
  have placed: "q \<in> set (timerlists ?W k s) \<longleftrightarrow> q \<in> set (timerlists W k s) \<or> q = p \<and> k = ?k \<and> s = ?s" for q k s
    by (auto simp: lists)
  show ?thesis unfolding wheel_ok_def
  proof (intro conjI allI impI)
    show "distinct (timerlists ?W k s)" for k s using D(1) np by (simp add: lists)
    show "k < 3" if "q \<in> set (timerlists ?W k s)" for q k s
      using that D(2) t unfolding placed timer_ok_def by blast
    show "slot_ok k s pos (runat_of ?W q)" if "q \<in> set (timerlists ?W k s)" for q k s
      using that D(3) new unfolding placed timer_insert_fields by blast
    show "k = k'" "s = s'" if "q \<in> set (timerlists ?W k s)" "q \<in> set (timerlists ?W k' s')" for q k s k' s'
      using that D(4) np unfolding placed by blast+
  qed
qed

lemma timer_level_loop_eq:
  "timer_level_loop TIMER_LEVELS 0 TIMER_ARRAY_SIZE ns =
     (if ns \<le> 64 then (0, 64) else if ns \<le> 4096 then (1, 4096) else if ns \<le> 262144 then (2, 262144)
      else (3, 16777216))"
  by (simp add: wheel_simps numeral_3_eq_3)

text \<open>The level the loop picks and the interval after the cap at \<open>64 ^ 3\<close> seconds.\<close>

definition level_for :: "nat \<Rightarrow> nat" where
  "level_for ns = (if ns \<le> 64 then 0 else if ns \<le> 4096 then 1 else 2)"

lemma ptimer_register_eq:
  "ptimer_register p ns W = timer_insert p (level_for ns)
     (set_timer p (\<lambda>t. \<lparr>numsec = min ns 262144, runat = current_time W + min ns 262144,
        level = level_for ns, opts = 0\<rparr>) W)"
  by (simp add: ptimer_register_def timer_level_loop_eq level_for_def min_def)
    (simp add: wheel_simps)

lemma level_for_ok: "0 < ns \<Longrightarrow> timer_ok \<lparr>numsec = min ns 262144, runat = r, level = level_for ns, opts = opt\<rparr>"
  by (simp add: timer_ok_def level_for_def min_def)

subsection \<open>The state between two rounds, and while callbacks run\<close>

text \<open>
  \<open>R\<close> are the timers that were taken out and run: their flag is set, they are in no list.
  \<open>pos\<close> is the second the wheel has been turned to.
\<close>

definition timers_ok :: "'p wheel \<Rightarrow> 'p set \<Rightarrow> nat \<Rightarrow> bool" where
  "timers_ok W R pos \<longleftrightarrow> wheel_ok W pos \<and> pending W \<inter> R = {} \<and>
     (\<forall>p\<in>pending W \<union> R. timer_ok (timer_of W p)) \<and> (\<forall>p\<in>pending W. opts (timer_of W p) = 0) \<and>
     (\<forall>p\<in>R. opts (timer_of W p) = 1 \<or> opts (timer_of W p) = 3)"

text \<open>
  What callers may do while the wheel stands at \<open>pos\<close>: register a fresh address for an interval that is in time, stop a
  timer that exists.
\<close>

fun call_ok :: "nat \<Rightarrow> 'p wheel \<Rightarrow> 'p set \<Rightarrow> 'p api_call \<Rightarrow> bool" where
  "call_ok pos W R (Register p ns) \<longleftrightarrow>
     0 < ns \<and> p \<notin> pending W \<union> R \<and> in_time (level_for ns) pos (current_time W) (min ns 262144)"
| "call_ok pos W R (Stop p) \<longleftrightarrow> p \<in> pending W \<union> R"


lemma level_in_time: "in_time (level_for ns) pos pos (min ns 262144)"
  by (rule in_time_now) (simp add: level_for_def)

lemma timers_okD:
  assumes "timers_ok W R pos"
  shows "wheel_ok W pos" and "pending W \<inter> R = {}" and "p \<in> pending W \<union> R \<Longrightarrow> timer_ok (timer_of W p)"
    and "p \<in> pending W \<Longrightarrow> opts (timer_of W p) = 0"
    and "p \<in> R \<Longrightarrow> opts (timer_of W p) = 1 \<or> opts (timer_of W p) = 3"
  using assms unfolding timers_ok_def by blast+

lemma register_ok:
  assumes ok: "timers_ok W R pos" and c: "call_ok pos W R (Register p ns)"
  shows "timers_ok (ptimer_register p ns W) R pos" and "pending (ptimer_register p ns W) = insert p (pending W)"
    and "current_time (ptimer_register p ns W) = current_time W"
    and "\<And>q. q \<noteq> p \<Longrightarrow> timer_of (ptimer_register p ns W) q = timer_of W q"
    and "runat_of (ptimer_register p ns W) p = current_time W + min ns 262144"
    and "numsec (timer_of (ptimer_register p ns W) p) = min ns 262144"
proof -
  let ?V = "set_timer p (\<lambda>t. \<lparr>numsec = min ns 262144, runat = current_time W + min ns 262144,
        level = level_for ns, opts = 0\<rparr>) W"
  have e: "ptimer_register p ns W = timer_insert p (level (timer_of ?V p)) ?V"
    by (simp add: ptimer_register_eq)
  note D = timers_okD [OF ok]
  have "wheel_ok (ptimer_register p ns W) pos" unfolding e
    by (rule timer_insert_ok [where c = "current_time W"]) (use D(1) c in \<open>simp_all add: wheel_ok_set_timer level_for_ok\<close>)
  moreover show "pending (ptimer_register p ns W) = insert p (pending W)"
    "current_time (ptimer_register p ns W) = current_time W"
    "\<And>q. q \<noteq> p \<Longrightarrow> timer_of (ptimer_register p ns W) q = timer_of W q"
    "runat_of (ptimer_register p ns W) p = current_time W + min ns 262144"
    "numsec (timer_of (ptimer_register p ns W) p) = min ns 262144"
    by (simp_all add: ptimer_register_eq)
  ultimately show "timers_ok (ptimer_register p ns W) R pos"
    using D c level_for_ok [of ns] unfolding timers_ok_def
    by (auto simp: ptimer_register_eq)
qed



lemma running_flag [simp]:
  "(0 :: u32) AND PTIMER_IS_RUNNING = 0" "(1 :: u32) AND PTIMER_IS_RUNNING \<noteq> 0"
  "(3 :: u32) AND PTIMER_IS_RUNNING \<noteq> 0" "(1 :: u32) OR PTIMER_STOP_AFTER_RUN = 3"
  "(3 :: u32) OR PTIMER_STOP_AFTER_RUN = 3" "(0 :: u32) OR PTIMER_IS_RUNNING = 1"
  "(1 :: u32) AND PTIMER_STOP_AFTER_RUN = 0" "(3 :: u32) AND PTIMER_STOP_AFTER_RUN \<noteq> 0"
  by (simp_all add: PTIMER_IS_RUNNING_def PTIMER_STOP_AFTER_RUN_def)






subsection \<open>The interface the rest of the client sees\<close>

text \<open>Advancing through the clock readings \<open>us\<close>; the lists handed out at each of them.\<close>

fun advance_all :: "(nat \<Rightarrow> nat \<Rightarrow> 's \<Rightarrow> 's \<times> 'p list) \<Rightarrow> nat \<Rightarrow> nat list \<Rightarrow> 's \<Rightarrow> 'p list list" where
  "advance_all advance t [] S = []"
| "advance_all advance t (u # us) S =
     snd (advance t u S) # advance_all advance u us (fst (advance t u S))"

text \<open>
  A timer service: what is registered stays pending, with its due second, until the advance
  that reaches the due second hands it out.
\<close>

locale timer_service =
  fixes inv :: "'s \<Rightarrow> nat \<Rightarrow> bool"
    and waiting :: "'s \<Rightarrow> 'p set"
    and due :: "'s \<Rightarrow> 'p \<Rightarrow> nat"
    and advance :: "nat \<Rightarrow> nat \<Rightarrow> 's \<Rightarrow> 's \<times> 'p list"
  assumes waiting_later: "inv S t \<Longrightarrow> p \<in> waiting S \<Longrightarrow> t < due S p"
    and advance_inv: "inv S t \<Longrightarrow> t \<le> u \<Longrightarrow> inv (fst (advance t u S)) u"
    and advance_out: "inv S t \<Longrightarrow> t \<le> u \<Longrightarrow>
      set (snd (advance t u S)) = {p \<in> waiting S. due S p \<le> u} \<and> distinct (snd (advance t u S))"
    and advance_rest: "inv S t \<Longrightarrow> t \<le> u \<Longrightarrow>
      waiting (fst (advance t u S)) = waiting S - set (snd (advance t u S))"
    and advance_due: "inv S t \<Longrightarrow> t \<le> u \<Longrightarrow> due (fst (advance t u S)) p = due S p"
begin

lemma advance_all_sub:
  "inv S t \<Longrightarrow> sorted (t # us) \<Longrightarrow> i < length us \<Longrightarrow> set (advance_all advance t us S ! i) \<subseteq> waiting S"
proof (induction us arbitrary: t S i)
  case (Cons u us)
  have tu: "t \<le> u" using Cons.prems(2) by simp
  note o = advance_out [OF Cons.prems(1) tu] and r = advance_rest [OF Cons.prems(1) tu]
  show ?case
  proof (cases i)
    case 0
    with o show ?thesis by auto
  next
    case (Suc j)
    with Cons.IH [OF advance_inv [OF Cons.prems(1) tu], of j] Cons.prems r show ?thesis by auto
  qed
qed simp

lemma advance_all_out:
  "inv S t \<Longrightarrow> sorted (t # us) \<Longrightarrow> p \<in> waiting S \<Longrightarrow> i < length us \<Longrightarrow>
   p \<in> set (advance_all advance t us S ! i) \<longleftrightarrow> (if i = 0 then t else us ! (i - 1)) < due S p \<and> due S p \<le> us ! i"
proof (induction us arbitrary: t S i)
  case (Cons u us)
  note o = advance_out [OF Cons.prems(1), of u] and r = advance_rest [OF Cons.prems(1), of u]
  have tu: "t \<le> u" using Cons.prems(2) by simp
  show ?case
  proof (cases i)
    case 0
    then show ?thesis using o tu Cons.prems(3) waiting_later [OF Cons.prems(1,3)] by auto
  next
    case (Suc j)
    let ?S = "fst (advance t u S)"
    note inv' = advance_inv [OF Cons.prems(1) tu] and due' = advance_due [OF Cons.prems(1) tu, of p]
    show ?thesis
    proof (cases "due S p \<le> u")
      case True
      have np: "p \<notin> waiting ?S" using True r o tu Cons.prems(3) by simp
      have "p \<notin> set (advance_all advance u us ?S ! j)"
        using np advance_all_sub [OF inv', of us j] Cons.prems(2,4) Suc by auto
      moreover have "u \<le> (u # us) ! j" using Cons.prems(2,4) Suc
        by (cases j) (auto simp: sorted_wrt_nth_less)
      ultimately show ?thesis using True Suc by auto
    next
      case False
      then have "p \<in> waiting ?S" using r o tu Cons.prems(3) by simp
      from Cons.IH [OF inv' _ this, of j] Cons.prems(2,4) Suc due' False show ?thesis
        by (cases j) auto
    qed
  qed
qed simp

end

abbreviation wheel_turn :: "nat \<Rightarrow> nat \<Rightarrow> 'p wheel \<Rightarrow> 'p wheel \<times> 'p list" where
  "wheel_turn from to W \<equiv> timer_prepare_timers from to W []"

interpretation wheel: timer_service wheel_ok pending runat_of wheel_turn
proof
  fix W :: "'p wheel" and t u p
  show "t < runat_of W p" if "wheel_ok W t" "p \<in> pending W" using that by (rule wheel_ok_later)
  assume "wheel_ok W t" "t \<le> u"
  then obtain fired W' where w: "wheel_turn t u W = (W', fired)" "turned W u W' fired"
    using prepare_timers_ok by blast
  then show "wheel_ok (fst (wheel_turn t u W)) u"
    "set (snd (wheel_turn t u W)) = {p \<in> pending W. runat_of W p \<le> u} \<and> distinct (snd (wheel_turn t u W))"
    "pending (fst (wheel_turn t u W)) = pending W - set (snd (wheel_turn t u W))"
    "runat_of (fst (wheel_turn t u W)) p = runat_of W p"
    by (simp_all add: turned_def)
qed

subsection \<open>Properties\<close>

definition empty_wheel :: "nat \<Rightarrow> nat wheel" where
  "empty_wheel clock = ptimer_init clock
     \<lparr>current_time = 0, timerlists = (\<lambda>k s. []), timer_of = (\<lambda>p. \<lparr>numsec = 1, runat = 0, level = 0, opts = 0\<rparr>)\<rparr>"

lemma empty_wheel_ok: "timers_ok (empty_wheel t) {} t" "pending (empty_wheel t) = {}"
    "current_time (empty_wheel t) = t"
  by (auto simp: empty_wheel_def ptimer_init_def timers_ok_def wheel_ok_def pending_def)

text \<open>
  Turning the wheel from one second to a later one, over any number of seconds, takes out
  exactly the timers due by then, each once and in the order they are due; all others stay in
  the wheel, and the wheel's invariant (every timer is in the list the hand of its level reaches
  exactly when the timer is due) is kept.
\<close>

theorem timer_prepare_timers_exact:
  assumes "wheel_ok W from" "from \<le> to" "timer_prepare_timers from to W [] = (W', fired)"
  shows "set fired = {p \<in> pending W. runat_of W p \<le> to} \<and> distinct fired \<and>
    sorted (map (runat_of W) fired) \<and> pending W' = pending W - set fired \<and> wheel_ok W' to"
  using prepare_timers_ok [OF assms(1,2)] assms(3) by (auto simp: turned_def)

lemma one_timer:
  assumes "0 < ns" "W = ptimer_register 1 ns (empty_wheel t)"
  shows "timers_ok W {} t" "pending W = {1}" "runat_of W 1 = t + min ns 262144"
  using register_ok [OF empty_wheel_ok(1) [of t], of 1 ns] assms level_in_time [of ns t]
    empty_wheel_ok(2,3) [of t] by simp_all

theorem timer_prepare_timers_exact_witness:
  "\<exists>W' fired. timer_prepare_timers 5 300 (ptimer_register 1 70 (empty_wheel 5)) [] = (W', fired) \<and>
     set fired = {1}"
proof -
  define W where "W = ptimer_register 1 70 (empty_wheel 5)"
  have ok: "timers_ok W {} 5" and pd: "pending W = {1}" and rt: "runat_of W 1 = 75"
    using one_timer [OF _ W_def] by simp_all
  obtain W' fired where e: "timer_prepare_timers 5 300 W [] = (W', fired)" by (metis prod.exhaust)
  have "set fired = {p \<in> pending W. runat_of W p \<le> 300}"
    using timer_prepare_timers_exact [OF timers_okD(1) [OF ok] _ e] by simp
  also have "\<dots> = {1}" unfolding pd using rt by auto
  finally show ?thesis using e unfolding W_def by blast
qed


lemma pending_fold_set_time [simp]: "pending (W\<lparr>current_time := c\<rparr>) = pending W"
  by (simp add: pending_def)

lemma wheel_ok_set_time [simp]: "wheel_ok (W\<lparr>current_time := c\<rparr>) pos = wheel_ok W pos"
  by (simp add: wheel_ok_def)


text \<open>The wheel alone hands a registered timer out once, when the hand passes its second.\<close>

lemma wheel_hands_out_once:
  assumes "timers_ok W {} (current_time W)" "p \<notin> pending W" "0 < ns"
    and "sorted (current_time W # us)" "i < length us"
  shows "p \<in> set (advance_all wheel_turn (current_time W) us (ptimer_register p ns W) ! i) \<longleftrightarrow>
    (if i = 0 then current_time W else us ! (i - 1)) < current_time W + min ns 262144 \<and>
    current_time W + min ns 262144 \<le> us ! i"
proof -
  have c: "call_ok (current_time W) W {} (Register p ns)" using assms(2,3) level_in_time by simp
  note r = register_ok [OF assms(1) c]
  from wheel.advance_all_out [OF timers_okD(1) [OF r(1)] assms(4) _ assms(5), of p] r(2,5) show ?thesis by simp
qed

text \<open>A timer that is not stopped keeps its second and its interval; a registered one gets them.\<close>

definition waits :: "'p wheel \<Rightarrow> 'p \<Rightarrow> nat \<Rightarrow> nat \<Rightarrow> bool" where
  "waits W p due ns \<longleftrightarrow> p \<in> pending W \<and> runat_of W p = due \<and> numsec (timer_of W p) = ns"

lemma waits_set_time [simp]: "waits (W\<lparr>current_time := c\<rparr>) p due ns = waits W p due ns"
  by (simp add: waits_def)




















lemma concat_nothing [simp]: "concat (map (\<lambda>q. []) xs) = []"
  by (induction xs) simp_all



text \<open>
  The clock is written before the timer lock is taken. A timer registered in between is placed
  as if the wheel had already been turned: registered for 4096 seconds while the clock reads 64
  and the wheel still stands at 63, it is handed out at once.
\<close>

theorem register_before_turn_fires_at_once:
  "snd (timer_prepare_timers 63 64 (ptimer_register p 4096 ((empty_wheel 63)\<lparr>current_time := 64\<rparr>)) []) = [p]"
  by (simp add: timer_prepare_timers_def prepare_second_eq [OF refl] check_upper_levels_eq move_down_lists
      ptimer_register_eq timer_insert_def level_for_def empty_wheel_def ptimer_init_def wheel_simps
      drop_bit_eq_div)

end
