(* ===== verification/PCrc32c.thy ===== *)
theory PCrc32c
  imports PCrcTables
begin

text \<open>
  \<open>pclsync/pcrc32c.c\<close>: the CRC-32C routines (byte table, slicing by eight, the x86 instruction with
  three interleaved streams) and the 256-bit streaming hash built on them.

  Memory is the list of its bytes; \<open>addr\<close> is the address of the first one, which decides how
  many bytes the alignment loops take. The target is the little-endian x86-64 of the build. The
  \<open>crc32b\<close> and \<open>crc32q\<close> instructions are parameters; \<open>crc_instr\<close> states what the processor
  manual documents of them.
\<close>

subsection \<open>Software checksum\<close>

text \<open>\<open>crc32c_table[k][w & 0xff]\<close>.\<close>

definition crc_tab :: "nat \<Rightarrow> 'a::len word \<Rightarrow> u32" where
  "crc_tab k w = crc32c_table ! k ! unat (w AND 0xff)"

definition CRC32C_8BIT :: "u32 \<Rightarrow> u8 \<Rightarrow> u32" where
  "CRC32C_8BIT crc b = crc_tab 0 (crc XOR ucast b) XOR drop_bit 8 crc"

definition CRC32C_64BIT :: "u32 \<Rightarrow> bytes \<Rightarrow> u32" where
  "CRC32C_64BIT crc data =
     (let crc = crc XOR le_load (take 4 data) in
      crc_tab 7 crc XOR crc_tab 6 (drop_bit 8 crc) XOR crc_tab 5 (drop_bit 16 crc) XOR
      crc_tab 4 (drop_bit 24 crc) XOR crc_tab 3 (data ! 4) XOR crc_tab 2 (data ! 5) XOR
      crc_tab 1 (data ! 6) XOR crc_tab 0 (data ! 7))"

text \<open>The loops of the routines; \<open>step8\<close> and \<open>step64\<close> are the byte and the word step.\<close>

fun crc_align :: "nat \<Rightarrow> ('c \<Rightarrow> u8 \<Rightarrow> 'c) \<Rightarrow> 'c \<Rightarrow> nat \<Rightarrow> bytes \<Rightarrow> 'c \<times> bytes" where
  "crc_align a step8 crc addr [] = (crc, [])"
| "crc_align a step8 crc addr (b # data) =
     (if addr mod a \<noteq> 0 then crc_align a step8 (step8 crc b) (addr + 1) data else (crc, b # data))"

text \<open>\<open>n\<close> word steps in a row, and the loop that makes them while \<open>8 * n\<close> bytes are left.\<close>

fun crc_words :: "('c \<Rightarrow> bytes \<Rightarrow> 'c) \<Rightarrow> nat \<Rightarrow> 'c \<Rightarrow> bytes \<Rightarrow> 'c \<times> bytes" where
  "crc_words step64 0 crc data = (crc, data)"
| "crc_words step64 (Suc n) crc data = crc_words step64 n (step64 crc (take 8 data)) (drop 8 data)"

lemma crc_words_rest: "snd (crc_words step64 n crc data) = drop (8 * n) data"
  by (induction n arbitrary: crc data) (simp_all add: add.commute)

lemma crc_words_shorter:
  "(c', d') = crc_words step64 n c d \<Longrightarrow> 0 < n \<Longrightarrow> 8 * n \<le> length d \<Longrightarrow> length d' < length d"
  using crc_words_rest [of step64 n c d] by (cases "crc_words step64 n c d") auto

function crc_unrolled :: "('c \<Rightarrow> bytes \<Rightarrow> 'c) \<Rightarrow> nat \<Rightarrow> 'c \<Rightarrow> bytes \<Rightarrow> 'c \<times> bytes" where
  "crc_unrolled step64 n crc data =
     (if 0 < n \<and> 8 * n \<le> length data
      then (case crc_words step64 n crc data of (crc', data') \<Rightarrow> crc_unrolled step64 n crc' data')
      else (crc, data))"
  by pat_completeness auto
termination by (relation "measure (\<lambda>(s, n, c, d). length d)") (auto simp: case_prod_unfold crc_words_rest)

declare crc_unrolled.simps [simp del]

definition psync_crc32c_sw :: "u32 \<Rightarrow> nat \<Rightarrow> bytes \<Rightarrow> u32" where
  "psync_crc32c_sw crc addr data =
     (let (crc, data) = crc_align 4 CRC32C_8BIT crc addr data;
          (crc, data) = crc_unrolled CRC32C_64BIT 8 crc data;
          (crc, data) = crc_unrolled CRC32C_64BIT 1 crc data
      in foldl CRC32C_8BIT crc data)"

subsection \<open>Hardware checksum\<close>

definition CRC32_PARALLEL_CHUNK :: nat where "CRC32_PARALLEL_CHUNK = 1360"

definition crc32c_shift_chunk :: "u32 \<Rightarrow> u32" where
  "crc32c_shift_chunk crc =
     crc32c_shift_chunk_table1360_0 ! unat (crc AND 0xff) XOR
     crc32c_shift_chunk_table1360_1 ! unat (drop_bit 8 crc AND 0xff) XOR
     crc32c_shift_chunk_table1360_2 ! unat (drop_bit 16 crc AND 0xff) XOR
     crc32c_shift_chunk_table1360_3 ! unat (drop_bit 24 crc)"

text \<open>
  The \<open>do ... while (data0 < end)\<close> loop over three chunks; \<open>n\<close> words are left to do, and the
  chunks start 1360 bytes apart.
\<close>

fun crc_hw_three :: "(u64 \<Rightarrow> u64 \<Rightarrow> u64) \<Rightarrow> nat \<Rightarrow> u64 \<Rightarrow> u64 \<Rightarrow> u64 \<Rightarrow> bytes \<Rightarrow> u64 \<times> u64 \<times> u64" where
  "crc_hw_three hw64 0 crc0 crc1 crc2 data = (crc0, crc1, crc2)"
| "crc_hw_three hw64 (Suc n) crc0 crc1 crc2 data =
     crc_hw_three hw64 n
       (hw64 crc0 (le_load (take 8 data)))
       (hw64 crc1 (le_load (take 8 (drop CRC32_PARALLEL_CHUNK data))))
       (hw64 crc2 (le_load (take 8 (drop (CRC32_PARALLEL_CHUNK * 2) data))))
       (drop 8 data)"

text \<open>The chunk combination: the \<open>uint32_t\<close> parameter truncates, the result is widened again.\<close>

definition crc_hw_combine :: "u64 \<times> u64 \<times> u64 \<Rightarrow> u64" where
  "crc_hw_combine r =
     (case r of (crc0, crc1, crc2) \<Rightarrow>
        (let crc0 = ucast (crc32c_shift_chunk (ucast crc0)) XOR crc1
         in ucast (crc32c_shift_chunk (ucast crc0)) XOR crc2))"

function crc_hw_chunks :: "(u64 \<Rightarrow> u64 \<Rightarrow> u64) \<Rightarrow> u64 \<Rightarrow> bytes \<Rightarrow> u64 \<times> bytes" where
  "crc_hw_chunks hw64 crc0 data =
     (if CRC32_PARALLEL_CHUNK * 3 \<le> length data
      then crc_hw_chunks hw64
             (crc_hw_combine (crc_hw_three hw64 (CRC32_PARALLEL_CHUNK div 8) crc0 0 0 data))
             (drop (CRC32_PARALLEL_CHUNK * 3) data)
      else (crc0, data))"
  by pat_completeness auto
termination by (relation "measure (\<lambda>(h, c, d). length d)") (auto simp: CRC32_PARALLEL_CHUNK_def)

declare crc_hw_chunks.simps [simp del]

definition psync_crc32c_hw ::
    "(u64 \<Rightarrow> u8 \<Rightarrow> u64) \<Rightarrow> (u64 \<Rightarrow> u64 \<Rightarrow> u64) \<Rightarrow> u64 \<Rightarrow> nat \<Rightarrow> bytes \<Rightarrow> u32" where
  "psync_crc32c_hw hw8 hw64 crc0 addr data =
     (let (crc0, data) = crc_align 8 hw8 crc0 addr data;
          (crc0, data) = crc_hw_chunks hw64 crc0 data;
          (crc0, data) = crc_unrolled (\<lambda>c d. hw64 c (le_load d)) 4 crc0 data;
          (crc0, data) = crc_unrolled (\<lambda>c d. hw64 c (le_load d)) 1 crc0 data
      in ucast (foldl hw8 crc0 data))"

text \<open>
  The dispatch. \<open>crc_hashw\<close> is 0 before the first call, then 1 (software) or 2 (hardware);
  \<open>has_hw\<close> is what \<open>cpuid\<close> reports. The result is the checksum and the new \<open>crc_hashw\<close>.
\<close>

definition psync_crc32c_init ::
    "bool \<Rightarrow> (u64 \<Rightarrow> u8 \<Rightarrow> u64) \<Rightarrow> (u64 \<Rightarrow> u64 \<Rightarrow> u64) \<Rightarrow> u32 \<Rightarrow> nat \<Rightarrow> bytes \<Rightarrow> u32 \<times> nat" where
  "psync_crc32c_init has_hw hw8 hw64 crc addr data =
     (let crc_hashw = (if has_hw then 1 else 0) + 1 in
      (if crc_hashw = 2 then psync_crc32c_hw hw8 hw64 (ucast crc) addr data
       else psync_crc32c_sw crc addr data, crc_hashw))"

definition pcrc32c_compute ::
    "nat \<Rightarrow> bool \<Rightarrow> (u64 \<Rightarrow> u8 \<Rightarrow> u64) \<Rightarrow> (u64 \<Rightarrow> u64 \<Rightarrow> u64) \<Rightarrow> u32 \<Rightarrow> nat \<Rightarrow> bytes \<Rightarrow> u32 \<times> nat" where
  "pcrc32c_compute crc_hashw has_hw hw8 hw64 crc addr data =
     (if crc_hashw = 2 then (psync_crc32c_hw hw8 hw64 (ucast crc) addr data, crc_hashw)
      else if crc_hashw = 1 then (psync_crc32c_sw crc addr data, crc_hashw)
      else psync_crc32c_init has_hw hw8 hw64 crc addr data)"

subsection \<open>The reference: one bit at a time\<close>

definition crc_byte :: "u32 \<Rightarrow> u8 \<Rightarrow> u32" where
  "crc_byte crc b = crc_bits 8 (crc XOR ucast b)"

definition crc32c :: "u32 \<Rightarrow> bytes \<Rightarrow> u32" where
  "crc32c crc data = foldl crc_byte crc data"

text \<open>What Intel's manual documents of \<open>crc32b\<close> and \<open>crc32q\<close>.\<close>

definition crc_instr :: "(u64 \<Rightarrow> u8 \<Rightarrow> u64) \<Rightarrow> (u64 \<Rightarrow> u64 \<Rightarrow> u64) \<Rightarrow> bool" where
  "crc_instr hw8 hw64 \<longleftrightarrow> (\<forall>c b. hw8 c b = ucast (crc_byte (ucast c) b)) \<and>
     (\<forall>c w. hw64 c w = ucast (crc32c (ucast c) (le_bytes 8 w)))"

lemma crc32c_append: "crc32c crc (xs @ ys) = crc32c (crc32c crc xs) ys"
  by (simp add: crc32c_def)

lemma crc32c_simps [simp]: "crc32c crc [] = crc" "crc32c crc (b # data) = crc32c (crc_byte crc b) data"
  by (simp_all add: crc32c_def)

text \<open>A checksum is linear: the start value and the data contribute separately.\<close>

lemma crc32c_linear: "crc32c (c XOR d) data = crc_bits (8 * length data) c XOR crc32c d data"
proof (induction data arbitrary: c d)
  case (Cons b data)
  have "crc_byte (c XOR d) b = crc_bits 8 c XOR crc_byte d b"
    by (simp add: crc_byte_def xor.assoc crc_bits_xor)
  then have "crc32c (c XOR d) (b # data) = crc_bits (8 * length data) (crc_bits 8 c) XOR crc32c (crc_byte d b) data"
    using Cons.IH by simp
  then show ?case by (simp add: crc_bits_add [symmetric] add.commute)
qed simp

lemma crc32c_start: "crc32c c data = crc_bits (8 * length data) c XOR crc32c 0 data"
  using crc32c_linear [of c 0 data] by simp

subsection \<open>Table steps are bit steps\<close>

lemma and_255: "w AND 0xff = take_bit 8 (w :: 'a::len word)"
  by (simp add: take_bit_eq_mask mask_eq_exp_minus_1)

lemma span_byte_basis:
  "i < 256 \<Longrightarrow> span (byte_basis n) ! i = crc_bits n (word_of_nat i)"
  using span_nth [of "crc_bits n" i 8] by (simp add: byte_basis_def crc_bits_xor)

lemma crc_tab_bits:
  assumes "k < 8"
  shows "crc_tab k w = crc_bits (8 * (k + 1)) (ucast (take_bit 8 w))"
proof -
  have "crc32c_table ! k = span (byte_basis (8 * (k + 1)))"
  proof -
    have "k \<in> {0, 1, 2, 3, 4, 5, 6, 7}" using assms by auto
    then show ?thesis
      by (auto simp: crc32c_table_def crc32c_table_0_span crc32c_table_1_span crc32c_table_2_span
          crc32c_table_3_span crc32c_table_4_span crc32c_table_5_span crc32c_table_6_span crc32c_table_7_span
          numeral_nat)
  qed
  then show ?thesis
    using span_byte_basis [OF unat_take_8, of _ w] by (simp add: crc_tab_def and_255)
qed

lemma crc_byte_split: "crc_bits 8 w = crc_bits 8 (take_bit 8 w) XOR drop_bit 8 w"
proof -
  have "w = take_bit 8 w XOR push_bit 8 (drop_bit 8 w)"
    by (rule bit_word_eqI) (auto simp: bit_simps)
  then have "crc_bits 8 w = crc_bits 8 (take_bit 8 w) XOR crc_bits 8 (push_bit 8 (drop_bit 8 w))"
    by (metis crc_bits_xor)
  moreover have "crc_bits 8 (push_bit 8 (drop_bit 8 w)) = drop_bit 8 w"
  proof -
    have "drop_bit 8 (push_bit 8 (drop_bit 8 w)) = drop_bit 8 w"
      by (rule bit_word_eqI) (auto simp: bit_simps dest: bit_imp_le_length)
    then show ?thesis by (subst crc_bits_drop) (auto simp: bit_simps)
  qed
  ultimately show ?thesis by simp
qed

lemma CRC32C_8BIT_byte: "CRC32C_8BIT crc b = crc_byte crc b"
proof -
  have "drop_bit 8 (crc XOR ucast b) = drop_bit 8 crc"
    by (rule bit_word_eqI) (auto simp: bit_simps dest: bit_imp_le_length)
  then show ?thesis
    using crc_byte_split [of "crc XOR ucast b"] by (simp add: CRC32C_8BIT_def crc_byte_def crc_tab_bits)
qed

lemma crc_bits_push:
  assumes "8 * j + 8 \<le> 32"
  shows "crc_bits (8 * (n + j)) (push_bit (8 * j) (ucast (b :: u8))) = crc_bits (8 * n) (ucast b)"
proof -
  have "drop_bit (8 * j) (push_bit (8 * j) (ucast b :: u32)) = ucast b"
    by (rule bit_word_eqI) (use assms in \<open>auto simp: bit_simps dest: bit_imp_le_length\<close>)
  then have "crc_bits (8 * j) (push_bit (8 * j) (ucast b :: u32)) = ucast b"
    by (subst crc_bits_drop) (auto simp: bit_simps)
  then show ?thesis by (simp add: distrib_left crc_bits_add)
qed

text \<open>The four bytes of a word.\<close>

definition crc_b :: "u32 \<Rightarrow> nat \<Rightarrow> u8" where
  "crc_b w j = ucast (drop_bit (8 * j) w)"

lemma word_four_bytes:
  "w = ucast (crc_b w 0) XOR push_bit 8 (ucast (crc_b w 1)) XOR push_bit 16 (ucast (crc_b w 2)) XOR
     push_bit 24 (ucast (crc_b w 3))"
  by (rule bit_word_eqI) (auto simp: bit_simps crc_b_def; presburger)

lemma ucast_take_8: "take_bit 8 (drop_bit (8 * j) (w :: u32)) = (ucast (crc_b w j) :: u32)"
  by (rule bit_word_eqI) (auto simp: bit_simps crc_b_def)

lemma crc_bits_64:
  "crc_bits 64 w = crc_tab 7 w XOR crc_tab 6 (drop_bit 8 w) XOR crc_tab 5 (drop_bit 16 w) XOR
     crc_tab 4 (drop_bit 24 w)"
proof -
  have t: "crc_tab k (drop_bit (8 * j) w) = crc_bits (8 * (k + 1)) (ucast (crc_b w j))" if "k < 8" for k j
    using that by (simp add: crc_tab_bits ucast_take_8 del: drop_bit_drop_bit)
  have p: "crc_bits 64 (push_bit (8 * j) (ucast (crc_b w j))) = crc_bits (8 * (8 - j)) (ucast (crc_b w j))"
    if "j < 4" for j
    using crc_bits_push [of j "8 - j" "crc_b w j"] that by simp
  have "crc_bits 64 w = crc_bits 64 (ucast (crc_b w 0)) XOR crc_bits 64 (push_bit 8 (ucast (crc_b w 1))) XOR
      crc_bits 64 (push_bit 16 (ucast (crc_b w 2))) XOR crc_bits 64 (push_bit 24 (ucast (crc_b w 3)))"
    by (subst word_four_bytes) (simp add: crc_bits_xor)
  then show ?thesis using p [of 1] p [of 2] p [of 3] t [of 7 0] t [of 6 1] t [of 5 2] t [of 4 3] by simp
qed

lemma crc32c_Cons: "crc32c c (b # data) =
    crc_bits (8 * (length data + 1)) c XOR crc_bits (8 * (length data + 1)) (ucast b) XOR crc32c 0 data"
proof -
  have "crc32c c (b # data) = crc_bits (8 * length data) (crc_byte c b) XOR crc32c 0 data"
    by (simp add: crc32c_start [symmetric])
  then show ?thesis
    by (simp add: crc_byte_def crc_bits_add [symmetric] crc_bits_xor add.commute xor.assoc)
qed

lemma crc_bits_load4:
  "crc_bits 64 (le_load [d0, d1, d2, d3]) = crc_bits 64 (ucast d0) XOR crc_bits 56 (ucast d1) XOR
     crc_bits 48 (ucast d2) XOR crc_bits 40 (ucast d3)"
proof -
  have "(le_load [d0, d1, d2, d3] :: u32) = ucast d0 XOR push_bit 8 (ucast d1) XOR
      push_bit 16 (ucast d2) XOR push_bit 24 (ucast d3)"
    by (rule bit_word_eqI) (auto simp: bit_simps dest: bit_imp_le_length)
  moreover have "crc_bits 64 (push_bit (8 * j) (ucast (b :: u8))) = crc_bits (8 * (8 - j)) (ucast b)"
    if "j < 4" for j b
    using crc_bits_push [of j "8 - j" b] that by simp
  from this [of 1 d1] this [of 2 d2] this [of 3 d3]
  have "crc_bits 64 (push_bit 8 (ucast d1)) = crc_bits 56 (ucast d1)"
    "crc_bits 64 (push_bit 16 (ucast d2)) = crc_bits 48 (ucast d2)"
    "crc_bits 64 (push_bit 24 (ucast d3)) = crc_bits 40 (ucast d3)" by simp_all
  ultimately show ?thesis by (simp only: crc_bits_xor)
qed

lemma list_of_8:
  assumes "length data = 8"
  obtains d0 d1 d2 d3 d4 d5 d6 d7 where "data = [d0, d1, d2, d3, d4, d5, d6, d7]"
  using assms by (auto simp: length_Suc_conv numeral_eq_Suc)

lemma CRC32C_64BIT_bytes:
  assumes "length data = 8"
  shows "CRC32C_64BIT crc data = crc32c crc data"
proof -
  from assms obtain d0 d1 d2 d3 d4 d5 d6 d7 where d: "data = [d0, d1, d2, d3, d4, d5, d6, d7]"
    by (rule list_of_8)
  let ?w = "crc XOR le_load [d0, d1, d2, d3] :: u32"
  have tb: "crc_tab k (b :: u8) = crc_bits (8 * (k + 1)) (ucast b)" if "k < 8" for k b
    using that by (simp add: crc_tab_bits take_bit_word_eq_self)
  have "CRC32C_64BIT crc data = crc_bits 64 ?w XOR crc_tab 3 d4 XOR crc_tab 2 d5 XOR crc_tab 1 d6 XOR crc_tab 0 d7"
    unfolding crc_bits_64 by (simp add: CRC32C_64BIT_def d Let_def ac_simps del: le_load.simps)
  also have "\<dots> = crc32c crc data"
    unfolding d by (simp only: crc32c_Cons crc_bits_xor crc_bits_load4 tb) (simp add: tb crc32c_Cons ac_simps)
  finally show ?thesis .
qed

subsection \<open>The loops compute the reference\<close>

text \<open>
  A routine built from a byte step and a word step that both follow the reference computes the
  reference; \<open>repr\<close> reads the checksum out of the accumulator.
\<close>

locale crc_steps =
  fixes step8 :: "'c \<Rightarrow> u8 \<Rightarrow> 'c"
    and step64 :: "'c \<Rightarrow> bytes \<Rightarrow> 'c"
    and repr :: "'c \<Rightarrow> u32"
  assumes step8: "repr (step8 c b) = crc_byte (repr c) b"
    and step64: "length d = 8 \<Longrightarrow> repr (step64 c d) = crc32c (repr c) d"
begin

lemma bytes_loop: "repr (foldl step8 c data) = crc32c (repr c) data"
  by (induction data arbitrary: c) (simp_all add: step8)

lemma align_loop:
  "crc_align a step8 c addr data = (c', data') \<Longrightarrow> crc32c (repr c') data' = crc32c (repr c) data"
  by (induction data arbitrary: c addr) (fastforce simp: step8 split: if_splits)+

lemma words_loop:
  "crc_words step64 n c data = (c', data') \<Longrightarrow> 8 * n \<le> length data \<Longrightarrow>
   crc32c (repr c') data' = crc32c (repr c) data"
proof (induction n arbitrary: c data)
  case (Suc n)
  from Suc.IH [of "step64 c (take 8 data)" "drop 8 data"] Suc.prems
  have "crc32c (repr c') data' = crc32c (repr (step64 c (take 8 data))) (drop 8 data)" by simp
  also have "\<dots> = crc32c (repr c) (take 8 data @ drop 8 data)"
    using Suc.prems(2) by (subst crc32c_append) (simp add: step64)
  finally show ?case by simp
qed simp

lemma unrolled_loop:
  "crc_unrolled step64 n c data = (c', data') \<Longrightarrow> crc32c (repr c') data' = crc32c (repr c) data"
proof (induction data arbitrary: c rule: length_induct)
  case (1 data)
  show ?case
  proof (cases "0 < n \<and> 8 * n \<le> length data")
    case True
    obtain d e where w: "crc_words step64 n c data = (d, e)" by (metis prod.exhaust)
    have "length e < length data" by (rule crc_words_shorter [OF w [symmetric]]) (use True in auto)
    moreover have "crc_unrolled step64 n d e = (c', data')"
      using 1(2) True w by (simp add: crc_unrolled.simps [of step64 n c data])
    ultimately have "crc32c (repr c') data' = crc32c (repr d) e" using 1(1) by blast
    also have "\<dots> = crc32c (repr c) data" using words_loop [OF w] True by simp
    finally show ?thesis .
  next
    case False
    with 1(2) have "(c, data) = (c', data')" by (subst (asm) crc_unrolled.simps) (simp only: if_False)
    then show ?thesis by simp
  qed
qed

lemma routine:
  assumes "crc_align a step8 c addr data = (c1, d1)" "crc_unrolled step64 m c1 d1 = (c2, d2)"
    "crc_unrolled step64 n c2 d2 = (c3, d3)"
  shows "repr (foldl step8 c3 d3) = crc32c (repr c) data"
  using align_loop [OF assms(1)] unrolled_loop [OF assms(2)] unrolled_loop [OF assms(3)]
  by (simp add: bytes_loop)

end

text \<open>The software routine follows the contract, with the checksum itself as accumulator.\<close>

interpretation sw: crc_steps CRC32C_8BIT CRC32C_64BIT id
  by unfold_locales (simp_all add: CRC32C_8BIT_byte CRC32C_64BIT_bytes)

lemma crc32c_sw: "psync_crc32c_sw crc addr data = crc32c crc data"
  using sw.routine by (auto simp: psync_crc32c_sw_def Let_def split: prod.splits)

subsection \<open>The 64-bit step of the streaming hash\<close>

text \<open>\<open>CRC32C_64BIT_UINT\<close> on a 64-bit accumulator, as \<open>fh_crc32_64sw\<close> uses it.\<close>

definition fh_crc32_64sw :: "u64 \<Rightarrow> u64 \<Rightarrow> u64" where
  "fh_crc32_64sw crc data =
     (let crc = crc XOR (data AND 0xffffffff) in
      ucast (crc_tab 7 crc XOR crc_tab 6 (drop_bit 8 crc) XOR crc_tab 5 (drop_bit 16 crc) XOR
        crc_tab 4 (drop_bit 24 crc) XOR crc_tab 3 (drop_bit 32 data) XOR crc_tab 2 (drop_bit 40 data) XOR
        crc_tab 1 (drop_bit 48 data) XOR crc_tab 0 (drop_bit 56 data)))"

lemma crc_tab_cong:
  "(\<And>i. i < 8 \<Longrightarrow> bit v i \<longleftrightarrow> bit w i) \<Longrightarrow> 8 \<le> LENGTH('a) \<Longrightarrow> 8 \<le> LENGTH('b) \<Longrightarrow> k < 8 \<Longrightarrow>
   crc_tab k (v :: 'a::len word) = crc_tab k (w :: 'b::len word)"
proof -
  assume a: "\<And>i. i < 8 \<Longrightarrow> bit v i \<longleftrightarrow> bit w i" "8 \<le> LENGTH('a)" "8 \<le> LENGTH('b)" "k < 8"
  have "(ucast (take_bit 8 v) :: u32) = ucast (take_bit 8 w)"
    by (rule bit_word_eqI) (use a in \<open>auto simp: bit_simps\<close>)
  then show ?thesis using a by (simp add: crc_tab_bits)
qed

lemma fh_crc32_64sw_bytes: "fh_crc32_64sw c w = ucast (crc32c (ucast c) (le_bytes 8 w))"
proof -
  let ?d = "le_bytes 8 w"
  have load: "bit (le_load (take 4 ?d) :: u32) i \<longleftrightarrow> i < 32 \<and> bit w i" for i
    by (auto simp: bit_le_load le_bytes_def bit_simps div_less_iff_less_mult)
  have nth: "bit (?d ! j) i \<longleftrightarrow> i < 8 \<and> bit w (8 * j + i)" if "j < 8" for i j
    using that by (auto simp: le_bytes_def bit_simps)
  have m: "w AND 0xffffffff = take_bit 32 w"
    by (simp add: take_bit_eq_mask mask_eq_exp_minus_1)
  have lo: "bit (drop_bit (8 * j) (c XOR (w AND 0xffffffff))) i \<longleftrightarrow>
      bit (drop_bit (8 * j) (ucast c XOR le_load (take 4 ?d) :: u32)) i" if "i < 8" "j < 4" for i j
    using that unfolding m by (auto simp: bit_simps load)
  note l = crc_tab_cong [OF lo]
  have hi: "crc_tab k (drop_bit (8 * j) w) = crc_tab k (?d ! j)" if "j < 8" "k < 8" for j k
    by (rule crc_tab_cong) (use that in \<open>auto simp: bit_simps nth\<close>)
  have "fh_crc32_64sw c w = ucast (CRC32C_64BIT (ucast c) ?d)"
    using l [of 0] l [of 1] l [of 2] l [of 3] hi [of 4] hi [of 5] hi [of 6] hi [of 7]
    by (simp add: fh_crc32_64sw_def CRC32C_64BIT_def Let_def)
  then show ?thesis by (simp add: CRC32C_64BIT_bytes)
qed

subsection \<open>The interleaved streams\<close>

lemma ucast_up_down [simp]: "(ucast (ucast (v :: u32) :: u64) :: u32) = v"
  by (rule bit_word_eqI) (auto simp: bit_simps)

lemma span_shift_basis:
  assumes "i < 256"
  shows "span (shift_basis k) ! i = crc_bits (8 * 1360) (push_bit (8 * k) (word_of_nat i))"
proof -
  let ?f = "\<lambda>v. crc_bits (8 * 1360) (push_bit (8 * k) v)"
  have "?f (v XOR w) = ?f v XOR ?f w" for v w by (simp only: push_bit_xor crc_bits_xor)
  from span_nth [of ?f i 8, OF this] assms have "span (map (\<lambda>b. ?f (2 ^ b)) (rev [0..<8])) ! i = ?f (word_of_nat i)"
    by simp
  then show ?thesis by (simp add: shift_basis_def push_bit_eq_mult)
qed

lemma crc32c_shift_chunk_bits: "crc32c_shift_chunk w = crc_bits (8 * 1360) w"
proof -
  have b: "drop_bit (8 * j) w AND 0xff = ucast (crc_b w j)" for j
    by (simp only: and_255 ucast_take_8)
  have nat: "span (shift_basis k) ! unat (ucast (b :: u8) :: u32) =
      crc_bits (8 * 1360) (push_bit (8 * k) (ucast b))" for k b
  proof -
    have "take_bit 8 (ucast b :: u32) = ucast b"
      by (rule bit_word_eqI) (auto simp: bit_simps dest: bit_imp_le_length)
    then have "unat (ucast b :: u32) < 256" using unat_take_8 [of "ucast b :: u32"] by simp
    from span_shift_basis [OF this, of k] show ?thesis by simp
  qed
  have top: "drop_bit 24 w = ucast (crc_b w 3)"
    by (rule bit_word_eqI) (auto simp: bit_simps crc_b_def dest: bit_imp_le_length)
  have "crc32c_shift_chunk w = crc_bits (8 * 1360) (push_bit (8 * 0) (ucast (crc_b w 0))) XOR
      crc_bits (8 * 1360) (push_bit (8 * 1) (ucast (crc_b w 1))) XOR
      crc_bits (8 * 1360) (push_bit (8 * 2) (ucast (crc_b w 2))) XOR
      crc_bits (8 * 1360) (push_bit (8 * 3) (ucast (crc_b w 3)))"
    unfolding crc32c_shift_chunk_def crc32c_shift_chunk_table1360_0_span crc32c_shift_chunk_table1360_1_span
      crc32c_shift_chunk_table1360_2_span crc32c_shift_chunk_table1360_3_span top
    using b [of 0] b [of 1] b [of 2] by (simp add: nat del: push_bit_push_bit)
  also have "\<dots> = crc_bits (8 * 1360) w"
    by (subst (5) word_four_bytes) (simp add: crc_bits_xor)
  finally show ?thesis .
qed

text \<open>The contract of the instructions, from which the word loops follow as for the tables.\<close>

locale crc_instruction =
  fixes hw8 :: "u64 \<Rightarrow> u8 \<Rightarrow> u64" and hw64 :: "u64 \<Rightarrow> u64 \<Rightarrow> u64"
  assumes instr: "crc_instr hw8 hw64"
begin

lemma hw8: "hw8 c b = ucast (crc_byte (ucast c) b)"
  using instr by (simp add: crc_instr_def)

lemma hw64: "hw64 c w = ucast (crc32c (ucast c) (le_bytes 8 w))"
  using instr by (simp add: crc_instr_def)

lemma hw64_load: "length d = 8 \<Longrightarrow> hw64 c (le_load d) = ucast (crc32c (ucast c) d)"
  by (simp add: hw64 le_bytes_le_load)

lemma three_streams:
  "CRC32_PARALLEL_CHUNK * 2 + 8 * n \<le> length data \<Longrightarrow>
   crc_hw_three hw64 n (ucast c0) (ucast c1) (ucast c2) data =
     (ucast (crc32c c0 (take (8 * n) data)),
      ucast (crc32c c1 (take (8 * n) (drop CRC32_PARALLEL_CHUNK data))),
      ucast (crc32c c2 (take (8 * n) (drop (CRC32_PARALLEL_CHUNK * 2) data))))"
proof (induction n arbitrary: c0 c1 c2 data)
  case (Suc n)
  have e: "take (8 * Suc n) d = take 8 d @ take (8 * n) (drop 8 d)" for d :: bytes
    by (simp add: take_add [symmetric])
  have "crc_hw_three hw64 (Suc n) (ucast c0) (ucast c1) (ucast c2) data =
      crc_hw_three hw64 n (ucast (crc32c c0 (take 8 data)))
        (ucast (crc32c c1 (take 8 (drop CRC32_PARALLEL_CHUNK data))))
        (ucast (crc32c c2 (take 8 (drop (CRC32_PARALLEL_CHUNK * 2) data)))) (drop 8 data)"
    using Suc.prems by (simp add: hw64_load CRC32_PARALLEL_CHUNK_def)
  also have "\<dots> = (ucast (crc32c (crc32c c0 (take 8 data)) (take (8 * n) (drop 8 data))),
      ucast (crc32c (crc32c c1 (take 8 (drop CRC32_PARALLEL_CHUNK data)))
        (take (8 * n) (drop 8 (drop CRC32_PARALLEL_CHUNK data)))),
      ucast (crc32c (crc32c c2 (take 8 (drop (CRC32_PARALLEL_CHUNK * 2) data)))
        (take (8 * n) (drop 8 (drop (CRC32_PARALLEL_CHUNK * 2) data)))))"
    using Suc.prems by (subst Suc.IH) (simp_all add: add.commute)
  finally show ?case unfolding e crc32c_append .
qed simp

lemma combined:
  assumes "CRC32_PARALLEL_CHUNK * 3 \<le> length data"
  shows "crc_hw_combine (crc_hw_three hw64 (CRC32_PARALLEL_CHUNK div 8) (ucast c0) 0 0 data) =
    ucast (crc32c c0 (take (CRC32_PARALLEL_CHUNK * 3) data))"
proof -
  let ?x = "take 1360 data" and ?y = "take 1360 (drop 1360 data)" and ?z = "take 1360 (drop 2720 data)"
  have "take (1360 + 1360) data = ?x @ ?y" "take (2720 + 1360) data = take 2720 data @ ?z"
    by (simp_all only: take_add)
  then have t: "take 4080 data = ?x @ ?y @ ?z" by simp
  have r: "crc_hw_three hw64 170 (ucast c0) 0 0 data =
      (ucast (crc32c c0 ?x), ucast (crc32c 0 ?y), ucast (crc32c 0 ?z))"
    using three_streams [of 170 data c0 0 0] assms by (simp add: CRC32_PARALLEL_CHUNK_def)
  have d: "crc32c c ?y = crc_bits (8 * 1360) c XOR crc32c 0 ?y"
    "crc32c c ?z = crc_bits (8 * 1360) c XOR crc32c 0 ?z" for c
    using crc32c_start [of c ?y] crc32c_start [of c ?z] assms
    by (simp_all add: CRC32_PARALLEL_CHUNK_def)
  have u: "(ucast (ucast (v :: u32) XOR ucast (w :: u32) :: u64) :: u32) = v XOR w"
    "(ucast v XOR ucast w :: u64) = ucast (v XOR w)" for v w
    by (rule bit_word_eqI; auto simp: bit_simps dest: bit_imp_le_length)+
  have "crc_hw_combine (crc_hw_three hw64 170 (ucast c0) 0 0 data) =
      ucast (crc32c (crc32c (crc32c c0 ?x) ?y) ?z)"
    by (simp only: r crc_hw_combine_def Let_def prod.case crc32c_shift_chunk_bits ucast_up_down u d [symmetric])
  then show ?thesis using t by (simp add: CRC32_PARALLEL_CHUNK_def crc32c_append)
qed

lemma align_ucast:
  "crc_align a hw8 (ucast (crc :: u32)) addr data = (c1, d1) \<Longrightarrow> \<exists>v :: u32. c1 = ucast v"
proof (induction data arbitrary: crc addr)
  case (Cons b data)
  show ?case
  proof (cases "addr mod a = 0")
    case False
    with Cons.prems have "crc_align a hw8 (ucast (crc_byte crc b)) (addr + 1) data = (c1, d1)"
      by (simp add: hw8 [of "ucast crc" b])
    then show ?thesis by (rule Cons.IH)
  next
    case True
    with Cons.prems show ?thesis by auto
  qed
qed auto

lemma chunks_loop:
  "crc_hw_chunks hw64 (ucast c) data = (c', data') \<Longrightarrow>
   \<exists>d. c' = ucast d \<and> crc32c d data' = crc32c c data"
proof (induction data arbitrary: c rule: length_induct)
  case (1 data)
  show ?case
  proof (cases "CRC32_PARALLEL_CHUNK * 3 \<le> length data")
    case True
    let ?d = "crc32c c (take (CRC32_PARALLEL_CHUNK * 3) data)" and ?r = "drop (CRC32_PARALLEL_CHUNK * 3) data"
    have "crc_hw_chunks hw64 (ucast ?d) ?r = (c', data')"
      using 1(2) True combined [OF True, of c] by (simp add: crc_hw_chunks.simps [of hw64 "ucast c" data])
    moreover have "length ?r < length data" using True by (simp add: CRC32_PARALLEL_CHUNK_def)
    ultimately obtain e where "c' = ucast e" "crc32c e data' = crc32c ?d ?r" using 1(1) by blast
    moreover have "crc32c ?d ?r = crc32c c data"
      by (simp only: crc32c_append [symmetric] append_take_drop_id)
    ultimately show ?thesis by auto
  next
    case False
    with 1(2) have "(ucast c, data) = (c', data')"
      by (subst (asm) crc_hw_chunks.simps) (simp only: if_False)
    then show ?thesis by auto
  qed
qed

end

sublocale crc_instruction \<subseteq> hw: crc_steps hw8 "\<lambda>c d. hw64 c (le_load d)" "ucast :: u64 \<Rightarrow> u32"
  by unfold_locales (simp_all add: hw8 hw64_load)

lemma crc32c_hw:
  assumes "crc_instr hw8 hw64"
  shows "psync_crc32c_hw hw8 hw64 (ucast crc) addr data = crc32c crc data"
proof -
  have loc: "crc_instruction hw8 hw64" by unfold_locales (rule assms)
  note S = crc_instruction.hw8 [OF loc] crc_instruction.chunks_loop [OF loc]
  have steps: "crc_steps hw8 (\<lambda>c d. hw64 c (le_load d)) (ucast :: u64 \<Rightarrow> u32)"
    by unfold_locales (simp_all add: crc_instruction.hw8 [OF loc] crc_instruction.hw64_load [OF loc])
  obtain c1 d1 where e1: "crc_align 8 hw8 (ucast crc) addr data = (c1, d1)" by (metis prod.exhaust)
  obtain c2 d2 where e2: "crc_hw_chunks hw64 c1 d1 = (c2, d2)" by (metis prod.exhaust)
  obtain c3 d3 where e3: "crc_unrolled (\<lambda>c d. hw64 c (le_load d)) 4 c2 d2 = (c3, d3)" by (metis prod.exhaust)
  obtain c4 d4 where e4: "crc_unrolled (\<lambda>c d. hw64 c (le_load d)) 1 c3 d3 = (c4, d4)" by (metis prod.exhaust)
  have c1: "crc32c (ucast c1) d1 = crc32c crc data"
    using crc_steps.align_loop [OF steps e1] by simp
  have "\<exists>v :: u32. c1 = ucast v"
    by (rule crc_instruction.align_ucast [OF loc e1])
  then obtain v :: u32 where v: "c1 = ucast v" by blast
  from S(2) [OF e2 [unfolded v]] c1 v have "crc32c (ucast c2) d2 = crc32c crc data" by auto
  with crc_steps.unrolled_loop [OF steps e3] crc_steps.unrolled_loop [OF steps e4]
    crc_steps.bytes_loop [OF steps, of c4 d4]
  show ?thesis by (simp add: psync_crc32c_hw_def e1 e2 e3 e4 [simplified])
qed

text \<open>The software step of the streaming hash meets the contract of the instruction.\<close>

lemma soft_instr: "crc_instr (\<lambda>c b. ucast (CRC32C_8BIT (ucast c) b)) fh_crc32_64sw"
  by (simp add: crc_instr_def CRC32C_8BIT_byte fh_crc32_64sw_bytes)

interpretation soft: crc_instruction "\<lambda>c b. ucast (CRC32C_8BIT (ucast c) b)" fh_crc32_64sw
  by unfold_locales (rule soft_instr)

subsection \<open>Properties\<close>

text \<open>
  C34. The checksum of a buffer, at any address and with any start value, is the bit-serial
  CRC-32C of its bytes: the byte loop, the slicing-by-eight loops over the tables and the
  loop over 64 bytes agree with the polynomial.
\<close>

theorem psync_crc32c_sw_is_crc32c: "psync_crc32c_sw crc addr data = crc32c crc data"
  by (rule crc32c_sw)

text \<open>
  C33. The hardware path, which checksums three interleaved chunks of 1360 bytes and joins them
  with the shift table, computes the same checksum, for any processor whose \<open>crc32b\<close> and
  \<open>crc32q\<close> do what is documented; so the result of \<open>pcrc32c_compute\<close> does not depend on the
  processor, nor on what the first call cached.
\<close>

theorem pcrc32c_compute_is_crc32c:
  assumes "crc_instr hw8 hw64"
  shows "fst (pcrc32c_compute crc_hashw has_hw hw8 hw64 crc addr data) = crc32c crc data"
  using crc32c_hw [OF assms] by (simp add: pcrc32c_compute_def psync_crc32c_init_def crc32c_sw)

theorem pcrc32c_compute_is_crc32c_witness:
  "fst (pcrc32c_compute 2 True (\<lambda>c b. ucast (CRC32C_8BIT (ucast c) b)) fh_crc32_64sw 7 3 [1, 2, 3]) =
     crc32c 7 [1, 2, 3]"
  by (rule pcrc32c_compute_is_crc32c) (rule soft_instr)

text \<open>
  Checksums are incremental and combine: over a concatenation, the checksum of the first part
  is the start value of the second, and the second part can also be checksummed from zero and
  joined by advancing the first checksum over its length.
\<close>

theorem psync_crc32c_sw_append:
  "psync_crc32c_sw crc addr (xs @ ys) = psync_crc32c_sw (psync_crc32c_sw crc addr xs) addr' ys \<and>
   psync_crc32c_sw crc addr (xs @ ys) =
     crc_bits (8 * length ys) (psync_crc32c_sw crc addr xs) XOR psync_crc32c_sw 0 addr' ys"
  using crc32c_start [of "crc32c crc xs" ys] by (simp add: crc32c_sw crc32c_append)

end
