(* ===== verification/PFastHash.thy ===== *)
theory PFastHash
  imports PCrc32c
begin

text \<open>
  The streaming hash of \<open>pclsync/pcrc32c.c\<close> (\<open>psync_fast_hash256\<close>), with which the client keys
  names and page contents: a state of six words, a buffer of at most 63 bytes of an unfinished
  block whose last byte counts them, and the number of bytes seen.

  The union of \<open>buff64\<close> and \<open>buff\<close> is the byte list; words are read and written little-endian.
\<close>

definition PSYNC_FAST_HASH256_BLOCK_LEN :: nat where "PSYNC_FAST_HASH256_BLOCK_LEN = 64"
definition PSYNC_FAST_HASH256_LEN :: nat where "PSYNC_FAST_HASH256_LEN = 32"

definition fh_k0 :: u64 where "fh_k0 = 0xc3a5c85c97cb3127"
definition fh_k1 :: u64 where "fh_k1 = 0xb492b66fbe98f273"
definition fh_k2 :: u64 where "fh_k2 = 0x9ae16a3b2f90404f"

type_synonym fh_state = "u64 \<times> u64 \<times> u64 \<times> u64 \<times> u64 \<times> u64"

record fh_ctx =
  fh_st :: fh_state
  fh_length :: u64
  fh_buff :: bytes

text \<open>\<open>memcpy(buf + off, bs, length bs)\<close> inside a buffer.\<close>

definition mem_write :: "nat \<Rightarrow> bytes \<Rightarrow> bytes \<Rightarrow> bytes" where
  "mem_write off bs buf = take off buf @ bs @ drop (off + length bs) buf"

text \<open>The number of buffered bytes, kept in the last byte of the buffer.\<close>

definition fh_count :: "fh_ctx \<Rightarrow> nat" where
  "fh_count ctx = unat (fh_buff ctx ! (PSYNC_FAST_HASH256_BLOCK_LEN - 1))"

definition fh_set_count :: "nat \<Rightarrow> bytes \<Rightarrow> bytes" where
  "fh_set_count n buf = buf[PSYNC_FAST_HASH256_BLOCK_LEN - 1 := word_of_nat n]"

subsection \<open>The round\<close>

definition fh_shiftmix :: "u64 \<Rightarrow> u64" where
  "fh_shiftmix val = val XOR drop_bit 47 val"

definition fh_rotate64 :: "u64 \<Rightarrow> nat \<Rightarrow> u64" where
  "fh_rotate64 val shift =
     (if shift \<noteq> 0 then drop_bit shift val OR push_bit (64 - shift) val else val)"

definition fh_hashmul3 :: "u64 \<Rightarrow> u64 \<Rightarrow> u64 \<Rightarrow> u64" where
  "fh_hashmul3 u v mul = fh_shiftmix ((fh_shiftmix ((u XOR v) * mul) XOR v) * mul) * mul"

definition fh_hashmul2 :: "u64 \<Rightarrow> u64 \<Rightarrow> u64" where
  "fh_hashmul2 u v = fh_hashmul3 u v 0x9ddfea08eb382d69"

definition fh_load64 :: "bytes \<Rightarrow> nat \<Rightarrow> u64" where
  "fh_load64 from i = le_load (take 8 (drop (8 * i) from))"

text \<open>\<open>ROUND_GEN\<close> on the 64 bytes at \<open>from\<close>, with \<open>crc\<close> the software or the hardware step.\<close>

fun fh_round :: "(u64 \<Rightarrow> u64 \<Rightarrow> u64) \<Rightarrow> bytes \<Rightarrow> fh_state \<Rightarrow> fh_state" where
  "fh_round crc from (a, b, c, d, x, y) =
     (let a = a + fh_load64 from 0;
          b = b + fh_load64 from 1;
          c = c + fh_load64 from 2;
          d = d + fh_load64 from 3;
          b = b XOR fh_rotate64 a 21;
          d = d XOR fh_rotate64 c 17;
          x = crc x (a + b);
          y = crc y (c + d);
          a = a + fh_load64 from 4;
          b = b + fh_load64 from 5;
          c = c + fh_load64 from 6;
          d = d + fh_load64 from 7;
          a = a XOR fh_rotate64 b 13;
          c = c XOR fh_rotate64 d 16;
          x = crc x (a + b);
          y = crc y (c + d)
      in (d, a, b, c, y, x))"

subsection \<open>Initialisation and seeding\<close>

text \<open>\<open>memcpy\<close> from the words of a checksum table, starting at entry 2.\<close>

definition table_bytes :: "u32 list \<Rightarrow> nat \<Rightarrow> bytes" where
  "table_bytes t n = take n (concat (map (le_bytes 4) (drop 2 t)))"

definition state_of_bytes :: "bytes \<Rightarrow> fh_state" where
  "state_of_bytes bs = (fh_load64 bs 0, fh_load64 bs 1, fh_load64 bs 2, fh_load64 bs 3,
     fh_load64 bs 4, fh_load64 bs 5)"

fun bytes_of_state :: "fh_state \<Rightarrow> bytes" where
  "bytes_of_state (a, b, c, d, x, y) = concat (map (le_bytes 8) [a, b, c, d, x, y])"

definition pcrc32c_fast_hash256_init :: "fh_ctx \<Rightarrow> fh_ctx" where
  "pcrc32c_fast_hash256_init ctx =
     ctx\<lparr>fh_st := state_of_bytes (table_bytes crc32c_table_0 48), fh_length := 0,
         fh_buff := fh_set_count 0 (fh_buff ctx)\<rparr>"

text \<open>The seed, cut to the 48 bytes of the state, is added byte by byte.\<close>

definition pcrc32c_fast_hash256_seed :: "bytes \<Rightarrow> fh_ctx \<Rightarrow> fh_ctx" where
  "pcrc32c_fast_hash256_seed seed ctx =
     (let ctx = pcrc32c_fast_hash256_init ctx;
          seed = take 48 seed;
          st = bytes_of_state (fh_st ctx)
      in ctx\<lparr>fh_st := state_of_bytes (map2 (XOR) (take (length seed) st) seed @ drop (length seed) st)\<rparr>)"

subsection \<open>Updating\<close>

definition psync_fast_hash256_update_short_sw :: "bytes \<Rightarrow> fh_ctx \<Rightarrow> fh_ctx" where
  "psync_fast_hash256_update_short_sw cdata ctx =
     (let l = fh_count ctx in
      ctx\<lparr>fh_buff := mem_write l cdata (fh_set_count (l + length cdata) (fh_buff ctx))\<rparr>)"

text \<open>The loop over the full blocks of the input: the state and the rest of the input.\<close>

function fh_blocks :: "(u64 \<Rightarrow> u64 \<Rightarrow> u64) \<Rightarrow> fh_state \<Rightarrow> bytes \<Rightarrow> fh_state \<times> bytes" where
  "fh_blocks crc st cdata =
     (if PSYNC_FAST_HASH256_BLOCK_LEN \<le> length cdata
      then fh_blocks crc (fh_round crc (take PSYNC_FAST_HASH256_BLOCK_LEN cdata) st)
             (drop PSYNC_FAST_HASH256_BLOCK_LEN cdata)
      else (st, cdata))"
  by pat_completeness auto
termination
  by (relation "measure (\<lambda>(c, s, d). length d)") (auto simp: PSYNC_FAST_HASH256_BLOCK_LEN_def)

declare fh_blocks.simps [simp del]

definition psync_fast_hash256_update_long :: "(u64 \<Rightarrow> u64 \<Rightarrow> u64) \<Rightarrow> bytes \<Rightarrow> fh_ctx \<Rightarrow> fh_ctx" where
  "psync_fast_hash256_update_long crc cdata ctx =
     (let l = fh_count ctx;
          (buff, cdata, st) =
            (if l \<noteq> 0 then
               (let buff = mem_write l (take (PSYNC_FAST_HASH256_BLOCK_LEN - l) cdata) (fh_buff ctx)
                in (buff, drop (PSYNC_FAST_HASH256_BLOCK_LEN - l) cdata, fh_round crc buff (fh_st ctx)))
             else (fh_buff ctx, cdata, fh_st ctx));
          (st, cdata) = fh_blocks crc st cdata
      in ctx\<lparr>fh_st := st, fh_buff := fh_set_count (length cdata) (mem_write 0 cdata buff)\<rparr>)"

definition pcrc32c_fast_hash256_update ::
    "nat \<Rightarrow> (u64 \<Rightarrow> u64 \<Rightarrow> u64) \<Rightarrow> bytes \<Rightarrow> fh_ctx \<Rightarrow> fh_ctx" where
  "pcrc32c_fast_hash256_update crc_hashw hw64 data ctx =
     (let ctx' = ctx\<lparr>fh_length := fh_length ctx + word_of_nat (length data)\<rparr> in
      if length data + fh_count ctx < PSYNC_FAST_HASH256_BLOCK_LEN
      then psync_fast_hash256_update_short_sw data ctx'
      else if crc_hashw = 2 then psync_fast_hash256_update_long hw64 data ctx'
      else psync_fast_hash256_update_long fh_crc32_64sw data ctx')"

subsection \<open>Finishing\<close>

text \<open>Assignments to the words of the buffer.\<close>

definition fh_set_word :: "nat \<Rightarrow> u64 \<Rightarrow> bytes \<Rightarrow> bytes" where
  "fh_set_word i w buf = mem_write (8 * i) (le_bytes 8 w) buf"

text \<open>The mixing of the padded last block, the length and the state.\<close>

definition fh_finish :: "(u64 \<Rightarrow> u64 \<Rightarrow> u64) \<Rightarrow> u64 \<Rightarrow> bytes \<Rightarrow> fh_state \<Rightarrow> bytes" where
  "fh_finish crc len buff st =
     (let buff = fh_set_word 0 (fh_load64 buff 0 + len * fh_k0) buff;
          buff = fh_set_word 1 (fh_load64 buff 1 XOR fh_hashmul2 len fh_k0) buff;
          buff = fh_set_word 2 (fh_load64 buff 2 XOR len * fh_k1) buff;
          buff = fh_set_word 3 (fh_load64 buff 3 - len * fh_k2) buff;
          (a, b, c, d, x, y) = fh_round crc buff st;
          d = d XOR fh_rotate64 a 43;
          a = a + fh_rotate64 b 42;
          b = b XOR fh_rotate64 c 41;
          c = c + fh_rotate64 d 40;
          a = fh_hashmul2 a (x + b);
          b = fh_hashmul2 b (y + c);
          c = fh_hashmul2 c (x + d);
          d = fh_hashmul2 d (y + a);
          buff = fh_set_word 0 (a + b + y + x) buff;
          buff = fh_set_word 1 (fh_shiftmix ((a + x) * fh_k0) * fh_k0 + b) buff;
          buff = fh_set_word 2 (fh_shiftmix ((c XOR y) * fh_k1) * fh_k1 + d) buff;
          buff = fh_set_word 3 (fh_shiftmix ((x - y) * fh_k2) * fh_k2 + (c XOR d)) buff
      in take PSYNC_FAST_HASH256_LEN buff)"

definition pcrc32c_fast_hash256_final ::
    "nat \<Rightarrow> (u64 \<Rightarrow> u64 \<Rightarrow> u64) \<Rightarrow> fh_ctx \<Rightarrow> bytes" where
  "pcrc32c_fast_hash256_final crc_hashw hw64 ctx =
     (let len = fh_count ctx;
          buff = mem_write len (table_bytes crc32c_table_1 (PSYNC_FAST_HASH256_BLOCK_LEN - len)) (fh_buff ctx)
      in fh_finish (if crc_hashw = 2 then hw64 else fh_crc32_64sw) (fh_length ctx) buff (fh_st ctx))"

subsection \<open>What a context stands for\<close>

text \<open>
  A context stands for the bytes \<open>s\<close> absorbed since the state was \<open>st0\<close>; what is in the buffer
  behind the unfinished block does not matter.
\<close>

definition fh_repr :: "fh_state \<Rightarrow> bytes \<Rightarrow> fh_ctx \<Rightarrow> bool" where
  "fh_repr st0 s ctx \<longleftrightarrow> length (fh_buff ctx) = 64 \<and> fh_count ctx < 64 \<and>
     fh_blocks fh_crc32_64sw st0 s = (fh_st ctx, take (fh_count ctx) (fh_buff ctx)) \<and>
     fh_length ctx = word_of_nat (length s)"

lemmas fh_block_len [simp] = PSYNC_FAST_HASH256_BLOCK_LEN_def

lemma fh_blocks_short: "length s < 64 \<Longrightarrow> fh_blocks crc st s = (st, s)"
  by (subst fh_blocks.simps) simp

lemma fh_blocks_block:
  "length b = 64 \<Longrightarrow> fh_blocks crc st (b @ s) = fh_blocks crc (fh_round crc b st) s"
  by (subst fh_blocks.simps) simp

lemma fh_blocks_append:
  "fh_blocks crc st s = (st', r) \<Longrightarrow> length r < 64 \<and> fh_blocks crc st (s @ d) = fh_blocks crc st' (r @ d)"
proof (induction s arbitrary: st rule: length_induct)
  case (1 s)
  show ?case
  proof (cases "length s < 64")
    case True
    with 1(2) show ?thesis by (auto simp: fh_blocks_short)
  next
    case False
    then have "s = take 64 s @ drop 64 s" "length (take 64 s) = 64" by simp_all
    then obtain b t where s: "s = b @ t" "length b = 64" by metis
    with 1(2) have "fh_blocks crc (fh_round crc b st) t = (st', r)" by (simp add: fh_blocks_block)
    moreover have "length t < length s" using s by simp
    ultimately have "length r < 64 \<and> fh_blocks crc (fh_round crc b st) (t @ d) = fh_blocks crc st' (r @ d)"
      using 1(1) by blast
    with s show ?thesis by (simp add: fh_blocks_block)
  qed
qed

lemma fh_blocks_rest: "fh_blocks crc st s = (st', r) \<Longrightarrow> length r < 64"
  using fh_blocks_append [of crc st s st' r "[]"] by simp

lemma fh_count_set: "n < 256 \<Longrightarrow> length buf = 64 \<Longrightarrow> unat (fh_set_count n buf ! 63) = n"
  by (simp add: fh_set_count_def unat_of_nat)

lemma length_mem_write: "off + length bs \<le> length buf \<Longrightarrow> length (mem_write off bs buf) = length buf"
  by (simp add: mem_write_def)

lemma fh_set_count_take: "fh_buff_len = 64 \<Longrightarrow> n < 64 \<Longrightarrow> take n (fh_set_count m buf) = take n buf"
  by (simp add: fh_set_count_def)

lemma length_fh_set_count [simp]: "length (fh_set_count n buf) = length buf"
  by (simp add: fh_set_count_def)

lemma take_mem_write: "off \<le> length buf \<Longrightarrow> take (off + length bs) (mem_write off bs buf) = take off buf @ bs"
  by (simp add: mem_write_def)

text \<open>Updating appends the data to what the context stands for.\<close>

lemma update_short_repr:
  assumes r: "fh_repr st0 s ctx" and l: "length d + fh_count ctx < 64"
  shows "fh_repr st0 (s @ d) (psync_fast_hash256_update_short_sw d (ctx\<lparr>fh_length := fh_length ctx + word_of_nat (length d)\<rparr>))"
proof -
  let ?n = "fh_count ctx" and ?buf = "fh_buff ctx"
  let ?b = "mem_write ?n d (fh_set_count (?n + length d) ?buf)"
  have len: "length ?buf = 64" and bl: "fh_blocks fh_crc32_64sw st0 s = (fh_st ctx, take ?n ?buf)"
    using r by (simp_all add: fh_repr_def)
  have "?b ! 63 = fh_set_count (?n + length d) ?buf ! 63"
  proof -
    have "\<not> 63 - ?n < length d" "?n \<le> 63" "?n + length d \<le> 63" using l by linarith+
    then show ?thesis using len by (simp add: mem_write_def nth_append min_def)
  qed
  then have c: "unat (?b ! 63) = ?n + length d" using l len by (simp add: fh_count_set)
  have "take (?n + length d) ?b = take ?n ?buf @ d"
    using l len by (simp add: take_mem_write fh_set_count_def)
  moreover have "fh_blocks fh_crc32_64sw st0 (s @ d) = (fh_st ctx, take ?n ?buf @ d)"
    using fh_blocks_append [OF bl, of d] l len by (simp add: fh_blocks_short)
  moreover have "length ?b = 64" using l len by (simp add: length_mem_write)
  ultimately show ?thesis using r c l
    by (simp add: fh_repr_def psync_fast_hash256_update_short_sw_def Let_def fh_count_def)
qed

lemma update_long_repr:
  assumes r: "fh_repr st0 s ctx" and l: "\<not> length d + fh_count ctx < 64"
  shows "fh_repr st0 (s @ d) (psync_fast_hash256_update_long fh_crc32_64sw d
    (ctx\<lparr>fh_length := fh_length ctx + word_of_nat (length d)\<rparr>))"
proof -
  let ?n = "fh_count ctx" and ?buf = "fh_buff ctx"
  have len: "length ?buf = 64" and n: "?n < 64"
    and bl: "fh_blocks fh_crc32_64sw st0 s = (fh_st ctx, take ?n ?buf)"
    using r by (simp_all add: fh_repr_def)
  define fill where "fill = mem_write ?n (take (64 - ?n) d) ?buf"
  define st where "st = (if ?n \<noteq> 0 then fh_round fh_crc32_64sw fill (fh_st ctx) else fh_st ctx)"
  define rest where "rest = (if ?n \<noteq> 0 then drop (64 - ?n) d else d)"
  define buf where "buf = (if ?n \<noteq> 0 then fill else ?buf)"
  have fill: "fill = take ?n ?buf @ take (64 - ?n) d" "length fill = 64"
    using l len n by (simp_all add: fill_def mem_write_def)
  have st: "fh_blocks fh_crc32_64sw (fh_st ctx) (take ?n ?buf @ d) = fh_blocks fh_crc32_64sw st rest"
  proof (cases "?n = 0")
    case False
    have "take ?n ?buf @ d = fill @ drop (64 - ?n) d" using fill by simp
    then show ?thesis using False fill(2) by (simp add: fh_blocks_block st_def rest_def)
  qed (simp add: st_def rest_def)
  obtain st' r' where b: "fh_blocks fh_crc32_64sw st rest = (st', r')" by (metis prod.exhaust)
  have r': "length r' < 64" by (rule fh_blocks_rest [OF b])
  let ?b = "fh_set_count (length r') (mem_write 0 r' buf)"
  have bufl: "length buf = 64" using fill(2) len by (simp add: buf_def)
  have lb: "length ?b = 64" using bufl r' by (simp add: length_mem_write)
  have cb: "unat (?b ! 63) = length r'" using bufl r' by (simp add: fh_count_set length_mem_write)
  have tb: "take (length r') ?b = r'"
    using r' take_mem_write [of 0 buf r'] by (simp add: fh_set_count_def)
  have "psync_fast_hash256_update_long fh_crc32_64sw d (ctx\<lparr>fh_length := fh_length ctx + word_of_nat (length d)\<rparr>) =
      ctx\<lparr>fh_length := fh_length ctx + word_of_nat (length d), fh_st := st', fh_buff := ?b\<rparr>"
    using b unfolding st_def rest_def buf_def fill_def
    by (simp add: psync_fast_hash256_update_long_def fh_count_def Let_def split: if_splits)
  moreover have "fh_blocks fh_crc32_64sw st0 (s @ d) = (st', r')"
    using fh_blocks_append [OF bl, of d] st b by simp
  ultimately show ?thesis using r lb cb tb r'
    by (simp add: fh_repr_def fh_count_def)
qed

lemma hw_step:
  assumes "crc_instr hw8 hw64"
  shows "hw64 = fh_crc32_64sw"
  using assms by (simp add: crc_instr_def fh_crc32_64sw_bytes fun_eq_iff)

lemma update_repr:
  assumes "crc_instr hw8 hw64" "fh_repr st0 s ctx"
  shows "fh_repr st0 (s @ d) (pcrc32c_fast_hash256_update crc_hashw hw64 d ctx)"
  using update_short_repr [OF assms(2), of d] update_long_repr [OF assms(2), of d] hw_step [OF assms(1)]
  by (simp add: pcrc32c_fast_hash256_update_def Let_def)

text \<open>The digest depends only on the bytes absorbed: it is that of any context for them.\<close>

lemma final_repr:
  assumes "fh_repr st0 s ctx" "fh_repr st0 s ctx'" "crc_instr hw8 hw64" "crc_instr hw8' hw64'"
  shows "pcrc32c_fast_hash256_final crc_hashw hw64 ctx = pcrc32c_fast_hash256_final crc_hashw' hw64' ctx'"
proof -
  have e: "fh_st ctx = fh_st ctx'" "take (fh_count ctx) (fh_buff ctx) = take (fh_count ctx') (fh_buff ctx')"
    "fh_length ctx = fh_length ctx'"
    using assms(1,2) by (simp_all add: fh_repr_def)
  have l: "length (fh_buff ctx) = 64" "length (fh_buff ctx') = 64" "fh_count ctx < 64" "fh_count ctx' < 64"
    using assms(1,2) by (simp_all add: fh_repr_def)
  have n: "fh_count ctx = fh_count ctx'" using arg_cong [OF e(2), of length] l by simp
  have t: "length (table_bytes crc32c_table_1 k) = k" if "k \<le> 64" for k
  proof -
    have "length (concat (map (le_bytes 4) (xs :: u32 list))) = 4 * length xs" for xs
      by (induction xs) simp_all
    moreover have "length crc32c_table_1 = 256" by (simp add: crc32c_table_1_span byte_basis_def)
    ultimately show ?thesis using that by (simp add: table_bytes_def)
  qed
  have "mem_write (fh_count ctx) (table_bytes crc32c_table_1 (64 - fh_count ctx)) (fh_buff ctx) =
      mem_write (fh_count ctx') (table_bytes crc32c_table_1 (64 - fh_count ctx')) (fh_buff ctx')"
    using e(2) l n t [of "64 - fh_count ctx'"] by (simp add: mem_write_def)
  then show ?thesis using e n hw_step [OF assms(3)] hw_step [OF assms(4)]
    by (simp add: pcrc32c_fast_hash256_final_def)
qed

lemma init_repr:
  "length (fh_buff ctx) = 64 \<Longrightarrow>
   fh_repr (fh_st (pcrc32c_fast_hash256_init ctx)) [] (pcrc32c_fast_hash256_init ctx)"
  by (simp add: fh_repr_def pcrc32c_fast_hash256_init_def fh_count_def fh_count_set fh_blocks_short)

lemma seed_repr:
  "length (fh_buff ctx) = 64 \<Longrightarrow>
   fh_repr (fh_st (pcrc32c_fast_hash256_seed seed ctx)) [] (pcrc32c_fast_hash256_seed seed ctx)"
  by (simp add: fh_repr_def pcrc32c_fast_hash256_seed_def pcrc32c_fast_hash256_init_def Let_def
      fh_count_def fh_count_set fh_blocks_short)

subsection \<open>Properties\<close>

text \<open>
  C35. The digest of a seeded hash depends only on the bytes that were fed, not on how they were
  cut into updates, on what was in the context before, or on which updates and which final
  step ran on the hardware instruction.
\<close>

theorem fast_hash256_streaming:
  assumes "crc_instr hw8 hw64" "length (fh_buff ctx) = 64" "length (fh_buff ctx') = 64"
    and "concat (map snd ds) = concat (map snd ds')"
  shows "pcrc32c_fast_hash256_final h hw64
      (fold (\<lambda>(i, d). pcrc32c_fast_hash256_update i hw64 d) ds (pcrc32c_fast_hash256_seed seed ctx)) =
    pcrc32c_fast_hash256_final h' hw64
      (fold (\<lambda>(i, d). pcrc32c_fast_hash256_update i hw64 d) ds' (pcrc32c_fast_hash256_seed seed ctx'))"
proof -
  have fold: "fh_repr st0 (s @ concat (map snd ds)) (fold (\<lambda>(i, d). pcrc32c_fast_hash256_update i hw64 d) ds c)"
    if "fh_repr st0 s c" for st0 s c ds
    using that
  proof (induction ds arbitrary: s c)
    case (Cons e ds)
    from Cons.IH [OF update_repr [OF assms(1) Cons.prems, of "snd e" "fst e"]] show ?case
      by (simp add: case_prod_unfold)
  qed simp
  have same: "fh_st (pcrc32c_fast_hash256_seed seed ctx) = fh_st (pcrc32c_fast_hash256_seed seed ctx')"
    by (simp add: pcrc32c_fast_hash256_seed_def pcrc32c_fast_hash256_init_def Let_def)
  note a = fold [OF seed_repr [OF assms(2), of seed], of ds]
    and b = fold [OF seed_repr [OF assms(3), of seed], of ds']
  show ?thesis
    by (rule final_repr [OF a _ assms(1) assms(1)]) (use b same assms(4) in simp)
qed

theorem fast_hash256_streaming_witness:
  "pcrc32c_fast_hash256_final 1 fh_crc32_64sw
      (fold (\<lambda>(i, d). pcrc32c_fast_hash256_update i fh_crc32_64sw d) [(1, [1, 2]), (2, [3])]
        (pcrc32c_fast_hash256_seed [5] \<lparr>fh_st = (0, 0, 0, 0, 0, 0), fh_length = 0, fh_buff = replicate 64 0\<rparr>)) =
    pcrc32c_fast_hash256_final 2 fh_crc32_64sw
      (fold (\<lambda>(i, d). pcrc32c_fast_hash256_update i fh_crc32_64sw d) [(2, [1, 2, 3])]
        (pcrc32c_fast_hash256_seed [5] \<lparr>fh_st = (0, 0, 0, 0, 0, 0), fh_length = 9, fh_buff = replicate 64 1\<rparr>))"
  by (rule fast_hash256_streaming [OF soft_instr]) simp_all

end
