(* ===== verification/PCrypto.thy ===== *)
theory PCrypto
  imports Prelude
begin

text \<open>
  \<open>pclsync/pcrypto.c\<close>: HMAC, counter mode, the encryption of names (CBC with an HMAC as the
  initial vector) and of file sectors (CBC with ciphertext stealing, and an authenticator that
  carries a random nonce and the HMAC of the sector).

  Buffers are byte lists. AES and SHA-512 are mbedtls, not this repository: \<open>E\<close> and \<open>D\<close> are
  the block functions of one key, \<open>sha\<close> the hash, and the bytes of \<open>pssl_rand_strong\<close> are an
  argument. \<open>cipher_ok\<close> and \<open>sha_ok\<close> state what is documented of them. A context of the hash
  is the data it has absorbed. An access outside a buffer is the result \<open>None\<close>.
\<close>

definition PSYNC_AES256_BLOCK_SIZE :: nat where "PSYNC_AES256_BLOCK_SIZE = 16"
definition PSYNC_SHA512_BLOCK_LEN :: nat where "PSYNC_SHA512_BLOCK_LEN = 128"
definition PSYNC_SHA512_DIGEST_LEN :: nat where "PSYNC_SHA512_DIGEST_LEN = 64"

lemmas [layout_simps] = PSYNC_AES256_BLOCK_SIZE_def PSYNC_SHA512_BLOCK_LEN_def PSYNC_SHA512_DIGEST_LEN_def

type_synonym block_fun = "bytes \<Rightarrow> bytes"
type_synonym hash_fun = "bytes \<Rightarrow> bytes"

definition cipher_ok :: "block_fun \<Rightarrow> block_fun \<Rightarrow> bool" where
  "cipher_ok E D \<longleftrightarrow> (\<forall>b. length b = 16 \<longrightarrow> length (E b) = 16 \<and> length (D b) = 16 \<and> D (E b) = b)"

definition sha_ok :: "hash_fun \<Rightarrow> bool" where
  "sha_ok sha \<longleftrightarrow> (\<forall>m. length (sha m) = 64)"

subsection \<open>HMAC-SHA512\<close>

record hmac_ctx =
  sha1ctx :: bytes
  final :: bytes

text \<open>\<open>key[i] ^ pad\<close> for the key bytes, cut to the block length, then the pad alone.\<close>

definition hmac_pad :: "u8 \<Rightarrow> bytes \<Rightarrow> bytes" where
  "hmac_pad pad key =
     (let keylen = (if length key > PSYNC_SHA512_BLOCK_LEN then PSYNC_SHA512_BLOCK_LEN else length key)
      in map (\<lambda>b. b XOR pad) (take keylen key) @ replicate (PSYNC_SHA512_BLOCK_LEN - keylen) pad)"

definition psync_hmac_sha512_init :: "bytes \<Rightarrow> hmac_ctx" where
  "psync_hmac_sha512_init key = \<lparr>sha1ctx = hmac_pad 0x36 key, final = hmac_pad 0x5c key\<rparr>"

definition psync_hmac_sha512_update :: "bytes \<Rightarrow> hmac_ctx \<Rightarrow> hmac_ctx" where
  "psync_hmac_sha512_update data ctx = ctx\<lparr>sha1ctx := sha1ctx ctx @ data\<rparr>"

definition psync_hmac_sha512_final :: "hash_fun \<Rightarrow> hmac_ctx \<Rightarrow> bytes" where
  "psync_hmac_sha512_final sha ctx = sha (final ctx @ sha (sha1ctx ctx))"

definition psync_hmac_sha512 :: "hash_fun \<Rightarrow> bytes \<Rightarrow> bytes \<Rightarrow> bytes" where
  "psync_hmac_sha512 sha msg key = sha (hmac_pad 0x5c key @ sha (hmac_pad 0x36 key @ msg))"

subsection \<open>Block helpers\<close>

definition xor_cnt_inplace :: "nat \<Rightarrow> bytes \<Rightarrow> bytes \<Rightarrow> bytes" where
  "xor_cnt_inplace cnt data key = map2 (XOR) (take cnt data) (take cnt key) @ drop cnt data"

definition xor16_unaligned_inplace :: "bytes \<Rightarrow> bytes \<Rightarrow> bytes" where
  "xor16_unaligned_inplace data key =
     map2 (XOR) (take PSYNC_AES256_BLOCK_SIZE data) (take PSYNC_AES256_BLOCK_SIZE key) @
     drop PSYNC_AES256_BLOCK_SIZE data"

text \<open>\<open>LONG_DEREF(ptr, i)\<close>, a 64-bit word.\<close>

definition LONG_DEREF :: "bytes \<Rightarrow> nat \<Rightarrow> u64" where
  "LONG_DEREF ptr i = le_load (take 8 (drop (8 * i) ptr))"

definition xor16_aligned_inplace :: "bytes \<Rightarrow> bytes \<Rightarrow> bytes" where
  "xor16_aligned_inplace data key =
     le_bytes 8 (LONG_DEREF data 0 XOR LONG_DEREF key 0) @
     le_bytes 8 (LONG_DEREF data 1 XOR LONG_DEREF key 1) @ drop 16 data"

text \<open>The alignment of the pointers selects the routine.\<close>

definition xor16 :: "bool \<Rightarrow> bytes \<Rightarrow> bytes \<Rightarrow> bytes" where
  "xor16 aligned data key =
     (if aligned then xor16_aligned_inplace data key else xor16_unaligned_inplace data key)"

definition copy_unaligned :: "bytes \<Rightarrow> bytes" where
  "copy_unaligned src = take PSYNC_AES256_BLOCK_SIZE src"

definition copy_aligned :: "bytes \<Rightarrow> bytes" where
  "copy_aligned src = le_bytes 8 (LONG_DEREF src 0) @ le_bytes 8 (LONG_DEREF src 1)"

definition copy16 :: "bool \<Rightarrow> bytes \<Rightarrow> bytes" where
  "copy16 aligned src = (if aligned then copy_aligned src else copy_unaligned src)"

text \<open>The bytes written to \<open>dst\<close> and what is left of the text.\<close>

definition copy_pad :: "nat \<Rightarrow> bytes \<Rightarrow> bytes \<times> bytes" where
  "copy_pad cnt txt =
     (if cnt \<le> length txt then (take cnt txt, drop cnt txt)
      else (txt @ replicate (cnt - length txt) 0, []))"

definition ALIGN_A256_BS :: "nat \<Rightarrow> nat" where
  "ALIGN_A256_BS n = (n + PSYNC_AES256_BLOCK_SIZE - 1) div PSYNC_AES256_BLOCK_SIZE * PSYNC_AES256_BLOCK_SIZE"

definition encode_2blocks_consec :: "block_fun \<Rightarrow> bytes \<Rightarrow> bytes" where
  "encode_2blocks_consec E src = E (take 16 src) @ E (take 16 (drop 16 src))"

definition decode_2blocks_consec :: "block_fun \<Rightarrow> bytes \<Rightarrow> bytes" where
  "decode_2blocks_consec D src = D (take 16 src) @ D (take 16 (drop 16 src))"

definition decode_4blocks_consec_xor :: "block_fun \<Rightarrow> bytes \<Rightarrow> bytes \<Rightarrow> bytes" where
  "decode_4blocks_consec_xor D src bxor =
     map2 (XOR) (D (take 16 src) @ D (take 16 (drop 16 src)) @ D (take 16 (drop 32 src)) @
       D (take 16 (drop 48 src))) bxor"

subsection \<open>Counter mode\<close>

text \<open>The block of \<open>copy_iv_and_xor_with_counter\<close>, its second half already in place.\<close>

definition copy_iv_and_xor_with_counter :: "bytes \<Rightarrow> u64 \<Rightarrow> bytes" where
  "copy_iv_and_xor_with_counter iv counter =
     le_bytes 8 (LONG_DEREF iv 0 XOR counter) @ take 8 (drop 8 iv)"

fun ctr_loop :: "block_fun \<Rightarrow> bytes \<Rightarrow> bool \<Rightarrow> nat \<Rightarrow> nat \<Rightarrow> bytes \<Rightarrow> bytes" where
  "ctr_loop E iv al 0 counter data =
     (if data \<noteq> []
      then xor_cnt_inplace (length data) data (E (copy_iv_and_xor_with_counter iv (word_of_nat counter)))
      else [])"
| "ctr_loop E iv al (Suc blocksrem) counter data =
     xor16 al (take 16 data) (E (copy_iv_and_xor_with_counter iv (word_of_nat counter))) @
     ctr_loop E iv al blocksrem (counter + 1) (drop 16 data)"

text \<open>
  \<open>al\<close> says whether the data is word aligned behind the first partial block. With an offset
  inside a block, the code takes the whole rest of that block, however short the data is.
\<close>

definition pcrypto_ctr_encdec_decode :: "block_fun \<Rightarrow> bytes \<Rightarrow> bool \<Rightarrow> bytes \<Rightarrow> nat \<Rightarrow> bytes option" where
  "pcrypto_ctr_encdec_decode E iv al data dataoffset =
     (let counter = dataoffset div PSYNC_AES256_BLOCK_SIZE;
          off = dataoffset mod PSYNC_AES256_BLOCK_SIZE in
      if off \<noteq> 0 then
        (let blocksrem = PSYNC_AES256_BLOCK_SIZE - off in
         if length data < blocksrem then None
         else Some (xor_cnt_inplace blocksrem (take blocksrem data)
                      (drop off (E (copy_iv_and_xor_with_counter iv (word_of_nat counter)))) @
                    ctr_loop E iv al ((length data - blocksrem) div 16) (counter + 1) (drop blocksrem data)))
      else Some (ctr_loop E iv al (length data div 16) counter data))"

subsection \<open>Names\<close>

text \<open>The \<open>do ... while (txtlen)\<close> loop of the encoder; \<open>chain\<close> is the last ciphertext block.\<close>

function enc_text_loop :: "block_fun \<Rightarrow> bytes \<Rightarrow> bytes \<Rightarrow> bytes" where
  "enc_text_loop E chain txt =
     (let (src, txt') = copy_pad PSYNC_AES256_BLOCK_SIZE txt;
          c = E (xor16_aligned_inplace src chain)
      in if txt' \<noteq> [] then copy_aligned c @ enc_text_loop E c txt' else copy_aligned c)"
  by pat_completeness auto
termination
  by (relation "measure (\<lambda>(E, c, t). length t)") (auto simp: copy_pad_def layout_simps split: if_splits)

declare enc_text_loop.simps [simp del]

text \<open>
  The output buffer has \<open>ALIGN_A256_BS(txtlen)\<close> bytes, none for an empty text, but the first
  block is written in any case.
\<close>

definition pcrypto_encode_text :: "block_fun \<Rightarrow> hash_fun \<Rightarrow> bytes \<Rightarrow> bytes \<Rightarrow> bytes option" where
  "pcrypto_encode_text E sha iv txt =
     (let ol = ALIGN_A256_BS (length txt) in
      if length txt \<le> PSYNC_AES256_BLOCK_SIZE then
        (let (src, txt') = copy_pad PSYNC_AES256_BLOCK_SIZE txt;
             dst = E (xor16_aligned_inplace src iv)
         in if ol < PSYNC_AES256_BLOCK_SIZE then None else Some (copy_aligned dst))
      else
        (let hmac = psync_hmac_sha512 sha (drop PSYNC_AES256_BLOCK_SIZE txt) iv;
             src = copy_unaligned txt;
             dst = E (xor16_aligned_inplace src hmac)
         in Some (copy_aligned dst @ enc_text_loop E dst (drop PSYNC_AES256_BLOCK_SIZE txt))))"

text \<open>The check of the padding behind the terminating zero.\<close>

definition padding_zero :: "nat \<Rightarrow> nat \<Rightarrow> bytes \<Rightarrow> bool" where
  "padding_zero len outend ret \<longleftrightarrow> (\<forall>i\<in>{len..<outend}. ret ! i = 0)"

definition c_strlen :: "bytes \<Rightarrow> nat" where
  "c_strlen s = length (takeWhile (\<lambda>b. b \<noteq> 0) s)"

text \<open>The blocks after the first; \<open>n\<close> of them are left, \<open>data\<close> starts at the block before.\<close>

fun dec_text_loop :: "block_fun \<Rightarrow> bool \<Rightarrow> nat \<Rightarrow> bytes \<Rightarrow> bytes" where
  "dec_text_loop D al 0 data = []"
| "dec_text_loop D al (Suc n) data =
     copy_aligned (xor16 al (D (copy16 al (drop 16 data))) (take 16 data)) @ dec_text_loop D al n (drop 16 data)"

text \<open>The result is the buffer with its terminating zero, or \<open>None\<close> for \<open>NULL\<close>.\<close>

definition pcrypto_decode_text :: "block_fun \<Rightarrow> hash_fun \<Rightarrow> bytes \<Rightarrow> bool \<Rightarrow> bytes \<Rightarrow> bytes option" where
  "pcrypto_decode_text D sha iv al data =
     (if length data mod PSYNC_AES256_BLOCK_SIZE \<noteq> 0 \<or> length data = 0 then None
      else
        (let n = length data div PSYNC_AES256_BLOCK_SIZE in
         if n = 1 then
           (let ret = copy_aligned (xor16_aligned_inplace (D (copy_unaligned data)) iv) @ [0] in
            if padding_zero (c_strlen ret + 1) PSYNC_AES256_BLOCK_SIZE ret then Some ret else None)
         else
           (let ret = copy_aligned (D (copy16 al data)) @ dec_text_loop D al (n - 1) data @ [0];
                len = c_strlen (drop PSYNC_AES256_BLOCK_SIZE ret);
                hmac = psync_hmac_sha512 sha (take len (drop PSYNC_AES256_BLOCK_SIZE ret)) iv;
                ret = xor16_aligned_inplace ret hmac
            in if padding_zero (len + PSYNC_AES256_BLOCK_SIZE + 1) (length data) ret then Some ret
               else None)))"

subsection \<open>Byte-wise addition\<close>

abbreviation bxor :: "bytes \<Rightarrow> bytes \<Rightarrow> bytes" where
  "bxor a b \<equiv> map2 (XOR) a b"

lemma bxor_cancel [simp]: "length a = length b \<Longrightarrow> bxor (bxor a b) b = a"
  by (rule nth_equalityI) (auto simp: xor.assoc)

lemma bxor_cancel2 [simp]: "length a = length b \<Longrightarrow> bxor b (bxor a b) = a"
  by (rule nth_equalityI) (auto simp: xor.left_commute)

lemma bxor_comm: "length a = length b \<Longrightarrow> bxor a b = bxor b a"
  by (rule nth_equalityI) (auto simp: xor.commute)

lemma le_bytes_LONG: "8 * i + 8 \<le> length p \<Longrightarrow> le_bytes 8 (LONG_DEREF p i) = take 8 (drop (8 * i) p)"
  unfolding LONG_DEREF_def by (rule le_bytes_le_load) simp_all

lemma le_bytes_xor: "le_bytes n (v XOR w) = bxor (le_bytes n v) (le_bytes n w)"
  by (rule nth_equalityI) (auto simp: le_bytes_def drop_bit_xor bit_simps intro!: bit_word_eqI)

lemma copy_aligned_eq: "16 \<le> length src \<Longrightarrow> copy_aligned src = take 16 src"
  using take_add [of 8 8 src] by (simp add: copy_aligned_def le_bytes_LONG)

lemma copy16_eq: "16 \<le> length src \<Longrightarrow> copy16 al src = take 16 src"
  by (simp add: copy16_def copy_aligned_eq copy_unaligned_def layout_simps)

lemma xor16_aligned_eq:
  assumes "16 \<le> length data" "16 \<le> length key"
  shows "xor16_aligned_inplace data key = bxor (take 16 data) (take 16 key) @ drop 16 data"
proof -
  have t: "take 16 xs = take 8 xs @ take 8 (drop 8 xs)" for xs :: bytes
    using take_add [of 8 8 xs] by simp
  show ?thesis using assms
    by (simp add: xor16_aligned_inplace_def le_bytes_xor le_bytes_LONG t)
qed

lemma xor16_eq:
  assumes "16 \<le> length data" "16 \<le> length key"
  shows "xor16 al data key = bxor (take 16 data) (take 16 key) @ drop 16 data"
  using assms by (simp add: xor16_def xor16_aligned_eq xor16_unaligned_inplace_def layout_simps)

lemma xor16_block [simp]:
  "length a = 16 \<Longrightarrow> 16 \<le> length b \<Longrightarrow> xor16 al a b = bxor a (take 16 b)"
  "length a = 16 \<Longrightarrow> 16 \<le> length b \<Longrightarrow> xor16_aligned_inplace a b = bxor a (take 16 b)"
  "length a = 16 \<Longrightarrow> 16 \<le> length b \<Longrightarrow> xor16_unaligned_inplace a b = bxor a (take 16 b)"
  by (simp_all add: xor16_eq xor16_aligned_eq xor16_unaligned_inplace_def layout_simps)

lemma copy_block [simp]:
  "length a = 16 \<Longrightarrow> copy_aligned a = a" "length a = 16 \<Longrightarrow> copy_unaligned a = a"
  by (simp_all add: copy_aligned_eq copy_unaligned_def layout_simps)

lemma cipher_okD [simp]:
  assumes "cipher_ok E D" "length b = 16"
  shows "length (E b) = 16" "length (D b) = 16" "D (E b) = b"
  using assms by (simp_all add: cipher_ok_def)

lemma length_hmac: "sha_ok sha \<Longrightarrow> length (psync_hmac_sha512 sha m k) = 64"
  by (simp add: psync_hmac_sha512_def sha_ok_def)

text \<open>The incremental HMAC is the one-shot one.\<close>

lemma hmac_incremental:
  "psync_hmac_sha512_final sha (fold psync_hmac_sha512_update ds (psync_hmac_sha512_init key)) =
   psync_hmac_sha512 sha (concat ds) key"
proof -
  have "sha1ctx (fold psync_hmac_sha512_update ds ctx) = sha1ctx ctx @ concat ds \<and>
      final (fold psync_hmac_sha512_update ds ctx) = final ctx" for ctx
    by (induction ds arbitrary: ctx) (auto simp: psync_hmac_sha512_update_def)
  then show ?thesis
    by (simp add: psync_hmac_sha512_final_def psync_hmac_sha512_init_def psync_hmac_sha512_def)
qed

subsection \<open>Counter mode is a stream cipher with random access\<close>

definition keystream :: "block_fun \<Rightarrow> bytes \<Rightarrow> nat \<Rightarrow> u8" where
  "keystream E iv pos = E (copy_iv_and_xor_with_counter iv (word_of_nat (pos div 16))) ! (pos mod 16)"

lemma length_ctr_block [simp]: "16 \<le> length iv \<Longrightarrow> length (copy_iv_and_xor_with_counter iv c) = 16"
  by (simp add: copy_iv_and_xor_with_counter_def)

lemma ctr_loop_keystream:
  assumes E: "\<And>b. length b = 16 \<Longrightarrow> length (E b) = 16" and iv: "16 \<le> length iv"
  shows "n = length data div 16 \<Longrightarrow>
    ctr_loop E iv al n c data = map (\<lambda>i. data ! i XOR keystream E iv (16 * c + i)) [0..<length data]"
proof (induction n arbitrary: c data)
  case 0
  then have l: "length data < 16" by (simp add: div_eq_0_iff)
  show ?case
    by (rule nth_equalityI) (use l E iv in \<open>auto simp: xor_cnt_inplace_def keystream_def\<close>)
next
  case (Suc n)
  have l: "16 \<le> length data" using Suc.prems by (metis div_less linorder_not_le nat.distinct(1))
  then have n: "n = length (drop 16 data) div 16" using Suc.prems l
    by (simp add: le_div_geq)
  have k: "16 * Suc c + i = 16 * c + (i + 16)" for i by simp
  have "ctr_loop E iv al n (c + 1) (drop 16 data) =
      map (\<lambda>i. data ! (i + 16) XOR keystream E iv (16 * c + (i + 16))) [0..<length data - 16]"
    using Suc.IH [OF n, of "Suc c"] l unfolding k by (simp add: add.commute)
  also have "\<dots> = map (\<lambda>i. data ! i XOR keystream E iv (16 * c + i)) [16..<length data]"
    by (rule nth_equalityI) (use l in \<open>auto simp: add.commute\<close>)
  finally have rest: "ctr_loop E iv al n (c + 1) (drop 16 data) =
      map (\<lambda>i. data ! i XOR keystream E iv (16 * c + i)) [16..<length data]" .
  have first: "bxor (take 16 data) (E (copy_iv_and_xor_with_counter iv (word_of_nat c))) =
      map (\<lambda>i. data ! i XOR keystream E iv (16 * c + i)) [0..<16]"
    by (rule nth_equalityI) (use l E iv in \<open>auto simp: keystream_def\<close>)
  have "[0..<length data] = [0..<16] @ [16..<length data]"
    using upt_add_eq_append [of 0 16 "length data - 16"] l by simp
  then show ?case using rest first l E iv by simp
qed

lemma ctr_decode_whole:
  assumes "cipher_ok E D" "length iv = 16"
    and "off mod 16 = 0 \<or> 16 - off mod 16 \<le> length data"
  shows "pcrypto_ctr_encdec_decode E iv al data off =
    Some (map (\<lambda>i. data ! i XOR keystream E iv (off + i)) [0..<length data])"
proof (cases "off mod 16 = 0")
  case True
  then have "16 * (off div 16) = off" using div_mult_mod_eq [of off 16] by simp
  then show ?thesis using True assms(1,2) ctr_loop_keystream [of E iv "length data div 16" data al "off div 16"]
    by (simp add: pcrypto_ctr_encdec_decode_def layout_simps)
next
  case False
  define bl c where "bl = 16 - off mod 16" and "c = off div 16"
  have m: "off mod 16 < 16" by simp
  have b: "bl \<le> length data" "bl \<le> 16" "off mod 16 = 16 - bl" "0 < bl"
    using assms(3) False m by (auto simp: bl_def)
  have "16 * c + off mod 16 = off" unfolding c_def using div_mult_mod_eq [of off 16] by simp
  then have "16 * c + (16 - bl) = off" using b(3) by simp
  then have o: "16 * (c + 1) = off + bl" using b(2) by simp
  let ?b = bl and ?c = c
  have "ctr_loop E iv al ((length data - bl) div 16) (c + 1) (drop bl data) =
      map (\<lambda>i. drop bl data ! i XOR keystream E iv (off + bl + i)) [0..<length data - bl]"
    using ctr_loop_keystream [of E iv "(length data - bl) div 16" "drop bl data" al "c + 1"] assms(1,2)
    by (simp only: o length_drop) simp
  also have "\<dots> = map (\<lambda>i. data ! i XOR keystream E iv (off + i)) [bl..<length data]"
    by (rule nth_equalityI) (use b(1) in \<open>auto simp: add.assoc\<close>)
  finally have tail: "ctr_loop E iv al ((length data - bl) div 16) (c + 1) (drop bl data) =
      map (\<lambda>i. data ! i XOR keystream E iv (off + i)) [bl..<length data]" .
  have off: "off = 16 * c + (16 - bl)" using o b(2) by simp
  have head: "xor_cnt_inplace ?b (take ?b data) (drop (off mod 16) (E (copy_iv_and_xor_with_counter iv (word_of_nat ?c)))) =
      map (\<lambda>i. data ! i XOR keystream E iv (off + i)) [0..<?b]"
  proof (rule nth_equalityI)
    fix i assume "i < length (xor_cnt_inplace ?b (take ?b data) (drop (off mod 16) (E (copy_iv_and_xor_with_counter iv (word_of_nat ?c)))))"
    then have i: "i < ?b" using b assms by (simp add: xor_cnt_inplace_def)
    then have j: "off + i = 16 * c + (16 - bl + i)" "16 - bl + i < 16" using off b(2) by linarith+
    have "(off + i) div 16 = ?c" "(off + i) mod 16 = off mod 16 + i"
      unfolding j(1) using j(2) b(3) by simp_all
    then show "xor_cnt_inplace ?b (take ?b data) (drop (off mod 16) (E (copy_iv_and_xor_with_counter iv (word_of_nat ?c)))) ! i =
        map (\<lambda>i. data ! i XOR keystream E iv (off + i)) [0..<?b] ! i"
      using i b assms(1,2) by (simp add: xor_cnt_inplace_def keystream_def)
  qed (use b assms in \<open>simp add: xor_cnt_inplace_def\<close>)
  have "[0..<length data] = [0..<?b] @ [?b..<length data]"
    using upt_add_eq_append [of 0 ?b "length data - ?b"] b(1) by simp
  moreover have "pcrypto_ctr_encdec_decode E iv al data off =
      Some (xor_cnt_inplace bl (take bl data) (drop (off mod 16) (E (copy_iv_and_xor_with_counter iv (word_of_nat c)))) @
        ctr_loop E iv al ((length data - bl) div 16) (c + 1) (drop bl data))"
    using False b(1) by (simp add: pcrypto_ctr_encdec_decode_def layout_simps Let_def bl_def c_def not_less)
  ultimately show ?thesis unfolding head tail by simp
qed

text \<open>
  An access of fewer bytes than are left of its first block is outside the buffer: the code
  then adds the whole rest of the block and continues with a length below zero.
\<close>

lemma ctr_encdec_decode_short_access:
  "off mod 16 \<noteq> 0 \<Longrightarrow> length data < 16 - off mod 16 \<Longrightarrow>
   pcrypto_ctr_encdec_decode E iv al data off = None"
  by (simp add: pcrypto_ctr_encdec_decode_def layout_simps Let_def)

text \<open>
  C36. Counter mode adds to every byte the key stream byte of its position in the file, wherever the
  access starts and however the buffer is aligned, so that any range can be read on its own; the only
  accesses that do not stay in their buffer are those that start inside a block and end before the end of it.
\<close>

theorem ctr_encdec_decode_keystream:
  assumes "cipher_ok E D" "length iv = 16"
  shows "pcrypto_ctr_encdec_decode E iv al data off =
    (if off mod 16 \<noteq> 0 \<and> length data < 16 - off mod 16 then None
     else Some (map (\<lambda>i. data ! i XOR keystream E iv (off + i)) [0..<length data]))"
  using ctr_decode_whole [OF assms, of off data] ctr_encdec_decode_short_access [of off data E iv al] by auto

theorem ctr_encdec_decode_keystream_witness:
  "pcrypto_ctr_encdec_decode id (replicate 16 1) True [7, 8, 9] 13 =
     Some (map (\<lambda>i. [7, 8, 9] ! i XOR keystream id (replicate 16 1) (13 + i)) [0..<length [7, 8, 9 :: u8]]) \<and>
   pcrypto_ctr_encdec_decode id (replicate 16 1) True [7, 8] 13 = None"
proof -
  have "cipher_ok id id" "length (replicate 16 (1 :: u8)) = 16" by (simp_all add: cipher_ok_def)
  from ctr_encdec_decode_keystream [OF this, of True _ 13] show ?thesis by simp
qed

subsection \<open>Names round trip\<close>

lemma copy_pad_long: "16 \<le> length t \<Longrightarrow> copy_pad PSYNC_AES256_BLOCK_SIZE t = (take 16 t, drop 16 t)"
  by (simp add: copy_pad_def layout_simps)

lemma copy_pad_short: "length t < 16 \<Longrightarrow> copy_pad PSYNC_AES256_BLOCK_SIZE t = (t @ replicate (16 - length t) 0, [])"
  by (simp add: copy_pad_def layout_simps)

text \<open>The text padded to whole blocks.\<close>

definition padded :: "bytes \<Rightarrow> bytes" where
  "padded t = t @ replicate (ALIGN_A256_BS (length t) - length t) 0"

lemma align_le: "n \<le> ALIGN_A256_BS n" "ALIGN_A256_BS n < n + 16"
proof -
  have "(n + 15) div 16 * 16 + (n + 15) mod 16 = n + 15" "(n + 15) mod 16 < 16" by simp_all
  then show "n \<le> ALIGN_A256_BS n" "ALIGN_A256_BS n < n + 16"
    by (simp_all add: ALIGN_A256_BS_def layout_simps)
qed

lemma align_mod: "ALIGN_A256_BS n mod 16 = 0"
  by (simp add: ALIGN_A256_BS_def layout_simps)

lemma align_step: "16 < n \<Longrightarrow> ALIGN_A256_BS n = 16 + ALIGN_A256_BS (n - 16)"
proof -
  assume "16 < n"
  then obtain m where m: "n = 16 + m" by (metis le_Suc_ex less_imp_le)
  have "(16 + (m + 15)) div 16 = 1 + (m + 15) div 16" by simp
  then show ?thesis unfolding ALIGN_A256_BS_def layout_simps m by (simp add: add.assoc)
qed

lemma align_small: "0 < n \<Longrightarrow> n \<le> 16 \<Longrightarrow> ALIGN_A256_BS n = 16"
proof -
  assume n: "0 < n" "n \<le> 16"
  then have "(n + 15) div 16 = 1" by (simp add: div_nat_eqI)
  then show ?thesis by (simp add: ALIGN_A256_BS_def layout_simps)
qed

lemma padded_step: "16 < length t \<Longrightarrow> padded t = take 16 t @ padded (drop 16 t)"
proof -
  assume t: "16 < length t"
  have "16 + ALIGN_A256_BS (length t - 16) - length t = ALIGN_A256_BS (length t - 16) - (length t - 16)"
    using t by simp
  then show ?thesis unfolding padded_def align_step [OF t] length_drop
    by (simp only: append_assoc [symmetric] append_take_drop_id)
qed

lemma padded_small: "0 < length t \<Longrightarrow> length t \<le> 16 \<Longrightarrow> fst (copy_pad PSYNC_AES256_BLOCK_SIZE t) = padded t"
  by (auto simp: copy_pad_def padded_def align_small layout_simps)

lemma length_padded: "length (padded t) = ALIGN_A256_BS (length t)"
  using align_le(1) [of "length t"] by (simp add: padded_def)

text \<open>The CBC loops invert each other.\<close>

lemma cbc_text:
  assumes c: "cipher_ok E D"
  shows "t \<noteq> [] \<Longrightarrow> length chain = 16 \<Longrightarrow>
    length (enc_text_loop E chain t) = ALIGN_A256_BS (length t) \<and>
    dec_text_loop D al (ALIGN_A256_BS (length t) div 16) (chain @ enc_text_loop E chain t) = padded t"
proof (induction t arbitrary: chain rule: length_induct)
  case (1 t)
  let ?p = "fst (copy_pad PSYNC_AES256_BLOCK_SIZE t)" and ?r = "snd (copy_pad PSYNC_AES256_BLOCK_SIZE t)"
  have lp: "length ?p = 16" by (auto simp: copy_pad_def layout_simps)
  let ?c = "E (bxor ?p chain)"
  have lc: "length ?c = 16" "D ?c = bxor ?p chain" using c lp 1(3) by simp_all
  show ?case
  proof (cases "length t \<le> 16")
    case True
    then have r: "?r = []" by (auto simp: copy_pad_def layout_simps)
    have p: "?p = padded t" using padded_small True 1(2) by simp
    have "enc_text_loop E chain t = ?c"
      using r lp lc 1(3) by (subst enc_text_loop.simps) (simp add: case_prod_unfold Let_def)
    moreover have "ALIGN_A256_BS (length t) = Suc 0 * 16" using align_small True 1(2) by simp
    ultimately show ?thesis using lc lp 1(3) p by (simp add: copy16_eq)
  next
    case False
    then have r: "?r = drop 16 t" "?p = take 16 t" by (simp_all add: copy_pad_long)
    have "length ?r < length t" "?r \<noteq> []" using False r by simp_all
    with 1(1) lc(1) have IH: "length (enc_text_loop E ?c ?r) = ALIGN_A256_BS (length ?r)"
      "dec_text_loop D al (ALIGN_A256_BS (length ?r) div 16) (?c @ enc_text_loop E ?c ?r) = padded ?r" by auto
    have e: "enc_text_loop E chain t = ?c @ enc_text_loop E ?c ?r"
      using \<open>?r \<noteq> []\<close> lp lc 1(3) by (subst enc_text_loop.simps) (simp add: case_prod_unfold Let_def)
    have a: "ALIGN_A256_BS (length t) = 16 + ALIGN_A256_BS (length ?r)" using align_step False r by simp
    then have "ALIGN_A256_BS (length t) div 16 = Suc (ALIGN_A256_BS (length ?r) div 16)" by simp
    then show ?thesis using e a IH lc lp 1(3) r padded_step [of t] False by (simp add: copy16_eq)
  qed
qed

lemma padded_zero: "padded t @ [0] = t @ replicate (Suc (ALIGN_A256_BS (length t) - length t)) 0"
  by (simp add: padded_def replicate_append_same)

lemma takeWhile_padded: "0 \<notin> set t \<Longrightarrow> takeWhile (\<lambda>b. b \<noteq> 0) (t @ replicate (Suc k) 0) = t"
  by (induction t) auto

lemma c_strlen_padded: "0 \<notin> set t \<Longrightarrow> c_strlen (padded t @ [0]) = length t"
  unfolding padded_zero c_strlen_def by (subst takeWhile_padded) simp_all

lemma nth_padded: "length t \<le> i \<Longrightarrow> i < length (padded t @ [0]) \<Longrightarrow> (padded t @ [0]) ! i = 0"
  unfolding padded_zero by (auto simp: nth_append nth_Cons')

lemma text_short:
  assumes c: "cipher_ok E D" and iv: "16 \<le> length iv" and t: "txt \<noteq> []" "length txt \<le> 16" "0 \<notin> set txt"
  shows "\<exists>out. pcrypto_encode_text E sha iv txt = Some out \<and> length out = 16 \<and>
    pcrypto_decode_text D sha iv al out = Some (padded txt @ [0])"
proof -
  have p: "fst (copy_pad PSYNC_AES256_BLOCK_SIZE txt) = padded txt" using padded_small t by simp
  have lp: "length (padded txt) = 16" using align_small t by (simp add: length_padded)
  let ?out = "E (bxor (padded txt) (take 16 iv))"
  have lo: "length ?out = 16" using c lp iv by simp
  have "pcrypto_encode_text E sha iv txt = Some ?out"
    using t p lp iv lo align_small [of "length txt"]
    by (simp add: pcrypto_encode_text_def case_prod_unfold Let_def layout_simps)
  moreover have "pcrypto_decode_text D sha iv al ?out = Some (padded txt @ [0])"
    using lo lp iv c c_strlen_padded [OF t(3)] nth_padded [of "txt"]
    by (auto simp: pcrypto_decode_text_def layout_simps padding_zero_def)
  ultimately show ?thesis using lo by blast
qed

lemma text_long:
  assumes c: "cipher_ok E D" and h: "sha_ok sha" and iv: "16 \<le> length iv"
    and t: "16 < length txt" "0 \<notin> set txt"
  shows "\<exists>out. pcrypto_encode_text E sha iv txt = Some out \<and> length out = ALIGN_A256_BS (length txt) \<and>
    pcrypto_decode_text D sha iv al out = Some (padded txt @ [0])"
proof -
  let ?h = "psync_hmac_sha512 sha (drop 16 txt) iv" and ?r = "drop 16 txt"
  have lh: "length ?h = 64" by (rule length_hmac [OF h])
  let ?c = "E (bxor (take 16 txt) (take 16 ?h))"
  have lc: "length ?c = 16" and dc: "D ?c = bxor (take 16 txt) (take 16 ?h)" using c t lh by simp_all
  let ?out = "?c @ enc_text_loop E ?c ?r"
  have r: "?r \<noteq> []" using t by simp
  have zr: "0 \<notin> set ?r" using t(2) by (meson in_set_dropD)
  note cbc = cbc_text [OF c r lc, of al]
  have a: "ALIGN_A256_BS (length txt) = 16 + ALIGN_A256_BS (length ?r)" using align_step t by simp
  have a16: "16 \<le> ALIGN_A256_BS (length ?r)" "ALIGN_A256_BS (length ?r) mod 16 = 0"
    using align_le(1) [of "length ?r"] align_mod [of "length ?r"] t by (simp_all, presburger)
  have lo: "length ?out = ALIGN_A256_BS (length txt)" using cbc lc a by simp
  have "pcrypto_encode_text E sha iv txt = Some ?out"
    using t lc lh by (simp add: pcrypto_encode_text_def Let_def layout_simps copy_unaligned_def)
  moreover have "pcrypto_decode_text D sha iv al ?out = Some (padded txt @ [0])"
  proof -
    let ?ret = "bxor (take 16 txt) (take 16 ?h) @ padded ?r @ [0]"
    have n: "length ?out mod 16 = 0" "length ?out \<noteq> 0" "length ?out div 16 \<noteq> 1"
      "length ?out div 16 - 1 = ALIGN_A256_BS (length ?r) div 16"
      unfolding lo a using a16 by auto
    have ret: "copy_aligned (D (copy16 al ?out)) @ dec_text_loop D al (length ?out div 16 - 1) ?out @ [0] = ?ret"
      using cbc lc dc n(4) t lh by (simp add: copy16_eq)
    have dr: "drop 16 ?ret = padded ?r @ [0]" using t lh by simp
    have len: "c_strlen (drop 16 ?ret) = length ?r" unfolding dr by (rule c_strlen_padded [OF zr])
    have tk: "take (length ?r) (padded ?r @ [0]) = ?r" by (simp add: padded_def)
    have final: "xor16_aligned_inplace ?ret ?h = padded txt @ [0]"
      using t lh padded_step [OF t(1)] by (simp add: xor16_aligned_eq)
    have zero: "padding_zero (length ?r + 16 + 1) (length ?out) (padded txt @ [0])"
      using t lo nth_padded [of "txt"] by (auto simp: padding_zero_def length_padded)
    show ?thesis
      unfolding pcrypto_decode_text_def layout_simps Let_def
      using n(1,2,3) ret dr len tk final zero by (simp only: if_False if_True simp_thms)
  qed
  ultimately show ?thesis using lo by blast
qed

text \<open>
  Every non-empty name (without zero bytes) is encrypted to whole blocks, never shorter than the
  name and less than a block longer, and decrypting with the same key gives the name back, at
  any alignment of the ciphertext.
\<close>

theorem encode_decode_text:
  assumes "cipher_ok E D" "sha_ok sha" "16 \<le> length iv" "txt \<noteq> []" "0 \<notin> set txt"
  shows "\<exists>out ret. pcrypto_encode_text E sha iv txt = Some out \<and> length out mod 16 = 0 \<and>
    length txt \<le> length out \<and> length out < length txt + 16 \<and>
    pcrypto_decode_text D sha iv al out = Some ret \<and> takeWhile (\<lambda>b. b \<noteq> 0) ret = txt"
proof -
  have "\<exists>out. pcrypto_encode_text E sha iv txt = Some out \<and> length out = ALIGN_A256_BS (length txt) \<and>
    pcrypto_decode_text D sha iv al out = Some (padded txt @ [0])"
  proof (cases "length txt \<le> 16")
    case True
    with text_short [OF assms(1,3,4) _ assms(5)] align_small [of "length txt"] assms(4) show ?thesis by simp
  next
    case False
    with text_long [OF assms(1-3) _ assms(5)] show ?thesis by simp
  qed
  moreover have "takeWhile (\<lambda>b. b \<noteq> 0) (padded txt @ [0]) = txt"
    unfolding padded_zero by (rule takeWhile_padded [OF assms(5)])
  ultimately show ?thesis using align_le [of "length txt"] align_mod [of "length txt"] by force
qed

theorem encode_decode_text_witness:
  "\<exists>out ret. pcrypto_encode_text rev (\<lambda>m. replicate 64 3) (replicate 16 9) [65, 66] = Some out \<and>
    length out mod 16 = 0 \<and> length [65, 66 :: u8] \<le> length out \<and> length out < length [65, 66 :: u8] + 16 \<and>
    pcrypto_decode_text rev (\<lambda>m. replicate 64 3) (replicate 16 9) False out = Some ret \<and>
    takeWhile (\<lambda>b. b \<noteq> 0) ret = [65, 66]"
  by (rule encode_decode_text) (simp_all add: cipher_ok_def sha_ok_def)

text \<open>
  Encrypting an empty name writes a whole block into a buffer of no bytes.
\<close>

theorem encode_empty_text_overflows: "pcrypto_encode_text E sha iv [] = None"
  by (simp add: pcrypto_encode_text_def ALIGN_A256_BS_def layout_simps case_prod_unfold)

end
