(* ===== verification/PSector.thy ===== *)
theory PSector
  imports PCrypto
begin

text \<open>
  The sectors of encrypted files (\<open>pcrypto_encode_sec\<close>, \<open>pcrypto_decode_sec\<close>, \<open>pcrypto_sign_sec\<close>
  in \<open>pclsync/pcrypto.c\<close>): CBC with the HMAC of the sector as initial vector and ciphertext
  stealing for a last partial block; the 32-byte authenticator encrypts the nonce and the HMAC.

  \<open>E\<close>, \<open>D\<close> and \<open>sha\<close> are as in \<open>PCrypto\<close>, \<open>iv\<close> is the HMAC key of the encoder, \<open>rnd\<close> the 16
  bytes of \<open>pssl_rand_strong\<close>. The sector number is hashed as its eight bytes.
\<close>

definition memcmp_const :: "bytes \<Rightarrow> bytes \<Rightarrow> nat \<Rightarrow> int" where
  "memcmp_const s1 s2 cnt =
     (let r = foldl (\<lambda>r i. r OR (ucast (s1 ! i XOR s2 ! i) :: u32)) 0 [0..<cnt]
      in uint ((drop_bit 8 (r - 1) AND 1) XOR 1))"

definition sector_hmac :: "hash_fun \<Rightarrow> bytes \<Rightarrow> bytes \<Rightarrow> u64 \<Rightarrow> bytes \<Rightarrow> bytes" where
  "sector_hmac sha iv data sectorid rnd =
     psync_hmac_sha512_final sha
       (psync_hmac_sha512_update rnd
         (psync_hmac_sha512_update (le_bytes 8 sectorid)
           (psync_hmac_sha512_update data (psync_hmac_sha512_init iv))))"

text \<open>The loop over whole blocks: the blocks written and the last one, which is the next chain value.\<close>

fun enc_sec_loop :: "block_fun \<Rightarrow> bool \<Rightarrow> nat \<Rightarrow> bytes \<Rightarrow> bytes \<Rightarrow> bytes \<times> bytes" where
  "enc_sec_loop E al 0 chain data = ([], chain)"
| "enc_sec_loop E al (Suc n) chain data =
     (let dst = E (xor16 al chain (take 16 data));
          (out, chain') = enc_sec_loop E al n dst (drop 16 data)
      in (copy16 al dst @ out, chain'))"

definition pcrypto_encode_sec ::
    "block_fun \<Rightarrow> hash_fun \<Rightarrow> bytes \<Rightarrow> bool \<Rightarrow> bytes \<Rightarrow> bytes \<Rightarrow> u64 \<Rightarrow> bytes \<times> bytes" where
  "pcrypto_encode_sec E sha iv al rnd data sectorid =
     (let hmac = sector_hmac sha iv data sectorid rnd in
      if length data < PSYNC_AES256_BLOCK_SIZE then
        (let src = xor_cnt_inplace (length data) rnd data
         in (take (length data) rnd,
             encode_2blocks_consec E (src @ take PSYNC_AES256_BLOCK_SIZE hmac)))
      else
        (let needsteal = length data mod 16;
             datalen = (if needsteal \<noteq> 0 then length data - (needsteal + PSYNC_AES256_BLOCK_SIZE)
                        else length data);
             authout = encode_2blocks_consec E (take 8 rnd @ take 16 hmac @ drop 8 rnd);
             (out, chain) = enc_sec_loop E al (datalen div 16) (take 16 hmac) data
         in if needsteal \<noteq> 0 then
              (let data = drop datalen data;
                   dst = E (xor16_unaligned_inplace chain (take 16 data));
                   rest = take needsteal dst;
                   dst = xor_cnt_inplace needsteal dst (drop 16 data)
               in (out @ E dst @ rest, authout))
            else (out, authout)))"

text \<open>Four blocks at a time while at least 64 bytes are left, then single blocks.\<close>

function dec_sec_loop4 :: "block_fun \<Rightarrow> nat \<Rightarrow> bytes \<Rightarrow> bytes \<Rightarrow> bytes \<times> bytes \<times> nat \<times> bytes" where
  "dec_sec_loop4 D datalen aesxor data =
     (if datalen \<ge> PSYNC_AES256_BLOCK_SIZE * 4 then
        (let src = take 64 data;
             dst = decode_4blocks_consec_xor D src (aesxor @ take 48 src);
             (out, rest) = dec_sec_loop4 D (datalen - PSYNC_AES256_BLOCK_SIZE * 4) (drop 48 src) (drop 64 data)
         in (dst @ out, rest))
      else ([], aesxor, datalen, data))"
  by pat_completeness auto
termination by (relation "measure (\<lambda>(D, n, x, d). n)") (auto simp: layout_simps)

declare dec_sec_loop4.simps [simp del]

fun dec_sec_loop :: "block_fun \<Rightarrow> nat \<Rightarrow> bytes \<Rightarrow> bytes \<Rightarrow> bytes \<times> bytes" where
  "dec_sec_loop D 0 aesxor data = ([], aesxor)"
| "dec_sec_loop D (Suc n) aesxor data =
     (let src = copy_unaligned data;
          dst = xor16_aligned_inplace (D src) aesxor;
          (out, aesxor') = dec_sec_loop D n src (drop 16 data)
      in (copy_unaligned dst @ out, aesxor'))"

text \<open>
  The middle of \<open>pcrypto_decode_sec\<close>: from the decrypted authenticator \<open>hmac\<close>, the decoded data
  and the buffer \<open>hmac\<close> rearranged to the nonce and the HMAC.
\<close>

definition dec_sec_body :: "block_fun \<Rightarrow> bytes \<Rightarrow> bytes \<Rightarrow> bytes \<times> bytes" where
  "dec_sec_body D data hmac =
     (if length data < PSYNC_AES256_BLOCK_SIZE then
        (let h = xor_cnt_inplace (length data) hmac data
         in (take (length data) h, data @ drop (length data) h))
      else
        (let needsteal = length data mod 16;
             datalen = (if needsteal \<noteq> 0 then length data - (needsteal + PSYNC_AES256_BLOCK_SIZE)
                        else length data);
             aesxor = take 16 (drop 8 hmac);
             hmac = take 8 hmac @ take 8 (drop 24 hmac) @ aesxor;
             (out4, aesxor, left, data4) = dec_sec_loop4 D datalen aesxor data;
             (out1, aesxor) = dec_sec_loop D (left div 16) aesxor data4;
             out = out4 @ out1
         in (if needsteal \<noteq> 0 then
               (let data = drop datalen data;
                    dst = xor_cnt_inplace needsteal (D (take 16 data)) (drop 16 data);
                    src = D (drop 16 data @ drop needsteal dst)
                in (out @ copy_unaligned (xor16_aligned_inplace src aesxor) @ take needsteal dst, hmac))
             else (out, hmac))))"

text \<open>The decoded data and the result code, 0 when the authenticator matches.\<close>

definition pcrypto_decode_sec ::
    "block_fun \<Rightarrow> hash_fun \<Rightarrow> bytes \<Rightarrow> bytes \<Rightarrow> bytes \<Rightarrow> u64 \<Rightarrow> bytes \<times> int" where
  "pcrypto_decode_sec D sha iv data auth sectorid =
     (let (out, hmac) = dec_sec_body D data (decode_2blocks_consec D auth);
          check = sector_hmac sha iv out sectorid (take PSYNC_AES256_BLOCK_SIZE hmac)
      in (out, - memcmp_const check (drop PSYNC_AES256_BLOCK_SIZE hmac) PSYNC_AES256_BLOCK_SIZE))"

definition pcrypto_sign_sec :: "block_fun \<Rightarrow> hash_fun \<Rightarrow> bytes \<Rightarrow> bytes \<Rightarrow> bytes" where
  "pcrypto_sign_sec E sha iv data = encode_2blocks_consec E (psync_hmac_sha512 sha data iv)"

subsection \<open>The constant-time comparison\<close>

lemma fold_or_zero:
  "foldl (\<lambda>r i. r OR f i) r0 xs = (0 :: u32) \<longleftrightarrow> r0 = 0 \<and> (\<forall>i\<in>set xs. f i = 0)"
  by (induction xs arbitrary: r0) (auto simp: or_eq_0_iff)

lemma fold_or_small:
  "(\<And>i. i \<in> set xs \<Longrightarrow> take_bit 8 (f i) = f i) \<Longrightarrow> take_bit 8 r0 = r0 \<Longrightarrow>
   take_bit 8 (foldl (\<lambda>r i. r OR f i) r0 xs) = (foldl (\<lambda>r i. r OR f i) r0 xs :: u32)"
  by (induction xs arbitrary: r0) (auto simp: take_bit_or)

lemma sub_one_top:
  fixes r :: u32
  assumes "take_bit 8 r = r" "r \<noteq> 0"
  shows "drop_bit 8 (r - 1) = 0"
proof -
  have "unat r < 256" using unat_take_8 [of r] assms(1) by simp
  moreover have "unat (r - 1) = unat r - 1" using assms(2) by (rule unat_minus_one)
  ultimately have "unat (r - 1) div 256 = 0" by simp
  then have "unat (drop_bit 8 (r - 1)) = 0" by (simp add: drop_bit_eq_div unat_div)
  then show ?thesis by (simp add: unsigned_eq_0_iff)
qed

lemma ucast_zero_iff: "(ucast (b :: u8) :: u32) = 0 \<longleftrightarrow> b = 0"
proof
  assume "(ucast b :: u32) = 0"
  then have "\<not> bit (ucast b :: u32) i" for i by simp
  then show "b = 0" by (intro bit_word_eqI) (auto simp: bit_simps)
qed simp

lemma take_bit_byte: "take_bit 8 (ucast (b :: u8) :: u32) = ucast b"
  by (rule bit_word_eqI) (auto simp: bit_simps dest: bit_imp_le_length)

lemma minus_one_top: "drop_bit 8 (- 1 :: u32) AND 1 = 1"
  by (rule bit_word_eqI) (auto simp: bit_simps)

lemma byte_xor_zero: "(a :: u8) XOR b = 0 \<longleftrightarrow> a = b"
  by (metis xor.left_neutral xor.assoc xor.right_neutral xor_self_eq)

lemma memcmp_const_correct:
  assumes "cnt \<le> length s1" "cnt \<le> length s2"
  shows "memcmp_const s1 s2 cnt = (if take cnt s1 = take cnt s2 then 0 else 1)"
proof -
  let ?f = "\<lambda>i. ucast (s1 ! i XOR s2 ! i) :: u32"
  define r where "r = foldl (\<lambda>r i. r OR ?f i) 0 [0..<cnt]"
  have z: "?f i = 0 \<longleftrightarrow> s1 ! i = s2 ! i" for i
    using ucast_zero_iff [of "s1 ! i XOR s2 ! i"] byte_xor_zero by blast
  have eq: "r = 0 \<longleftrightarrow> take cnt s1 = take cnt s2"
    using assms by (auto simp: r_def fold_or_zero z list_eq_iff_nth_eq)
  have "take_bit 8 r = r" unfolding r_def
    by (rule fold_or_small) (simp_all add: take_bit_byte)
  from sub_one_top [OF this] have "memcmp_const s1 s2 cnt = (if r = 0 then 0 else 1)"
    unfolding memcmp_const_def r_def [symmetric] Let_def using minus_one_top by auto
  then show ?thesis by (simp add: eq)
qed

subsection \<open>The chaining loops\<close>

text \<open>The encoder's loop, and its reversal by blocks of four and by single blocks.\<close>

lemma enc_sec_loop_length:
  assumes "cipher_ok E D"
  shows "length data \<ge> 16 * n \<Longrightarrow> length chain = 16 \<Longrightarrow> enc_sec_loop E al n chain data = (out, chain') \<Longrightarrow>
    length out = 16 * n \<and> length chain' = 16"
proof (induction n arbitrary: chain data out chain')
  case (Suc n)
  let ?c = "E (bxor chain (take 16 data))"
  have c: "length ?c = 16" using assms Suc.prems by simp
  obtain o' c' where r: "enc_sec_loop E al n ?c (drop 16 data) = (o', c')" by (metis prod.exhaust)
  have "length o' = 16 * n \<and> length c' = 16" using Suc.IH [OF _ c r] Suc.prems by simp
  then show ?case using Suc.prems r c by (auto simp: copy16_eq)
qed simp

lemma enc_sec_loop_dec:
  assumes "cipher_ok E D"
  shows "length data \<ge> 16 * n \<Longrightarrow> length chain = 16 \<Longrightarrow> enc_sec_loop E al n chain data = (out, chain') \<Longrightarrow>
    dec_sec_loop D n chain (out @ rest) = (take (16 * n) data, chain')"
proof (induction n arbitrary: chain data out chain')
  case (Suc n)
  let ?c = "E (bxor chain (take 16 data))"
  have c: "length ?c = 16" "D ?c = bxor chain (take 16 data)" using assms Suc.prems by simp_all
  obtain o' c' where r: "enc_sec_loop E al n ?c (drop 16 data) = (o', c')" by (metis prod.exhaust)
  have out: "out = ?c @ o'" "chain' = c'" using Suc.prems r c by (auto simp: copy16_eq)
  have "dec_sec_loop D n ?c (o' @ rest) = (take (16 * n) (drop 16 data), c')"
    using Suc.IH [OF _ c(1) r] Suc.prems by simp
  moreover have "bxor (bxor chain (take 16 data)) chain = take 16 data"
    using Suc.prems by (subst bxor_comm) (simp_all add: bxor_comm [of chain])
  moreover have "take (16 + 16 * n) data = take 16 data @ take (16 * n) (drop 16 data)" by (rule take_add)
  ultimately show ?case using c Suc.prems out
    by (simp add: copy_unaligned_def layout_simps xor16_aligned_eq)
qed simp

text \<open>A step of four blocks is four single steps.\<close>

lemma dec_four:
  assumes "length x = 16" "length b0 = 16" "length b1 = 16" "length b2 = 16" "length b3 = 16"
    and "\<And>b. length b = 16 \<Longrightarrow> length (D b) = 16"
    and "dec_sec_loop D n b3 r = (out, x')"
  shows "dec_sec_loop D (4 + n) x (b0 @ b1 @ b2 @ b3 @ r) =
    (decode_4blocks_consec_xor D (b0 @ b1 @ b2 @ b3) (x @ b0 @ b1 @ b2) @ out, x')"
  using assms by (simp add: numeral_eq_Suc copy_unaligned_def layout_simps decode_4blocks_consec_xor_def)

lemma split_64:
  assumes "64 \<le> length (data :: bytes)"
  obtains b0 b1 b2 b3 r where "data = b0 @ b1 @ b2 @ b3 @ r" "length b0 = 16" "length b1 = 16"
    "length b2 = 16" "length b3 = 16"
proof -
  let ?d1 = "drop 16 data" let ?d2 = "drop 16 ?d1" let ?d3 = "drop 16 ?d2"
  have "data = take 16 data @ take 16 ?d1 @ take 16 ?d2 @ take 16 ?d3 @ drop 16 ?d3"
    by (simp only: append_take_drop_id)
  with assms show thesis by (intro that [of "take 16 data" "take 16 ?d1" "take 16 ?d2" "take 16 ?d3" "drop 16 ?d3"]) simp_all
qed

text \<open>Both loops together are the single-block loop.\<close>

lemma dec_sec_loops:
  assumes D: "\<And>b. length b = 16 \<Longrightarrow> length (D b) = 16"
  shows "datalen mod 16 = 0 \<Longrightarrow> datalen \<le> length data \<Longrightarrow> length x = 16 \<Longrightarrow>
    dec_sec_loop4 D datalen x data = (out4, x4, left, data4) \<Longrightarrow>
    dec_sec_loop D (left div 16) x4 data4 = (out1, x1) \<Longrightarrow>
    dec_sec_loop D (datalen div 16) x data = (out4 @ out1, x1)"
proof (induction datalen arbitrary: x data out4 rule: less_induct)
  case (less datalen)
  show ?case
  proof (cases "64 \<le> datalen")
    case False
    with less.prems show ?thesis by (subst (asm) dec_sec_loop4.simps) (auto simp: layout_simps)
  next
    case True
    then have "64 \<le> length data" using less.prems by simp
    then obtain b0 b1 b2 b3 r where d: "data = b0 @ b1 @ b2 @ b3 @ r" and l: "length b0 = 16"
      "length b1 = 16" "length b2 = 16" "length b3 = 16" by (rule split_64)
    obtain o' z where r4: "dec_sec_loop4 D (datalen - 64) b3 r = (o', z)" by (metis prod.exhaust)
    let ?dst = "decode_4blocks_consec_xor D (b0 @ b1 @ b2 @ b3) (x @ b0 @ b1 @ b2)"
    have "dec_sec_loop4 D datalen x data = (?dst @ o', z)"
      using True d l r4 by (subst dec_sec_loop4.simps) (simp add: layout_simps Let_def)
    then have z: "z = (x4, left, data4)" "out4 = ?dst @ o'" using less.prems(4) by simp_all
    have m: "(datalen - 64) mod 16 = 0" "datalen div 16 = 4 + (datalen - 64) div 16"
    proof -
      obtain e where e: "datalen = 64 + e" using True by (metis le_Suc_ex)
      have "(e + 4 * 16) mod 16 = e mod 16" by (rule mod_mult_self1)
      moreover have "(e + 4 * 16) div 16 = 4 + e div 16" by simp
      ultimately have "(64 + e) mod 16 = e mod 16" "(64 + e) div 16 = 4 + e div 16"
        by (simp_all add: add.commute)
      then show "(datalen - 64) mod 16 = 0" "datalen div 16 = 4 + (datalen - 64) div 16"
        using less.prems(1) e by simp_all
    qed
    have "dec_sec_loop D ((datalen - 64) div 16) b3 r = (o' @ out1, x1)"
      by (rule less.IH [OF _ m(1) _ l(4) r4 [unfolded z(1)] less.prems(5)]) (use True less.prems(2) d l in auto)
    from dec_four [OF less.prems(3) l D this] show ?thesis unfolding m(2) d z(2) by simp
  qed
qed

subsection \<open>Round trip\<close>

lemma length_sector_hmac: "sha_ok sha \<Longrightarrow> length (sector_hmac sha iv data sid rnd) = 64"
  by (simp add: sector_hmac_def psync_hmac_sha512_final_def sha_ok_def)

lemma sector_hmac_eq:
  "sector_hmac sha iv data sid rnd = psync_hmac_sha512 sha (data @ le_bytes 8 sid @ rnd) iv"
  using hmac_incremental [of sha "[data, le_bytes 8 sid, rnd]" iv] by (simp add: sector_hmac_def)

lemma two_blocks:
  assumes "cipher_ok E D" "length src = 32"
  shows "decode_2blocks_consec D (encode_2blocks_consec E src) = src"
    and "length (encode_2blocks_consec E src) = 32"
proof -
  have "take 16 src @ take 16 (drop 16 src) = src" using assms(2) by (simp add: take_add [symmetric])
  with assms show "decode_2blocks_consec D (encode_2blocks_consec E src) = src"
    by (simp add: decode_2blocks_consec_def encode_2blocks_consec_def)
  show "length (encode_2blocks_consec E src) = 32" using assms
    by (simp add: encode_2blocks_consec_def)
qed

lemma memcmp_equal: "length a \<ge> n \<Longrightarrow> length b \<ge> n \<Longrightarrow> take n a = take n b \<Longrightarrow> memcmp_const a b n = 0"
  by (simp add: memcmp_const_correct)

lemma decode_accepts:
  assumes "sha_ok sha" "length rnd = 16"
    and "dec_sec_body D out (decode_2blocks_consec D auth) = (data, rnd @ take 16 (sector_hmac sha iv data sid rnd))"
  shows "pcrypto_decode_sec D sha iv out auth sid = (data, 0)"
  using assms length_sector_hmac [OF assms(1), of iv data sid rnd]
  by (simp add: pcrypto_decode_sec_def layout_simps memcmp_equal)

lemma sec_short:
  assumes c: "cipher_ok E D" and h: "sha_ok sha" and rnd: "length rnd = 16" and d: "length data < 16"
    and e: "pcrypto_encode_sec E sha iv al rnd data sid = (out, auth)"
  shows "length out = length data \<and> length auth = 32 \<and> pcrypto_decode_sec D sha iv out auth sid = (data, 0)"
proof -
  let ?hm = "sector_hmac sha iv data sid rnd" and ?n = "length data"
  let ?src = "(bxor (take ?n rnd) data @ drop ?n rnd) @ take 16 ?hm"
  have hm: "length ?hm = 64" by (rule length_sector_hmac [OF h])
  have ls: "length ?src = 32" using d rnd hm by simp
  have out: "out = take ?n rnd" and auth: "auth = encode_2blocks_consec E ?src"
    using e d by (auto simp: pcrypto_encode_sec_def layout_simps xor_cnt_inplace_def Let_def)
  have lo: "length out = ?n" using out d rnd by simp
  have dec: "decode_2blocks_consec D auth = ?src" unfolding auth by (rule two_blocks [OF c ls])
  have x: "xor_cnt_inplace ?n ?src out = data @ drop ?n rnd @ take 16 ?hm"
    using d rnd by (simp add: xor_cnt_inplace_def out bxor_comm [of "take ?n rnd" data])
  have "dec_sec_body D out ?src = (take ?n (data @ drop ?n rnd @ take 16 ?hm), out @ drop ?n (data @ drop ?n rnd @ take 16 ?hm))"
    using d lo unfolding dec_sec_body_def layout_simps by (simp only: x if_True Let_def)
  also have "\<dots> = (data, rnd @ take 16 ?hm)" by (simp add: out)
  finally have "pcrypto_decode_sec D sha iv out auth sid = (data, 0)"
    by (intro decode_accepts [OF h rnd]) (simp add: dec)
  moreover have "length auth = 32" unfolding auth by (rule two_blocks [OF c ls])
  ultimately show ?thesis using lo by blast
qed

text \<open>The sector with its last partial block, if it has one, split off.\<close>

definition whole_len :: "nat \<Rightarrow> nat" where
  "whole_len n = (if n mod 16 \<noteq> 0 then n - (n mod 16 + 16) else n)"

lemma whole_lenE:
  assumes "16 \<le> n"
  obtains q where "n mod 16 = 0" "n = 16 * q" "whole_len n = n"
  | q r where "0 < r" "r < 16" "n mod 16 = r" "n = 16 * q + (16 + r)" "whole_len n = 16 * q"
proof (cases "n mod 16 = 0")
  case True
  then show thesis using that(1) [of "n div 16"] mult_div_mod_eq [of 16 n] by (simp add: whole_len_def)
next
  case False
  obtain q where q: "n div 16 = Suc q" using assms by (cases "n div 16") (auto simp: div_eq_0_iff)
  have n: "n = 16 * q + (16 + n mod 16)" using mult_div_mod_eq [of 16 n] q by simp
  then have "n - (n mod 16 + 16) = 16 * q" by linarith
  then show thesis using that(2) [of "n mod 16" q] n False by (simp add: whole_len_def)
qed

lemma dec_body:
  assumes D: "\<And>b. length b = 16 \<Longrightarrow> length (D b) = 16"
    and "n mod 16 = 0" "n \<le> length data" "length x = 16"
    and "dec_sec_loop D (n div 16) x data = (out, x')"
  obtains out4 x4 left data4 out1 where "dec_sec_loop4 D n x data = (out4, x4, left, data4)"
    "dec_sec_loop D (left div 16) x4 data4 = (out1, x')" "out4 @ out1 = out"
proof -
  obtain out4 x4 left data4 where l4: "dec_sec_loop4 D n x data = (out4, x4, left, data4)"
    by (metis prod.exhaust)
  obtain out1 x1 where l1: "dec_sec_loop D (left div 16) x4 data4 = (out1, x1)" by (metis prod.exhaust)
  from dec_sec_loops [OF D assms(2,3,4) l4 l1] assms(5) have "out4 @ out1 = out" "x1 = x'" by simp_all
  with l4 l1 show thesis by (intro that) simp_all
qed

lemma sec_auth:
  assumes "cipher_ok E D" "length rnd = 16" "length t = 16"
  shows "decode_2blocks_consec D (encode_2blocks_consec E (take 8 rnd @ t @ drop 8 rnd)) = take 8 rnd @ t @ drop 8 rnd"
    "length (encode_2blocks_consec E (take 8 rnd @ t @ drop 8 rnd)) = 32"
  using two_blocks [OF assms(1), of "take 8 rnd @ t @ drop 8 rnd"] assms by simp_all

lemma sec_whole:
  assumes c: "cipher_ok E D" and h: "sha_ok sha" and rnd: "length rnd = 16"
    and d: "16 \<le> length data" "length data mod 16 = 0"
    and e: "pcrypto_encode_sec E sha iv al rnd data sid = (out, auth)"
  shows "length out = length data \<and> length auth = 32 \<and> pcrypto_decode_sec D sha iv out auth sid = (data, 0)"
proof -
  let ?hm = "sector_hmac sha iv data sid rnd" and ?n = "length data"
  have hm: "length ?hm = 64" by (rule length_sector_hmac [OF h])
  then have ht: "length (take 16 ?hm) = 16" by simp
  obtain chain where l: "enc_sec_loop E al (?n div 16) (take 16 ?hm) data = (out, chain)"
    and auth: "auth = encode_2blocks_consec E (take 8 rnd @ take 16 ?hm @ drop 8 rnd)"
    using e d by (auto simp: pcrypto_encode_sec_def layout_simps Let_def split: prod.splits)
  have nn: "16 * (?n div 16) = ?n" using d(2) mult_div_mod_eq [of 16 ?n] by simp
  have lo: "length out = ?n" using enc_sec_loop_length [OF c _ ht l] nn by simp
  note a = sec_auth [OF c rnd ht]
  have "dec_sec_loop D (?n div 16) (take 16 ?hm) (out @ []) = (take (16 * (?n div 16)) data, chain)"
    by (rule enc_sec_loop_dec [OF c _ ht l]) (simp add: nn)
  then have "dec_sec_loop D (?n div 16) (take 16 ?hm) out = (data, chain)" by (simp add: nn)
  then obtain out4 x4 left data4 out1 where
    dd: "dec_sec_loop4 D ?n (take 16 ?hm) out = (out4, x4, left, data4)"
      "dec_sec_loop D (left div 16) x4 data4 = (out1, chain)" "out4 @ out1 = data"
    using dec_body [of D ?n out "take 16 ?hm" data chain] c d(2) lo ht by (metis cipher_okD(2) order_refl)
  have "dec_sec_body D out (take 8 rnd @ take 16 ?hm @ drop 8 rnd) = (out4 @ out1, rnd @ take 16 ?hm)"
    using d lo rnd ht dd(1,2) by (simp add: dec_sec_body_def layout_simps Let_def)
  then have "pcrypto_decode_sec D sha iv out auth sid = (data, 0)"
    by (intro decode_accepts [OF h rnd]) (simp add: auth a dd(3))
  then show ?thesis using lo a(2) auth by blast
qed

lemma sec_steal:
  assumes c: "cipher_ok E D" and h: "sha_ok sha" and rnd: "length rnd = 16"
    and d: "data = A @ B @ C" "length A = 16 * q" "length B = 16" "0 < length C" "length C < 16"
    and e: "pcrypto_encode_sec E sha iv al rnd data sid = (out, auth)"
  shows "length out = length data \<and> length auth = 32 \<and> pcrypto_decode_sec D sha iv out auth sid = (data, 0)"
proof -
  let ?hm = "sector_hmac sha iv data sid rnd" and ?s = "length C"
  have hm: "length ?hm = 64" by (rule length_sector_hmac [OF h])
  then have ht: "length (take 16 ?hm) = 16" by simp
  have n: "length data = 16 * q + (16 + ?s)" "length data mod 16 = ?s" "\<not> length data < 16"
    "length data - (?s + 16) = 16 * q" using d by simp_all
  obtain oA chain where l: "enc_sec_loop E al q (take 16 ?hm) data = (oA, chain)" by (metis prod.exhaust)
  have lA: "length oA = 16 * q" "length chain = 16" using enc_sec_loop_length [OF c _ ht l] n(1) by simp_all
  define d0 where "d0 = E (bxor chain B)"
  have d0: "length d0 = 16" "D d0 = bxor chain B" using c lA d(3) by (simp_all add: d0_def)
  define d1 where "d1 = bxor (take ?s d0) C @ drop ?s d0"
  have d1: "length d1 = 16" using d0 d(5) by (simp add: d1_def)
  have out: "out = oA @ E d1 @ take ?s d0" and auth: "auth = encode_2blocks_consec E (take 8 rnd @ take 16 ?hm @ drop 8 rnd)"
    using e n l lA d(1-5) by (auto simp: pcrypto_encode_sec_def layout_simps Let_def xor_cnt_inplace_def
        d0_def [symmetric] d1_def [symmetric])
  have lo: "length out = length data" using n(1) lA d0 d1 c d(5) by (simp add: out)
  note a = sec_auth [OF c rnd ht]
  have "dec_sec_loop D q (take 16 ?hm) (oA @ E d1 @ take ?s d0) = (take (16 * q) data, chain)"
    by (rule enc_sec_loop_dec [OF c _ ht l]) (simp add: n)
  then have "dec_sec_loop D (16 * q div 16) (take 16 ?hm) out = (A, chain)" using d(1,2) by (simp add: out)
  then obtain out4 x4 left data4 out1 where
    dd: "dec_sec_loop4 D (16 * q) (take 16 ?hm) out = (out4, x4, left, data4)"
      "dec_sec_loop D (left div 16) x4 data4 = (out1, chain)" "out4 @ out1 = A"
    using dec_body [of D "16 * q" out "take 16 ?hm" A chain] c lo ht n(1)
    by (metis cipher_okD(2) le_add1 mod_mult_self1_is_0)
  have tail: "drop (16 * q) out = E d1 @ take ?s d0" using lA by (simp add: out)
  have dst: "xor_cnt_inplace ?s d1 (take ?s d0) = C @ drop ?s d0"
    using d0 d1 d(5) by (simp add: xor_cnt_inplace_def d1_def bxor_comm [of "take ?s d0"])
  have b: "bxor (bxor chain B) chain = B" using lA d(3) by (simp add: bxor_comm [of chain])
  have src: "D (take ?s d0 @ drop ?s d0) = bxor chain B" using d0(2) by simp
  have "dec_sec_body D out (take 8 rnd @ take 16 ?hm @ drop 8 rnd) = ((out4 @ out1) @ B @ C, rnd @ take 16 ?hm)"
  proof -
    have st: "length out mod 16 = ?s" "\<not> length out < 16" "length out - (?s + 16) = 16 * q" using n lo by simp_all
    have dD: "D (E d1) = d1" "take 16 (E d1 @ take ?s d0) = E d1" "drop 16 (E d1 @ take ?s d0) = take ?s d0"
      using c d1 by simp_all
    have fin: "copy_unaligned (xor16_aligned_inplace (bxor chain B) chain) = B"
      using b lA d(3) by simp
    have X: "take 16 (drop 8 (take 8 rnd @ take 16 ?hm @ drop 8 rnd)) = take 16 ?hm"
      "take 8 (take 8 rnd @ take 16 ?hm @ drop 8 rnd) @
       take 8 (drop 24 (take 8 rnd @ take 16 ?hm @ drop 8 rnd)) @ take 16 ?hm = rnd @ take 16 ?hm"
      using rnd hm by simp_all
    have nz: "?s \<noteq> 0" and tk: "take ?s (C @ drop ?s d0) = C" "drop ?s (C @ drop ?s d0) = drop ?s d0"
      using d(4) by simp_all
    have mul: "16 * 4 = (64 :: nat)" by simp
    show ?thesis
      unfolding dec_sec_body_def layout_simps st Let_def if_not_P [OF st(2)] if_P [OF nz] X dd(1)
      by (simp only: prod.case dd(2) tail dD dst tk src fin append_assoc st if_False)
  qed
  then have "pcrypto_decode_sec D sha iv out auth sid = (data, 0)"
    by (intro decode_accepts [OF h rnd]) (simp only: auth a dd(3), simp add: d(1))
  then show ?thesis using lo a(2) auth by blast
qed

lemma dec_sec_body_hmac:
  assumes "16 \<le> length data"
  shows "snd (dec_sec_body D data h) = take 8 h @ take 8 (drop 24 h) @ take 16 (drop 8 h)"
proof -
  have "\<not> length data < 16" using assms by simp
  then show ?thesis
    unfolding dec_sec_body_def layout_simps Let_def by (simp only: if_False case_prod_unfold) simp
qed

subsection \<open>Properties\<close>

text \<open>
  C3. Decoding an encoded sector, of any length and with any nonce, gives the data back and accepts
  the authenticator; the ciphertext is as long as the data (a last partial block costs no
  padding) and the authenticator is 32 bytes.
\<close>

theorem encode_decode_sec:
  assumes "cipher_ok E D" "sha_ok sha" "length rnd = 16"
    and "pcrypto_encode_sec E sha iv al rnd data sectorid = (out, auth)"
  shows "length out = length data \<and> length auth = 32 \<and>
    pcrypto_decode_sec D sha iv out auth sectorid = (data, 0)"
proof (cases "length data < 16")
  case True
  with sec_short [OF assms(1-3) _ assms(4)] show ?thesis by blast
next
  case False
  then have n: "16 \<le> length data" by simp
  from whole_lenE [OF n] show ?thesis
  proof cases
    case (1 q)
    with sec_whole [OF assms(1-3) n _ assms(4)] show ?thesis by blast
  next
    case (2 q r)
    let ?A = "take (16 * q) data" and ?B = "take 16 (drop (16 * q) data)" and ?C = "drop (16 * q + 16) data"
    have "data = ?A @ ?B @ ?C"
      by (simp only: append_take_drop_id drop_drop [symmetric] add.commute [of "16 * q"])
    from sec_steal [OF assms(1-3) this _ _ _ _ assms(4)] 2 show ?thesis by simp
  qed
qed

theorem encode_decode_sec_witness:
  "\<exists>out auth. pcrypto_encode_sec rev (\<lambda>m. replicate 64 3) [1, 2] True (replicate 16 7) (replicate 20 9) 5 = (out, auth) \<and>
     length out = length (replicate 20 (9 :: u8)) \<and>
     pcrypto_decode_sec rev (\<lambda>m. replicate 64 3) [1, 2] out auth 5 = (replicate 20 9, 0)"
proof -
  obtain out auth where e: "pcrypto_encode_sec rev (\<lambda>m. replicate 64 3) [1, 2] True (replicate 16 7) (replicate 20 9) 5 = (out, auth)"
    by (metis prod.exhaust)
  have c: "cipher_ok rev rev" "sha_ok (\<lambda>m. replicate 64 3)" "length (replicate 16 (7 :: u8)) = 16"
    by (simp_all add: cipher_ok_def sha_ok_def)
  from encode_decode_sec [OF c e] e show ?thesis by blast
qed

text \<open>The nonce and the tag that the authenticator of a sector holds; a sector shorter than a block carries a part of the nonce itself.\<close>

definition sec_nonce :: "block_fun \<Rightarrow> bytes \<Rightarrow> bytes \<Rightarrow> bytes" where
  "sec_nonce D data auth =
     (if length data < 16 then data @ drop (length data) (D (take 16 auth))
      else take 8 (D (take 16 auth)) @ drop 8 (D (drop 16 auth)))"

definition sec_tag :: "block_fun \<Rightarrow> bytes \<Rightarrow> bytes \<Rightarrow> bytes" where
  "sec_tag D data auth =
     (if length data < 16 then D (drop 16 auth) else drop 8 (D (take 16 auth)) @ take 8 (D (drop 16 auth)))"

lemma dec_body_parts:
  assumes "\<And>b. length b = 16 \<Longrightarrow> length (D b) = 16" "length auth = 32"
  shows "snd (dec_sec_body D data (decode_2blocks_consec D auth)) = sec_nonce D data auth @ sec_tag D data auth"
    "length (sec_nonce D data auth) = 16" "length (sec_tag D data auth) = 16"
proof -
  have X: "decode_2blocks_consec D auth = D (take 16 auth) @ D (drop 16 auth)"
    "length (D (take 16 auth)) = 16" "length (D (drop 16 auth)) = 16"
    using assms by (simp_all add: decode_2blocks_consec_def)
  show "snd (dec_sec_body D data (decode_2blocks_consec D auth)) = sec_nonce D data auth @ sec_tag D data auth"
  proof (cases "length data < 16")
    case True
    then have "snd (dec_sec_body D data (decode_2blocks_consec D auth)) =
        data @ drop (length data) (xor_cnt_inplace (length data) (D (take 16 auth) @ D (drop 16 auth)) data)"
      by (simp add: dec_sec_body_def layout_simps Let_def X(1))
    then show ?thesis using True X(2,3) by (simp add: sec_nonce_def sec_tag_def xor_cnt_inplace_def)
  next
    case False
    then show ?thesis
      using dec_sec_body_hmac [of data D] X(2,3) by (simp add: sec_nonce_def sec_tag_def X(1))
  qed
  show "length (sec_nonce D data auth) = 16" "length (sec_tag D data auth) = 16"
    using X(2,3) by (simp_all add: sec_nonce_def sec_tag_def)
qed

text \<open>
  C4. Decoding accepts a sector of any length exactly when the first 16 bytes of the HMAC of what it decoded, the sector
  number it was asked for and the nonce are the tag inside the authenticator; otherwise the result is -1. So no
  sector is accepted under another number or after a change of a byte unless the keyed hash agrees.
\<close>

theorem decode_sec_accepts_iff_hmac:
  assumes "sha_ok sha" "\<And>b. length b = 16 \<Longrightarrow> length (D b) = 16" "length auth = 32"
    and "pcrypto_decode_sec D sha iv data auth sectorid = (out, res)"
  shows "res = (if take 16 (psync_hmac_sha512 sha (out @ le_bytes 8 sectorid @ sec_nonce D data auth) iv) = sec_tag D data auth
    then 0 else -1)"
proof -
  note p = dec_body_parts [where D = D and auth = auth and data = data, OF assms(2,3)]
  obtain o' where b: "dec_sec_body D data (decode_2blocks_consec D auth) = (o', sec_nonce D data auth @ sec_tag D data auth)"
    using p(1) by (metis prod.collapse)
  have hm: "length (psync_hmac_sha512 sha m iv) = 64" for m by (rule length_hmac [OF assms(1)])
  have "o' = out \<and> res = - memcmp_const (psync_hmac_sha512 sha (out @ le_bytes 8 sectorid @ sec_nonce D data auth) iv) (sec_tag D data auth) 16"
    using assms(4) p(2,3) unfolding pcrypto_decode_sec_def b
    by (auto simp: layout_simps Let_def sector_hmac_eq)
  then show ?thesis using p hm by (simp add: memcmp_const_correct)
qed

theorem decode_sec_accepts_iff_hmac_witness:
  "snd (pcrypto_decode_sec id (\<lambda>m. replicate 64 3) [1, 2] (replicate 5 9) (replicate 32 4) 5) = -1"
proof -
  obtain out res where r: "pcrypto_decode_sec id (\<lambda>m. replicate 64 3) [1, 2] (replicate 5 9) (replicate 32 4) 5 = (out, res)"
    by (metis prod.exhaust)
  have "(replicate 16 3 :: bytes) \<noteq> replicate 16 4" by simp
  with decode_sec_accepts_iff_hmac [OF _ _ _ r] r show ?thesis
    by (simp add: sha_ok_def psync_hmac_sha512_def sec_tag_def numeral_eq_Suc)
qed

end
