(* ===== verification/PApi.thy ===== *)
theory PApi
  imports Prelude
begin

text \<open>
  \<open>pclsync/papi.c\<close>: the binary protocol of the API servers. A response is measured by
  \<open>calc_ret_len\<close>, which checks every bound, and then unpacked without checks by
  \<open>do_parse_result\<close> into one buffer of the measured size; a request is packed by
  \<open>papi_prepare\<close>; responses also arrive piecewise through the asynchronous reader.

  The input is the list of the bytes left; \<open>*datalen\<close> is its length at every point. A result
  tree is a value (the C tree is built once and never changed, so the sharing of reused
  strings does not show). A read behind the input is the outcome \<open>Outside\<close>. The recursion of
  the C functions is bounded by fuel, one unit per call and per loop turn; \<open>calc_fuel_enough\<close>
  shows that twice the input length, plus two, is enough.
\<close>

subsection \<open>Tags\<close>

definition RPARAM_STR1 :: nat where "RPARAM_STR1 = 0"
definition RPARAM_STR4 :: nat where "RPARAM_STR4 = 3"
definition RPARAM_RSTR1 :: nat where "RPARAM_RSTR1 = 4"
definition RPARAM_RSTR4 :: nat where "RPARAM_RSTR4 = 7"
definition RPARAM_NUM1 :: nat where "RPARAM_NUM1 = 8"
definition RPARAM_NUM8 :: nat where "RPARAM_NUM8 = 15"
definition RPARAM_HASH :: nat where "RPARAM_HASH = 16"
definition RPARAM_ARRAY :: nat where "RPARAM_ARRAY = 17"
definition RPARAM_BFALSE :: nat where "RPARAM_BFALSE = 18"
definition RPARAM_BTRUE :: nat where "RPARAM_BTRUE = 19"
definition RPARAM_DATA :: nat where "RPARAM_DATA = 20"
definition RPARAM_SHORT_STR_BASE :: nat where "RPARAM_SHORT_STR_BASE = 100"
definition RPARAM_SHORT_RSTR_BASE :: nat where "RPARAM_SHORT_RSTR_BASE = 150"
definition RPARAM_SMALL_NUM_BASE :: nat where "RPARAM_SMALL_NUM_BASE = 200"
definition RPARAM_END :: nat where "RPARAM_END = 255"
definition VSHORT_STR_LEN :: nat where "VSHORT_STR_LEN = 50"
definition VSHORT_RSTR_CNT :: nat where "VSHORT_RSTR_CNT = 50"
definition VSMALL_NUMBER_NUM :: nat where "VSMALL_NUMBER_NUM = 20"

lemmas rparam_defs = RPARAM_STR1_def RPARAM_STR4_def RPARAM_RSTR1_def RPARAM_RSTR4_def RPARAM_NUM1_def
  RPARAM_NUM8_def RPARAM_HASH_def RPARAM_ARRAY_def RPARAM_BFALSE_def RPARAM_BTRUE_def RPARAM_DATA_def
  RPARAM_SHORT_STR_BASE_def RPARAM_SHORT_RSTR_BASE_def RPARAM_SMALL_NUM_BASE_def RPARAM_END_def
  VSHORT_STR_LEN_def VSHORT_RSTR_CNT_def VSMALL_NUMBER_NUM_def

datatype binresult = BNull | BStr bytes | BNum u64 | BBool bool | BArray "binresult list"
  | BHash "(bytes \<times> binresult) list" | BData u64

text \<open>Sizes of the C structures on the 64-bit target.\<close>

definition binresult_size :: nat where "binresult_size = 16"
definition binresult_str_off :: nat where "binresult_str_off = 8"
definition pointer_size :: nat where "pointer_size = 8"
definition hashpair_size :: nat where "hashpair_size = 16"
definition ALIGN_BYTES :: nat where "ALIGN_BYTES = 8"

lemmas size_defs = binresult_size_def binresult_str_off_def pointer_size_def hashpair_size_def ALIGN_BYTES_def

definition str_space :: "nat \<Rightarrow> nat" where
  "str_space len = (len + ALIGN_BYTES) div ALIGN_BYTES * ALIGN_BYTES"

text \<open>\<open>len = 0; memcpy(&len, *data, l);\<close>\<close>

definition read_len :: "nat \<Rightarrow> bytes \<Rightarrow> nat" where
  "read_len l data = unat (le_load (take l data) :: u64)"

text \<open>The classification by which both functions dispatch on the tag.\<close>

datatype rkind = KShortStr | KStr | KRstr | KShortRstr | KNum | KSmallNum | KBool | KArray | KHash | KData | KBad

definition rkind :: "nat \<Rightarrow> rkind" where
  "rkind type =
     (if type \<ge> RPARAM_SHORT_STR_BASE \<and> type < RPARAM_SHORT_STR_BASE + VSHORT_STR_LEN then KShortStr
      else if type \<ge> RPARAM_STR1 \<and> type \<le> RPARAM_STR4 then KStr
      else if type \<ge> RPARAM_RSTR1 \<and> type \<le> RPARAM_RSTR4 then KRstr
      else if type \<ge> RPARAM_SHORT_RSTR_BASE \<and> type < RPARAM_SHORT_RSTR_BASE + VSHORT_RSTR_CNT then KShortRstr
      else if type \<ge> RPARAM_NUM1 \<and> type \<le> RPARAM_NUM8 then KNum
      else if type \<ge> RPARAM_SMALL_NUM_BASE \<and> type < RPARAM_SMALL_NUM_BASE + VSMALL_NUMBER_NUM then KSmallNum
      else if type = RPARAM_BFALSE \<or> type = RPARAM_BTRUE then KBool
      else if type = RPARAM_ARRAY then KArray
      else if type = RPARAM_HASH then KHash
      else if type = RPARAM_DATA then KData
      else KBad)"

subsection \<open>Measuring a response\<close>

text \<open>\<open>Done ret data strcnt\<close>: the length, what is left of the input, and the string counter.\<close>

datatype calc_res = NoFuel | Fail | Outside | Done nat bytes nat

definition calc_str :: "nat \<Rightarrow> bytes \<Rightarrow> nat \<Rightarrow> calc_res" where
  "calc_str len data strcnt =
     (if length data < len then Fail
      else Done (binresult_str_off + str_space len) (drop len data) (strcnt + 1))"

definition calc_rstr :: "nat \<Rightarrow> bytes \<Rightarrow> nat \<Rightarrow> calc_res" where
  "calc_rstr len data strcnt = (if len < strcnt then Done 0 data strcnt else Fail)"

text \<open>Every tag but the two of containers.\<close>

definition calc_scalar :: "nat \<Rightarrow> bytes \<Rightarrow> nat \<Rightarrow> calc_res" where
  "calc_scalar type data strcnt =
     (case rkind type of
        KShortStr \<Rightarrow> calc_str (type - RPARAM_SHORT_STR_BASE) data strcnt
      | KStr \<Rightarrow>
          (let l = type - RPARAM_STR1 + 1 in
           if length data < l then Fail else calc_str (read_len l data) (drop l data) strcnt)
      | KRstr \<Rightarrow>
          (let l = type - RPARAM_RSTR1 + 1 in
           if length data < l then Fail else calc_rstr (read_len l data) (drop l data) strcnt)
      | KShortRstr \<Rightarrow> calc_rstr (type - RPARAM_SHORT_RSTR_BASE) data strcnt
      | KNum \<Rightarrow>
          (let len = type - RPARAM_NUM1 + 1 in
           if length data < len then Fail else Done binresult_size (drop len data) strcnt)
      | KSmallNum \<Rightarrow> Done 0 data strcnt
      | KBool \<Rightarrow> Done 0 data strcnt
      | KData \<Rightarrow> (if length data < 8 then Fail else Done binresult_size (drop 8 data) strcnt)
      | _ \<Rightarrow> Fail)"

function (sequential) calc_ret_len :: "nat \<Rightarrow> bytes \<Rightarrow> nat \<Rightarrow> calc_res"
and calc_array :: "nat \<Rightarrow> nat \<Rightarrow> nat \<Rightarrow> bytes \<Rightarrow> nat \<Rightarrow> calc_res"
and calc_hash :: "nat \<Rightarrow> nat \<Rightarrow> nat \<Rightarrow> bytes \<Rightarrow> nat \<Rightarrow> calc_res" where
  "calc_ret_len 0 data strcnt = NoFuel"
| "calc_ret_len (Suc fuel) data strcnt =
     (if data = [] then Fail
      else let type = unat (hd data) in
           if rkind type = KArray then calc_array fuel binresult_size 0 (tl data) strcnt
           else if rkind type = KHash then calc_hash fuel binresult_size 0 (tl data) strcnt
           else calc_scalar type (tl data) strcnt)"
| "calc_array 0 ret cnt data strcnt = NoFuel"
| "calc_array (Suc fuel) ret cnt data strcnt =
     (if data = [] then Outside
      else if unat (hd data) = RPARAM_END then Done (ret + pointer_size * cnt) (tl data) strcnt
      else case calc_ret_len fuel data strcnt of
             Done r d s \<Rightarrow> (if d = [] then Fail else calc_array fuel (ret + r) (cnt + 1) d s)
           | e \<Rightarrow> e)"
| "calc_hash 0 ret cnt data strcnt = NoFuel"
| "calc_hash (Suc fuel) ret cnt data strcnt =
     (if data = [] then Outside
      else if unat (hd data) = RPARAM_END then Done (ret + hashpair_size * cnt) (tl data) strcnt
      else case calc_ret_len fuel data strcnt of
             Done r d s \<Rightarrow>
               (case calc_ret_len fuel d s of
                  Done r2 d2 s2 \<Rightarrow>
                    (if d2 = [] then Fail else calc_hash fuel (ret + r + r2) (cnt + 1) d2 s2)
                | e \<Rightarrow> e)
           | e \<Rightarrow> e)"
  by pat_completeness auto

termination
  by (relation "measure (case_sum fst (case_sum fst fst))") simp_all

subsection \<open>Unpacking a response\<close>

text \<open>
  \<open>PDone v data odata strings\<close>: the value, the input left, the bytes used of the output buffer and
  the strings seen. \<open>POutside\<close>: a read behind the input or of a slot of \<open>strings\<close> not filled.
\<close>

datatype parse_res = PNoFuel | POutside | PDone binresult bytes nat "binresult list"

definition parse_str :: "nat \<Rightarrow> bytes \<Rightarrow> nat \<Rightarrow> binresult list \<Rightarrow> parse_res" where
  "parse_str len data odata strings =
     (if length data < len then POutside
      else PDone (BStr (take len data)) (drop len data) (odata + binresult_str_off + str_space len)
             (strings @ [BStr (take len data)]))"

definition parse_rstr :: "nat \<Rightarrow> bytes \<Rightarrow> nat \<Rightarrow> binresult list \<Rightarrow> parse_res" where
  "parse_rstr len data odata strings =
     (if len < length strings then PDone (strings ! len) data odata strings else POutside)"

definition parse_scalar :: "nat \<Rightarrow> bytes \<Rightarrow> nat \<Rightarrow> binresult list \<Rightarrow> parse_res" where
  "parse_scalar type data odata strings =
     (case rkind type of
        KShortStr \<Rightarrow> parse_str (type - RPARAM_SHORT_STR_BASE) data odata strings
      | KStr \<Rightarrow>
          (let l = type - RPARAM_STR1 + 1 in
           if length data < l then POutside
           else parse_str (read_len l data) (drop l data) odata strings)
      | KRstr \<Rightarrow>
          (let len = type - RPARAM_RSTR1 + 1 in
           if length data < len then POutside
           else parse_rstr (read_len len data) (drop len data) odata strings)
      | KShortRstr \<Rightarrow> parse_rstr (type - RPARAM_SHORT_RSTR_BASE) data odata strings
      | KNum \<Rightarrow>
          (let len = type - RPARAM_NUM1 + 1 in
           if length data < len then POutside
           else PDone (BNum (le_load (take len data))) (drop len data) (odata + binresult_size) strings)
      | KSmallNum \<Rightarrow> PDone (BNum (word_of_nat (type - RPARAM_SMALL_NUM_BASE))) data odata strings
      | KBool \<Rightarrow> PDone (BBool (type = RPARAM_BTRUE)) data odata strings
      | KData \<Rightarrow>
          (if length data < 8 then POutside
           else PDone (BData (le_load (take 8 data))) (drop 8 data) (odata + binresult_size) strings)
      | _ \<Rightarrow> PDone BNull data odata strings)"

text \<open>The body of the hash loop keeps a pair only when its key is a string.\<close>

definition add_pair :: "binresult \<Rightarrow> binresult \<Rightarrow> (bytes \<times> binresult) list \<Rightarrow> (bytes \<times> binresult) list" where
  "add_pair key v arr = (case key of BStr k \<Rightarrow> arr @ [(k, v)] | _ \<Rightarrow> arr)"

function (sequential) do_parse_result :: "nat \<Rightarrow> bytes \<Rightarrow> nat \<Rightarrow> binresult list \<Rightarrow> parse_res"
and parse_array :: "nat \<Rightarrow> binresult list \<Rightarrow> bytes \<Rightarrow> nat \<Rightarrow> binresult list \<Rightarrow> parse_res"
and parse_hash :: "nat \<Rightarrow> (bytes \<times> binresult) list \<Rightarrow> bytes \<Rightarrow> nat \<Rightarrow> binresult list \<Rightarrow> parse_res" where
  "do_parse_result 0 data odata strings = PNoFuel"
| "do_parse_result (Suc fuel) data odata strings =
     (if data = [] then POutside
      else let type = unat (hd data) in
           if rkind type = KArray then parse_array fuel [] (tl data) (odata + binresult_size) strings
           else if rkind type = KHash then parse_hash fuel [] (tl data) (odata + binresult_size) strings
           else parse_scalar type (tl data) odata strings)"
| "parse_array 0 arr data odata strings = PNoFuel"
| "parse_array (Suc fuel) arr data odata strings =
     (if data = [] then POutside
      else if unat (hd data) = RPARAM_END
      then PDone (BArray arr) (tl data) (odata + pointer_size * length arr) strings
      else case do_parse_result fuel data odata strings of
             PDone v d out s \<Rightarrow> parse_array fuel (arr @ [v]) d out s
           | e \<Rightarrow> e)"
| "parse_hash 0 arr data odata strings = PNoFuel"
| "parse_hash (Suc fuel) arr data odata strings =
     (if data = [] then POutside
      else if unat (hd data) = RPARAM_END
      then PDone (BHash arr) (tl data) (odata + hashpair_size * length arr) strings
      else case do_parse_result fuel data odata strings of
             PDone key d out s \<Rightarrow>
               (case do_parse_result fuel d out s of
                  PDone v d2 out2 s2 \<Rightarrow>
                    (if key = BNull then POutside else parse_hash fuel (add_pair key v arr) d2 out2 s2)
                | e \<Rightarrow> e)
           | e \<Rightarrow> e)"
  by pat_completeness auto

termination
  by (relation "measure (case_sum fst (case_sum fst fst))") simp_all

definition response_fuel :: "bytes \<Rightarrow> nat" where
  "response_fuel data = 2 * length data + 2"

datatype response = RNull | RCrash | RResult binresult

text \<open>
  \<open>parse_result\<close>: \<open>RNull\<close> for \<open>NULL\<close>. \<open>RCrash\<close> stands for a read outside the input, and for
  writing more than the \<open>retlen\<close> bytes or the \<open>strcnt\<close> pointers allocated.
\<close>

definition parse_result :: "bytes \<Rightarrow> response" where
  "parse_result data =
     (case calc_ret_len (response_fuel data) data 0 of
        Done retlen rest strcnt \<Rightarrow>
          (case do_parse_result (response_fuel data) data 0 [] of
             PDone v rest' odata strings \<Rightarrow>
               (if odata \<le> retlen \<and> length strings \<le> strcnt then RResult v else RCrash)
           | _ \<Rightarrow> RCrash)
      | Fail \<Rightarrow> RNull
      | _ \<Rightarrow> RCrash)"

subsection \<open>The two passes agree\<close>

lemma calc_str_cases:
  "calc_str len data n = Done r d s \<longleftrightarrow>
     len \<le> length data \<and> r = binresult_str_off + str_space len \<and> d = drop len data \<and> s = n + 1"
  by (auto simp: calc_str_def)

lemma calc_rstr_cases:
  "calc_rstr len data n = Done r d s \<longleftrightarrow> len < n \<and> r = 0 \<and> d = data \<and> s = n"
  by (auto simp: calc_rstr_def)

lemma calc_scalar_shrinks:
  "calc_scalar type data n = Done r d s \<Longrightarrow> length d \<le> length data"
  by (auto simp: calc_scalar_def calc_str_cases calc_rstr_cases Let_def split: rkind.splits if_splits)

lemma calc_scalar_total: "calc_scalar type data n \<noteq> NoFuel" "calc_scalar type data n \<noteq> Outside"
  by (auto simp: calc_scalar_def calc_str_def calc_rstr_def Let_def split: rkind.splits)

lemma calc_shrinks:
  "calc_ret_len fuel data n = Done r d s \<Longrightarrow> length d < length data"
  "calc_array fuel ret cnt data n = Done r d s \<Longrightarrow> length d < length data"
  "calc_hash fuel ret cnt data n = Done r d s \<Longrightarrow> length d < length data"
proof (induction fuel data n and fuel ret cnt data n and fuel ret cnt data n
    arbitrary: r d s and r d s and r d s rule: calc_ret_len_calc_array_calc_hash.induct)
  case (2 fuel data n)
  show ?case
  proof (cases data)
    case Nil
    with 2(3) show ?thesis by simp
  next
    case (Cons b ds)
    have "length d \<le> length ds"
      using 2(1)[of "unat b" r d s] 2(2)[of "unat b" r d s] 2(3) Cons
        calc_scalar_shrinks [of "unat b" ds n r d s]
      by (auto simp: Let_def split: if_splits)
    with Cons show ?thesis by simp
  qed
next
  case (4 fuel ret cnt data n)
  from 4(3) 4(1,2) show ?case
    by (fastforce split: if_splits calc_res.splits simp: neq_Nil_conv)
next
  case (6 fuel ret cnt data n)
  from 6(4) 6(1,2,3) show ?case
    by (fastforce split: if_splits calc_res.splits simp: neq_Nil_conv)
qed simp_all

text \<open>The fuel is enough: one unit per call and per loop turn, at most two per byte.\<close>

lemma calc_fuel_enough:
  "2 * length data < fuel \<Longrightarrow> calc_ret_len fuel data n \<noteq> NoFuel"
  "2 * length data + 1 < fuel \<Longrightarrow> calc_array fuel ret cnt data n \<noteq> NoFuel"
  "2 * length data + 1 < fuel \<Longrightarrow> calc_hash fuel ret cnt data n \<noteq> NoFuel"
proof (induction fuel data n and fuel ret cnt data n and fuel ret cnt data n
    rule: calc_ret_len_calc_array_calc_hash.induct)
  case (2 fuel data n)
  then show ?case
    by (cases data) (auto simp: Let_def calc_scalar_total)
next
  case (4 fuel ret cnt data n)
  have IH: "calc_ret_len fuel data n = Done r d s \<Longrightarrow> length d < length data \<Longrightarrow> d \<noteq> [] \<Longrightarrow> data \<noteq> [] \<Longrightarrow>
      unat (hd data) \<noteq> RPARAM_END \<Longrightarrow> calc_array fuel (ret + r) (Suc cnt) d s \<noteq> NoFuel" for r d s
    using 4(2) [of r d s] 4(3) by simp
  show ?case
    using 4(1,3) by (auto split: calc_res.splits dest: IH [OF _ calc_shrinks(1)])
next
  case (6 fuel ret cnt data n)
  have IH2: "calc_ret_len fuel data n = Done r d s \<Longrightarrow> length d < length data \<Longrightarrow> data \<noteq> [] \<Longrightarrow>
      unat (hd data) \<noteq> RPARAM_END \<Longrightarrow> calc_ret_len fuel d s \<noteq> NoFuel" for r d s
    using 6(2) [of r d s] 6(4) by simp
  have IH3: "calc_ret_len fuel data n = Done r d s \<Longrightarrow> calc_ret_len fuel d s = Done r2 d2 s2 \<Longrightarrow>
      length d < length data \<Longrightarrow> length d2 < length d \<Longrightarrow> d2 \<noteq> [] \<Longrightarrow> data \<noteq> [] \<Longrightarrow>
      unat (hd data) \<noteq> RPARAM_END \<Longrightarrow> calc_hash fuel (ret + r + r2) (Suc cnt) d2 s2 \<noteq> NoFuel" for r d s r2 d2 s2
    using 6(3) [of r d s r2 d2 s2] 6(4) by simp
  show ?case
    using 6(1,4)
    by (auto split: calc_res.splits dest: IH2 [OF _ calc_shrinks(1)]
        IH3 [OF _ _ calc_shrinks(1) calc_shrinks(1)])
qed simp_all

text \<open>The first pass runs out of its input only right behind an opening tag that ends the input.\<close>

lemma calc_scalar_rest:
  "calc_scalar type data n = Done r d s \<Longrightarrow> \<exists>k. d = drop k data"
  by (auto simp: calc_scalar_def calc_str_cases calc_rstr_cases Let_def
      split: rkind.splits if_splits intro: exI [of _ 0])

lemma rest_of_tail: "data \<noteq> [] \<Longrightarrow> d = drop k (tl data) \<Longrightarrow> \<exists>k. d = drop k data"
  by (metis drop_Suc)

lemma calc_rest:
  "calc_ret_len fuel data n = Done r d s \<Longrightarrow> \<exists>k. d = drop k data"
  "calc_array fuel ret cnt data n = Done r d s \<Longrightarrow> \<exists>k. d = drop k data"
  "calc_hash fuel ret cnt data n = Done r d s \<Longrightarrow> \<exists>k. d = drop k data"
proof (induction fuel data n and fuel ret cnt data n and fuel ret cnt data n
    arbitrary: r d s and r d s and r d s rule: calc_ret_len_calc_array_calc_hash.induct)
  case (2 fuel data n)
  then have ne: "data \<noteq> []" by (auto split: if_splits)
  have "\<exists>k. d = drop k (tl data)"
    using 2 ne calc_scalar_rest by (auto simp: Let_def split: if_splits)
  then show ?case using ne rest_of_tail by metis
next
  case (4 fuel ret cnt data n)
  from 4(3) 4(1,2) show ?case
    by (fastforce split: if_splits calc_res.splits intro: rest_of_tail [of _ _ 0])
next
  case (6 fuel ret cnt data n)
  from 6(4) 6(1,2,3) show ?case
    by (fastforce split: if_splits calc_res.splits intro: rest_of_tail [of _ _ 0])
qed simp_all

lemma last_of_rest: "d = drop k data \<Longrightarrow> d \<noteq> [] \<Longrightarrow> last d = last data"
  by simp

text \<open>The first pass runs out of its input only right behind an opening tag that ends the input.\<close>

definition opens_at_end :: "bytes \<Rightarrow> bool" where
  "opens_at_end data \<longleftrightarrow> data \<noteq> [] \<and> unat (last data) \<in> {RPARAM_ARRAY, RPARAM_HASH}"

lemma opens_at_end_rest: "opens_at_end d \<Longrightarrow> d = drop k data \<Longrightarrow> opens_at_end data"
  by (auto simp: opens_at_end_def)

lemma rkind_container: "rkind type = KArray \<longleftrightarrow> type = RPARAM_ARRAY" "rkind type = KHash \<longleftrightarrow> type = RPARAM_HASH"
  by (simp_all add: rkind_def rparam_defs)

lemma calc_outside:
  "calc_ret_len fuel data n = Outside \<Longrightarrow> opens_at_end data"
  "calc_array fuel ret cnt data n = Outside \<Longrightarrow> data = [] \<or> opens_at_end data"
  "calc_hash fuel ret cnt data n = Outside \<Longrightarrow> data = [] \<or> opens_at_end data"
proof (induction fuel data n and fuel ret cnt data n and fuel ret cnt data n
    rule: calc_ret_len_calc_array_calc_hash.induct)
  case (2 fuel data n)
  then obtain b ds where data: "data = b # ds" by (cases data) auto
  have "ds = [] \<and> unat b \<in> {RPARAM_ARRAY, RPARAM_HASH} \<or> opens_at_end ds"
    using 2 data by (auto simp: Let_def rkind_container calc_scalar_total split: if_splits)
  then show ?case using data by (auto simp: opens_at_end_def)
next
  case (4 fuel ret cnt data n)
  from 4(3) 4(1,2) show ?case
    by (auto split: if_splits calc_res.splits dest!: calc_rest(1) intro: opens_at_end_rest)
next
  case (6 fuel ret cnt data n)
  from 6(4) 6(1,2,3) show ?case
    by (auto split: if_splits calc_res.splits dest!: calc_rest(1))
      (blast intro: opens_at_end_rest)+
qed simp_all

subsection \<open>The second pass does what the first one measured\<close>

text \<open>\<open>follows\<close>: the second pass succeeds, and uses no more than the first pass announced.\<close>

definition strs :: "binresult list \<Rightarrow> bool" where
  "strs strings \<longleftrightarrow> (\<forall>v \<in> set strings. \<exists>t. v = BStr t)"

definition follows :: "parse_res \<Rightarrow> nat \<Rightarrow> bytes \<Rightarrow> nat \<Rightarrow> bool" where
  "follows p ret d n \<longleftrightarrow>
     (\<exists>v out strings. p = PDone v d out strings \<and> out \<le> ret \<and> length strings = n \<and>
        strs strings \<and> v \<noteq> BNull)"

lemma followsI:
  "out \<le> ret \<Longrightarrow> length strings = n \<Longrightarrow> strs strings \<Longrightarrow> v \<noteq> BNull \<Longrightarrow>
     follows (PDone v d out strings) ret d n"
  by (simp add: follows_def)

lemma scalar_follows:
  assumes "calc_scalar type data n = Done r d s" "length strings = n" "strs strings"
  shows "follows (parse_scalar type data out strings) (out + r) d s"
proof -
  have nth: "k < n \<Longrightarrow> strings ! k \<noteq> BNull" for k
    using assms(2,3) unfolding strs_def by (metis binresult.distinct(1) nth_mem)
  have str: "follows (parse_str len ds out strings) (out + r) d s"
    if "calc_str len ds n = Done r d s" for len ds
    using that assms(2,3) by (auto simp: calc_str_cases parse_str_def strs_def intro!: followsI)
  have rstr: "follows (parse_rstr len ds out strings) (out + r) d s"
    if "calc_rstr len ds n = Done r d s" for len ds
    using that assms(2,3) nth by (auto simp: calc_rstr_cases parse_rstr_def intro!: followsI)
  show ?thesis
    using assms(1) str rstr assms(2,3)
    by (cases "rkind type")
      (auto simp: calc_scalar_def parse_scalar_def Let_def split: if_splits intro!: followsI)
qed

lemma result_follows:
  "calc_ret_len fuel data n = Done r d s \<Longrightarrow> length strings = n \<Longrightarrow> strs strings \<Longrightarrow>
     follows (do_parse_result fuel data out strings) (out + r) d s"
  "calc_array fuel ret cnt data n = Done r d s \<Longrightarrow> length strings = n \<Longrightarrow> strs strings \<Longrightarrow>
     out \<le> base + ret \<Longrightarrow> length arr = cnt \<Longrightarrow>
     follows (parse_array fuel arr data out strings) (base + r) d s"
  "calc_hash fuel ret cnt data n = Done r d s \<Longrightarrow> length strings = n \<Longrightarrow> strs strings \<Longrightarrow>
     out \<le> base + ret \<Longrightarrow> length pairs \<le> cnt \<Longrightarrow>
     follows (parse_hash fuel pairs data out strings) (base + r) d s"
proof (induction fuel data n and fuel ret cnt data n and fuel ret cnt data n
    arbitrary: r d s strings out and r d s strings out base arr and r d s strings out base pairs
    rule: calc_ret_len_calc_array_calc_hash.induct)
  case (2 fuel data n)
  then have ne: "data \<noteq> []" by (auto split: if_splits)
  show ?case
    using 2 ne scalar_follows [of "unat (hd data)" "tl data" n r d s strings out]
    by (auto simp: Let_def split: if_splits)
next
  case (4 fuel ret cnt data n)
  show ?case
  proof (cases "unat (hd data) = RPARAM_END")
    case True
    with 4 show ?thesis by (auto simp: pointer_size_def split: if_splits intro!: followsI)
  next
    case False
    with 4(3) obtain r1 d1 s1 where c: "data \<noteq> []" "calc_ret_len fuel data n = Done r1 d1 s1" "d1 \<noteq> []"
        "calc_array fuel (ret + r1) (cnt + 1) d1 s1 = Done r d s"
      by (auto split: if_splits calc_res.splits)
    from 4(1) [OF c(1) False c(2) 4(4,5), of out] obtain v out1 strings1 where
      p: "do_parse_result fuel data out strings = PDone v d1 out1 strings1"
         "out1 \<le> out + r1" "length strings1 = s1" "strs strings1"
      by (auto simp: follows_def)
    have "out1 \<le> base + (ret + r1)" using p(2) 4(6) by simp
    moreover have "length (arr @ [v]) = cnt + 1" using 4(7) by simp
    ultimately show ?thesis
      using 4(2) [OF c(1) False c(2,3,4) p(3,4)] c(1) False p(1) by simp
  qed
next
  case (6 fuel ret cnt data n)
  show ?case
  proof (cases "unat (hd data) = RPARAM_END")
    case True
    with 6 show ?thesis by (auto simp: hashpair_size_def split: if_splits intro!: followsI)
  next
    case False
    with 6(4) obtain r1 d1 s1 r2 d2 s2 where
      c: "data \<noteq> []" "calc_ret_len fuel data n = Done r1 d1 s1"
         "calc_ret_len fuel d1 s1 = Done r2 d2 s2" "d2 \<noteq> []"
         "calc_hash fuel (ret + r1 + r2) (cnt + 1) d2 s2 = Done r d s"
      by (auto split: if_splits calc_res.splits)
    from 6(1) [OF c(1) False c(2) 6(5,6), of out] obtain key out1 strings1 where
      p: "do_parse_result fuel data out strings = PDone key d1 out1 strings1"
         "out1 \<le> out + r1" "length strings1 = s1" "strs strings1" "key \<noteq> BNull"
      by (auto simp: follows_def)
    from 6(2) [OF c(1) False c(2) c(3) p(3,4), of out1] obtain v out2 strings2 where
      q: "do_parse_result fuel d1 out1 strings1 = PDone v d2 out2 strings2"
         "out2 \<le> out1 + r2" "length strings2 = s2" "strs strings2"
      by (auto simp: follows_def)
    have "out2 \<le> base + (ret + r1 + r2)" using p(2) q(2) 6(7) by simp
    moreover have "length (add_pair key v pairs) \<le> cnt + 1"
      using 6(8) by (simp add: add_pair_def split: binresult.split)
    ultimately show ?thesis
      using 6(3) [OF c(1) False c(2,3,4,5) q(3,4)] c(1) False p(1,5) q(1) by simp
  qed
qed simp_all

subsection \<open>Responses of the server\<close>

text \<open>
  The canonical encoding of a value: strings with a four byte length, numbers with eight bytes.
  (A server may also use short forms and references; they are only read, never written here.)
\<close>

definition wire_str :: "bytes \<Rightarrow> bytes" where
  "wire_str t = 3 # le_bytes 4 (word_of_nat (length t) :: u32) @ t"

primrec wire :: "binresult \<Rightarrow> bytes" where
  "wire BNull = []"
| "wire (BStr t) = wire_str t"
| "wire (BNum v) = 15 # le_bytes 8 v"
| "wire (BBool b) = [if b then 19 else 18]"
| "wire (BArray vs) = 17 # concat (map wire vs) @ [255]"
| "wire (BHash ps) = 16 # concat (map (\<lambda>(k, w). wire_str k @ w) (map (map_prod id wire) ps)) @ [255]"
| "wire (BData v) = 20 # le_bytes 8 v"

primrec sendable :: "binresult \<Rightarrow> bool" where
  "sendable BNull \<longleftrightarrow> False"
| "sendable (BStr t) \<longleftrightarrow> length t < 2 ^ 32"
| "sendable (BNum v) \<longleftrightarrow> True"
| "sendable (BBool b) \<longleftrightarrow> True"
| "sendable (BArray vs) \<longleftrightarrow> list_all id (map sendable vs)"
| "sendable (BHash ps) \<longleftrightarrow> list_all (\<lambda>(k, ok). length k < 2 ^ 32 \<and> ok) (map (map_prod id sendable) ps)"
| "sendable (BData v) \<longleftrightarrow> True"

text \<open>Both passes, started anywhere with enough fuel, read exactly \<open>v\<close> and leave \<open>rest\<close>.\<close>

definition reads :: "bytes \<Rightarrow> binresult \<Rightarrow> bool" where
  "reads w v \<longleftrightarrow>
     (\<forall>fuel rest n out strings. 2 * length w \<le> fuel \<longrightarrow>
        (\<exists>r s out' strings'. calc_ret_len fuel (w @ rest) n = Done r rest s \<and>
           do_parse_result fuel (w @ rest) out strings = PDone v rest out' strings'))"

lemma le_load_le_bytes_ucast:
  assumes "LENGTH('a::len) \<le> 8 * n"
  shows "le_load (le_bytes n (w :: 'a word)) = (ucast w :: 'b::len word)"
proof (rule bit_word_eqI)
  fix i assume i: "i < LENGTH('b)"
  show "bit (le_load (le_bytes n w) :: 'b word) i \<longleftrightarrow> bit (ucast w :: 'b word) i"
  proof (cases "i < LENGTH('a)")
    case True
    then have "i div 8 < n" using assms by (simp add: div_less_iff_less_mult)
    then show ?thesis using i by (simp add: bit_le_load le_bytes_def bit_simps)
  next
    case False
    then show ?thesis
      using i by (auto simp: bit_le_load le_bytes_def bit_simps div_less_iff_less_mult dest: bit_imp_le_length)
  qed
qed

lemma reads_scalar:
  assumes "\<And>rest n out strings. \<exists>r s out' strings'.
      calc_scalar (unat b) (w @ rest) n = Done r rest s \<and>
      parse_scalar (unat b) (w @ rest) out strings = PDone v rest out' strings'"
    and "unat b \<notin> {RPARAM_ARRAY, RPARAM_HASH}"
  shows "reads (b # w) v"
  unfolding reads_def
proof (intro allI impI)
  fix fuel rest n out strings assume "2 * length (b # w) \<le> fuel"
  then obtain f where "fuel = Suc f" by (cases fuel) auto
  then show "\<exists>r s out' strings'. calc_ret_len fuel ((b # w) @ rest) n = Done r rest s \<and>
           do_parse_result fuel ((b # w) @ rest) out strings = PDone v rest out' strings'"
    using assms by (simp add: rkind_container Let_def)
qed

lemma read_len_wire:
  "length t < 2 ^ 32 \<Longrightarrow> read_len 4 (le_bytes 4 (word_of_nat (length t) :: u32) @ rest) = length t"
  by (simp add: read_len_def le_load_le_bytes_ucast unsigned_ucast_eq unat_of_nat take_bit_nat_eq_self)

lemma reads_str: "length t < 2 ^ 32 \<Longrightarrow> reads (wire_str t) (BStr t)"
  unfolding wire_str_def
  by (rule reads_scalar)
    (simp_all add: calc_scalar_def parse_scalar_def rkind_def rparam_defs read_len_wire calc_str_def
      parse_str_def del: le_load.simps)

lemma reads_num: "reads (15 # le_bytes 8 v) (BNum v)" "reads (20 # le_bytes 8 v) (BData v)"
  by (rule reads_scalar;
      simp add: calc_scalar_def parse_scalar_def rkind_def rparam_defs le_load_le_bytes del: le_load.simps)+

lemma reads_bool: "reads [if b then 19 else 18] (BBool b)"
  by (rule reads_scalar)
    (simp_all add: calc_scalar_def parse_scalar_def rkind_def rparam_defs)

lemma sendable_wire: "sendable v \<Longrightarrow> wire v \<noteq> [] \<and> unat (hd (wire v)) \<noteq> RPARAM_END"
  by (cases v) (auto simp: wire_str_def rparam_defs)

lemma readsD:
  assumes "reads w v" "2 * length w \<le> fuel"
  obtains r s out' strings' where "calc_ret_len fuel (w @ rest) n = Done r rest s"
    "do_parse_result fuel (w @ rest) out strings = PDone v rest out' strings'"
  using assms unfolding reads_def by blast

lemma array_reads:
  assumes "\<forall>v \<in> set vs. sendable v \<and> reads (wire v) v" "2 * length (concat (map wire vs)) + 1 \<le> fuel"
  shows "\<exists>r s out' strings'.
      calc_array fuel ret cnt (concat (map wire vs) @ 255 # rest) n = Done r rest s \<and>
      parse_array fuel arr (concat (map wire vs) @ 255 # rest) out strings = PDone (BArray (arr @ vs)) rest out' strings'"
  using assms
proof (induction vs arbitrary: fuel ret cnt n arr out strings)
  case Nil
  then obtain f where "fuel = Suc f" by (cases fuel) auto
  then show ?case by (simp add: rparam_defs)
next
  case (Cons v vs)
  then obtain f where f: "fuel = Suc f" by (cases fuel) auto
  let ?t = "concat (map wire vs) @ 255 # rest"
  have w: "wire v \<noteq> []" "unat (hd (wire v)) \<noteq> RPARAM_END" using Cons.prems(1) sendable_wire by auto
  then have len: "1 \<le> length (wire v)" by (simp add: Suc_leI)
  have "reads (wire v) v" "2 * length (wire v) \<le> f" using Cons.prems f by auto
  then obtain r s out' strings' where
    step: "calc_ret_len f (wire v @ ?t) n = Done r ?t s"
          "do_parse_result f (wire v @ ?t) out strings = PDone v ?t out' strings'"
    by (rule readsD)
  have "2 * length (concat (map wire vs)) + 1 \<le> f" using Cons.prems(2) f len by simp
  from Cons.IH [OF _ this, of "ret + r" "cnt + 1" s "arr @ [v]" out' strings'] Cons.prems(1)
  show ?case using f w step by (simp add: hd_append)
qed

lemma hash_reads:
  assumes "\<forall>(k, v) \<in> set ps. length k < 2 ^ 32 \<and> sendable v \<and> reads (wire v) v"
    "2 * length (concat (map (\<lambda>(k, v). wire_str k @ wire v) ps)) + 1 \<le> fuel"
  shows "\<exists>r s out' strings'.
      calc_hash fuel ret cnt (concat (map (\<lambda>(k, v). wire_str k @ wire v) ps) @ 255 # rest) n = Done r rest s \<and>
      parse_hash fuel arr (concat (map (\<lambda>(k, v). wire_str k @ wire v) ps) @ 255 # rest) out strings =
        PDone (BHash (arr @ ps)) rest out' strings'"
  using assms
proof (induction ps arbitrary: fuel ret cnt n arr out strings)
  case Nil
  then obtain f where "fuel = Suc f" by (cases fuel) auto
  then show ?case by (simp add: rparam_defs)
next
  case (Cons p ps)
  obtain k v where p: "p = (k, v)" by (cases p)
  from Cons.prems obtain f where f: "fuel = Suc f" by (cases fuel) auto
  let ?t = "concat (map (\<lambda>(k, v). wire_str k @ wire v) ps) @ 255 # rest"
  have v: "length k < 2 ^ 32" "reads (wire v) v" using Cons.prems(1) p by auto
  have k: "wire_str k \<noteq> []" "unat (hd (wire_str k)) \<noteq> RPARAM_END" "1 \<le> length (wire_str k)"
    by (simp_all add: wire_str_def rparam_defs)
  have fl: "2 * length (wire_str k) \<le> f" "2 * length (wire v) \<le> f"
    using Cons.prems(2) f p k(3) by simp_all
  obtain r s out1 strings1 where
    step1: "calc_ret_len f (wire_str k @ wire v @ ?t) n = Done r (wire v @ ?t) s"
      "do_parse_result f (wire_str k @ wire v @ ?t) out strings = PDone (BStr k) (wire v @ ?t) out1 strings1"
    by (rule readsD [OF reads_str [OF v(1)] fl(1)])
  obtain r2 s2 out2 strings2 where
    step2: "calc_ret_len f (wire v @ ?t) s = Done r2 ?t s2"
      "do_parse_result f (wire v @ ?t) out1 strings1 = PDone v ?t out2 strings2"
    by (rule readsD [OF v(2) fl(2)])
  have "2 * length (concat (map (\<lambda>(k, v). wire_str k @ wire v) ps)) + 1 \<le> f"
    using Cons.prems(2) f p k(3) by simp
  from Cons.IH [OF _ this, of "ret + r + r2" "cnt + 1" s2 "arr @ [(k, v)]" out2 strings2] Cons.prems(1)
  show ?case using f p k(1,2) step1 step2 by (simp add: hd_append add_pair_def)
qed

lemma reads_container:
  assumes "\<And>fuel rest n out strings. 2 * length w \<le> Suc fuel \<Longrightarrow> \<exists>r s out' strings'.
      calc_array fuel binresult_size 0 (w @ rest) n = Done r rest s \<and>
      parse_array fuel [] (w @ rest) (out + binresult_size) strings = PDone v rest out' strings'"
  shows "reads (17 # w) v"
  unfolding reads_def
proof (intro allI impI)
  fix fuel rest n out strings assume "2 * length (17 # w :: bytes) \<le> fuel"
  then obtain f where f: "fuel = Suc f" "2 * length w \<le> Suc f" by (cases fuel) auto
  show "\<exists>r s out' strings'. calc_ret_len fuel ((17 # w) @ rest) n = Done r rest s \<and>
           do_parse_result fuel ((17 # w) @ rest) out strings = PDone v rest out' strings'"
    using assms [OF f(2)] by (simp add: f(1) rkind_container rparam_defs)
qed

lemma reads_container':
  assumes "\<And>fuel rest n out strings. 2 * length w \<le> Suc fuel \<Longrightarrow> \<exists>r s out' strings'.
      calc_hash fuel binresult_size 0 (w @ rest) n = Done r rest s \<and>
      parse_hash fuel [] (w @ rest) (out + binresult_size) strings = PDone v rest out' strings'"
  shows "reads (16 # w) v"
  unfolding reads_def
proof (intro allI impI)
  fix fuel rest n out strings assume "2 * length (16 # w :: bytes) \<le> fuel"
  then obtain f where f: "fuel = Suc f" "2 * length w \<le> Suc f" by (cases fuel) auto
  show "\<exists>r s out' strings'. calc_ret_len fuel ((16 # w) @ rest) n = Done r rest s \<and>
           do_parse_result fuel ((16 # w) @ rest) out strings = PDone v rest out' strings'"
    using assms [OF f(2)] by (simp add: f(1) rkind_container rparam_defs)
qed

lemma wire_hash: "wire (BHash ps) = 16 # concat (map (\<lambda>(k, v). wire_str k @ wire v) ps) @ [255]"
  by (simp add: comp_def case_prod_beta')

lemma reads_wire: "sendable v \<Longrightarrow> reads (wire v) v"
proof (induction v)
  case (BStr t)
  then show ?case by (simp add: reads_str)
next
  case (BArray vs)
  then have "\<forall>v \<in> set vs. sendable v \<and> reads (wire v) v" by (auto simp: list_all_iff)
  from array_reads [OF this, where arr = "[]"] show ?case
    by (simp, intro reads_container) simp
next
  case (BHash ps)
  have "\<forall>(k, v) \<in> set ps. length k < 2 ^ 32 \<and> sendable v \<and> reads (wire v) v"
    using BHash by (fastforce simp: list_all_iff)
  from hash_reads [OF this, where arr = "[]"] show ?case
    by (simp only: wire_hash, intro reads_container') simp
qed (simp_all add: reads_num reads_bool del: le_load.simps)

subsection \<open>The response parser as a whole\<close>

lemma parse_result_done:
  assumes "calc_ret_len (response_fuel data) data 0 = Done r d s"
  shows "\<exists>v. parse_result data = RResult v \<and> v \<noteq> BNull"
  using result_follows(1) [OF assms, of "[]" 0] assms
  by (auto simp: parse_result_def follows_def strs_def)

text \<open>
  C12. Memory safety of the unchecked second pass: unless the response ends with the opening
  tag of an array or of a hash, \<open>parse_result\<close> either refuses it or builds a tree. It never reads
  behind the input or an unset entry of \<open>strings\<close>, and stays within the \<open>retlen\<close> bytes and
  the \<open>strcnt\<close> pointers that the first pass made it allocate; every reference was validated.
\<close>

theorem parse_result_safe:
  assumes "\<not> opens_at_end data"
  shows "parse_result data = RNull \<or> (\<exists>v. parse_result data = RResult v \<and> v \<noteq> BNull)"
proof (cases "calc_ret_len (response_fuel data) data 0")
  case NoFuel
  then show ?thesis using calc_fuel_enough(1) [of data "response_fuel data" 0] by (simp add: response_fuel_def)
next
  case Fail
  then show ?thesis by (simp add: parse_result_def)
next
  case Outside
  then show ?thesis using calc_outside(1) assms by blast
next
  case (Done r d s)
  then show ?thesis using parse_result_done by blast
qed

theorem parse_result_safe_witness:
  "parse_result [16, 101, 97, 18, 150, 17, 255, 255] = RNull \<or>
   (\<exists>v. parse_result [16, 101, 97, 18, 150, 17, 255, 255] = RResult v \<and> v \<noteq> BNull)"
  by (rule parse_result_safe) (simp add: opens_at_end_def rparam_defs)

lemma opening_tags_outside:
  "0 < k \<Longrightarrow> 2 * k \<le> fuel \<Longrightarrow> calc_ret_len fuel (replicate k 17) n = Outside"
proof (induction k arbitrary: fuel)
  case (Suc k)
  then obtain f where f: "fuel = Suc (Suc f)" by (cases fuel; cases "fuel - 1") auto
  show ?case
  proof (cases k)
    case 0
    then show ?thesis by (simp add: f rkind_container rparam_defs)
  next
    case (Suc j)
    then have "calc_ret_len f (replicate k 17) n = Outside" using Suc.IH Suc.prems f by simp
    then show ?thesis using Suc by (simp add: f rkind_container rparam_defs)
  qed
qed simp

text \<open>
  The exception of \<open>parse_result_safe\<close> is real: a response that consists of opening tags only makes the
  measuring pass test \<open>**data\<close> behind the end of the input, because the loop condition
  of both containers is evaluated before the first \<open>_NEED_DATA(1)\<close> of the loop.
\<close>

theorem unterminated_container_reads_outside:
  assumes "0 < k"
  shows "parse_result (replicate k 17) = RCrash"
proof -
  have "calc_ret_len (response_fuel (replicate k 17)) (replicate k 17) 0 = Outside"
    by (rule opening_tags_outside) (use assms in \<open>simp_all add: response_fuel_def\<close>)
  then show ?thesis by (simp add: parse_result_def)
qed

theorem unterminated_container_reads_outside_witness: "parse_result (replicate 1 17) = RCrash"
  by (rule unterminated_container_reads_outside) simp

text \<open>
  C13. Functional correctness: a value sent in the canonical encoding is read back exactly,
  whatever follows it in the buffer.
\<close>

theorem parse_result_reads_wire:
  assumes "sendable v"
  shows "parse_result (wire v @ rest) = RResult v"
proof -
  let ?d = "wire v @ rest"
  have "2 * length (wire v) \<le> response_fuel ?d" by (simp add: response_fuel_def)
  then obtain r s out strings where
    "calc_ret_len (response_fuel ?d) ?d 0 = Done r rest s"
    "do_parse_result (response_fuel ?d) ?d 0 [] = PDone v rest out strings"
    by (rule readsD [OF reads_wire [OF assms]])
  moreover from this have "out \<le> r \<and> length strings \<le> s"
    using result_follows(1) [of "response_fuel ?d" ?d 0 r rest s "[]" 0] by (auto simp: follows_def strs_def)
  ultimately show ?thesis by (simp add: parse_result_def)
qed

theorem parse_result_reads_wire_witness:
  "parse_result (wire (BHash [([114], BNum 0), ([97], BArray [BBool True, BStr [98, 99]])]) @ [7])
     = RResult (BHash [([114], BNum 0), ([97], BArray [BBool True, BStr [98, 99]])])"
  by (rule parse_result_reads_wire) simp

end
