(* ===== verification/PApiRequest.thy ===== *)
theory PApiRequest
  imports PApi
begin

text \<open>
  The other half of \<open>pclsync/papi.c\<close>: packing a request, the asynchronous reader, the look-up of
  fields of a response and the choice of the server to connect to.
\<close>

subsection \<open>Packing a request\<close>

definition PARAM_STR :: nat where "PARAM_STR = 0"
definition PARAM_NUM :: nat where "PARAM_NUM = 1"
definition PARAM_BOOL :: nat where "PARAM_BOOL = 2"
definition PARAM_ARRAY :: nat where "PARAM_ARRAY = 3"
definition PARAM_HASH :: nat where "PARAM_HASH = 4"
definition PARAM_DATA :: nat where "PARAM_DATA = 5"

lemmas param_defs = PARAM_STR_def PARAM_NUM_def PARAM_BOOL_def PARAM_ARRAY_def PARAM_HASH_def PARAM_DATA_def

text \<open>
  \<open>binparam\<close>: the union of \<open>num\<close> and \<open>str\<close> has both as fields, \<open>str\<close> being the bytes behind the
  pointer, like \<open>paramname\<close>.
\<close>

record binparam =
  paramtype :: u16
  paramnamelen :: u16
  opts :: u32
  paramname :: bytes
  pnum :: u64
  pstr :: bytes

text \<open>
  What the first loop adds to \<open>plen\<close>, and what the second loop writes, for one parameter. The sum for a string has the
  type of \<open>opts\<close> and wraps around at \<open>2\<^sup>3\<^sup>2\<close>; the others are sums of type \<open>int\<close> and \<open>size_t\<close>, which cannot.
\<close>

definition param_len :: "binparam \<Rightarrow> nat" where
  "param_len p =
     (if unat (paramtype p) = PARAM_STR then unat (ucast (paramnamelen p) + opts p + 5 :: u32)
      else if unat (paramtype p) = PARAM_NUM then unat (paramnamelen p) + 1 + 8
      else if unat (paramtype p) = PARAM_BOOL then unat (paramnamelen p) + 2
      else 0)"

definition param_bytes :: "binparam \<Rightarrow> bytes" where
  "param_bytes p =
     ucast (push_bit 6 (paramtype p) + paramnamelen p) # take (unat (paramnamelen p)) (paramname p) @
     (if unat (paramtype p) = PARAM_STR then le_bytes 4 (opts p) @ take (unat (opts p)) (pstr p)
      else if unat (paramtype p) = PARAM_NUM then le_bytes 8 (pnum p)
      else if unat (paramtype p) = PARAM_BOOL then [ucast (pnum p AND 1)]
      else [])"

text \<open>\<open>plen\<close> after the first loop; two bytes more are allocated.\<close>

definition request_len :: "bytes \<Rightarrow> binparam list \<Rightarrow> u64 \<Rightarrow> nat" where
  "request_len command params datalen =
     length command + 2 + (if datalen \<noteq> - 1 then 8 else 0) + sum_list (map param_len params)"

text \<open>The bytes written, without the additional allocation behind the buffer; \<open>None\<close> is \<open>NULL\<close>.\<close>

definition papi_prepare :: "bytes \<Rightarrow> binparam list \<Rightarrow> u64 \<Rightarrow> bytes option" where
  "papi_prepare command params datalen =
     (let cmdlen = length command; plen = request_len command params datalen
      in if plen > 0xffff then None
         else Some (le_bytes 2 (word_of_nat plen :: u64) @
                (if datalen \<noteq> - 1 then (word_of_nat cmdlen OR 0x80) # le_bytes 8 datalen
                 else [word_of_nat cmdlen]) @
                command @ [word_of_nat (length params)] @ concat (map param_bytes params)))"

text \<open>
  A parameter as the macros \<open>PAPI_STR\<close>, \<open>PAPI_LSTR\<close>, \<open>PAPI_NUM\<close> and \<open>PAPI_BOOL\<close> build it, with a name that
  fits the six bits left beside the type.
\<close>

definition param_ok :: "binparam \<Rightarrow> bool" where
  "param_ok p \<longleftrightarrow> unat (paramtype p) \<le> PARAM_BOOL \<and> length (paramname p) = unat (paramnamelen p) \<and>
     length (paramname p) < 64 \<and>
     (unat (paramtype p) = PARAM_STR \<longrightarrow> length (pstr p) = unat (opts p)) \<and>
     (unat (paramtype p) = PARAM_BOOL \<longrightarrow> pnum p \<in> {0, 1})"

text \<open>The server's side of the format.\<close>

datatype request_param = RStr bytes bytes | RNum bytes u64 | RBool bytes bool

definition view_param :: "binparam \<Rightarrow> request_param" where
  "view_param p =
     (if unat (paramtype p) = PARAM_STR then RStr (paramname p) (pstr p)
      else if unat (paramtype p) = PARAM_NUM then RNum (paramname p) (pnum p)
      else RBool (paramname p) (pnum p = 1))"

definition read_param :: "bytes \<Rightarrow> (request_param \<times> bytes) option" where
  "read_param bs =
     (case bs of [] \<Rightarrow> None
      | b # bs \<Rightarrow>
          (let nlen = unat (b AND 0x3f); name = take nlen bs; bs = drop nlen bs; type = unat (drop_bit 6 b) in
           if type = 0 then
             (let slen = unat (le_load (take 4 bs) :: u32) in
              Some (RStr name (take slen (drop 4 bs)), drop slen (drop 4 bs)))
           else if type = 1 then Some (RNum name (le_load (take 8 bs)), drop 8 bs)
           else if type = 2 then Some (RBool name (hd bs = 1), tl bs)
           else None))"

fun read_params :: "nat \<Rightarrow> bytes \<Rightarrow> (request_param list \<times> bytes) option" where
  "read_params 0 bs = Some ([], bs)"
| "read_params (Suc n) bs =
     (case read_param bs of None \<Rightarrow> None
      | Some (p, bs) \<Rightarrow> map_option (\<lambda>(ps, bs). (p # ps, bs)) (read_params n bs))"

text \<open>The command, the announced length of a data upload, and the parameters.\<close>

definition read_request :: "bytes \<Rightarrow> (bytes \<times> u64 option \<times> request_param list) option" where
  "read_request bs =
     (let plen = unat (le_load (take 2 bs) :: u16); bs = drop 2 bs in
      if length bs \<noteq> plen then None
      else
        (let b = hd bs; bs = tl bs; clen = unat (b AND 0x7f);
             (dl, bs) = (if b AND 0x80 \<noteq> 0 then (Some (le_load (take 8 bs)), drop 8 bs) else (None, bs));
             command = take clen bs; bs = drop clen bs
         in case read_params (unat (hd bs)) (tl bs) of
              Some (ps, []) \<Rightarrow> Some (command, dl, ps)
            | _ \<Rightarrow> None))"

text \<open>The parameters whose string is so long that the sum of the lengths wraps around.\<close>

definition len_wraps :: "binparam \<Rightarrow> bool" where
  "len_wraps p \<longleftrightarrow> unat (paramtype p) = PARAM_STR \<and> 2 ^ 32 \<le> unat (paramnamelen p) + unat (opts p) + 5"

lemma length_param_bytes:
  assumes "param_ok p"
  shows "length (param_bytes p) = param_len p + (if len_wraps p then 2 ^ 32 else 0)"
proof (cases "unat (paramtype p) = PARAM_STR")
  case True
  have n: "unat (ucast (paramnamelen p) :: u32) = unat (paramnamelen p)"
    by (simp add: unsigned_ucast_eq take_bit_nat_eq_self unsigned_less order.strict_trans [OF unsigned_less [of "paramnamelen p"]])
  have o: "unat (opts p) < 2 ^ 32" using unsigned_less [of "opts p"] by simp
  have "unat (ucast (paramnamelen p) + opts p + 5 :: u32) = (unat (paramnamelen p) + unat (opts p) + 5) mod 2 ^ 32"
    unfolding unat_word_ariths n by (simp add: mod_simps)
  moreover have "k mod 2 ^ 32 + (if 2 ^ 32 \<le> k then 2 ^ 32 else 0) = k" if "k < 2 * 2 ^ 32" for k :: nat
    using that by (simp add: mod_if [of k])
  note this [of "unat (paramnamelen p) + unat (opts p) + 5"]
  ultimately have "param_len p + (if len_wraps p then 2 ^ 32 else 0) = unat (paramnamelen p) + unat (opts p) + 5"
    using True assms o unfolding param_ok_def len_wraps_def param_len_def by simp
  then show ?thesis using True assms by (auto simp: param_ok_def param_bytes_def)
next
  case False
  with assms show ?thesis by (auto simp: param_ok_def param_bytes_def param_len_def param_defs len_wraps_def)
qed

lemma word_take_bit_small: "unat (w :: 'a::len word) < 2 ^ k \<Longrightarrow> take_bit k w = w"
  by (simp only: word_unat_eq_iff unsigned_take_bit_eq take_bit_nat_eq_self)

lemma type_byte:
  fixes n t :: u16
  assumes "unat n < 64" "unat t \<le> 2"
  shows "unat ((ucast (push_bit 6 t + n) :: u8) AND 0x3f) = unat n"
    and "unat (drop_bit 6 (ucast (push_bit 6 t + n) :: u8)) = unat t"
proof -
  have n6: "take_bit 6 n = n"
    using assms(1) by (simp add: word_take_bit_small)
  have t2: "take_bit 2 t = t"
    using assms(2) by (simp add: word_take_bit_small)
  have bn: "bit n i \<Longrightarrow> i < 6" for i by (metis n6 bit_take_bit_iff)
  have bt: "bit t i \<Longrightarrow> i < 2" for i by (metis t2 bit_take_bit_iff)
  have plus: "push_bit 6 t + n = push_bit 6 t OR n"
    by (rule disjunctive_add) (auto simp: bit_simps dest: bn)
  have m: "y AND 0x3f = take_bit 6 y" for y :: u8
    by (simp add: take_bit_eq_mask mask_eq_exp_minus_1)
  have "(ucast (push_bit 6 t + n) :: u8) AND 0x3f = ucast n"
    unfolding plus m by (auto intro!: bit_word_eqI simp: bit_simps dest: bn)
  then show "unat ((ucast (push_bit 6 t + n) :: u8) AND 0x3f) = unat n"
    using assms(1) by (simp add: unsigned_ucast_eq take_bit_nat_eq_self)
  have "drop_bit 6 (ucast (push_bit 6 t + n) :: u8) = ucast t"
    unfolding plus
  proof (rule bit_word_eqI)
    fix i assume "i < LENGTH(8)"
    then show "bit (drop_bit 6 (ucast (push_bit 6 t OR n) :: u8)) i \<longleftrightarrow> bit (ucast t :: u8) i"
      using bn [of "6 + i"] bt [of i] by (auto simp: bit_simps add.commute [of i])
  qed
  then show "unat (drop_bit 6 (ucast (push_bit 6 t + n) :: u8)) = unat t"
    using assms(2) by (simp add: unsigned_ucast_eq take_bit_nat_eq_self)
qed

lemma le_load_take:
  "LENGTH('a::len) \<le> 8 * n \<Longrightarrow> le_load (take n (le_bytes n (w :: 'a word) @ rest)) = (ucast w :: 'b::len word)"
  by (simp add: le_load_le_bytes_ucast)

lemma read_param_bytes:
  assumes "param_ok p"
  shows "read_param (param_bytes p @ rest) = Some (view_param p, rest)"
proof -
  let ?b = "ucast (push_bit 6 (paramtype p) + paramnamelen p) :: u8"
  have n: "unat (paramnamelen p) = length (paramname p)" "length (paramname p) < 64"
    and t: "unat (paramtype p) \<le> 2" using assms by (simp_all add: param_ok_def param_defs)
  note b = type_byte [OF n(2) [folded n(1)] t]
  consider (str) "unat (paramtype p) = 0" | (num) "unat (paramtype p) = 1" | (bool) "unat (paramtype p) = 2"
    using t by linarith
  then show ?thesis
  proof cases
    case str
    then show ?thesis
      using assms b n
      by (simp add: param_bytes_def read_param_def view_param_def param_ok_def param_defs
          le_load_le_bytes_ucast Let_def)
  next
    case num
    then show ?thesis
      using assms b n
      by (simp add: param_bytes_def read_param_def view_param_def param_defs
          le_load_le_bytes_ucast Let_def)
  next
    case bool
    then have "pnum p = 0 \<or> pnum p = 1" using assms by (auto simp: param_ok_def param_defs)
    then show ?thesis
      using bool b n
      by (auto simp: param_bytes_def read_param_def view_param_def param_defs Let_def)
  qed
qed

lemma le_load_prefix:
  assumes "LENGTH('b::len) = 8 * n" "8 * n \<le> LENGTH('a::len)"
  shows "(le_load (le_bytes n (w :: 'a word)) :: 'b word) = ucast w"
proof (rule bit_word_eqI)
  fix i assume i: "i < LENGTH('b)"
  then have "i div 8 < n" using assms(1) by (simp add: div_less_iff_less_mult)
  then show "bit (le_load (le_bytes n w) :: 'b word) i \<longleftrightarrow> bit (ucast w :: 'b word) i"
    using i assms by (simp add: bit_le_load le_bytes_def bit_simps)
qed

lemma read_params_bytes:
  "\<forall>p \<in> set ps. param_ok p \<Longrightarrow>
     read_params (length ps) (concat (map param_bytes ps) @ rest) = Some (map view_param ps, rest)"
  by (induction ps) (simp_all add: read_param_bytes)

lemma command_byte:
  assumes "n < 128"
  shows "unat ((word_of_nat n :: u8) AND 0x7f) = n" "(word_of_nat n :: u8) AND 0x80 = 0"
    "unat (((word_of_nat n :: u8) OR 0x80) AND 0x7f) = n" "((word_of_nat n :: u8) OR 0x80) AND 0x80 \<noteq> 0"
proof -
  let ?w = "word_of_nat n :: u8"
  have m: "(0x7f :: u8) = mask 7" "(0x80 :: u8) = push_bit 7 1" by (simp_all add: mask_eq_exp_minus_1)
  have w7: "take_bit 7 ?w = ?w" using assms
    by (simp add: word_take_bit_small unat_of_nat take_bit_nat_eq_self)
  have bw: "bit ?w i \<longleftrightarrow> i < 7 \<and> bit ?w i" for i by (metis w7 bit_take_bit_iff)
  have u: "unat ?w = n" using assms by (simp add: unat_of_nat take_bit_nat_eq_self)
  have a: "?w AND 0x7f = ?w" unfolding m(1) using w7 by (simp add: take_bit_eq_mask [symmetric])
  then show "unat (?w AND 0x7f) = n" using u by simp
  show "?w AND 0x80 = 0" unfolding m(2)
  proof (rule bit_word_eqI)
    fix i show "bit (?w AND push_bit 7 1) i \<longleftrightarrow> bit (0 :: u8) i"
      using bw [of i] by (simp only: bit_and_iff bit_push_bit_iff bit_1_iff bit_0_eq bot_apply) auto
  qed
  have "(?w OR 0x80) AND 0x7f = (?w AND 0x7f) OR (0x80 AND 0x7f)" by (simp add: bit.conj_disj_distrib2)
  then show "unat ((?w OR 0x80) AND 0x7f) = n" using a u by simp
  have "(?w OR 0x80) AND 0x80 = (?w AND 0x80) OR 0x80" by (simp add: bit.conj_disj_distrib2)
  then show "(?w OR 0x80) AND 0x80 \<noteq> 0" by (simp add: or_eq_0_iff)
qed

text \<open>
  C32. A request either does not fit (its computed length is more than 65535 bytes, and \<open>NULL\<close> is returned) or the bytes
  written are exactly those allocated, and a reader of the format gets the command, the announced upload length and
  all parameters back; except when the length of a string is so close to \<open>2\<^sup>3\<^sup>2\<close> that the 32-bit sum of the lengths wraps
  around: then the writes end \<open>2\<^sup>3\<^sup>2\<close> bytes behind the buffer. The hypotheses are what the one-byte header fields can hold.
\<close>

theorem papi_prepare_readable:
  assumes "length command < 128" "length params < 256" "\<forall>p \<in> set params. param_ok p"
    and "papi_prepare command params datalen = Some out"
  shows "length out = request_len command params datalen + 2 + 2 ^ 32 * length (filter len_wraps params) \<and>
    (filter len_wraps params = [] \<longrightarrow>
      read_request out = Some (command, if datalen = - 1 then None else Some datalen, map view_param params))"
proof (intro conjI impI)
  have lw: "length (concat (map param_bytes params)) = sum_list (map param_len params) + 2 ^ 32 * length (filter len_wraps params)"
    using assms(3) by (induction params) (simp_all add: length_param_bytes)
  define plen where "plen = request_len command params datalen"
  have small: "plen \<le> 0xffff" and out: "out = le_bytes 2 (word_of_nat plen :: u64) @
                (if datalen \<noteq> - 1 then (word_of_nat (length command) OR 0x80) # le_bytes 8 datalen
                 else [word_of_nat (length command)]) @
                command @ [word_of_nat (length params)] @ concat (map param_bytes params)"
    using assms(4) by (simp_all add: papi_prepare_def plen_def Let_def split: if_splits)
  show "length out = request_len command params datalen + 2 + 2 ^ 32 * length (filter len_wraps params)"
    by (simp add: out lw request_len_def)
  assume "filter len_wraps params = []"
  then have ls: "length (concat (map param_bytes params)) = sum_list (map param_len params)" using lw by simp
  have "(le_load (le_bytes 2 (word_of_nat plen :: u64)) :: u16) = word_of_nat plen"
    by (simp only: le_load_prefix [where 'a = 64 and 'b = 16 and n = 2, simplified])
      (rule bit_word_eqI, simp add: bit_simps)
  then have len: "unat (le_load (le_bytes 2 (word_of_nat plen :: u64)) :: u16) = plen"
    using small by (simp add: unat_of_nat take_bit_nat_eq_self del: le_load.simps)
  have cnt: "unat (word_of_nat (length params) :: u8) = length params"
    using assms(2) by (simp add: unat_of_nat take_bit_nat_eq_self)
  note cb = command_byte [OF assms(1)]
  note rp = read_params_bytes [OF assms(3), of "[]", simplified]
  define X where "X = (if datalen \<noteq> - 1 then (word_of_nat (length command) OR 0x80) # le_bytes 8 datalen
                 else [word_of_nat (length command)]) @
                command @ [word_of_nat (length params)] @ concat (map param_bytes params)"
  have X: "out = le_bytes 2 (word_of_nat plen :: u64) @ X" "length X = plen"
    unfolding out by (simp_all add: X_def plen_def request_len_def ls)
  have "read_request out =
      (let b = hd X; bs = tl X; clen = unat (b AND 0x7f);
             (dl, bs) = (if b AND 0x80 \<noteq> 0 then (Some (le_load (take 8 bs)), drop 8 bs) else (None, bs));
             command = take clen bs; bs = drop clen bs
         in case read_params (unat (hd bs)) (tl bs) of
              Some (ps, []) \<Rightarrow> Some (command, dl, ps)
            | _ \<Rightarrow> None)"
    unfolding read_request_def X by (simp add: Let_def len X(2) del: le_load.simps)
  also have "\<dots> = Some (command, if datalen = - 1 then None else Some datalen, map view_param params)"
    unfolding X_def by (simp add: Let_def cb cnt rp le_load_le_bytes del: le_load.simps)
  finally show "read_request out = Some (command, if datalen = - 1 then None else Some datalen, map view_param params)" .
qed

definition sample_params :: "binparam list" where
  "sample_params =
     [\<lparr>paramtype = 0, paramnamelen = 4, opts = 2, paramname = [97, 117, 116, 104], pnum = 0, pstr = [120, 121]\<rparr>,
      \<lparr>paramtype = 2, paramnamelen = 1, opts = 0, paramname = [98], pnum = 1, pstr = []\<rparr>]"

theorem papi_prepare_readable_witness:
  "read_request (the (papi_prepare [104, 105] sample_params (- 1))) =
     Some ([104, 105], None, [RStr [97, 117, 116, 104] [120, 121], RBool [98] True])"
proof -
  have p: "papi_prepare [104, 105] sample_params (- 1) \<noteq> None"
    by (simp add: papi_prepare_def request_len_def sample_params_def param_len_def param_defs)
  then have s: "papi_prepare [104, 105] sample_params (- 1) = Some (the (papi_prepare [104, 105] sample_params (- 1)))"
    by simp
  show ?thesis
    using papi_prepare_readable [OF _ _ _ s, THEN conjunct2]
    by (simp add: sample_params_def param_ok_def view_param_def len_wraps_def param_defs)
qed

subsection \<open>The asynchronous reader\<close>

text \<open>
  What a non-blocking socket will do next: bytes that arrive together, an attempt that finds nothing,
  or an error or the end of the stream. \<open>psock_read_noblock\<close> takes at most \<open>num\<close> bytes of the first
  packet. An empty list stands for a silent socket. \<open>num\<close> has the type \<open>int\<close>: what the system or the TLS library does
  with a negative one, converted to \<open>size_t\<close>, is the parameter \<open>huge\<close>.
\<close>

datatype sock_event = Packet bytes | Silence | Broken
datatype read_result = RdBytes bytes | WouldBlock | RdError

fun take_event :: "nat \<Rightarrow> sock_event list \<Rightarrow> read_result \<times> sock_event list" where
  "take_event n [] = (WouldBlock, [])"
| "take_event n (Silence # es) = (WouldBlock, es)"
| "take_event n (Broken # es) = (RdError, Broken # es)"
| "take_event n (Packet bs # es) =
     (if length bs \<le> n then (RdBytes bs, es) else (RdBytes (take n bs), Packet (drop n bs) # es))"

type_synonym huge_read = "sock_event list \<Rightarrow> read_result \<times> sock_event list"

definition psock_read_noblock :: "huge_read \<Rightarrow> 32 word \<Rightarrow> sock_event list \<Rightarrow> read_result \<times> sock_event list" where
  "psock_read_noblock huge num es = (if sint num < 0 then huge es else take_event (nat (sint num)) es)"

text \<open>
  \<open>async_result_reader\<close>; \<open>rdata\<close> holds the \<open>bytesread\<close> bytes that were stored behind the pointer
  \<open>data\<close>, which is \<open>&respsize\<close> in state 0 and the buffer of the response in state 1.
\<close>

record async_result_reader =
  rresult :: response
  rstate :: nat
  bytestoread :: nat
  rdata :: bytes

definition bytesread :: "async_result_reader \<Rightarrow> nat" where
  "bytesread r = length (rdata r)"

definition papi_rdr_alloc :: "async_result_reader \<Rightarrow> async_result_reader" where
  "papi_rdr_alloc r = r\<lparr>rstate := 0, bytestoread := 4, rdata := []\<rparr>"

datatype async_status = NeedMore | Ready

text \<open>
  The size is a little-endian \<open>uint32_t\<close>, and so is what is still to read, which becomes the \<open>int\<close> argument of the read;
  a read of no bytes (\<open>rd == 0\<close>) counts as an error.
\<close>

function papi_result_async ::
    "huge_read \<Rightarrow> sock_event list \<Rightarrow> async_result_reader \<Rightarrow> async_status \<times> async_result_reader \<times> sock_event list" where
  "papi_result_async huge sock r =
     (case psock_read_noblock huge (word_of_nat (bytestoread r - bytesread r)) sock of
        (WouldBlock, sock) \<Rightarrow> (NeedMore, r, sock)
      | (RdError, sock) \<Rightarrow> (Ready, (papi_rdr_alloc r)\<lparr>rresult := RNull\<rparr>, sock)
      | (RdBytes bs, sock) \<Rightarrow>
          (if bs = [] then (Ready, (papi_rdr_alloc r)\<lparr>rresult := RNull\<rparr>, sock)
           else
             (let r = r\<lparr>rdata := rdata r @ bs\<rparr> in
              if bytesread r = bytestoread r then
                (if rstate r = 0 then
                   papi_result_async huge sock
                     (r\<lparr>rstate := 1, bytestoread := unat (le_load (rdata r) :: u32), rdata := []\<rparr>)
                 else (Ready, papi_rdr_alloc (r\<lparr>rresult := parse_result (rdata r)\<rparr>), sock))
              else (NeedMore, r, sock))))"
  by pat_completeness auto
termination
  by (relation "measure (\<lambda>(huge, sock, r). if rstate r = 0 then 1 else 0)") auto

declare papi_result_async.simps [simp del]

text \<open>The callers ask again each time the socket becomes readable, at most \<open>calls\<close> times.\<close>

fun poll_result :: "huge_read \<Rightarrow> nat \<Rightarrow> sock_event list \<Rightarrow> async_result_reader \<Rightarrow> (async_result_reader \<times> sock_event list) option" where
  "poll_result huge 0 sock r = None"
| "poll_result huge (Suc calls) sock r =
     (case papi_result_async huge sock r of
        (Ready, r, sock) \<Rightarrow> Some (r, sock)
      | (NeedMore, r, sock) \<Rightarrow> poll_result huge calls sock r)"

text \<open>The bytes that arrive before the stream breaks; packets are never empty.\<close>

fun arriving :: "sock_event list \<Rightarrow> bytes" where
  "arriving (Packet bs # es) = bs @ arriving es"
| "arriving (Silence # es) = arriving es"
| "arriving _ = []"

definition packets_ok :: "sock_event list \<Rightarrow> bool" where
  "packets_ok es \<longleftrightarrow> Packet [] \<notin> set es"

lemma packets_ok_Cons [simp]: "packets_ok (e # es) \<longleftrightarrow> e \<noteq> Packet [] \<and> packets_ok es"
  by (auto simp: packets_ok_def)

lemma sint_small: "n < 2 ^ 31 \<Longrightarrow> sint (word_of_nat n :: 32 word) = int n"
  by (simp add: sint_uint uint_nat unat_of_nat signed_take_bit_int_eq_self take_bit_nat_eq_self flip: of_nat_take_bit)

text \<open>One read that has still \<open>n > 0\<close> bytes to get, when at least one more byte will arrive.\<close>

lemma read_noblock_cases:
  assumes "packets_ok es" "arriving es \<noteq> []" "0 < n"
  obtains (silent) es' where "take_event n es = (WouldBlock, es')" "packets_ok es'"
      "arriving es' = arriving es" "length es' < length es"
  | (all) bs es' where "take_event n es = (RdBytes bs, es')" "bs \<noteq> []" "length bs = n"
      "packets_ok es'" "arriving es = bs @ arriving es'" "length es' \<le> length es"
  | (some) bs es' where "take_event n es = (RdBytes bs, es')" "bs \<noteq> []" "length bs < n"
      "packets_ok es'" "arriving es = bs @ arriving es'" "length es' < length es"
proof (cases es)
  case Nil
  with assms show ?thesis by simp
next
  case (Cons e es')
  show ?thesis
  proof (cases e)
    case (Packet bs)
    then show ?thesis
      using Cons assms all [of "take n bs" "Packet (drop n bs) # es'"] all [of bs es'] some [of bs es']
      by (cases "length bs" n rule: linorder_cases) auto
  next
    case Silence
    then show ?thesis using Cons assms silent [of es'] by simp
  next
    case Broken
    then show ?thesis using Cons assms by simp
  qed
qed

lemma read_small: "n < 2 ^ 31 \<Longrightarrow> psock_read_noblock huge (word_of_nat n) es = take_event n es"
  by (simp add: psock_read_noblock_def sint_small)

text \<open>What one call does with the outcome of its read.\<close>

lemma async_silent:
  "bytestoread r - bytesread r < 2 ^ 31 \<Longrightarrow> take_event (bytestoread r - bytesread r) es = (WouldBlock, es') \<Longrightarrow>
     papi_result_async huge es r = (NeedMore, r, es')"
  by (simp only: papi_result_async.simps [of huge es r] read_small) simp

lemma async_some:
  "bytestoread r - bytesread r < 2 ^ 31 \<Longrightarrow> take_event (bytestoread r - bytesread r) es = (RdBytes bs, es') \<Longrightarrow> bs \<noteq> [] \<Longrightarrow>
     length bs < bytestoread r - bytesread r \<Longrightarrow>
     papi_result_async huge es r = (NeedMore, r\<lparr>rdata := rdata r @ bs\<rparr>, es')"
  by (simp only: papi_result_async.simps [of huge es r] read_small) (auto simp: bytesread_def Let_def)

lemma async_header:
  "bytestoread r - bytesread r < 2 ^ 31 \<Longrightarrow> take_event (bytestoread r - bytesread r) es = (RdBytes bs, es') \<Longrightarrow> bs \<noteq> [] \<Longrightarrow>
     length bs = bytestoread r - bytesread r \<Longrightarrow> rstate r = 0 \<Longrightarrow>
     papi_result_async huge es r =
       papi_result_async huge es' (r\<lparr>rstate := 1, bytestoread := unat (le_load (rdata r @ bs) :: u32), rdata := []\<rparr>)"
  by (simp only: papi_result_async.simps [of huge es r] read_small)
    (use length_greater_0_conv [of bs] in \<open>simp add: bytesread_def Let_def\<close>)

lemma async_body:
  "bytestoread r - bytesread r < 2 ^ 31 \<Longrightarrow> take_event (bytestoread r - bytesread r) es = (RdBytes bs, es') \<Longrightarrow> bs \<noteq> [] \<Longrightarrow>
     length bs = bytestoread r - bytesread r \<Longrightarrow> rstate r = 1 \<Longrightarrow>
     papi_result_async huge es r = (Ready, (papi_rdr_alloc r)\<lparr>rresult := parse_result (rdata r @ bs)\<rparr>, es')"
  by (simp only: papi_result_async.simps [of huge es r] read_small)
    (use length_greater_0_conv [of bs] in \<open>simp add: bytesread_def Let_def papi_rdr_alloc_def\<close>)

lemma sint_large:
  fixes w :: u32
  assumes "2 ^ 31 \<le> unat w"
  shows "sint w < 0"
proof -
  have "unat w < 2 * 2 ^ 31" using unsigned_less [of w] by simp
  with assms have "unat w div 2 ^ 31 = 1" by (intro div_nat_eqI) simp_all
  then have "bit (unat w) 31" unfolding bit_iff_odd by simp
  then have "bit w 31" unfolding bit_unsigned_iff by simp
  then show ?thesis by (simp add: sint_uint bit_uint_iff)
qed

text \<open>
  A size of \<open>2\<^sup>3\<^sup>1\<close> or more is negative as the \<open>int\<close> argument of the read; when the system refuses it, the response is
  given up as if the stream had ended, with its body left in the socket.
\<close>

lemma async_large_body:
  assumes "length h = 4" "2 ^ 31 \<le> unat (le_load h :: u32)" "huge es = (RdError, es)"
  shows "papi_result_async huge (Packet h # es) (papi_rdr_alloc r) = (Ready, (papi_rdr_alloc r)\<lparr>rresult := RNull\<rparr>, es)"
proof -
  let ?r = "(papi_rdr_alloc r)\<lparr>rstate := 1, bytestoread := unat (le_load h :: u32), rdata := []\<rparr>"
  have "papi_result_async huge (Packet h # es) (papi_rdr_alloc r) = papi_result_async huge es ?r"
    using async_header [of "papi_rdr_alloc r" "Packet h # es" h es huge] assms(1) length_greater_0_conv [of h]
    by (simp add: papi_rdr_alloc_def bytesread_def del: le_load.simps)
  moreover have "sint (le_load h :: u32) < 0"
    using assms(2) by (rule sint_large)
  ultimately show ?thesis
    by (simp only: papi_result_async.simps [of huge es ?r])
      (simp add: psock_read_noblock_def bytesread_def assms(3) papi_rdr_alloc_def del: le_load.simps)
qed

lemma split_shorter:
  "xs @ ys = us @ vs \<Longrightarrow> length us < length xs \<Longrightarrow> \<exists>zs. xs = us @ zs \<and> zs \<noteq> [] \<and> vs = zs @ ys"
  by (auto simp: append_eq_append_conv2)

lemma split_same: "xs @ ys = us @ vs \<Longrightarrow> length us = length xs \<Longrightarrow> us = xs \<and> vs = ys"
  by (simp add: append_eq_append_conv)

lemma poll_ready:
  "papi_result_async huge es r = (Ready, r', es') \<Longrightarrow> poll_result huge (Suc calls) es r = Some (r', es')"
  by simp

lemma poll_more:
  "papi_result_async huge es r = (NeedMore, r', es') \<Longrightarrow> poll_result huge (Suc calls) es r = poll_result huge calls es' r'"
  by simp

declare poll_result.simps [simp del]

text \<open>Polling while the body arrives.\<close>

lemma poll_body:
  assumes "packets_ok es" "rstate r = 1" "arriving es = pend @ rest" "pend \<noteq> []"
    "bytestoread r = length (rdata r) + length pend" "length pend < 2 ^ 31" "length es < calls"
  shows "\<exists>es'. poll_result huge calls es r =
      Some ((papi_rdr_alloc r)\<lparr>rresult := parse_result (rdata r @ pend)\<rparr>, es') \<and> arriving es' = rest"
  using assms
proof (induction calls arbitrary: es r pend)
  case (Suc calls)
  have n: "bytestoread r - bytesread r = length pend" "0 < length pend" "arriving es \<noteq> []"
    using Suc.prems by (simp_all add: bytesread_def)
  have sm: "bytestoread r - bytesread r < 2 ^ 31" using Suc.prems(6) n(1) by simp
  from Suc.prems(1) n(3,2) show ?case
  proof (cases rule: read_noblock_cases)
    case (silent es')
    have "length es' < calls" using silent(4) Suc.prems(7) by simp
    from Suc.IH [OF silent(2) Suc.prems(2) silent(3) [unfolded Suc.prems(3)] Suc.prems(4,5,6) this]
    show ?thesis unfolding poll_more [OF async_silent [OF sm silent(1) [folded n(1)]]] .
  next
    case (all bs es')
    have "bs = pend" "arriving es' = rest"
      using split_same [OF trans [OF Suc.prems(3) [symmetric] all(5)] all(3)] by blast+
    with poll_ready [OF async_body [OF sm all(1) [folded n(1)] all(2) all(3) [folded n(1)] Suc.prems(2)]]
    show ?thesis by blast
  next
    case (some bs es')
    then obtain pend' where m: "pend = bs @ pend'" "pend' \<noteq> []" "arriving es' = pend' @ rest"
      using split_shorter [OF trans [OF Suc.prems(3) [symmetric] some(5)] some(3)] by blast
    let ?r = "r\<lparr>rdata := rdata r @ bs\<rparr>"
    have "length es' < calls" "rstate ?r = 1" "bytestoread ?r = length (rdata ?r) + length pend'" "length pend' < 2 ^ 31"
      using some(6) Suc.prems(2,5,6,7) m(1) by simp_all
    from Suc.IH [OF some(4) this(2) m(3,2) this(3,4,1)]
    show ?thesis
      unfolding poll_more [OF async_some [OF sm some(1) [folded n(1)] some(2) some(3) [folded n(1)]]] m(1)
      by (simp add: papi_rdr_alloc_def)
  qed
qed simp

lemma poll_header:
  assumes "packets_ok es" "rstate r = 0" "bytestoread r = 4" "arriving es = pend @ body @ rest"
    "length (rdata r) + length pend = 4" "pend \<noteq> []"
    "unat (le_load (rdata r @ pend) :: u32) = length body" "body \<noteq> []" "length body < 2 ^ 31" "length es < calls"
  shows "\<exists>es'. poll_result huge calls es r =
      Some ((papi_rdr_alloc r)\<lparr>rresult := parse_result body\<rparr>, es') \<and> arriving es' = rest"
  using assms
proof (induction calls arbitrary: es r pend)
  case (Suc calls)
  have n: "bytestoread r - bytesread r = length pend" "0 < length pend" "arriving es \<noteq> []"
    using Suc.prems(3,4,5,6) by (simp_all add: bytesread_def)
  have sm: "bytestoread r - bytesread r < 2 ^ 31" using Suc.prems(5) n(1) by simp
  from Suc.prems(1) n(3,2) show ?case
  proof (cases rule: read_noblock_cases)
    case (silent es')
    have "length es' < calls" using silent(4) Suc.prems(10) by simp
    from Suc.IH [OF silent(2) Suc.prems(2,3) silent(3) [unfolded Suc.prems(4)] Suc.prems(5-9) this]
    show ?thesis unfolding poll_more [OF async_silent [OF sm silent(1) [folded n(1)]]] .
  next
    case (all bs es')
    have a: "bs = pend" "arriving es' = body @ rest"
      using split_same [OF trans [OF Suc.prems(4) [symmetric] all(5)] all(3)] by blast+
    let ?r = "r\<lparr>rstate := 1, bytestoread := length body, rdata := []\<rparr>"
    have "papi_result_async huge es r = papi_result_async huge es' ?r"
      using async_header [OF sm all(1) [folded n(1)] all(2) all(3) [folded n(1)] Suc.prems(2)]
      unfolding a(1) Suc.prems(7) .
    then have e: "poll_result huge (Suc calls) es r = poll_result huge (Suc calls) es' ?r"
      by (simp only: poll_result.simps)
    have "length es' < Suc calls" using all(6) Suc.prems(10) by simp
    from poll_body [OF all(4) _ a(2) Suc.prems(8) _ Suc.prems(9) this, of ?r] show ?thesis
      unfolding e by (simp add: papi_rdr_alloc_def)
  next
    case (some bs es')
    then obtain pend' where m: "pend = bs @ pend'" "pend' \<noteq> []" "arriving es' = pend' @ body @ rest"
      using split_shorter [OF trans [OF Suc.prems(4) [symmetric] some(5)] some(3)] by blast
    let ?r = "r\<lparr>rdata := rdata r @ bs\<rparr>"
    have "length es' < calls" "rstate ?r = 0" "bytestoread ?r = 4" "length (rdata ?r) + length pend' = 4"
      using some(6) Suc.prems(2,3,5,10) m(1) by simp_all
    moreover have "unat (le_load (rdata ?r @ pend') :: u32) = length body"
      using Suc.prems(7) m(1) by (simp del: le_load.simps)
    ultimately have "\<exists>es''. poll_result huge calls es' ?r =
        Some ((papi_rdr_alloc ?r)\<lparr>rresult := parse_result body\<rparr>, es'') \<and> arriving es'' = rest"
      using Suc.IH [OF some(4) _ _ m(3) _ m(2) _ Suc.prems(8,9), of ?r] by blast
    then show ?thesis
      unfolding poll_more [OF async_some [OF sm some(1) [folded n(1)] some(2) some(3) [folded n(1)]]]
      by (simp add: papi_rdr_alloc_def)
  qed
qed simp

text \<open>
  C14. However the network cuts a response into packets and pauses, polling the asynchronous reader
  of less than \<open>2\<^sup>3\<^sup>1\<close> bytes ends after at most one call per socket event, with the result that the synchronous
  \<open>papi_result\<close> gives for the same bytes, a reader that is ready for the next response, and
  exactly the bytes behind the response left in the socket.
\<close>

theorem papi_result_async_any_chunking:
  assumes "packets_ok es" "arriving es = le_bytes 4 (word_of_nat (length body) :: u32) @ body @ rest"
    and "body \<noteq> []" "length body < 2 ^ 31" "length es < calls"
  shows "\<exists>es'. poll_result huge calls es (papi_rdr_alloc r) =
      Some ((papi_rdr_alloc r)\<lparr>rresult := parse_result body\<rparr>, es') \<and> arriving es' = rest"
proof -
  have len: "unat (le_load (le_bytes 4 (word_of_nat (length body) :: u32)) :: u32) = length body"
    using assms(4) by (simp add: le_load_le_bytes unat_of_nat take_bit_nat_eq_self del: le_load.simps)
  have "(le_bytes 4 (word_of_nat (length body) :: u32)) \<noteq> []" by (simp add: le_bytes_def)
  from poll_header [OF assms(1) _ _ assms(2) _ this _ assms(3,4,5), of "papi_rdr_alloc r"] len
  show ?thesis by (simp add: papi_rdr_alloc_def del: le_load.simps)
qed

definition fresh_reader :: async_result_reader where
  "fresh_reader = \<lparr>rresult = RNull, rstate = 0, bytestoread = 0, rdata = []\<rparr>"

theorem papi_result_async_any_chunking_witness:
  "\<exists>es'. poll_result (\<lambda>es. (RdError, es)) 6 [Packet [2, 0], Silence, Packet [0, 0, 100], Packet [7, 8]] (papi_rdr_alloc fresh_reader) =
      Some ((papi_rdr_alloc fresh_reader)\<lparr>rresult := parse_result [100, 7]\<rparr>, es') \<and> arriving es' = [8]"
  by (rule papi_result_async_any_chunking) (simp_all add: le_bytes_def upt_rec packets_ok_def)

subsection \<open>Fields of a response\<close>

text \<open>Keys are compared by \<open>strcmp\<close>, up to the first zero byte.\<close>

definition c_str :: "bytes \<Rightarrow> bytes" where
  "c_str = takeWhile (\<lambda>b. b \<noteq> 0)"

fun result_type :: "binresult \<Rightarrow> nat" where
  "result_type (BStr s) = PARAM_STR"
| "result_type (BNum n) = PARAM_NUM"
| "result_type (BBool b) = PARAM_BOOL"
| "result_type (BArray vs) = PARAM_ARRAY"
| "result_type (BHash ps) = PARAM_HASH"
| "result_type (BData n) = PARAM_DATA"
| "result_type BNull = PARAM_STR"

definition empty_types :: "binresult list" where
  "empty_types = [BStr [], BNum 0, BBool False, BArray [], BHash [], BData 0]"

text \<open>The loop over the pairs: the value of the first key that matches.\<close>

fun find_key :: "bytes \<Rightarrow> (bytes \<times> binresult) list \<Rightarrow> binresult option" where
  "find_key name [] = None"
| "find_key name ((k, v) # ps) = (if c_str k = c_str name then Some v else find_key name ps)"

definition papi_get_result :: "binresult \<Rightarrow> bytes \<Rightarrow> binresult option" where
  "papi_get_result res name = (case res of BHash ps \<Rightarrow> find_key name ps | _ \<Rightarrow> None)"

definition papi_check_result :: "binresult \<Rightarrow> bytes \<Rightarrow> nat \<Rightarrow> binresult option" where
  "papi_check_result res name type =
     (case res of
        BHash ps \<Rightarrow>
          (case find_key name ps of
             None \<Rightarrow> None
           | Some v \<Rightarrow> (if result_type v = type then Some v else None))
      | _ \<Rightarrow> None)"

definition papi_find_result :: "binresult \<Rightarrow> bytes \<Rightarrow> nat \<Rightarrow> binresult" where
  "papi_find_result res name type =
     (case res of
        BHash ps \<Rightarrow>
          (case find_key name ps of
             None \<Rightarrow> empty_types ! type
           | Some v \<Rightarrow> (if result_type v = type then v else empty_types ! type))
      | _ \<Rightarrow> empty_types ! type)"

lemma empty_types_type: "type \<le> PARAM_DATA \<Longrightarrow> result_type (empty_types ! type) = type"
  by (auto simp: param_defs empty_types_def numeral_eq_Suc le_Suc_eq)

text \<open>
  C38. The three look-ups agree: \<open>papi_find_result\<close> always yields a value of the type that was asked
  for, the one of \<open>papi_check_result\<close> or else the empty value of the type, so its callers
  can use the union without a check.
\<close>

theorem papi_find_result_typed:
  assumes "type \<le> PARAM_DATA"
  shows "result_type (papi_find_result res name type) = type \<and>
    papi_find_result res name type =
      (case papi_check_result res name type of Some v \<Rightarrow> v | None \<Rightarrow> empty_types ! type) \<and>
    papi_check_result res name type =
      (case papi_get_result res name of Some v \<Rightarrow> if result_type v = type then Some v else None | None \<Rightarrow> None)"
  using empty_types_type [OF assms]
  by (auto simp: papi_find_result_def papi_check_result_def papi_get_result_def split: binresult.split option.split)

theorem papi_find_result_typed_witness:
  "result_type (papi_find_result (BHash [([97, 0], BNum 5), ([98], BBool True)]) [97] PARAM_ARRAY) = PARAM_ARRAY"
  by (rule papi_find_result_typed [THEN conjunct1]) (simp add: PARAM_ARRAY_def PARAM_DATA_def)

subsection \<open>Connecting\<close>

text \<open>
  \<open>connect host\<close> is \<open>psock_connect\<close>, \<open>now\<close> is \<open>ptimer_time()\<close>, \<open>userapi\<close> the server stored in the
  settings; the result is the socket and the new value of the static \<open>notuntil\<close>.
\<close>

definition papi_connect ::
    "(string \<Rightarrow> 's option) \<Rightarrow> nat \<Rightarrow> string option \<Rightarrow> string \<Rightarrow> nat \<Rightarrow> 's option \<times> nat" where
  "papi_connect connect now userapi hostname notuntil =
     (if now > notuntil \<or> userapi = None then
        (case connect hostname of
           Some s \<Rightarrow> (Some s, notuntil)
         | None \<Rightarrow>
             (if userapi = None \<or> userapi = Some hostname then (None, notuntil)
              else case connect (the userapi) of
                     Some s \<Rightarrow> (Some s, now + 1800)
                   | None \<Rightarrow> (None, notuntil)))
      else (connect (the userapi), notuntil))"

definition papi_conn_fail_inc :: "u32 \<Rightarrow> u32" where
  "papi_conn_fail_inc connfailures = connfailures + 1"

definition papi_conn_fail_reset :: "u32 \<Rightarrow> u32" where
  "papi_conn_fail_reset connfailures = (if connfailures mod 5 = 4 then 4 else 0)"

text \<open>After a fallback to the user's server, this server is asked alone for half an hour.\<close>

lemma papi_connect_fallback:
  assumes "papi_connect connect now (Some api) hostname notuntil = (Some s, notuntil')" "notuntil' \<noteq> notuntil"
    and "later \<le> now + 1800"
  shows "connect hostname = None \<and> connect api = Some s \<and>
    papi_connect connect' later (Some api) hostname notuntil' = (connect' api, notuntil')"
  using assms by (auto simp: papi_connect_def split: if_splits option.splits)

end
