(* ===== verification/PLocks.thy ===== *)
theory PLocks
  imports Prelude
begin

text \<open>
  \<open>pclsync/plocks.c\<close>: the recursive reader/writer lock with reservation and upgrade.

  A thread runs each function as a sequence of critical sections of \<open>rw->mutex\<close>, cut by the
  waits on a condition variable. One step of the model is one critical section, with the accesses
  to the thread's own counters (\<open>pthread_getspecific\<close>) around it, which no other thread can
  see. \<open>rcount\<close>, \<open>wcount\<close>, \<open>rwait\<close> and \<open>wwait\<close> count threads and are natural numbers; the two
  halves of the thread's counter word have the 32 bits of x86_64 (16 on other platforms). A waiting
  thread may wake up at any time (condition variables have spurious wake-ups), \<open>woken\<close> holds the ones
  that were signalled. A timed wait may time out at any time, also when the thread has been signalled:
  POSIX lets \<open>pthread_cond_timedwait\<close> time out and consume a signal.
\<close>

subsection \<open>State\<close>

record rwlock =
  rcount :: nat
  rwait :: nat
  wcount :: nat
  wwait :: nat
  prefer_read :: bool
  reserved :: bool

type_synonym lockcnt = "u32 \<times> u32"

definition PSYNC_WR_RESERVED :: u32 where "PSYNC_WR_RESERVED = - 1"

datatype call = RdLock | TryRdLock | TimedRdLock | RdLockStarve | WrLock | TryWrLock | TimedWrLock
  | RsLock | ToWrLock | Unlock

text \<open>What a critical section signals, and how it ends: with the result, in a wait, or in an assertion.\<close>

datatype wake = NoWake | SignalW | BroadcastW | BroadcastR
datatype outcome = Returned int | Waits call | Asserts

type_synonym section_result = "rwlock \<times> lockcnt \<times> wake \<times> outcome"

definition plocks_init :: rwlock where
  "plocks_init = \<lparr>rcount = 0, rwait = 0, wcount = 0, wwait = 0, prefer_read = False, reserved = False\<rparr>"

subsection \<open>Recursion\<close>

datatype recursion = Recursive lockcnt | Fresh | RecAsserts

definition psync_rwlock_check_rdrecursive_in :: "lockcnt \<Rightarrow> recursion" where
  "psync_rwlock_check_rdrecursive_in cnt =
     (if fst cnt \<noteq> 0 then Recursive (fst cnt + 1, snd cnt)
      else if snd cnt \<noteq> 0 then
        (if snd cnt = PSYNC_WR_RESERVED then RecAsserts else Recursive (fst cnt, snd cnt + 1))
      else Fresh)"

definition psync_rwlock_check_wrrecursive_in :: "lockcnt \<Rightarrow> recursion" where
  "psync_rwlock_check_wrrecursive_in cnt =
     (if fst cnt \<noteq> 0 then RecAsserts
      else if snd cnt \<noteq> 0 then
        (if snd cnt = PSYNC_WR_RESERVED then RecAsserts else Recursive (fst cnt, snd cnt + 1))
      else Fresh)"

text \<open>The counters after it and whether the lock is still held; \<open>None\<close> when the assertion fails.\<close>

definition psync_rwlock_check_recursive_out :: "lockcnt \<Rightarrow> (lockcnt \<times> bool) option" where
  "psync_rwlock_check_recursive_out cnt =
     (if fst cnt \<noteq> 0 then Some ((fst cnt - 1, snd cnt), fst cnt - 1 > 0)
      else if snd cnt = 0 then None
      else Some ((fst cnt, snd cnt - 1), snd cnt - 1 > 0))"

definition psync_rwlock_is_reserved_by_this_thread_clr :: "lockcnt \<Rightarrow> lockcnt \<times> bool" where
  "psync_rwlock_is_reserved_by_this_thread_clr cnt =
     (if snd cnt = PSYNC_WR_RESERVED then ((fst cnt, 0), True) else (cnt, False))"

subsection \<open>The loops\<close>

text \<open>Each loop from its test on: it ends with the lock or in the next wait.\<close>

definition rd_blocked :: "rwlock \<Rightarrow> bool" where
  "rd_blocked rw \<longleftrightarrow> wcount rw > 0 \<or> (wwait rw > 0 \<and> \<not> reserved rw)"

definition wr_blocked :: "rwlock \<Rightarrow> bool" where
  "wr_blocked rw \<longleftrightarrow> rcount rw > 0 \<or> wcount rw > 0 \<or> reserved rw"

definition rd_loop :: "call \<Rightarrow> rwlock \<Rightarrow> lockcnt \<Rightarrow> section_result" where
  "rd_loop c rw cnt =
     (if rd_blocked rw then (rw\<lparr>rwait := rwait rw + 1\<rparr>, cnt, NoWake, Waits c)
      else (rw\<lparr>rcount := rcount rw + 1\<rparr>, (1, 0), NoWake, Returned 0))"

definition starve_loop :: "rwlock \<Rightarrow> lockcnt \<Rightarrow> section_result" where
  "starve_loop rw cnt =
     (if wcount rw > 0 then (rw\<lparr>rwait := rwait rw + 1, prefer_read := True\<rparr>, cnt, NoWake, Waits RdLockStarve)
      else (rw\<lparr>rcount := rcount rw + 1\<rparr>, (1, 0), NoWake, Returned 0))"

definition wr_loop :: "call \<Rightarrow> rwlock \<Rightarrow> lockcnt \<Rightarrow> section_result" where
  "wr_loop c rw cnt =
     (if wr_blocked rw then (rw\<lparr>wwait := wwait rw + 1\<rparr>, cnt, NoWake, Waits c)
      else (rw\<lparr>wcount := wcount rw + 1\<rparr>, (0, 1), NoWake, Returned 0))"

definition rs_loop :: "rwlock \<Rightarrow> lockcnt \<Rightarrow> section_result" where
  "rs_loop rw cnt =
     (if wcount rw > 0 \<or> reserved rw then (rw\<lparr>wwait := wwait rw + 1\<rparr>, cnt, NoWake, Waits RsLock)
      else (rw\<lparr>rcount := rcount rw + 1, reserved := True\<rparr>, (1, PSYNC_WR_RESERVED),
            if rwait rw > 0 then BroadcastR else NoWake, Returned 0))"

definition towr_loop :: "rwlock \<Rightarrow> lockcnt \<Rightarrow> section_result" where
  "towr_loop rw cnt =
     (if rcount rw > 0 then (rw\<lparr>wwait := wwait rw + 1\<rparr>, cnt, NoWake, Waits ToWrLock)
      else if wcount rw > 0 then (rw, cnt, NoWake, Asserts)
      else (rw\<lparr>wcount := wcount rw + 1, reserved := False\<rparr>, (0, fst cnt), NoWake, Returned 0))"

subsection \<open>The functions\<close>

definition plocks_rdlock :: "rwlock \<Rightarrow> lockcnt \<Rightarrow> section_result" where
  "plocks_rdlock rw cnt =
     (case psync_rwlock_check_rdrecursive_in cnt of
        Recursive cnt' \<Rightarrow> (rw, cnt', NoWake, Returned 0)
      | RecAsserts \<Rightarrow> (rw, cnt, NoWake, Asserts)
      | Fresh \<Rightarrow> rd_loop RdLock rw cnt)"

definition plocks_tryrdlock :: "rwlock \<Rightarrow> lockcnt \<Rightarrow> section_result" where
  "plocks_tryrdlock rw cnt =
     (case psync_rwlock_check_rdrecursive_in cnt of
        Recursive cnt' \<Rightarrow> (rw, cnt', NoWake, Returned 0)
      | RecAsserts \<Rightarrow> (rw, cnt, NoWake, Asserts)
      | Fresh \<Rightarrow>
          (if rd_blocked rw then (rw, cnt, NoWake, Returned (- 1))
           else (rw\<lparr>rcount := rcount rw + 1\<rparr>, (1, 0), NoWake, Returned 0)))"

definition plocks_timedrdlock :: "rwlock \<Rightarrow> lockcnt \<Rightarrow> section_result" where
  "plocks_timedrdlock rw cnt =
     (case psync_rwlock_check_rdrecursive_in cnt of
        Recursive cnt' \<Rightarrow> (rw, cnt', NoWake, Returned 0)
      | RecAsserts \<Rightarrow> (rw, cnt, NoWake, Asserts)
      | Fresh \<Rightarrow> rd_loop TimedRdLock rw cnt)"

definition plocks_rdlock_starvewr :: "rwlock \<Rightarrow> lockcnt \<Rightarrow> section_result" where
  "plocks_rdlock_starvewr rw cnt =
     (case psync_rwlock_check_rdrecursive_in cnt of
        Recursive cnt' \<Rightarrow> (rw, cnt', NoWake, Returned 0)
      | RecAsserts \<Rightarrow> (rw, cnt, NoWake, Asserts)
      | Fresh \<Rightarrow> starve_loop rw cnt)"

definition plocks_wrlock :: "rwlock \<Rightarrow> lockcnt \<Rightarrow> section_result" where
  "plocks_wrlock rw cnt =
     (case psync_rwlock_check_wrrecursive_in cnt of
        Recursive cnt' \<Rightarrow> (rw, cnt', NoWake, Returned 0)
      | RecAsserts \<Rightarrow> (rw, cnt, NoWake, Asserts)
      | Fresh \<Rightarrow> wr_loop WrLock rw cnt)"

definition plocks_trywrlock :: "rwlock \<Rightarrow> lockcnt \<Rightarrow> section_result" where
  "plocks_trywrlock rw cnt =
     (case psync_rwlock_check_wrrecursive_in cnt of
        Recursive cnt' \<Rightarrow> (rw, cnt', NoWake, Returned 0)
      | RecAsserts \<Rightarrow> (rw, cnt, NoWake, Asserts)
      | Fresh \<Rightarrow>
          (if wr_blocked rw then (rw, cnt, NoWake, Returned (- 1))
           else (rw\<lparr>wcount := wcount rw + 1\<rparr>, (0, 1), NoWake, Returned 0)))"

definition plocks_timedwrlock :: "rwlock \<Rightarrow> lockcnt \<Rightarrow> section_result" where
  "plocks_timedwrlock rw cnt =
     (case psync_rwlock_check_wrrecursive_in cnt of
        Recursive cnt' \<Rightarrow> (rw, cnt', NoWake, Returned 0)
      | RecAsserts \<Rightarrow> (rw, cnt, NoWake, Asserts)
      | Fresh \<Rightarrow> wr_loop TimedWrLock rw cnt)"

definition plocks_rslock :: "rwlock \<Rightarrow> lockcnt \<Rightarrow> section_result" where
  "plocks_rslock rw cnt =
     (if fst cnt \<noteq> 0 then (rw, cnt, NoWake, Asserts)
      else if snd cnt \<noteq> 0 then
        (rw, if snd cnt = PSYNC_WR_RESERVED then (fst cnt + 1, snd cnt) else (fst cnt, snd cnt + 1),
         NoWake, Returned 0)
      else rs_loop rw cnt)"

definition plocks_towrlock :: "rwlock \<Rightarrow> lockcnt \<Rightarrow> section_result" where
  "plocks_towrlock rw cnt =
     (if snd cnt \<noteq> 0 \<and> snd cnt \<noteq> PSYNC_WR_RESERVED then (rw, cnt, NoWake, Returned 0)
      else if fst cnt = 0 \<or> rcount rw = 0 \<or> wcount rw > 0 then (rw, cnt, NoWake, Asserts)
      else if reserved rw \<and> snd cnt \<noteq> PSYNC_WR_RESERVED then (rw, cnt, NoWake, Returned (- 1))
      else towr_loop (rw\<lparr>reserved := True, rcount := rcount rw - 1\<rparr>) cnt)"

text \<open>The critical section of \<open>plocks_unlock\<close>, with the counters after the recursion check.\<close>

definition release :: "rwlock \<Rightarrow> lockcnt \<Rightarrow> section_result" where
  "release rw cnt =
     (if rcount rw > 0 \<and> wcount rw > 0 then (rw, cnt, NoWake, Asserts)
      else if rcount rw > 0 then
        (let (cnt, mine) = (if reserved rw then psync_rwlock_is_reserved_by_this_thread_clr cnt else (cnt, False));
             rw = (if mine then rw\<lparr>reserved := False\<rparr> else rw);
             rw = rw\<lparr>rcount := rcount rw - 1\<rparr>
         in (rw, cnt,
             if rcount rw = 0 \<and> wwait rw > 0 then (if reserved rw then BroadcastW else SignalW) else NoWake,
             Returned 0))
      else if wcount rw = 0 then (rw, cnt, NoWake, Asserts)
      else
        (let rw = rw\<lparr>wcount := wcount rw - 1\<rparr> in
         if wcount rw > 0 then (rw, cnt, NoWake, Returned 0)
         else if reserved rw then
           (if wwait rw = 0 then (rw, cnt, NoWake, Asserts) else (rw, cnt, BroadcastW, Returned 0))
         else if prefer_read rw then
           (rw, cnt, if rwait rw > 0 then BroadcastR else if wwait rw > 0 then SignalW else NoWake, Returned 0)
         else
           (rw, cnt, if wwait rw > 0 then SignalW else if rwait rw > 0 then BroadcastR else NoWake, Returned 0)))"

definition plocks_unlock :: "rwlock \<Rightarrow> lockcnt \<Rightarrow> section_result" where
  "plocks_unlock rw cnt =
     (case psync_rwlock_check_recursive_out cnt of
        None \<Rightarrow> (rw, cnt, NoWake, Asserts)
      | Some (cnt', held) \<Rightarrow> (if held then (rw, cnt', NoWake, Returned 0) else release rw cnt'))"

definition plocks_num_waiters :: "rwlock \<Rightarrow> nat" where
  "plocks_num_waiters rw = rwait rw + wwait rw"

definition plocks_holding_rdlock :: "lockcnt \<Rightarrow> bool" where
  "plocks_holding_rdlock cnt \<longleftrightarrow> fst cnt \<noteq> 0"

definition plocks_holding_wrlock :: "lockcnt \<Rightarrow> bool" where
  "plocks_holding_wrlock cnt \<longleftrightarrow> snd cnt \<noteq> 0 \<and> snd cnt \<noteq> PSYNC_WR_RESERVED"

definition plocks_holding_lock :: "lockcnt \<Rightarrow> bool" where
  "plocks_holding_lock cnt \<longleftrightarrow> fst cnt \<noteq> 0 \<or> snd cnt \<noteq> 0"

subsection \<open>Threads\<close>

text \<open>The first critical section of a call, the one after a wait, and the one after a timed-out wait.\<close>

fun start :: "call \<Rightarrow> rwlock \<Rightarrow> lockcnt \<Rightarrow> section_result" where
  "start RdLock = plocks_rdlock"
| "start TryRdLock = plocks_tryrdlock"
| "start TimedRdLock = plocks_timedrdlock"
| "start RdLockStarve = plocks_rdlock_starvewr"
| "start WrLock = plocks_wrlock"
| "start TryWrLock = plocks_trywrlock"
| "start TimedWrLock = plocks_timedwrlock"
| "start RsLock = plocks_rslock"
| "start ToWrLock = plocks_towrlock"
| "start Unlock = plocks_unlock"

fun resume :: "call \<Rightarrow> rwlock \<Rightarrow> lockcnt \<Rightarrow> section_result" where
  "resume RdLock rw cnt = rd_loop RdLock (rw\<lparr>rwait := rwait rw - 1\<rparr>) cnt"
| "resume TimedRdLock rw cnt = rd_loop TimedRdLock (rw\<lparr>rwait := rwait rw - 1\<rparr>) cnt"
| "resume RdLockStarve rw cnt = starve_loop (rw\<lparr>rwait := rwait rw - 1, prefer_read := False\<rparr>) cnt"
| "resume WrLock rw cnt = wr_loop WrLock (rw\<lparr>wwait := wwait rw - 1\<rparr>) cnt"
| "resume TimedWrLock rw cnt = wr_loop TimedWrLock (rw\<lparr>wwait := wwait rw - 1\<rparr>) cnt"
| "resume RsLock rw cnt = rs_loop (rw\<lparr>wwait := wwait rw - 1\<rparr>) cnt"
| "resume ToWrLock rw cnt = towr_loop (rw\<lparr>wwait := wwait rw - 1\<rparr>) cnt"
| "resume _ rw cnt = (rw, cnt, NoWake, Asserts)"

fun timeout :: "call \<Rightarrow> rwlock \<Rightarrow> lockcnt \<Rightarrow> section_result" where
  "timeout TimedRdLock rw cnt = (rw\<lparr>rwait := rwait rw - 1\<rparr>, cnt, NoWake, Returned (- 1))"
| "timeout TimedWrLock rw cnt =
     (let rw = rw\<lparr>wwait := wwait rw - 1\<rparr>
      in (rw, cnt, if wwait rw = 0 \<and> wcount rw = 0 \<and> rwait rw > 0 then BroadcastR else NoWake, Returned (- 1)))"
| "timeout _ rw cnt = (rw, cnt, NoWake, Asserts)"

record thread =
  tcnt :: lockcnt
  tpc :: "call option"

record 't sys =
  lck :: rwlock
  thr :: "'t \<Rightarrow> thread"
  woken :: "'t set"

text \<open>Which condition variable a waiting call sleeps on.\<close>

definition rd_waiting :: "thread \<Rightarrow> bool" where
  "rd_waiting th \<longleftrightarrow> tpc th \<in> {Some RdLock, Some TimedRdLock, Some RdLockStarve}"

definition wr_waiting :: "thread \<Rightarrow> bool" where
  "wr_waiting th \<longleftrightarrow> tpc th \<in> {Some WrLock, Some TimedWrLock, Some RsLock, Some ToWrLock}"

definition sleeping_writers :: "('t \<Rightarrow> thread) \<Rightarrow> 't set \<Rightarrow> 't set" where
  "sleeping_writers ts wk = {u. wr_waiting (ts u) \<and> u \<notin> wk}"

text \<open>\<open>u\<close> is the sleeper that \<open>pthread_cond_signal\<close> picks.\<close>

fun deliver :: "wake \<Rightarrow> 't \<Rightarrow> ('t \<Rightarrow> thread) \<Rightarrow> 't set \<Rightarrow> 't set" where
  "deliver NoWake u ts wk = wk"
| "deliver BroadcastR u ts wk = wk \<union> {v. rd_waiting (ts v)}"
| "deliver BroadcastW u ts wk = wk \<union> {v. wr_waiting (ts v)}"
| "deliver SignalW u ts wk = (if u \<in> sleeping_writers ts wk then insert u wk else wk)"

definition pick_ok :: "wake \<Rightarrow> 't \<Rightarrow> ('t \<Rightarrow> thread) \<Rightarrow> 't set \<Rightarrow> bool" where
  "pick_ok w u ts wk \<longleftrightarrow> (w = SignalW \<longrightarrow> sleeping_writers ts wk = {} \<or> u \<in> sleeping_writers ts wk)"

text \<open>The state after a critical section of thread \<open>t\<close>.\<close>

definition next_thread :: "section_result \<Rightarrow> thread" where
  "next_thread res =
     (case res of (rw', cnt', w, oc) \<Rightarrow> \<lparr>tcnt = cnt', tpc = (case oc of Waits c \<Rightarrow> Some c | _ \<Rightarrow> None)\<rparr>)"

definition apply_section :: "'t \<Rightarrow> 't \<Rightarrow> section_result \<Rightarrow> 't sys \<Rightarrow> 't sys" where
  "apply_section t u res s =
     (case res of (rw', cnt', w, oc) \<Rightarrow>
        (let ts = (thr s)(t := next_thread res)
         in \<lparr>lck = rw', thr = ts, woken = deliver w u ts (woken s - {t})\<rparr>))"

definition pick_ok_section :: "'t \<Rightarrow> 't \<Rightarrow> section_result \<Rightarrow> 't sys \<Rightarrow> bool" where
  "pick_ok_section t u res s =
     (case res of (rw', cnt', w, oc) \<Rightarrow> pick_ok w u ((thr s)(t := next_thread res)) (woken s - {t}))"

definition asserts :: "section_result \<Rightarrow> bool" where
  "asserts res \<longleftrightarrow> snd (snd (snd res)) = Asserts"

text \<open>
  Callers nest fewer than \<open>2^32 - 2\<close> locks, so that a count never wraps and never reaches the value
  \<open>PSYNC_WR_RESERVED\<close>.
\<close>

definition nestable :: "lockcnt \<Rightarrow> bool" where
  "nestable cnt \<longleftrightarrow> fst cnt \<noteq> - 2 \<and> snd cnt \<noteq> - 2"

inductive lock_step :: "'t sys \<Rightarrow> 't sys \<Rightarrow> bool" where
  call: "tpc (thr s t) = None \<Longrightarrow> nestable (tcnt (thr s t)) \<Longrightarrow>
    res = start c (lck s) (tcnt (thr s t)) \<Longrightarrow> \<not> asserts res \<Longrightarrow> pick_ok_section t u res s \<Longrightarrow>
    lock_step s (apply_section t u res s)"
| wakeup: "tpc (thr s t) = Some c \<Longrightarrow> res = resume c (lck s) (tcnt (thr s t)) \<Longrightarrow> \<not> asserts res \<Longrightarrow>
    pick_ok_section t u res s \<Longrightarrow> lock_step s (apply_section t u res s)"
| timed_out: "tpc (thr s t) = Some c \<Longrightarrow> c \<in> {TimedRdLock, TimedWrLock} \<Longrightarrow>
    res = timeout c (lck s) (tcnt (thr s t)) \<Longrightarrow> pick_ok_section t u res s \<Longrightarrow>
    lock_step s (apply_section t u res s)"

inductive_cases lock_stepE: "lock_step s s'"

definition lock_init :: "'t sys \<Rightarrow> bool" where
  "lock_init s \<longleftrightarrow> s = \<lparr>lck = plocks_init, thr = (\<lambda>t. \<lparr>tcnt = (0, 0), tpc = None\<rparr>), woken = {}\<rparr>"

subsection \<open>The invariant\<close>

text \<open>What a thread contributes: a reader, the writer, the holder of the reservation.\<close>

definition in_read :: "thread \<Rightarrow> bool" where
  "in_read th \<longleftrightarrow> fst (tcnt th) \<noteq> 0 \<and> tpc th \<noteq> Some ToWrLock"

definition in_write :: "thread \<Rightarrow> bool" where
  "in_write th \<longleftrightarrow> plocks_holding_wrlock (tcnt th)"

definition in_res :: "thread \<Rightarrow> bool" where
  "in_res th \<longleftrightarrow> snd (tcnt th) = PSYNC_WR_RESERVED \<or> tpc th = Some ToWrLock"

definition starving :: "thread \<Rightarrow> bool" where
  "starving th \<longleftrightarrow> tpc th = Some RdLockStarve"

definition thread_ok :: "thread \<Rightarrow> bool" where
  "thread_ok th \<longleftrightarrow>
     fst (tcnt th) \<noteq> - 1 \<and>
     (tpc th = None \<longrightarrow> fst (tcnt th) = 0 \<longrightarrow> snd (tcnt th) \<noteq> PSYNC_WR_RESERVED) \<and>
     (fst (tcnt th) \<noteq> 0 \<longrightarrow> snd (tcnt th) \<in> {0, PSYNC_WR_RESERVED}) \<and>
     (tpc th = Some ToWrLock \<longrightarrow> fst (tcnt th) \<noteq> 0) \<and>
     (tpc th \<noteq> None \<and> tpc th \<noteq> Some ToWrLock \<longrightarrow> tcnt th = (0, 0) \<and> (rd_waiting th \<or> wr_waiting th))"

definition lock_ok :: "rwlock \<Rightarrow> nat \<Rightarrow> nat \<Rightarrow> nat \<Rightarrow> nat \<Rightarrow> nat \<Rightarrow> nat \<Rightarrow> bool" where
  "lock_ok L r w x rdw wrw st \<longleftrightarrow>
     rcount L = r \<and> wcount L = w \<and> x = of_bool (reserved L) \<and> rwait L = rdw \<and> wwait L = wrw \<and>
     w \<le> 1 \<and> (w > 0 \<longrightarrow> r = 0 \<and> x = 0) \<and> (prefer_read L \<longrightarrow> st > 0)"

definition counts_ok :: "('t::finite) sys \<Rightarrow> bool" where
  "counts_ok s \<longleftrightarrow>
     lock_ok (lck s) (count_of in_read (thr s)) (count_of in_write (thr s)) (count_of in_res (thr s))
       (count_of rd_waiting (thr s)) (count_of wr_waiting (thr s)) (count_of starving (thr s))"

lemmas thread_preds = in_read_def in_write_def in_res_def starving_def rd_waiting_def wr_waiting_def
  plocks_holding_wrlock_def

text \<open>
  A critical section of one thread, with the shares \<open>r\<close>, \<open>w\<close>, \dots of the others fixed.
\<close>

definition section_ok :: "section_result \<Rightarrow> nat \<Rightarrow> nat \<Rightarrow> nat \<Rightarrow> nat \<Rightarrow> nat \<Rightarrow> nat \<Rightarrow> bool" where
  "section_ok res r w x rdw wrw st \<longleftrightarrow>
     (let th = next_thread res in
      thread_ok th \<and>
      lock_ok (fst res) (r + of_bool (in_read th)) (w + of_bool (in_write th)) (x + of_bool (in_res th))
        (rdw + of_bool (rd_waiting th)) (wrw + of_bool (wr_waiting th)) (st + of_bool (starving th)))"

definition share_ok :: "rwlock \<Rightarrow> thread \<Rightarrow> nat \<Rightarrow> nat \<Rightarrow> nat \<Rightarrow> nat \<Rightarrow> nat \<Rightarrow> nat \<Rightarrow> bool" where
  "share_ok L th r w x rdw wrw st \<longleftrightarrow>
     thread_ok th \<and>
     lock_ok L (r + of_bool (in_read th)) (w + of_bool (in_write th)) (x + of_bool (in_res th))
        (rdw + of_bool (rd_waiting th)) (wrw + of_bool (wr_waiting th)) (st + of_bool (starving th))"

lemma word_facts:
  fixes c :: u32
  shows "c \<noteq> - 2 \<Longrightarrow> c + 1 \<noteq> - 1" "c \<noteq> - 1 \<Longrightarrow> c + 1 \<noteq> 0" "c \<noteq> 0 \<Longrightarrow> c - 1 \<noteq> - 1"
  by (simp_all add: eq_diff_eq [symmetric] diff_eq_eq)

lemma Suc_eq_of_bool [simp]: "Suc x = of_bool b \<longleftrightarrow> b \<and> x = 0"
  by (cases b) auto

lemmas section_simps = section_ok_def next_thread_def lock_ok_def thread_ok_def thread_preds
  PSYNC_WR_RESERVED_def

lemma rd_loop_ok:
  assumes "lock_ok L r w x rdw wrw st" "c = RdLock \<or> c = TimedRdLock"
  shows "section_ok (rd_loop c L (0, 0)) r w x rdw wrw st"
  using assms by (auto simp: rd_loop_def rd_blocked_def section_simps)

lemma starve_loop_ok:
  assumes "lock_ok L r w x rdw wrw st"
  shows "section_ok (starve_loop L (0, 0)) r w x rdw wrw st"
  using assms by (auto simp: starve_loop_def section_simps)

lemma wr_loop_ok:
  assumes "lock_ok L r w x rdw wrw st" "c = WrLock \<or> c = TimedWrLock"
  shows "section_ok (wr_loop c L (0, 0)) r w x rdw wrw st"
  using assms by (auto simp: wr_loop_def wr_blocked_def section_simps)

lemma rs_loop_ok:
  assumes "lock_ok L r w x rdw wrw st"
  shows "section_ok (rs_loop L (0, 0)) r w x rdw wrw st"
  using assms by (auto simp: rs_loop_def section_simps)

text \<open>The upgrading thread has the reservation (\<open>x\<close> does not count it) and its read lock is already given back.\<close>

lemma towr_loop_ok:
  assumes "lock_ok L r w (x + 1) rdw wrw st" "fst n \<noteq> 0" "fst n \<noteq> - 1" "snd n = 0 \<or> snd n = PSYNC_WR_RESERVED"
  shows "section_ok (towr_loop L n) r w x rdw wrw st" "\<not> asserts (towr_loop L n)"
  using assms by (auto simp: towr_loop_def section_simps asserts_def)

lemma release_read_ok:
  assumes "lock_ok L (r + 1) w (x + of_bool (n = (0, PSYNC_WR_RESERVED))) rdw wrw st"
    "n = (0, 0) \<or> n = (0, PSYNC_WR_RESERVED)"
  shows "section_ok (release L n) r w x rdw wrw st" "\<not> asserts (release L n)"
  using assms
  by (auto simp: release_def section_simps asserts_def Let_def psync_rwlock_is_reserved_by_this_thread_clr_def
      split: if_splits)

lemma release_write_ok:
  assumes "lock_ok L r (w + 1) x rdw wrw st"
  shows "section_ok (release L (0, 0)) r w x rdw wrw st" "\<not> asserts (release L (0, 0))"
  using assms by (auto simp: release_def section_simps asserts_def Let_def split: if_splits)

text \<open>The calls that use the lock as it must not be used.\<close>

fun misuse :: "call \<Rightarrow> lockcnt \<Rightarrow> bool" where
  "misuse WrLock n \<longleftrightarrow> fst n \<noteq> 0"
| "misuse TryWrLock n \<longleftrightarrow> fst n \<noteq> 0"
| "misuse TimedWrLock n \<longleftrightarrow> fst n \<noteq> 0"
| "misuse RsLock n \<longleftrightarrow> fst n \<noteq> 0"
| "misuse ToWrLock n \<longleftrightarrow> n = (0, 0)"
| "misuse Unlock n \<longleftrightarrow> n = (0, 0)"
| "misuse _ n \<longleftrightarrow> False"

lemma share_none: "share_ok L \<lparr>tcnt = (0, 0), tpc = None\<rparr> r w x rdw wrw st \<longleftrightarrow> lock_ok L r w x rdw wrw st"
  by (simp add: share_ok_def section_simps)

lemma keeps_share:
  "share_ok L \<lparr>tcnt = n, tpc = None\<rparr> r w x rdw wrw st \<Longrightarrow> section_ok (L, n, k, Returned v) r w x rdw wrw st"
  by (simp add: share_ok_def section_ok_def next_thread_def)

text \<open>A nested lock changes one counter from a non-zero to a non-zero value.\<close>

lemma nested_share:
  assumes "share_ok L \<lparr>tcnt = (a, b), tpc = None\<rparr> r w x rdw wrw st" "a \<noteq> - 2" "b \<noteq> - 2"
  shows "a \<noteq> 0 \<Longrightarrow> share_ok L \<lparr>tcnt = (a + 1, b), tpc = None\<rparr> r w x rdw wrw st"
    and "a = 0 \<Longrightarrow> b \<noteq> 0 \<Longrightarrow> share_ok L \<lparr>tcnt = (0, b + 1), tpc = None\<rparr> r w x rdw wrw st"
  using assms word_facts [of a] word_facts [of b] unfolding share_ok_def by (auto simp: section_simps)

lemma unnested_share:
  assumes "share_ok L \<lparr>tcnt = (a, b), tpc = None\<rparr> r w x rdw wrw st"
  shows "a - 1 > 0 \<Longrightarrow> a \<noteq> 0 \<Longrightarrow> share_ok L \<lparr>tcnt = (a - 1, b), tpc = None\<rparr> r w x rdw wrw st"
    and "a = 0 \<Longrightarrow> b \<noteq> 0 \<Longrightarrow> b - 1 > 0 \<Longrightarrow> share_ok L \<lparr>tcnt = (0, b - 1), tpc = None\<rparr> r w x rdw wrw st"
  using assms word_facts(3) [of a] word_facts(3) [of b] unfolding share_ok_def
  by (auto simp: section_simps word_gt_0)

lemma share_cases:
  assumes "share_ok L \<lparr>tcnt = (a, b), tpc = None\<rparr> r w x rdw wrw st"
  obtains (free) "a = 0" "b = 0" "lock_ok L r w x rdw wrw st"
  | (reader) "a \<noteq> 0" "a \<noteq> - 1" "b = 0" "lock_ok L (r + 1) w x rdw wrw st"
  | (holder) "a \<noteq> 0" "a \<noteq> - 1" "b = PSYNC_WR_RESERVED" "lock_ok L (r + 1) w (x + 1) rdw wrw st"
  | (writer) "a = 0" "b \<noteq> 0" "b \<noteq> PSYNC_WR_RESERVED" "lock_ok L r (w + 1) x rdw wrw st"
  using assms unfolding share_ok_def
  by (cases "a = 0"; cases "b = 0") (auto simp: thread_ok_def thread_preds PSYNC_WR_RESERVED_def)

lemma rd_call:
  assumes "share_ok L \<lparr>tcnt = n, tpc = None\<rparr> r w x rdw wrw st" "nestable n"
  obtains (nested) n' where "psync_rwlock_check_rdrecursive_in n = Recursive n'"
      "section_ok (L, n', NoWake, Returned 0) r w x rdw wrw st"
  | (fresh) "psync_rwlock_check_rdrecursive_in n = Fresh" "n = (0, 0)" "lock_ok L r w x rdw wrw st"
proof (cases n)
  case (Pair a b)
  with assms(2) have nb: "a \<noteq> - 2" "b \<noteq> - 2" by (simp_all add: nestable_def)
  note k = nested_share [OF assms(1) [unfolded Pair] nb, THEN keeps_share]
  from assms(1) [unfolded Pair] show ?thesis
  proof (cases rule: share_cases)
    case free
    then show ?thesis using fresh Pair by (simp add: psync_rwlock_check_rdrecursive_in_def)
  next
    case writer
    then show ?thesis using nested [OF _ k(2)] Pair by (simp add: psync_rwlock_check_rdrecursive_in_def)
  qed (use nested [OF _ k(1)] Pair in \<open>simp_all add: psync_rwlock_check_rdrecursive_in_def\<close>)
qed

lemma wr_call:
  assumes "share_ok L \<lparr>tcnt = n, tpc = None\<rparr> r w x rdw wrw st" "nestable n" "fst n = 0"
  obtains (nested) n' where "psync_rwlock_check_wrrecursive_in n = Recursive n'"
      "section_ok (L, n', NoWake, Returned 0) r w x rdw wrw st"
  | (fresh) "psync_rwlock_check_wrrecursive_in n = Fresh" "n = (0, 0)" "lock_ok L r w x rdw wrw st"
proof (cases n)
  case (Pair a b)
  with assms(2) have nb: "a \<noteq> - 2" "b \<noteq> - 2" by (simp_all add: nestable_def)
  note k = nested_share [OF assms(1) [unfolded Pair] nb, THEN keeps_share]
  from assms(1) [unfolded Pair] show ?thesis
  proof (cases rule: share_cases)
    case free
    then show ?thesis using fresh Pair by (simp add: psync_rwlock_check_wrrecursive_in_def)
  next
    case writer
    then show ?thesis using nested [OF _ k(2)] Pair by (simp add: psync_rwlock_check_wrrecursive_in_def)
  qed (use assms(3) Pair in simp_all)
qed

lemma loops_no_assert:
  "\<not> asserts (rd_loop c L n)" "\<not> asserts (starve_loop L n)" "\<not> asserts (wr_loop c L n)" "\<not> asserts (rs_loop L n)"
  by (simp_all add: asserts_def rd_loop_def starve_loop_def wr_loop_def rs_loop_def)

lemma returns_no_assert [simp]:
  "\<not> asserts (L, n, k, Returned v)"
  "\<not> asserts (if b then (L, n, k, Returned v) else (L', n', k', Returned v'))"
  by (simp_all add: asserts_def)

lemma tryrd_ok:
  assumes "lock_ok L r w x rdw wrw st"
  shows "section_ok (if rd_blocked L then (L, (0, 0), NoWake, Returned (- 1))
           else (L\<lparr>rcount := rcount L + 1\<rparr>, (1, 0), NoWake, Returned 0)) r w x rdw wrw st"
  using assms by (auto simp: rd_blocked_def section_simps)

lemma trywr_ok:
  assumes "lock_ok L r w x rdw wrw st"
  shows "section_ok (if wr_blocked L then (L, (0, 0), NoWake, Returned (- 1))
           else (L\<lparr>wcount := wcount L + 1\<rparr>, (0, 1), NoWake, Returned 0)) r w x rdw wrw st"
  using assms by (auto simp: wr_blocked_def section_simps)

lemma rslock_ok:
  assumes "share_ok L \<lparr>tcnt = n, tpc = None\<rparr> r w x rdw wrw st" "nestable n" "fst n = 0"
  shows "section_ok (plocks_rslock L n) r w x rdw wrw st \<and> \<not> asserts (plocks_rslock L n)"
proof (cases n)
  case (Pair a b)
  with assms(2) have nb: "a \<noteq> - 2" "b \<noteq> - 2" by (simp_all add: nestable_def)
  from assms(1) [unfolded Pair] show ?thesis
  proof (cases rule: share_cases)
    case free
    then show ?thesis using Pair rs_loop_ok loops_no_assert(4) by (simp add: plocks_rslock_def)
  next
    case writer
    then show ?thesis
      using Pair keeps_share [OF nested_share(2) [OF assms(1) [unfolded Pair] nb]]
      by (simp add: plocks_rslock_def asserts_def)
  qed (use assms(3) Pair in simp_all)
qed

lemma towrlock_ok:
  assumes "share_ok L \<lparr>tcnt = n, tpc = None\<rparr> r w x rdw wrw st" "n \<noteq> (0, 0)"
  shows "section_ok (plocks_towrlock L n) r w x rdw wrw st \<and> \<not> asserts (plocks_towrlock L n)"
proof (cases n)
  case (Pair a b)
  from assms(1) [unfolded Pair] show ?thesis
  proof (cases rule: share_cases)
    case free
    then show ?thesis using assms(2) Pair by simp
  next
    case reader
    then have l: "rcount L > 0" "wcount L = 0" by (auto simp: lock_ok_def)
    show ?thesis
    proof (cases "reserved L")
      case True
      then show ?thesis
        using reader l Pair keeps_share [OF assms(1)]
        by (simp add: plocks_towrlock_def asserts_def PSYNC_WR_RESERVED_def)
    next
      case False
      then have "lock_ok (L\<lparr>reserved := True, rcount := rcount L - 1\<rparr>) r w (x + 1) rdw wrw st"
        using reader(4) by (auto simp: lock_ok_def)
      from towr_loop_ok [OF this, of "(a, b)"] show ?thesis
        using reader l Pair False by (simp add: plocks_towrlock_def PSYNC_WR_RESERVED_def)
    qed
  next
    case holder
    then have l: "rcount L > 0" "wcount L = 0" by (auto simp: lock_ok_def)
    have "lock_ok (L\<lparr>reserved := True, rcount := rcount L - 1\<rparr>) r w (x + 1) rdw wrw st"
      using holder(4) by (auto simp: lock_ok_def)
    from towr_loop_ok [OF this, of "(a, b)"] show ?thesis
      using holder l Pair by (simp add: plocks_towrlock_def PSYNC_WR_RESERVED_def)
  next
    case writer
    then show ?thesis
      using Pair keeps_share [OF assms(1)] by (simp add: plocks_towrlock_def asserts_def)
  qed
qed

lemma unlock_ok:
  assumes "share_ok L \<lparr>tcnt = n, tpc = None\<rparr> r w x rdw wrw st" "n \<noteq> (0, 0)"
  shows "section_ok (plocks_unlock L n) r w x rdw wrw st \<and> \<not> asserts (plocks_unlock L n)"
proof (cases n)
  case (Pair a b)
  note un = unnested_share [OF assms(1) [unfolded Pair]]
  from assms(1) [unfolded Pair] show ?thesis
  proof (cases rule: share_cases)
    case free
    then show ?thesis using assms(2) Pair by simp
  next
    case reader
    show ?thesis
      using reader Pair keeps_share [OF un(1)] release_read_ok [of L r w x "(0, 0)" rdw wrw st]
      by (auto simp: plocks_unlock_def psync_rwlock_check_recursive_out_def asserts_def word_gt_0
          PSYNC_WR_RESERVED_def)
  next
    case holder
    show ?thesis
      using holder Pair keeps_share [OF un(1)] release_read_ok [of L r w x "(0, PSYNC_WR_RESERVED)" rdw wrw st]
      by (auto simp: plocks_unlock_def psync_rwlock_check_recursive_out_def asserts_def word_gt_0)
  next
    case writer
    show ?thesis
      using writer Pair keeps_share [OF un(2)] release_write_ok [of L r w x rdw wrw st]
      by (auto simp: plocks_unlock_def psync_rwlock_check_recursive_out_def asserts_def word_gt_0)
  qed
qed

text \<open>Every call that is no misuse keeps the counts; it never fails an assertion.\<close>

lemma start_ok:
  assumes "share_ok L \<lparr>tcnt = n, tpc = None\<rparr> r w x rdw wrw st" "nestable n" "\<not> misuse c n"
  shows "section_ok (start c L n) r w x rdw wrw st \<and> \<not> asserts (start c L n)"
proof -
  note defs = plocks_rdlock_def plocks_tryrdlock_def plocks_timedrdlock_def plocks_rdlock_starvewr_def
    plocks_wrlock_def plocks_trywrlock_def plocks_timedwrlock_def
  have rd: ?thesis if "c \<in> {RdLock, TryRdLock, TimedRdLock, RdLockStarve}"
    using assms(1,2)
  proof (cases rule: rd_call)
    case (nested n')
    with that show ?thesis by (auto simp: defs)
  next
    case fresh
    with that rd_loop_ok [OF fresh(3)] tryrd_ok [OF fresh(3)] starve_loop_ok [OF fresh(3)] loops_no_assert
    show ?thesis by (auto simp: defs)
  qed
  have wr: ?thesis if "c \<in> {WrLock, TryWrLock, TimedWrLock}" "fst n = 0"
    using assms(1,2) that(2)
  proof (cases rule: wr_call)
    case (nested n')
    with that show ?thesis by (auto simp: defs)
  next
    case fresh
    with that wr_loop_ok [OF fresh(3)] trywr_ok [OF fresh(3)] loops_no_assert
    show ?thesis by (auto simp: defs)
  qed
  show ?thesis
    using rd wr rslock_ok [OF assms(1,2)] towrlock_ok [OF assms(1)] unlock_ok [OF assms(1)] assms(3)
    by (cases c) simp_all
qed

text \<open>Leaving a wait gives the waiting thread's share back before the loop goes on.\<close>

lemma waiting_share:
  assumes "share_ok L \<lparr>tcnt = n, tpc = Some c\<rparr> r w x rdw wrw st"
  obtains (reader) "c = RdLock \<or> c = TimedRdLock" "n = (0, 0)" "lock_ok L r w x (rdw + 1) wrw st"
  | (starver) "c = RdLockStarve" "n = (0, 0)" "lock_ok L r w x (rdw + 1) wrw (st + 1)"
  | (writer) "c = WrLock \<or> c = TimedWrLock \<or> c = RsLock" "n = (0, 0)" "lock_ok L r w x rdw (wrw + 1) st"
  | (upgrade) "c = ToWrLock" "fst n \<noteq> 0" "fst n \<noteq> - 1" "snd n = 0 \<or> snd n = PSYNC_WR_RESERVED"
      "lock_ok L r w (x + 1) rdw (wrw + 1) st"
proof -
  from assms have t: "thread_ok \<lparr>tcnt = n, tpc = Some c\<rparr>"
    and l: "lock_ok L (r + of_bool (in_read \<lparr>tcnt = n, tpc = Some c\<rparr>)) (w + of_bool (in_write \<lparr>tcnt = n, tpc = Some c\<rparr>))
      (x + of_bool (in_res \<lparr>tcnt = n, tpc = Some c\<rparr>)) (rdw + of_bool (rd_waiting \<lparr>tcnt = n, tpc = Some c\<rparr>))
      (wrw + of_bool (wr_waiting \<lparr>tcnt = n, tpc = Some c\<rparr>)) (st + of_bool (starving \<lparr>tcnt = n, tpc = Some c\<rparr>))"
    by (simp_all add: share_ok_def)
  have n: "n = (0, 0)" if "c \<noteq> ToWrLock" using t that by (simp add: thread_ok_def)
  show ?thesis
  proof (cases c)
    case RdLock with l n reader show ?thesis by (simp add: thread_preds PSYNC_WR_RESERVED_def)
  next
    case TimedRdLock with l n reader show ?thesis by (simp add: thread_preds PSYNC_WR_RESERVED_def)
  next
    case RdLockStarve with l n starver show ?thesis by (simp add: thread_preds PSYNC_WR_RESERVED_def)
  next
    case WrLock with l n writer show ?thesis by (simp add: thread_preds PSYNC_WR_RESERVED_def)
  next
    case TimedWrLock with l n writer show ?thesis by (simp add: thread_preds PSYNC_WR_RESERVED_def)
  next
    case RsLock with l n writer show ?thesis by (simp add: thread_preds PSYNC_WR_RESERVED_def)
  next
    case ToWrLock
    then have "fst n \<noteq> 0" "fst n \<noteq> - 1" "snd n = 0 \<or> snd n = PSYNC_WR_RESERVED"
      using t by (auto simp: thread_ok_def)
    with l upgrade ToWrLock show ?thesis by (auto simp: thread_preds)
  qed (use t in \<open>simp_all add: thread_ok_def thread_preds\<close>)
qed

lemma resume_ok:
  assumes "share_ok L \<lparr>tcnt = n, tpc = Some c\<rparr> r w x rdw wrw st"
  shows "section_ok (resume c L n) r w x rdw wrw st \<and> \<not> asserts (resume c L n)"
  using assms
proof (cases rule: waiting_share)
  case reader
  then have "lock_ok (L\<lparr>rwait := rwait L - 1\<rparr>) r w x rdw wrw st" by (auto simp: lock_ok_def)
  from rd_loop_ok [OF this reader(1)] reader(1,2) loops_no_assert show ?thesis by auto
next
  case starver
  then have "lock_ok (L\<lparr>rwait := rwait L - 1, prefer_read := False\<rparr>) r w x rdw wrw st" by (auto simp: lock_ok_def)
  from starve_loop_ok [OF this] starver(1,2) loops_no_assert show ?thesis by simp
next
  case writer
  then have l: "lock_ok (L\<lparr>wwait := wwait L - 1\<rparr>) r w x rdw wrw st" by (auto simp: lock_ok_def)
  show ?thesis using wr_loop_ok [OF l] rs_loop_ok [OF l] writer(1,2) loops_no_assert by auto
next
  case upgrade
  then have "lock_ok (L\<lparr>wwait := wwait L - 1\<rparr>) r w (x + 1) rdw wrw st" by (auto simp: lock_ok_def)
  from towr_loop_ok [OF this upgrade(2-4)] upgrade(1) show ?thesis by simp
qed

lemma timeout_ok:
  assumes "share_ok L \<lparr>tcnt = n, tpc = Some c\<rparr> r w x rdw wrw st" "c \<in> {TimedRdLock, TimedWrLock}"
  shows "section_ok (timeout c L n) r w x rdw wrw st"
proof -
  note quit = keeps_share [OF share_none [THEN iffD2]]
  from assms(1) show ?thesis
  proof (cases rule: waiting_share)
    case reader
    then have "lock_ok (L\<lparr>rwait := rwait L - 1\<rparr>) r w x rdw wrw st" by (auto simp: lock_ok_def)
    from quit [OF this] assms(2) reader(1,2) show ?thesis by auto
  next
    case writer
    then have "lock_ok (L\<lparr>wwait := wwait L - 1\<rparr>) r w x rdw wrw st" by (auto simp: lock_ok_def)
    from quit [OF this] assms(2) writer(1,2) show ?thesis by (auto simp only: timeout.simps Let_def)
  qed (use assms(2) in auto)
qed

text \<open>Lifted to the whole system.\<close>

definition threads_ok :: "('t \<Rightarrow> thread) \<Rightarrow> bool" where
  "threads_ok ts \<longleftrightarrow> (\<forall>t. thread_ok (ts t))"

definition lock_inv :: "('t::finite) sys \<Rightarrow> bool" where
  "lock_inv s \<longleftrightarrow> counts_ok s \<and> threads_ok (thr s)"

lemma lock_inv_share:
  assumes "lock_inv s"
  shows "share_ok (lck s) (thr s t) (others in_read (thr s) t) (others in_write (thr s) t) (others in_res (thr s) t)
    (others rd_waiting (thr s) t) (others wr_waiting (thr s) t) (others starving (thr s) t)"
  using assms unfolding lock_inv_def counts_ok_def threads_ok_def share_ok_def
  by (simp add: count_of_others [where t = t])

lemma lock_inv_section:
  assumes "lock_inv s"
    and "section_ok res (others in_read (thr s) t) (others in_write (thr s) t) (others in_res (thr s) t)
      (others rd_waiting (thr s) t) (others wr_waiting (thr s) t) (others starving (thr s) t)"
  shows "lock_inv (apply_section t u res s)"
  using assms unfolding lock_inv_def counts_ok_def threads_ok_def section_ok_def
  by (auto simp: apply_section_def count_of_upd Let_def split: prod.splits)

lemma lock_inv_init: "lock_init s \<Longrightarrow> lock_inv s"
  by (simp add: lock_init_def lock_inv_def counts_ok_def threads_ok_def count_of_def lock_ok_def plocks_init_def
      thread_ok_def thread_preds PSYNC_WR_RESERVED_def)

lemma thread_sections_ok:
  assumes "share_ok L th r w x rdw wrw st"
  shows "tpc th = None \<Longrightarrow> nestable (tcnt th) \<Longrightarrow> \<not> misuse c (tcnt th) \<Longrightarrow>
      section_ok (start c L (tcnt th)) r w x rdw wrw st \<and> \<not> asserts (start c L (tcnt th))"
    and "tpc th = Some c \<Longrightarrow>
      section_ok (resume c L (tcnt th)) r w x rdw wrw st \<and> \<not> asserts (resume c L (tcnt th))"
    and "tpc th = Some c \<Longrightarrow> c \<in> {TimedRdLock, TimedWrLock} \<Longrightarrow>
      section_ok (timeout c L (tcnt th)) r w x rdw wrw st"
  using assms start_ok resume_ok timeout_ok by (cases th; simp)+

text \<open>A misuse is exactly what the assertions catch.\<close>

lemma start_asserts_iff:
  assumes "share_ok L \<lparr>tcnt = n, tpc = None\<rparr> r w x rdw wrw st" "nestable n"
  shows "asserts (start c L n) \<longleftrightarrow> misuse c n"
proof (cases "misuse c n")
  case True
  then show ?thesis
    by (cases c) (auto simp: asserts_def plocks_wrlock_def plocks_trywrlock_def plocks_timedwrlock_def
        psync_rwlock_check_wrrecursive_in_def plocks_rslock_def plocks_towrlock_def plocks_unlock_def
        psync_rwlock_check_recursive_out_def)
next
  case False
  then show ?thesis using start_ok [OF assms] by blast
qed

lemma lock_inv_asserts_iff:
  assumes "lock_inv s" "tpc (thr s t) = None" "nestable (tcnt (thr s t))"
  shows "asserts (start c (lck s) (tcnt (thr s t))) \<longleftrightarrow> misuse c (tcnt (thr s t))"
  using start_asserts_iff lock_inv_share [OF assms(1), of t] assms(2,3) by (cases "thr s t") simp

lemma lock_inv_step:
  assumes "lock_inv s" "lock_step s s'"
  shows "lock_inv s'"
  using assms(2)
proof (cases rule: lock_step.cases)
  case (call t res c u)
  have "\<not> misuse c (tcnt (thr s t))"
    using lock_inv_asserts_iff [OF assms(1) call(2,3)] call(4,5) by blast
  from thread_sections_ok(1) [OF lock_inv_share [OF assms(1)] call(2,3) this] call(1,4)
  show ?thesis using lock_inv_section [OF assms(1)] by blast
next
  case (wakeup t c res u)
  from thread_sections_ok(2) [OF lock_inv_share [OF assms(1)] wakeup(2)] wakeup(1,3)
  show ?thesis using lock_inv_section [OF assms(1)] by blast
next
  case (timed_out t c res u)
  from thread_sections_ok(3) [OF lock_inv_share [OF assms(1)] timed_out(2,3)] timed_out(1,4)
  show ?thesis using lock_inv_section [OF assms(1)] by blast
qed

interpretation rwl: transition_system lock_init lock_step lock_inv
  by unfold_locales (fact lock_inv_init, fact lock_inv_step)

lemma reached_inv: "reaches lock_init lock_step s \<Longrightarrow> lock_inv s"
  by (rule rwl.inv_reaches)

text \<open>From counts to threads: who excludes whom.\<close>

lemma writer_excludes:
  assumes "lock_inv s" "in_write (thr s t)" "u \<noteq> t"
  shows "tcnt (thr s u) = (0, 0)"
proof -
  have w: "count_of in_write (thr s) \<ge> 1" by (rule count_ge1 [of in_write "thr s" t, OF assms(2)])
  have c: "count_of in_write (thr s) \<le> 1" "count_of in_read (thr s) = 0" "count_of in_res (thr s) = 0"
    using assms(1) w by (auto simp: lock_inv_def counts_ok_def lock_ok_def)
  have "\<not> in_write (thr s u)" using count_le1_unique [of in_write "thr s" t u] c(1) assms(2,3) by blast
  moreover have "\<not> in_read (thr s u)" "\<not> in_res (thr s u)"
    using c(2,3) count_ge1 [of in_read "thr s" u] count_ge1 [of in_res "thr s" u] by auto
  ultimately show ?thesis
    by (auto simp: thread_preds prod_eq_iff)
qed

subsection \<open>No wake-up is lost\<close>

fun can_proceed :: "call \<Rightarrow> rwlock \<Rightarrow> bool" where
  "can_proceed RdLock L \<longleftrightarrow> \<not> rd_blocked L"
| "can_proceed TimedRdLock L \<longleftrightarrow> \<not> rd_blocked L"
| "can_proceed RdLockStarve L \<longleftrightarrow> wcount L = 0"
| "can_proceed WrLock L \<longleftrightarrow> \<not> wr_blocked L"
| "can_proceed TimedWrLock L \<longleftrightarrow> \<not> wr_blocked L"
| "can_proceed RsLock L \<longleftrightarrow> wcount L = 0 \<and> \<not> reserved L"
| "can_proceed ToWrLock L \<longleftrightarrow> rcount L = 0"
| "can_proceed _ L \<longleftrightarrow> False"

text \<open>The threads that were signalled and will find their loop condition false.\<close>

definition ready :: "'t sys \<Rightarrow> 't \<Rightarrow> bool" where
  "ready s t \<longleftrightarrow> t \<in> woken s \<and> (\<exists>c. tpc (thr s t) = Some c \<and> can_proceed c (lck s))"

definition free_lock :: "rwlock \<Rightarrow> bool" where
  "free_lock L \<longleftrightarrow> rcount L = 0 \<and> wcount L = 0"

definition live :: "'t sys \<Rightarrow> bool" where
  "live s \<longleftrightarrow>
     (free_lock (lck s) \<and> plocks_num_waiters (lck s) > 0 \<longrightarrow> (\<exists>t. ready s t)) \<and>
     (wcount (lck s) = 0 \<and> wwait (lck s) = 0 \<longrightarrow> (\<forall>t. rd_waiting (thr s t) \<longrightarrow> t \<in> woken s))"

lemma lock_inv_waiters:
  assumes "lock_inv s"
  shows "rwait (lck s) > 0 \<longleftrightarrow> (\<exists>t. rd_waiting (thr s t))"
    and "wwait (lck s) > 0 \<longleftrightarrow> (\<exists>t. wr_waiting (thr s t))"
    and "prefer_read (lck s) \<Longrightarrow> \<exists>t. starving (thr s t)"
    and "reserved (lck s) \<longleftrightarrow> (\<exists>t. in_res (thr s t))"
    and "rcount (lck s) > 0 \<longleftrightarrow> (\<exists>t. in_read (thr s t))"
    and "wcount (lck s) > 0 \<Longrightarrow> rcount (lck s) = 0 \<and> \<not> reserved (lck s)"
    and "wcount (lck s) \<le> 1"
proof -
  have l: "lock_ok (lck s) (count_of in_read (thr s)) (count_of in_write (thr s)) (count_of in_res (thr s))
       (count_of rd_waiting (thr s)) (count_of wr_waiting (thr s)) (count_of starving (thr s))"
    using assms by (simp add: lock_inv_def counts_ok_def)
  then have "count_of in_res (thr s) > 0 \<longleftrightarrow> reserved (lck s)" by (simp add: lock_ok_def)
  with l show "rwait (lck s) > 0 \<longleftrightarrow> (\<exists>t. rd_waiting (thr s t))"
    "wwait (lck s) > 0 \<longleftrightarrow> (\<exists>t. wr_waiting (thr s t))"
    "prefer_read (lck s) \<Longrightarrow> \<exists>t. starving (thr s t)"
    "reserved (lck s) \<longleftrightarrow> (\<exists>t. in_res (thr s t))"
    "rcount (lck s) > 0 \<longleftrightarrow> (\<exists>t. in_read (thr s t))"
    "wcount (lck s) > 0 \<Longrightarrow> rcount (lck s) = 0 \<and> \<not> reserved (lck s)"
    "wcount (lck s) \<le> 1"
    by (simp_all only: count_pos_iff [symmetric] lock_ok_def) auto
qed

lemma lock_inv_thread: "lock_inv s \<Longrightarrow> thread_ok (thr s t)"
  by (simp add: lock_inv_def threads_ok_def)

text \<open>Who is ready once it has been signalled, when the lock is free.\<close>

lemma wr_ready:
  assumes "lock_inv s" "free_lock (lck s)" "\<not> reserved (lck s)" "wr_waiting (thr s v)" "v \<in> woken s"
  shows "ready s v"
proof -
  have "\<not> in_res (thr s v)" using assms(1,3) lock_inv_waiters(4) by blast
  then have "tpc (thr s v) \<noteq> Some ToWrLock" by (simp add: in_res_def)
  then show ?thesis
    using assms(2-5) by (auto simp: ready_def wr_waiting_def free_lock_def wr_blocked_def)
qed

lemma free_reserved:
  assumes "lock_inv s" "free_lock (lck s)" "reserved (lck s)"
  obtains v where "tpc (thr s v) = Some ToWrLock" "wr_waiting (thr s v)" "wwait (lck s) > 0"
proof -
  from assms(1,3) obtain v where v: "in_res (thr s v)" using lock_inv_waiters(4) by blast
  have "\<not> in_read (thr s v)" using assms(2) lock_inv_waiters(5) [OF assms(1)] by (auto simp: free_lock_def)
  with v have t: "tpc (thr s v) = Some ToWrLock"
    using lock_inv_thread [OF assms(1), of v]
    by (auto simp: thread_preds thread_ok_def PSYNC_WR_RESERVED_def)
  then have "wr_waiting (thr s v)" by (simp add: wr_waiting_def)
  with t that lock_inv_waiters(2) [OF assms(1)] show ?thesis by blast
qed

lemma upgrade_ready:
  assumes "lock_inv s" "free_lock (lck s)" "reserved (lck s)" "\<And>v. wr_waiting (thr s v) \<Longrightarrow> v \<in> woken s"
  shows "\<exists>v. ready s v"
proof -
  obtain v where "tpc (thr s v) = Some ToWrLock" "wr_waiting (thr s v)"
    by (rule free_reserved [OF assms(1-3)])
  moreover from this have "v \<in> woken s" using assms(4) by blast
  ultimately show ?thesis using assms(2) by (auto simp: ready_def free_lock_def)
qed

lemma rd_ready:
  assumes "rd_waiting (thr s v)" "v \<in> woken s" "wcount (lck s) = 0"
    "wwait (lck s) = 0 \<or> reserved (lck s) \<or> starving (thr s v)"
  shows "ready s v"
  using assms by (auto simp: ready_def rd_waiting_def starving_def rd_blocked_def)

lemma apply_section_simps [simp]:
  "lck (apply_section t u (L, n, w, oc) s) = L"
  "thr (apply_section t u (L, n, w, oc) s) =
     (thr s)(t := \<lparr>tcnt = n, tpc = (case oc of Waits c \<Rightarrow> Some c | _ \<Rightarrow> None)\<rparr>)"
  "woken (apply_section t u (L, n, w, oc) s) =
     deliver w u ((thr s)(t := \<lparr>tcnt = n, tpc = (case oc of Waits c \<Rightarrow> Some c | _ \<Rightarrow> None)\<rparr>)) (woken s - {t})"
  by (simp_all add: apply_section_def next_thread_def Let_def)

lemma deliver_mono: "v \<in> wk \<Longrightarrow> v \<in> deliver w u ts wk"
  by (cases w) auto

lemma ready_stays:
  assumes "ready s v" "v \<noteq> t"
    and "\<And>c. tpc (thr s v) = Some c \<Longrightarrow> can_proceed c (lck s) \<Longrightarrow> can_proceed c L"
  shows "ready (apply_section t u (L, n, w, oc) s) v"
  using assms by (auto simp: ready_def intro: deliver_mono)

lemma liveI:
  assumes "free_lock (lck s) \<Longrightarrow> plocks_num_waiters (lck s) > 0 \<Longrightarrow> \<exists>t. ready s t"
    and "\<And>t. wcount (lck s) = 0 \<Longrightarrow> wwait (lck s) = 0 \<Longrightarrow> rd_waiting (thr s t) \<Longrightarrow> t \<in> woken s"
  shows "live s"
  using assms by (auto simp: live_def)

lemma liveD:
  assumes "live s"
  shows "free_lock (lck s) \<Longrightarrow> plocks_num_waiters (lck s) > 0 \<Longrightarrow> \<exists>t. ready s t"
    and "wcount (lck s) = 0 \<Longrightarrow> wwait (lck s) = 0 \<Longrightarrow> rd_waiting (thr s t) \<Longrightarrow> t \<in> woken s"
  using assms by (auto simp: live_def)

text \<open>The section changes nothing but the counters of its thread: nested calls, failed attempts.\<close>

lemma live_quiet:
  assumes "live s" "tpc (thr s t) = None"
  shows "live (apply_section t u (lck s, n, NoWake, Returned v) s)" (is "live ?s")
proof (rule liveI)
  assume "free_lock (lck ?s)" "plocks_num_waiters (lck ?s) > 0"
  then obtain x where x: "ready s x" using liveD(1) [OF assms(1)] by auto
  then have "x \<noteq> t" using assms(2) by (auto simp: ready_def)
  with x show "\<exists>t. ready ?s t" by (blast intro: ready_stays)
next
  fix x assume "wcount (lck ?s) = 0" "wwait (lck ?s) = 0" "rd_waiting (thr ?s x)"
  then show "x \<in> woken ?s"
    using liveD(2) [OF assms(1), of x] assms(2) by (cases "x = t") (auto simp: rd_waiting_def)
qed

text \<open>The section takes the lock.\<close>

lemma live_acquire:
  assumes "live s" "\<not> free_lock L"
    and "wcount L = 0 \<Longrightarrow> wwait L = 0 \<Longrightarrow>
      (wcount (lck s) = 0 \<and> wwait (lck s) = 0) \<or> w = BroadcastR \<or> (\<forall>v. v \<noteq> t \<longrightarrow> \<not> rd_waiting (thr s v))"
  shows "live (apply_section t u (L, n, w, Returned v) s)" (is "live ?s")
proof (rule liveI)
  assume "free_lock (lck ?s)"
  with assms(2) show "\<exists>t. ready ?s t" by simp
next
  fix x assume x: "wcount (lck ?s) = 0" "wwait (lck ?s) = 0" "rd_waiting (thr ?s x)"
  then have t: "x \<noteq> t" "rd_waiting (thr s x)" by (cases "x = t"; simp add: rd_waiting_def)+
  from assms(3) x(1,2) consider "wcount (lck s) = 0" "wwait (lck s) = 0" | "w = BroadcastR"
    using t by auto
  then show "x \<in> woken ?s"
    using liveD(2) [OF assms(1) _ _ t(2)] t by cases (auto intro: deliver_mono)
qed

text \<open>The section ends in a wait; the lock may be free only if somebody else is about to take it.\<close>

lemma live_wait:
  assumes "live s" "lock_inv s"
    and "free_lock L \<Longrightarrow> free_lock (lck s) \<and> plocks_num_waiters (lck s) > 0 \<and> reserved L = reserved (lck s) \<and>
        (wwait L > wwait (lck s) \<longrightarrow> reserved L) \<and>
        (\<forall>c'. tpc (thr s t) = Some c' \<longrightarrow> \<not> can_proceed c' (lck s))"
    and "wcount L > 0 \<or> wwait L > 0"
  shows "live (apply_section t u (L, n, NoWake, Waits c) s)" (is "live ?s")
proof (rule liveI)
  assume f: "free_lock (lck ?s)"
  then have L: "free_lock L" by simp
  note a = assms(3) [OF L]
  from a obtain x where x: "ready s x" using liveD(1) [OF assms(1)] by blast
  then have "x \<noteq> t" using a by (auto simp: ready_def)
  moreover have "can_proceed d (lck s) \<Longrightarrow> can_proceed d L" for d
    using a L by (cases d) (auto simp: free_lock_def rd_blocked_def wr_blocked_def)
  ultimately show "\<exists>t. ready ?s t" using x by (blast intro: ready_stays)
next
  fix x assume "wcount (lck ?s) = 0" "wwait (lck ?s) = 0"
  with assms(4) show "x \<in> woken ?s" by simp
qed

text \<open>The section leaves the lock free: its wake-up goes to somebody who can proceed.\<close>

lemma pick_wakes:
  assumes "pick_ok SignalW u ts wk" "wr_waiting (ts y)"
  shows "\<exists>x. wr_waiting (ts x) \<and> x \<in> deliver SignalW u ts wk"
proof (cases "u \<in> sleeping_writers ts wk")
  case True
  then show ?thesis by (auto simp: sleeping_writers_def)
next
  case False
  with assms show ?thesis by (auto simp: pick_ok_def sleeping_writers_def)
qed

lemma starving_waits: "starving th \<Longrightarrow> rd_waiting th"
  by (simp add: starving_def rd_waiting_def)

lemma live_release:
  assumes "lock_inv (apply_section t u (L, n, w, Returned v) s)"
    and "pick_ok_section t u (L, n, w, Returned v) s"
    and "free_lock L"
    and "w = NoWake \<Longrightarrow> rwait L = 0 \<and> wwait L = 0"
    and "w = SignalW \<Longrightarrow> wwait L > 0 \<and> \<not> reserved L"
    and "w = BroadcastW \<Longrightarrow> wwait L > 0 \<and> reserved L"
    and "w = BroadcastR \<Longrightarrow> rwait L > 0 \<and> (wwait L = 0 \<or> prefer_read L)"
  shows "live (apply_section t u (L, n, w, Returned v) s)" (is "live ?s")
proof (rule liveI)
  have f: "free_lock (lck ?s)" "wcount (lck ?s) = 0" using assms(3) by (simp_all add: free_lock_def)
  note wt = lock_inv_waiters [OF assms(1)]
  show "\<exists>x. ready ?s x" if "plocks_num_waiters (lck ?s) > 0"
  proof (cases w)
    case NoWake
    with that assms(4) show ?thesis by (simp add: plocks_num_waiters_def)
  next
    case SignalW
    from assms(5) [OF this] obtain y where y: "wr_waiting (thr ?s y)" using wt(2) by auto
    have "\<exists>x. wr_waiting (thr ?s x) \<and> x \<in> woken ?s"
      using pick_wakes [of u "thr ?s" "woken s - {t}" y] y assms(2) SignalW
      by (simp add: pick_ok_section_def next_thread_def)
    then show ?thesis using wr_ready [OF assms(1) f(1)] assms(5) [OF SignalW] by auto
  next
    case BroadcastW
    show ?thesis
      by (rule upgrade_ready [OF assms(1) f(1)]) (use assms(6) [OF BroadcastW] BroadcastW in auto)
  next
    case BroadcastR
    note b = assms(7) [OF this]
    from b obtain y where y: "rd_waiting (thr ?s y)" using wt(1) by auto
    have "\<exists>x. rd_waiting (thr ?s x) \<and> (wwait (lck ?s) = 0 \<or> starving (thr ?s x))"
    proof (cases "wwait L = 0")
      case True
      then have "wwait (lck ?s) = 0" by simp
      with y show ?thesis by blast
    next
      case False
      with b have "prefer_read (lck ?s)" by simp
      then obtain x where "starving (thr ?s x)" using wt(3) by blast
      then show ?thesis using starving_waits by blast
    qed
    then obtain x where "rd_waiting (thr ?s x)" "wwait (lck ?s) = 0 \<or> starving (thr ?s x)" by blast
    then show ?thesis
      using rd_ready [of ?s x] f(2) BroadcastR by (auto simp: rd_waiting_def split: if_splits)
  qed
  fix x assume x: "wcount (lck ?s) = 0" "wwait (lck ?s) = 0" "rd_waiting (thr ?s x)"
  then have "rwait (lck ?s) > 0" using wt(1) by blast
  then have "rwait L > 0" by simp
  with assms(4-7) x(2) have "w = BroadcastR" by (cases w) auto
  with x(3) show "x \<in> woken ?s" by (auto simp: rd_waiting_def split: if_splits)
qed

text \<open>The last reader leaves and nobody waits to write: the waiting readers were woken before.\<close>

lemma live_release_none:
  assumes "lock_inv (apply_section t u (L, n, NoWake, Returned v) s)" "live s" "tpc (thr s t) = None"
    and "wcount L = 0" "wwait L = 0" "wcount (lck s) = 0" "wwait (lck s) = 0"
  shows "live (apply_section t u (L, n, NoWake, Returned v) s)" (is "live ?s")
proof -
  have wk: "x \<in> woken ?s" if "rd_waiting (thr ?s x)" for x
    using liveD(2) [OF assms(2,6,7), of x] that by (cases "x = t") (auto simp: rd_waiting_def)
  show ?thesis
  proof (rule liveI)
    assume "plocks_num_waiters (lck ?s) > 0"
    then have "rwait (lck ?s) > 0" using assms(5) by (simp add: plocks_num_waiters_def)
    then obtain x where x: "rd_waiting (thr ?s x)" using lock_inv_waiters(1) [OF assms(1)] by blast
    show "\<exists>x. ready ?s x"
      using rd_ready [OF x wk [OF x]] assms(4,5) by auto
  qed (rule wk)
qed

text \<open>A wait that times out.\<close>

lemma live_timeout:
  assumes "lock_inv (apply_section t u (L, n, w, Returned v) s)" "live s"
    and "free_lock L \<Longrightarrow> plocks_num_waiters L > 0 \<Longrightarrow>
      (\<exists>x. x \<noteq> t \<and> ready s x) \<or> (\<exists>x. ready (apply_section t u (L, n, w, Returned v) s) x)"
    and "rcount L = rcount (lck s)" "wcount L = wcount (lck s)" "reserved L = reserved (lck s)"
    and "wwait L \<le> wwait (lck s)" "plocks_num_waiters L \<le> plocks_num_waiters (lck s)"
    and "wcount L = 0 \<Longrightarrow> wwait L = 0 \<Longrightarrow> wwait (lck s) = 0 \<or> rwait L = 0 \<or> w = BroadcastR"
  shows "live (apply_section t u (L, n, w, Returned v) s)" (is "live ?s")
proof (rule liveI)
  assume "free_lock (lck ?s)" "plocks_num_waiters (lck ?s) > 0"
  then consider (old) x where "x \<noteq> t" "ready s x" | (new) "\<exists>x. ready ?s x" using assms(3) by auto
  moreover have "can_proceed d (lck s) \<Longrightarrow> can_proceed d L" for d
    using assms(4-7) by (cases d) (auto simp: rd_blocked_def wr_blocked_def)
  ultimately show "\<exists>t. ready ?s t" by cases (blast intro: ready_stays)+
next
  fix x assume x: "wcount (lck ?s) = 0" "wwait (lck ?s) = 0" "rd_waiting (thr ?s x)"
  then have t: "x \<noteq> t" "rd_waiting (thr s x)" by (cases "x = t"; simp add: rd_waiting_def)+
  have "rwait (lck ?s) > 0" using lock_inv_waiters(1) [OF assms(1)] x(3) by blast
  then have "rwait L > 0" by simp
  with assms(9) x(1,2) consider "wwait (lck s) = 0" | "w = BroadcastR" by auto
  then show "x \<in> woken ?s"
  proof cases
    case 1
    with liveD(2) [OF assms(2) _ 1 t(2)] assms(5) x(1) t(1) show ?thesis by (auto intro: deliver_mono)
  next
    case 2 with t show ?thesis by auto
  qed
qed

text \<open>The loops, entered from outside or after a wait of the same kind.\<close>

lemma live_rd_loop:
  assumes "live s" "lock_inv s" "rcount L = rcount (lck s)" "wcount L = wcount (lck s)"
    "wwait L = wwait (lck s)" "reserved L = reserved (lck s)"
    and "tpc (thr s t) \<in> {None, Some RdLock, Some TimedRdLock}"
  shows "live (apply_section t u (rd_loop c L n) s)"
proof (cases "rd_blocked L")
  case True
  with assms have "live (apply_section t u (L\<lparr>rwait := rwait L + 1\<rparr>, n, NoWake, Waits c) s)"
    by (intro live_wait) (auto simp: rd_blocked_def free_lock_def plocks_num_waiters_def)
  with True show ?thesis by (simp add: rd_loop_def)
next
  case False
  with assms have "live (apply_section t u (L\<lparr>rcount := rcount L + 1\<rparr>, (1, 0), NoWake, Returned 0) s)"
    by (intro live_acquire) (auto simp: free_lock_def)
  with False show ?thesis by (simp add: rd_loop_def)
qed

lemma live_starve_loop:
  assumes "live s" "lock_inv s" "rcount L = rcount (lck s)" "wcount L = wcount (lck s)" "wwait L = wwait (lck s)"
  shows "live (apply_section t u (starve_loop L n) s)"
proof (cases "wcount L > 0")
  case True
  with assms have "live (apply_section t u (L\<lparr>rwait := rwait L + 1, prefer_read := True\<rparr>, n, NoWake, Waits RdLockStarve) s)"
    by (intro live_wait) (auto simp: free_lock_def)
  with True show ?thesis by (simp add: starve_loop_def)
next
  case False
  with assms have "live (apply_section t u (L\<lparr>rcount := rcount L + 1\<rparr>, (1, 0), NoWake, Returned 0) s)"
    by (intro live_acquire) (auto simp: free_lock_def)
  with False show ?thesis by (simp add: starve_loop_def)
qed

lemma live_wr_loop:
  assumes "live s" "lock_inv s" "rcount L = rcount (lck s)" "wcount L = wcount (lck s)" "reserved L = reserved (lck s)"
    and "tpc (thr s t) \<in> {None, Some WrLock, Some TimedWrLock}"
  shows "live (apply_section t u (wr_loop c L n) s)"
proof (cases "wr_blocked L")
  case True
  have "free_lock (lck s) \<Longrightarrow> reserved (lck s) \<Longrightarrow> wwait (lck s) > 0"
    using free_reserved [OF assms(2)] by blast
  with True assms have "live (apply_section t u (L\<lparr>wwait := wwait L + 1\<rparr>, n, NoWake, Waits c) s)"
    by (intro live_wait) (auto simp: wr_blocked_def free_lock_def plocks_num_waiters_def)
  with True show ?thesis by (simp add: wr_loop_def)
next
  case False
  with assms have "live (apply_section t u (L\<lparr>wcount := wcount L + 1\<rparr>, (0, 1), NoWake, Returned 0) s)"
    by (intro live_acquire) (auto simp: free_lock_def)
  with False show ?thesis by (simp add: wr_loop_def)
qed

lemma live_rs_loop:
  assumes "live s" "lock_inv s" "rcount L = rcount (lck s)" "wcount L = wcount (lck s)" "reserved L = reserved (lck s)"
    "rwait L = rwait (lck s)"
    and "tpc (thr s t) \<in> {None, Some RsLock}"
  shows "live (apply_section t u (rs_loop L n) s)"
proof (cases "wcount L > 0 \<or> reserved L")
  case True
  have "free_lock (lck s) \<Longrightarrow> reserved (lck s) \<Longrightarrow> wwait (lck s) > 0"
    using free_reserved [OF assms(2)] by blast
  with True assms have "live (apply_section t u (L\<lparr>wwait := wwait L + 1\<rparr>, n, NoWake, Waits RsLock) s)"
    by (intro live_wait) (auto simp: free_lock_def plocks_num_waiters_def)
  with True show ?thesis by (simp add: rs_loop_def)
next
  case False
  have "\<forall>v. \<not> rd_waiting (thr s v)" if "rwait L = 0"
    using that lock_inv_waiters(1) [OF assms(2)] assms(6) by auto
  with False assms have "live (apply_section t u (L\<lparr>rcount := rcount L + 1, reserved := True\<rparr>,
      (1, PSYNC_WR_RESERVED), if rwait L > 0 then BroadcastR else NoWake, Returned 0) s)"
    by (intro live_acquire) (auto simp: free_lock_def)
  with False show ?thesis by (simp add: rs_loop_def)
qed

lemma live_towr_loop:
  assumes "live s" "lock_inv s" "wcount L = 0"
  shows "live (apply_section t u (towr_loop L n) s)"
proof (cases "rcount L > 0")
  case True
  with assms have "live (apply_section t u (L\<lparr>wwait := wwait L + 1\<rparr>, n, NoWake, Waits ToWrLock) s)"
    by (intro live_wait) (auto simp: free_lock_def)
  with True show ?thesis by (simp add: towr_loop_def)
next
  case False
  with assms have "live (apply_section t u (L\<lparr>wcount := wcount L + 1, reserved := False\<rparr>, (0, fst n), NoWake, Returned 0) s)"
    by (intro live_acquire) (auto simp: free_lock_def)
  with False assms(3) show ?thesis by (simp add: towr_loop_def)
qed

text \<open>Unlocking, from the recursion check on.\<close>

lemma live_release_section:
  assumes "live s" "lock_inv s" "tpc (thr s t) = None" "\<not> asserts (release (lck s) n)"
    and "lock_inv (apply_section t u (release (lck s) n) s)" "pick_ok_section t u (release (lck s) n) s"
  shows "live (apply_section t u (release (lck s) n) s)"
proof (cases "rcount (lck s) > 0")
  case True
  then have w0: "wcount (lck s) = 0" using lock_inv_waiters(6) [OF assms(2)] by auto
  define out where "out L' n' =
     (L', n', if rcount L' = 0 \<and> wwait L' > 0 then (if reserved L' then BroadcastW else SignalW) else NoWake, Returned 0)"
    for L' :: rwlock and n' :: lockcnt
  let ?mine = "reserved (lck s) \<and> snd n = PSYNC_WR_RESERVED"
  let ?L = "if ?mine then lck s\<lparr>reserved := False, rcount := rcount (lck s) - 1\<rparr>
    else lck s\<lparr>rcount := rcount (lck s) - 1\<rparr>"
  have "release (lck s) n = out ?L (if ?mine then (fst n, 0) else n)"
    using True w0
    by (auto simp: release_def psync_rwlock_is_reserved_by_this_thread_clr_def Let_def out_def)
  then obtain n' L' where r: "release (lck s) n = (L', n',
      if rcount L' = 0 \<and> wwait L' > 0 then (if reserved L' then BroadcastW else SignalW) else NoWake, Returned 0)"
    "rcount L' = rcount (lck s) - 1" "wcount L' = 0" "wwait L' = wwait (lck s)"
    using w0 that [of ?L "if ?mine then (fst n, 0) else n"] unfolding out_def by simp
  consider (held) "rcount L' > 0" | (none) "rcount L' = 0" "wwait L' = 0" | (wake) "rcount L' = 0" "wwait L' > 0"
    by auto
  then show ?thesis
  proof cases
    case held
    then show ?thesis unfolding r(1)
      by (intro live_acquire [OF assms(1)]) (use r w0 in \<open>auto simp: free_lock_def\<close>)
  next
    case none
    then have e: "release (lck s) n = (L', n', NoWake, Returned 0)" using r(1) by simp
    show ?thesis unfolding e
      by (rule live_release_none [OF assms(5) [unfolded e] assms(1,3)]) (use r(3,4) w0 none in simp_all)
  next
    case wake
    show ?thesis unfolding r(1)
      by (rule live_release [OF assms(5) [unfolded r(1)] assms(6) [unfolded r(1)]])
        (use r(3) wake in \<open>simp_all add: free_lock_def split: if_splits\<close>)
  qed
next
  case False
  with assms(4) have w1: "wcount (lck s) = 1"
    using lock_inv_waiters(7) [OF assms(2)] by (auto simp: release_def asserts_def split: if_splits)
  then have nr: "\<not> reserved (lck s)" using lock_inv_waiters(6) [OF assms(2)] by auto
  let ?L = "lck s\<lparr>wcount := 0\<rparr>"
  let ?w = "if prefer_read (lck s)
      then (if rwait (lck s) > 0 then BroadcastR else if wwait (lck s) > 0 then SignalW else NoWake)
      else (if wwait (lck s) > 0 then SignalW else if rwait (lck s) > 0 then BroadcastR else NoWake)"
  have r: "release (lck s) n = (?L, n, ?w, Returned 0)"
    using False w1 nr by (simp add: release_def Let_def)
  show ?thesis unfolding r
    by (rule live_release [OF assms(5) [unfolded r] assms(6) [unfolded r]])
      (use False nr in \<open>simp_all add: free_lock_def split: if_splits\<close>)
qed

lemma live_unlock:
  assumes "live s" "lock_inv s" "tpc (thr s t) = None" "\<not> asserts (plocks_unlock (lck s) n)"
    and "lock_inv (apply_section t u (plocks_unlock (lck s) n) s)" "pick_ok_section t u (plocks_unlock (lck s) n) s"
  shows "live (apply_section t u (plocks_unlock (lck s) n) s)"
proof (cases "psync_rwlock_check_recursive_out n")
  case None
  with assms(4) show ?thesis by (simp add: plocks_unlock_def asserts_def)
next
  case (Some p)
  obtain n' held where p: "p = (n', held)" by (cases p)
  show ?thesis
  proof (cases held)
    case True
    with Some p live_quiet [OF assms(1,3)] show ?thesis by (simp add: plocks_unlock_def)
  next
    case False
    with Some p have "plocks_unlock (lck s) n = release (lck s) n'" by (simp add: plocks_unlock_def)
    with live_release_section [OF assms(1-3), of n'] assms(4-6) show ?thesis by simp
  qed
qed

lemma live_start:
  assumes "live s" "lock_inv s" "tpc (thr s t) = None" "\<not> asserts (start c (lck s) n)"
    and "lock_inv (apply_section t u (start c (lck s) n) s)" "pick_ok_section t u (start c (lck s) n) s"
  shows "live (apply_section t u (start c (lck s) n) s)"
proof (cases "c = Unlock")
  case True
  with live_unlock [OF assms(1-3)] assms(4-6) show ?thesis by simp
next
  case False
  note q = live_quiet [OF assms(1,3)]
  have rdl: "live (apply_section t u (rd_loop c (lck s) n) s)" for c n
    using live_rd_loop [OF assms(1,2)] assms(3) by simp
  have try1: "live (apply_section t u (lck s\<lparr>rcount := rcount (lck s) + 1\<rparr>, m, NoWake, Returned 0) s)"
    if "\<not> rd_blocked (lck s)" for m
    by (intro live_acquire [OF assms(1)]) (use that in \<open>auto simp: free_lock_def rd_blocked_def\<close>)
  have try2: "live (apply_section t u (lck s\<lparr>wcount := wcount (lck s) + 1\<rparr>, m, NoWake, Returned 0) s)" for m
    by (intro live_acquire [OF assms(1)]) (auto simp: free_lock_def)
  have wrl: "live (apply_section t u (wr_loop c (lck s) n) s)" for c n
    using live_wr_loop [OF assms(1,2)] assms(3) by simp
  have rsl: "live (apply_section t u (rs_loop (lck s) n) s)" for n
    using live_rs_loop [OF assms(1,2)] assms(3) by simp
  have svl: "live (apply_section t u (starve_loop (lck s) n) s)" for n
    using live_starve_loop [OF assms(1,2)] by simp
  have tow: "live (apply_section t u (towr_loop (lck s\<lparr>reserved := True, rcount := rcount (lck s) - 1\<rparr>) n) s)"
    if "wcount (lck s) = 0" for n
    using live_towr_loop [OF assms(1,2)] that by simp
  show ?thesis
    using False assms(4) q rdl try1 try2 wrl rsl svl tow
    by (cases c)
      (auto simp: plocks_rdlock_def plocks_tryrdlock_def plocks_timedrdlock_def plocks_rdlock_starvewr_def
        plocks_wrlock_def plocks_trywrlock_def plocks_timedwrlock_def plocks_rslock_def plocks_towrlock_def
        asserts_def split: recursion.splits if_splits)
qed

lemma live_resume:
  assumes "live s" "lock_inv s" "tpc (thr s t) = Some c"
  shows "live (apply_section t u (resume c (lck s) n) s)"
proof -
  have w: "c = ToWrLock \<Longrightarrow> wcount (lck s) = 0"
  proof (rule ccontr)
    assume "c = ToWrLock" "wcount (lck s) \<noteq> 0"
    then show False
      using lock_inv_waiters(4,6) [OF assms(2)] assms(3) by (auto simp: in_res_def)
  qed
  have "c \<in> {RdLock, TimedRdLock, RdLockStarve, WrLock, TimedWrLock, RsLock, ToWrLock}"
    using lock_inv_thread [OF assms(2), of t] assms(3) by (auto simp: thread_ok_def rd_waiting_def wr_waiting_def)
  then show ?thesis
    using assms(3) w live_rd_loop [OF assms(1,2)] live_starve_loop [OF assms(1,2)] live_wr_loop [OF assms(1,2)]
      live_rs_loop [OF assms(1,2)] live_towr_loop [OF assms(1,2)]
    by (elim insertE) simp_all
qed

text \<open>A thread that upgrades and finds the lock free has been signalled.\<close>

definition upgrader_woken :: "'t sys \<Rightarrow> bool" where
  "upgrader_woken s \<longleftrightarrow> (free_lock (lck s) \<and> reserved (lck s) \<longrightarrow> (\<forall>t. tpc (thr s t) = Some ToWrLock \<longrightarrow> t \<in> woken s))"

text \<open>A section that leaves the lock free and reserved found it so or wakes the writers.\<close>

definition keeps_upgrader :: "rwlock \<Rightarrow> section_result \<Rightarrow> bool" where
  "keeps_upgrader L0 res \<longleftrightarrow> (case res of (L, n, w, oc) \<Rightarrow> free_lock L \<and> reserved L \<longrightarrow>
     (free_lock L0 \<and> reserved L0 \<or> w = BroadcastW \<or> wwait L0 = 0) \<and> oc \<noteq> Waits ToWrLock)"

lemma upgrader_section:
  assumes "upgrader_woken s" "lock_inv s" "keeps_upgrader (lck s) res"
  shows "upgrader_woken (apply_section t u res s)"
proof -
  obtain L n w oc where r: "res = (L, n, w, oc)" by (cases res)
  have x: "x \<in> woken (apply_section t u res s)"
    if "free_lock L" "reserved L" "tpc (thr (apply_section t u res s) x) = Some ToWrLock" for x
  proof -
    have k: "free_lock (lck s) \<and> reserved (lck s) \<or> w = BroadcastW \<or> wwait (lck s) = 0" "oc \<noteq> Waits ToWrLock"
      using assms(3) that(1,2) unfolding keeps_upgrader_def r by auto
    have t: "x \<noteq> t" "tpc (thr s x) = Some ToWrLock"
      using that(3) k(2) unfolding r by (cases "x = t"; cases oc; simp)+
    then have "wr_waiting (thr s x)" by (simp add: wr_waiting_def)
    then have "wwait (lck s) > 0" using lock_inv_waiters(2) [OF assms(2)] by blast
    with k(1) consider "free_lock (lck s)" "reserved (lck s)" | "w = BroadcastW" by auto
    then show ?thesis
    proof cases
      case 1
      then have "x \<in> woken s" using assms(1) t(2) by (simp add: upgrader_woken_def)
      then show ?thesis unfolding r using t(1) by (auto intro: deliver_mono)
    next
      case 2
      then show ?thesis unfolding r using t by (simp add: wr_waiting_def)
    qed
  qed
  have "lck (apply_section t u res s) = L" unfolding r by simp
  then show ?thesis unfolding upgrader_woken_def using x by metis
qed

lemmas keeps_simps = keeps_upgrader_def free_lock_def rd_loop_def starve_loop_def wr_loop_def rs_loop_def towr_loop_def
  plocks_rdlock_def plocks_tryrdlock_def plocks_timedrdlock_def plocks_rdlock_starvewr_def plocks_wrlock_def
  plocks_trywrlock_def plocks_timedwrlock_def plocks_rslock_def plocks_towrlock_def

lemma keeps_release: "\<not> asserts (release L n) \<Longrightarrow> keeps_upgrader L (release L n)"
  by (auto simp: release_def Let_def asserts_def psync_rwlock_is_reserved_by_this_thread_clr_def keeps_upgrader_def free_lock_def)

lemma keeps_start: "\<not> asserts (start c L n) \<Longrightarrow> keeps_upgrader L (start c L n)"
proof (cases "c = Unlock")
  case True
  assume a: "\<not> asserts (start c L n)"
  show ?thesis
  proof (cases "\<exists>m. psync_rwlock_check_recursive_out n = Some (m, False)")
    case True
    then obtain m where "start c L n = release L m" using \<open>c = Unlock\<close> by (auto simp: plocks_unlock_def)
    with a keeps_release show ?thesis by simp
  next
    case False
    then show ?thesis using \<open>c = Unlock\<close> by (auto simp: plocks_unlock_def keeps_upgrader_def split: option.splits)
  qed
next
  case False
  then show ?thesis by (cases c) (auto simp: keeps_simps split: recursion.splits)
qed

lemma keeps_resume: "keeps_upgrader L (resume c L n)"
  by (cases c) (auto simp: keeps_simps)

lemma keeps_timeout: "keeps_upgrader L (timeout c L n)"
  by (cases c) (auto simp: keeps_simps Let_def)

lemma upgrader_step:
  assumes "lock_inv s" "upgrader_woken s" "lock_step s s'"
  shows "upgrader_woken s'"
  using assms(3)
proof (cases rule: lock_step.cases)
  case (call t res c u)
  with upgrader_section [OF assms(2,1)] keeps_start show ?thesis by blast
next
  case (wakeup t c res u)
  with upgrader_section [OF assms(2,1)] keeps_resume show ?thesis by blast
next
  case (timed_out t c res u)
  with upgrader_section [OF assms(2,1)] keeps_timeout show ?thesis by blast
qed

text \<open>
  A timed-out wait takes the signal with it: the thread that gives up was the signalled writer, the lock is free,
  nobody upgrades, and other writers stay asleep.
\<close>

definition signal_lost :: "'t sys \<Rightarrow> 't sys \<Rightarrow> bool" where
  "signal_lost s s' \<longleftrightarrow> free_lock (lck s) \<and> \<not> reserved (lck s) \<and> wwait (lck s') > 0 \<and>
     (\<exists>t \<in> woken s. tpc (thr s t) = Some TimedWrLock \<and> tpc (thr s' t) = None \<and> \<not> plocks_holding_lock (tcnt (thr s' t)))"

lemma other_ready:
  assumes "live s" "lock_inv s" "upgrader_woken s" "free_lock (lck s)" "plocks_num_waiters (lck s) > 0"
    and "tpc (thr s t) = Some c" "c \<in> {TimedRdLock, TimedWrLock}"
    and "t \<notin> woken s \<or> reserved (lck s) \<or> c = TimedRdLock \<and> wwait (lck s) > 0"
  shows "\<exists>x. x \<noteq> t \<and> ready s x"
proof (cases "reserved (lck s)")
  case True
  obtain x where x: "tpc (thr s x) = Some ToWrLock" by (rule free_reserved [OF assms(2,4) True])
  then have "x \<in> woken s" using assms(3,4) True by (simp add: upgrader_woken_def)
  then have "ready s x" using x assms(4) by (simp add: ready_def free_lock_def)
  moreover have "x \<noteq> t" using x assms(6,7) by auto
  ultimately show ?thesis by blast
next
  case False
  obtain x where x: "ready s x" using liveD(1) [OF assms(1,4,5)] by blast
  have "\<not> ready s t" using assms(6,8) False by (auto simp: ready_def rd_blocked_def)
  with x have "x \<noteq> t" by metis
  with x show ?thesis by blast
qed

lemma live_timed_out:
  assumes "live s" "lock_inv s" "upgrader_woken s" "tpc (thr s t) = Some c" "c \<in> {TimedRdLock, TimedWrLock}"
    and "n = tcnt (thr s t)"
    and "lock_inv (apply_section t u (timeout c (lck s) n) s)"
    and "\<not> signal_lost s (apply_section t u (timeout c (lck s) n) s)"
  shows "live (apply_section t u (timeout c (lck s) n) s)"
proof (cases "c = TimedRdLock")
  case True
  let ?L = "lck s\<lparr>rwait := rwait (lck s) - 1\<rparr>"
  let ?s = "apply_section t u (?L, n, NoWake, Returned (- 1)) s"
  have e: "timeout c (lck s) n = (?L, n, NoWake, Returned (- 1))" using True by simp
  have inv: "lock_inv ?s" using assms(7) unfolding e .
  have "(\<exists>x. x \<noteq> t \<and> ready s x) \<or> (\<exists>x. ready ?s x)" if f: "free_lock ?L" "plocks_num_waiters ?L > 0"
  proof (cases "t \<notin> woken s \<or> reserved (lck s) \<or> wwait (lck s) > 0")
    case True
    have "free_lock (lck s)" "plocks_num_waiters (lck s) > 0" using f by (auto simp: free_lock_def plocks_num_waiters_def)
    from other_ready [OF assms(1-3) this assms(4,5)] True \<open>c = TimedRdLock\<close> show ?thesis by blast
  next
    case False
    then have "rwait (lck ?s) > 0" using f(2) by (simp add: plocks_num_waiters_def)
    then obtain x where x: "rd_waiting (thr ?s x)" using lock_inv_waiters(1) [OF inv] by blast
    then have t: "x \<noteq> t" "rd_waiting (thr s x)" by (cases "x = t"; simp add: rd_waiting_def)+
    have w: "wcount (lck s) = 0" "wwait (lck s) = 0" using f(1) False by (auto simp: free_lock_def)
    have "x \<in> woken s" using liveD(2) [OF assms(1) w t(2)] .
    then have "ready s x" using rd_ready [OF t(2)] w by blast
    with t(1) show ?thesis by blast
  qed
  from live_timeout [OF inv assms(1) this] show ?thesis unfolding e by (simp add: plocks_num_waiters_def)
next
  case False
  then have c: "c = TimedWrLock" using assms(5) by simp
  let ?L = "lck s\<lparr>wwait := wwait (lck s) - 1\<rparr>"
  let ?w = "if wwait (lck s) - 1 = 0 \<and> wcount (lck s) = 0 \<and> rwait (lck s) > 0 then BroadcastR else NoWake"
  let ?s = "apply_section t u (?L, n, ?w, Returned (- 1)) s"
  have e: "timeout c (lck s) n = (?L, n, ?w, Returned (- 1))" using c by (simp add: Let_def)
  have inv: "lock_inv ?s" using assms(7) unfolding e .
  have "(\<exists>x. x \<noteq> t \<and> ready s x) \<or> (\<exists>x. ready ?s x)" if f: "free_lock ?L" "plocks_num_waiters ?L > 0"
  proof (cases "t \<notin> woken s \<or> reserved (lck s)")
    case True
    have "free_lock (lck s)" "plocks_num_waiters (lck s) > 0" using f by (auto simp: free_lock_def plocks_num_waiters_def)
    from other_ready [OF assms(1-3) this assms(4,5)] True show ?thesis by blast
  next
    case False
    have z: "n = (0, 0)" using lock_inv_thread [OF assms(2), of t] assms(4,6) c by (auto simp: thread_ok_def)
    have fl: "free_lock (lck s)" using f(1) by (simp add: free_lock_def)
    have "\<not> wwait (lck ?s) > 0"
    proof
      assume "wwait (lck ?s) > 0"
      moreover have "tpc (thr ?s t) = None \<and> \<not> plocks_holding_lock (tcnt (thr ?s t))" by (simp add: z plocks_holding_lock_def)
      ultimately have "signal_lost s ?s" unfolding signal_lost_def using fl False assms(4) c by blast
      then show False using assms(8) unfolding e by simp
    qed
    then have w: "wwait ?L = 0" by simp
    then have "rwait (lck ?s) > 0" using f(2) by (simp add: plocks_num_waiters_def)
    then obtain x where x: "rd_waiting (thr ?s x)" using lock_inv_waiters(1) [OF inv] by blast
    have "?w = BroadcastR" using w f fl by (simp add: plocks_num_waiters_def free_lock_def)
    then have "x \<in> woken ?s" using x by simp
    then have "ready ?s x" using rd_ready [OF x] w fl by (simp add: free_lock_def)
    then show ?thesis by blast
  qed
  from live_timeout [OF inv assms(1) this] show ?thesis unfolding e by (auto simp: plocks_num_waiters_def)
qed

lemma live_init: "lock_init s \<Longrightarrow> live s" "lock_init s \<Longrightarrow> upgrader_woken s"
  by (auto simp: lock_init_def live_def plocks_init_def plocks_num_waiters_def rd_waiting_def upgrader_woken_def)

lemma live_step:
  assumes "lock_inv s" "lock_inv s'" "live s" "upgrader_woken s" "lock_step s s'" "\<not> signal_lost s s'"
  shows "live s'"
  using assms(5)
proof (cases rule: lock_step.cases)
  case (call t res c u)
  with live_start [OF assms(3,1) call(2), of c "tcnt (thr s t)" u] assms(2) show ?thesis by simp
next
  case (wakeup t c res u)
  with live_resume [OF assms(3,1) wakeup(2)] show ?thesis by simp
next
  case (timed_out t c res u)
  with live_timed_out [OF assms(3,1,4) timed_out(2,3) refl, of u] assms(2,6) show ?thesis by simp
qed

text \<open>Runs in which no time-out takes a signal with it.\<close>

definition lock_step_kept :: "'t sys \<Rightarrow> 't sys \<Rightarrow> bool" where
  "lock_step_kept s s' \<longleftrightarrow> lock_step s s' \<and> \<not> signal_lost s s'"

lemma reached_kept: "reaches lock_init lock_step_kept s \<Longrightarrow> reaches lock_init lock_step s"
  by (induction rule: reaches.induct) (auto simp: lock_step_kept_def intro: reaches.intros)

lemma reached_live:
  fixes s :: "('t::finite) sys"
  assumes "reaches lock_init lock_step_kept s"
  shows "live s"
proof -
  have "lock_inv s \<and> live s \<and> upgrader_woken s" using assms
  proof (induction rule: reaches.induct)
    case (reaches_init s)
    then show ?case using lock_inv_init live_init by blast
  next
    case (reaches_step s s')
    then have st: "lock_step s s'" "\<not> signal_lost s s'" by (simp_all add: lock_step_kept_def)
    then have "lock_inv s'" using reaches_step(3) lock_inv_step by blast
    then show ?case using live_step upgrader_step st reaches_step(3) by blast
  qed
  then show ?thesis by blast
qed

text \<open>A ready thread gets the lock when it runs.\<close>

lemma ready_acquires:
  assumes "lock_inv s" "ready s t"
  shows "\<exists>c L n w. tpc (thr s t) = Some c \<and> resume c (lck s) (tcnt (thr s t)) = (L, n, w, Returned 0) \<and>
    plocks_holding_lock n"
proof -
  from assms(2) obtain c where c: "tpc (thr s t) = Some c" "can_proceed c (lck s)" by (auto simp: ready_def)
  have th: "thread_ok (thr s t)" by (rule lock_inv_thread [OF assms(1)])
  have up: "wcount (lck s) = 0 \<and> fst (tcnt (thr s t)) \<noteq> 0" if "c = ToWrLock"
  proof -
    have "in_res (thr s t)" using c(1) that by (simp add: in_res_def)
    then have "reserved (lck s)" using lock_inv_waiters(4) [OF assms(1)] by blast
    then show ?thesis using lock_inv_waiters(6) [OF assms(1)] th c(1) that by (auto simp: thread_ok_def)
  qed
  have "c \<in> {RdLock, TimedRdLock, RdLockStarve, WrLock, TimedWrLock, RsLock, ToWrLock}"
    using th c(1) by (auto simp: thread_ok_def rd_waiting_def wr_waiting_def)
  then show ?thesis
    using c up
    by (elim insertE)
      (simp_all add: rd_loop_def starve_loop_def wr_loop_def rs_loop_def towr_loop_def rd_blocked_def wr_blocked_def
        plocks_holding_lock_def)
qed

subsection \<open>Properties\<close>

text \<open>
  C1. Mutual exclusion: in every reachable state, while a thread holds the write lock no other thread
  holds the lock in any way, and at most one thread has the reservation.
\<close>

theorem lock_mutual_exclusion:
  fixes s :: "('t::finite) sys"
  assumes "reaches lock_init lock_step s" "t \<noteq> u"
  shows "(plocks_holding_wrlock (tcnt (thr s t)) \<longrightarrow> \<not> plocks_holding_lock (tcnt (thr s u))) \<and>
    (snd (tcnt (thr s t)) = PSYNC_WR_RESERVED \<longrightarrow> snd (tcnt (thr s u)) \<noteq> PSYNC_WR_RESERVED)"
proof (intro conjI impI)
  note inv = reached_inv [OF assms(1)]
  show "\<not> plocks_holding_lock (tcnt (thr s u))" if "plocks_holding_wrlock (tcnt (thr s t))"
    using writer_excludes [OF inv, of t u] that assms(2) by (simp add: in_write_def plocks_holding_lock_def)
  show "snd (tcnt (thr s u)) \<noteq> PSYNC_WR_RESERVED" if "snd (tcnt (thr s t)) = PSYNC_WR_RESERVED"
  proof
    assume "snd (tcnt (thr s u)) = PSYNC_WR_RESERVED"
    moreover have "count_of in_res (thr s) \<le> 1"
      using inv by (simp add: lock_inv_def counts_ok_def lock_ok_def)
    ultimately show False
      using count_le1_unique [of in_res "thr s" t u] that assms(2) by (simp add: in_res_def)
  qed
qed

text \<open>Small runs of the system, for two threads and for three.\<close>

definition idle_sys :: "'t sys" where
  "idle_sys = \<lparr>lck = plocks_init, thr = (\<lambda>t. \<lparr>tcnt = (0, 0), tpc = None\<rparr>), woken = {}\<rparr>"

definition run_call :: "'t \<Rightarrow> call \<Rightarrow> 't sys \<Rightarrow> 't sys" where
  "run_call t c s = apply_section t t (start c (lck s) (tcnt (thr s t))) s"

lemma reaches_idle: "reaches lock_init lock_step idle_sys"
  by (rule reaches_init) (simp add: lock_init_def idle_sys_def)

lemma reaches_run_call:
  assumes "reaches lock_init lock_step s" "tpc (thr s t) = None" "nestable (tcnt (thr s t))"
    "\<not> asserts (start c (lck s) (tcnt (thr s t)))" "fst (snd (snd (start c (lck s) (tcnt (thr s t))))) \<noteq> SignalW"
  shows "reaches lock_init lock_step (run_call t c s)"
  unfolding run_call_def
  by (rule reaches_step [OF assms(1)], rule lock_step.call [OF assms(2,3) refl assms(4)])
    (use assms(5) in \<open>auto simp: pick_ok_section_def pick_ok_def split: prod.splits\<close>)

lemmas run_simps = run_call_def idle_sys_def plocks_init_def nestable_def asserts_def PSYNC_WR_RESERVED_def
  plocks_rdlock_def plocks_rslock_def plocks_wrlock_def plocks_unlock_def rd_loop_def rs_loop_def wr_loop_def
  rd_blocked_def wr_blocked_def psync_rwlock_check_rdrecursive_in_def psync_rwlock_check_wrrecursive_in_def
  psync_rwlock_check_recursive_out_def release_def psync_rwlock_is_reserved_by_this_thread_clr_def

theorem lock_mutual_exclusion_witness:
  "\<not> plocks_holding_lock (tcnt (thr (run_call False RdLock (run_call True WrLock idle_sys)) False))"
proof -
  have r1: "reaches lock_init lock_step (run_call True WrLock idle_sys)"
    by (rule reaches_run_call [OF reaches_idle]) (simp_all add: run_simps)
  have r: "reaches lock_init lock_step (run_call False RdLock (run_call True WrLock idle_sys))"
    by (rule reaches_run_call [OF r1]) (simp_all add: run_simps)
  show ?thesis
    by (rule lock_mutual_exclusion [OF r, of True, THEN conjunct1, rule_format])
      (simp_all add: run_simps plocks_holding_wrlock_def)
qed

text \<open>
  C2. No lost wake-up: as long as no timed-out writer takes a signal with it, whenever the lock is free although
  threads wait for it, one of them has been signalled and will return with the lock as soon as it runs.
\<close>

theorem lock_no_lost_wakeup:
  fixes s :: "('t::finite) sys"
  assumes "reaches lock_init lock_step_kept s" "rcount (lck s) = 0" "wcount (lck s) = 0" "tpc (thr s t) \<noteq> None"
  shows "\<exists>u \<in> woken s. \<exists>c L n w. tpc (thr s u) = Some c \<and>
    resume c (lck s) (tcnt (thr s u)) = (L, n, w, Returned 0) \<and> plocks_holding_lock n"
proof -
  note inv = reached_inv [OF reached_kept [OF assms(1)]]
  have "rd_waiting (thr s t) \<or> wr_waiting (thr s t)"
    using lock_inv_thread [OF inv, of t] assms(4) by (auto simp: thread_ok_def wr_waiting_def)
  then have "plocks_num_waiters (lck s) > 0"
    using lock_inv_waiters(1,2) [OF inv] unfolding plocks_num_waiters_def by (meson add_gr_0)
  then obtain u where u: "ready s u"
    using liveD(1) [OF reached_live [OF assms(1)]] assms(2,3) by (auto simp: free_lock_def)
  then have "u \<in> woken s" by (simp add: ready_def)
  with ready_acquires [OF inv u] show ?thesis by blast
qed

text \<open>The run of three threads: one holds the lock, one waits in \<open>plocks_timedwrlock\<close>, one in \<open>plocks_wrlock\<close>.\<close>

definition handed :: "bool option sys" where
  "handed = (let s = run_call (Some False) WrLock (run_call (Some True) TimedWrLock (run_call None WrLock idle_sys))
     in apply_section None (Some True) (start Unlock (lck s) (tcnt (thr s None))) s)"

lemma kept_call:
  assumes "reaches lock_init lock_step_kept s" "tpc (thr s t) = None" "nestable (tcnt (thr s t))"
    "\<not> asserts (start c (lck s) (tcnt (thr s t)))" "pick_ok_section t u (start c (lck s) (tcnt (thr s t))) s" "woken s = {}"
  shows "reaches lock_init lock_step_kept (apply_section t u (start c (lck s) (tcnt (thr s t))) s)"
proof (rule reaches_step [OF assms(1)])
  have "lock_step s (apply_section t u (start c (lck s) (tcnt (thr s t))) s)"
    by (rule lock_step.call [OF assms(2,3) refl assms(4,5)])
  then show "lock_step_kept s (apply_section t u (start c (lck s) (tcnt (thr s t))) s)"
    using assms(6) by (simp add: lock_step_kept_def signal_lost_def)
qed

lemma handed_reached: "reaches lock_init lock_step_kept handed"
proof -
  have 0: "reaches lock_init lock_step_kept idle_sys" by (rule reaches_init) (simp add: lock_init_def idle_sys_def)
  have 1: "reaches lock_init lock_step_kept (run_call (None :: bool option) WrLock idle_sys)"
    unfolding run_call_def by (rule kept_call [OF 0]) (simp_all add: run_simps pick_ok_section_def pick_ok_def)
  have 2: "reaches lock_init lock_step_kept (run_call (Some True) TimedWrLock (run_call (None :: bool option) WrLock idle_sys))"
    unfolding run_call_def [of "Some True"] by (rule kept_call [OF 1]) (simp_all add: run_simps plocks_timedwrlock_def pick_ok_section_def pick_ok_def)
  have 3: "reaches lock_init lock_step_kept
      (run_call (Some False) WrLock (run_call (Some True) TimedWrLock (run_call (None :: bool option) WrLock idle_sys)))"
    unfolding run_call_def [of "Some False"] by (rule kept_call [OF 2]) (simp_all add: run_simps plocks_timedwrlock_def pick_ok_section_def pick_ok_def)
  show ?thesis
    unfolding handed_def Let_def
    by (rule kept_call [OF 3]) (simp_all add: run_simps plocks_timedwrlock_def pick_ok_section_def pick_ok_def sleeping_writers_def
        wr_waiting_def next_thread_def)
qed

lemma handed_state:
  "lck handed = plocks_init\<lparr>wwait := 2\<rparr>" "woken handed = {Some True}" "tpc (thr handed (Some True)) = Some TimedWrLock"
  "tcnt (thr handed (Some True)) = (0, 0)" "tpc (thr handed (Some False)) = Some WrLock"
  by (auto simp: handed_def Let_def run_simps plocks_timedwrlock_def sleeping_writers_def wr_waiting_def)

theorem lock_no_lost_wakeup_witness:
  "\<exists>u \<in> woken handed. \<exists>c L n w. tpc (thr handed u) = Some c \<and>
     resume c (lck handed) (tcnt (thr handed u)) = (L, n, w, Returned 0) \<and> plocks_holding_lock n"
  by (rule lock_no_lost_wakeup [OF handed_reached, of "Some False"]) (simp_all add: handed_state plocks_init_def)

text \<open>
  A writer that times out although it has been signalled takes the signal with it: it gives up without passing the
  signal on, so that another writer stays asleep, not signalled, while the lock is free.
\<close>

theorem timed_writer_loses_wakeup:
  "\<exists>(s :: bool option sys) t. reaches lock_init lock_step s \<and> tpc (thr s t) = Some WrLock \<and> rcount (lck s) = 0 \<and>
     wcount (lck s) = 0 \<and> \<not> reserved (lck s) \<and> woken s = {}"
proof -
  let ?s = "apply_section (Some True) None (timeout TimedWrLock (lck handed) (tcnt (thr handed (Some True)))) handed"
  have "reaches lock_init lock_step ?s"
    by (rule reaches_step [OF reached_kept [OF handed_reached]], rule lock_step.timed_out [OF handed_state(3) _ refl])
      (simp_all add: handed_state pick_ok_section_def pick_ok_def plocks_init_def)
  moreover have "tpc (thr ?s (Some False)) = Some WrLock" "woken ?s = {}"
    "rcount (lck ?s) = 0 \<and> wcount (lck ?s) = 0 \<and> \<not> reserved (lck ?s)"
    by (simp_all add: handed_state plocks_init_def)
  ultimately show ?thesis by blast
qed

text \<open>
  The assertions of the lock catch exactly the documented misuse (write-locking or reserving under a
  read lock, upgrading or unlocking without a lock); no other assertion can fail, at the start of a
  call or after a wait, and in particular the counters never contradict each other.
\<close>

theorem lock_assertions_exact:
  fixes s :: "('t::finite) sys"
  assumes "reaches lock_init lock_step s"
  shows "(tpc (thr s t) = None \<and> nestable (tcnt (thr s t)) \<longrightarrow>
      asserts (start c (lck s) (tcnt (thr s t))) = misuse c (tcnt (thr s t))) \<and>
    (tpc (thr s t) = Some c \<longrightarrow> \<not> asserts (resume c (lck s) (tcnt (thr s t))))"
  using lock_inv_asserts_iff [OF reached_inv [OF assms]]
    thread_sections_ok(2) [OF lock_inv_share [OF reached_inv [OF assms]]] by blast+

theorem lock_assertions_exact_witness:
  "asserts (start RsLock (lck (run_call True RdLock idle_sys)) (tcnt (thr (run_call True RdLock idle_sys) True)))"
proof -
  have r: "reaches lock_init lock_step (run_call True RdLock idle_sys)"
    by (rule reaches_run_call [OF reaches_idle]) (simp_all add: run_simps)
  show ?thesis
    by (subst lock_assertions_exact [OF r, THEN conjunct1, rule_format]) (simp_all add: run_simps)
qed

text \<open>
  A reservation that ends while other readers remain does not wake the threads that wait for
  it: a thread can be asleep in \<open>plocks_rslock\<close> although its loop condition is false.
\<close>

theorem reserved_release_leaves_waiter_asleep:
  "\<exists>s :: bool option sys. \<exists>t. reaches lock_init lock_step s \<and> tpc (thr s t) = Some RsLock \<and> t \<notin> woken s \<and>
     wcount (lck s) = 0 \<and> \<not> reserved (lck s)"
proof -
  let ?A = "None :: bool option" and ?B = "Some True" and ?C = "Some False"
  let ?s1 = "run_call ?A RsLock idle_sys"
  let ?s2 = "run_call ?B RdLock ?s1"
  let ?s3 = "run_call ?C RsLock ?s2"
  let ?s4 = "run_call ?A Unlock ?s3"
  have 1: "reaches lock_init lock_step ?s1"
    by (rule reaches_run_call [OF reaches_idle]) (simp_all add: run_simps)
  have 2: "reaches lock_init lock_step ?s2"
    by (rule reaches_run_call [OF 1]) (simp_all add: run_simps)
  have 3: "reaches lock_init lock_step ?s3"
    by (rule reaches_run_call [OF 2]) (simp_all add: run_simps)
  have 4: "reaches lock_init lock_step ?s4"
    by (rule reaches_run_call [OF 3]) (simp_all add: run_simps)
  have "tpc (thr ?s4 ?C) = Some RsLock \<and> ?C \<notin> woken ?s4 \<and> wcount (lck ?s4) = 0 \<and> \<not> reserved (lck ?s4)"
    by (simp add: run_simps)
  with 4 show ?thesis by blast
qed

end
