(* ===== verification/PCodec.thy ===== *)
theory PCodec
  imports Prelude
begin

text \<open>
  \<open>pclsync/putil.c\<close>, the text encodings: base64 (with the URL-safe alphabet) and base32, both
  used for names and keys that travel in the API. Buffers are lists of bytes; the terminating zero
  that both functions append is not part of them. Each pair is an interpretation of \<open>codec\<close>.
\<close>

subsection \<open>Base64\<close>

definition base64_table :: "nat list" where
  "base64_table = [65..<91] @ [97..<123] @ [48..<58] @ [45, 95]"

text \<open>
  The table has the element type \<open>char\<close>: \<open>-1\<close> and \<open>-2\<close> are read back as such only where
  \<open>char\<close> is signed (x86); \<open>schar\<close> says whether it is.
\<close>

definition base64_reverse_table :: "int list" where
  "base64_reverse_table =
    [-2, -2, -2, -2, -2, -2, -2, -2, -2, -1, -1, -2, -2, -1, -2, -2, -2, -2, -2,
    -2, -2, -2, -2, -2, -2, -2, -2, -2, -2, -2, -2, -2, -1, -2, -2, -2, -2, -2,
    -2, -2, -2, -2, -2, 62, -2, 62, -2, 63, 52, 53, 54, 55, 56, 57, 58, 59, 60,
    61, -2, -2, -2, -1, -2, -2, -2, 0,  1,  2,  3,  4,  5,  6,  7,  8,  9,  10,
    11, 12, 13, 14, 15, 16, 17, 18, 19, 20, 21, 22, 23, 24, 25, -2, -2, -2, -2,
    63, -2, 26, 27, 28, 29, 30, 31, 32, 33, 34, 35, 36, 37, 38, 39, 40, 41, 42,
    43, 44, 45, 46, 47, 48, 49, 50, 51, -2, -2, -2, -2, -2, -2, -2, -2, -2, -2,
    -2, -2, -2, -2, -2, -2, -2, -2, -2, -2, -2, -2, -2, -2, -2, -2, -2, -2, -2,
    -2, -2, -2, -2, -2, -2, -2, -2, -2, -2, -2, -2, -2, -2, -2, -2, -2, -2, -2,
    -2, -2, -2, -2, -2, -2, -2, -2, -2, -2, -2, -2, -2, -2, -2, -2, -2, -2, -2,
    -2, -2, -2, -2, -2, -2, -2, -2, -2, -2, -2, -2, -2, -2, -2, -2, -2, -2, -2,
    -2, -2, -2, -2, -2, -2, -2, -2, -2, -2, -2, -2, -2, -2, -2, -2, -2, -2, -2,
    -2, -2, -2, -2, -2, -2, -2, -2, -2, -2, -2, -2, -2, -2, -2, -2, -2, -2, -2,
    -2, -2, -2, -2, -2, -2, -2, -2, -2]"

definition char_value :: "bool \<Rightarrow> int \<Rightarrow> int" where
  "char_value schar v = (if schar then v else v mod 256)"

definition sym64 :: "u8 \<Rightarrow> u8" where
  "sym64 w = word_of_nat (base64_table ! unat w)"

fun psync_base64_encode :: "bytes \<Rightarrow> bytes" where
  "psync_base64_encode (a # b # c # rest) =
     sym64 (drop_bit 2 a) # sym64 (push_bit 4 (a AND 0x03) + drop_bit 4 b) #
     sym64 (push_bit 2 (b AND 0x0f) + drop_bit 6 c) # sym64 (c AND 0x3f) # psync_base64_encode rest"
| "psync_base64_encode [a, b] =
     [sym64 (drop_bit 2 a), sym64 (push_bit 4 (a AND 0x03) + drop_bit 4 b), sym64 (push_bit 2 (b AND 0x0f))]"
| "psync_base64_encode [a] = [sym64 (drop_bit 2 a), sym64 (push_bit 4 (a AND 0x03))]"
| "psync_base64_encode [] = []"

text \<open>
  The decoding loop: \<open>i\<close> symbols read so far, the \<open>j\<close> finished bytes \<open>out\<close>, and \<open>cur\<close> for
  \<open>result[j]\<close>, which the first symbol of a group overwrites.
\<close>

fun base64_decode_loop :: "bool \<Rightarrow> bytes \<Rightarrow> nat \<Rightarrow> bytes \<Rightarrow> u8 \<Rightarrow> bytes option" where
  "base64_decode_loop schar [] i out cur = Some out"
| "base64_decode_loop schar (b # bs) i out cur =
     (let ch = char_value schar (base64_reverse_table ! unat b); w = (word_of_int ch :: u8) in
      if ch = - 1 then base64_decode_loop schar bs i out cur
      else if ch = - 2 then None
      else if i mod 4 = 0 then base64_decode_loop schar bs (i + 1) out (push_bit 2 w)
      else if i mod 4 = 1 then
        base64_decode_loop schar bs (i + 1) (out @ [cur OR drop_bit 4 w]) (push_bit 4 (w AND 0x0f))
      else if i mod 4 = 2 then
        base64_decode_loop schar bs (i + 1) (out @ [cur OR drop_bit 2 w]) (push_bit 6 (w AND 0x03))
      else base64_decode_loop schar bs (i + 1) (out @ [cur OR w]) cur)"

definition psync_base64_decode :: "bool \<Rightarrow> bytes \<Rightarrow> bytes option" where
  "psync_base64_decode schar str = base64_decode_loop schar str 0 [] 0"

text \<open>The tables are inverse on the sixty-four symbols.\<close>

lemma base64_tables:
  "list_all (\<lambda>k. base64_table ! k < 256 \<and> base64_reverse_table ! (base64_table ! k) = int k) [0..<64]"
  by code_simp

lemma sym64_value:
  assumes "unat w < 64"
  shows "base64_reverse_table ! unat (sym64 w) = int (unat w)"
proof -
  have "base64_table ! unat w < 256 \<and> base64_reverse_table ! (base64_table ! unat w) = int (unat w)"
    using base64_tables assms by (simp only: list_all_iff) auto
  then show ?thesis by (simp add: sym64_def unat_of_nat take_bit_nat_eq_self)
qed

lemma sym64_step:
  assumes "unat w < 64"
  shows "char_value schar (base64_reverse_table ! unat (sym64 w)) = int (unat w)"
    and "(word_of_int (int (unat w)) :: u8) = w"
proof -
  have "int (unat w) mod 256 = int (unat w)"
    by (rule mod_pos_pos_trivial) (use assms in linarith)+
  then show "char_value schar (base64_reverse_table ! unat (sym64 w)) = int (unat w)"
    unfolding sym64_value [OF assms] char_value_def by simp
qed simp

text \<open>What the loop does with a symbol.\<close>

lemma base64_loop_sym:
  assumes "unat w < 64"
  shows "base64_decode_loop schar (sym64 w # bs) i out cur =
     (if i mod 4 = 0 then base64_decode_loop schar bs (i + 1) out (push_bit 2 w)
      else if i mod 4 = 1 then
        base64_decode_loop schar bs (i + 1) (out @ [cur OR drop_bit 4 w]) (push_bit 4 (w AND 0x0f))
      else if i mod 4 = 2 then
        base64_decode_loop schar bs (i + 1) (out @ [cur OR drop_bit 2 w]) (push_bit 6 (w AND 0x03))
      else base64_decode_loop schar bs (i + 1) (out @ [cur OR w]) cur)"
proof -
  have "int (unat w) \<noteq> - 1" "int (unat w) \<noteq> - 2" by linarith+
  then show ?thesis
    by (simp only: base64_decode_loop.simps sym64_step [OF assms] Let_def if_False)
qed

declare base64_decode_loop.simps(2) [simp del]

text \<open>The bit groups.\<close>

lemma byte_masks:
  fixes x :: u8
  shows "x AND 0x03 = take_bit 2 x" "x AND 0x0f = take_bit 4 x" "x AND 0x3f = take_bit 6 x" "x AND 0x1f = take_bit 5 x"
  by (simp_all add: take_bit_eq_mask mask_eq_exp_minus_1)

lemma byte_groups:
  fixes a b c :: u8
  shows "push_bit 4 (a AND 0x03) + drop_bit 4 b = push_bit 4 (take_bit 2 a) OR drop_bit 4 b"
    and "push_bit 2 (b AND 0x0f) + drop_bit 6 c = push_bit 2 (take_bit 4 b) OR drop_bit 6 c"
  unfolding byte_masks
  by (rule disjunctive_add; auto simp: bit_simps dest: bit_imp_le_length)+

lemma unat_small_bits: "(\<And>i. bit (w :: u8) i \<Longrightarrow> i < 6) \<Longrightarrow> unat w < 64"
proof -
  assume "\<And>i. bit w i \<Longrightarrow> i < 6"
  then have "w = take_bit 6 w" by (auto intro!: bit_word_eqI simp: bit_simps)
  then have "unat w = take_bit 6 (unat w)" by (metis unsigned_take_bit_eq)
  then show ?thesis using take_bit_nat_less_exp [of 6 "unat w"] by simp
qed

lemma group_small:
  fixes a b c :: u8
  shows "unat (drop_bit 2 a) < 64" "unat (push_bit 4 (a AND 0x03) + drop_bit 4 b) < 64"
    "unat (push_bit 2 (b AND 0x0f) + drop_bit 6 c) < 64" "unat (c AND 0x3f) < 64"
    "unat (push_bit 4 (a AND 0x03)) < 64" "unat (push_bit 2 (b AND 0x0f)) < 64"
  unfolding byte_groups unfolding byte_masks
  by (rule unat_small_bits; auto simp: bit_simps dest: bit_imp_le_length)+

lemma byte_eqI:
  fixes x y :: u8
  assumes "bit x 0 = bit y 0" "bit x 1 = bit y 1" "bit x 2 = bit y 2" "bit x 3 = bit y 3"
    "bit x 4 = bit y 4" "bit x 5 = bit y 5" "bit x 6 = bit y 6" "bit x 7 = bit y 7"
  shows "x = y"
proof (rule bit_word_eqI)
  fix i assume "i < LENGTH(8)"
  then have "i = 0 \<or> i = 1 \<or> i = 2 \<or> i = 3 \<or> i = 4 \<or> i = 5 \<or> i = 6 \<or> i = 7" by auto
  then show "bit x i = bit y i" using assms by (elim disjE) (simp_all only:)
qed

lemma byte_high: "8 \<le> i \<Longrightarrow> \<not> bit (x :: u8) i"
  by (auto dest: bit_imp_le_length)

lemma group_bytes:
  fixes a b c :: u8
  shows "push_bit 2 (drop_bit 2 a) OR drop_bit 4 (push_bit 4 (a AND 0x03) + drop_bit 4 b) = a"
    and "push_bit 4 ((push_bit 4 (a AND 0x03) + drop_bit 4 b) AND 0x0f) OR
      drop_bit 2 (push_bit 2 (b AND 0x0f) + drop_bit 6 c) = b"
    and "push_bit 6 ((push_bit 2 (b AND 0x0f) + drop_bit 6 c) AND 0x03) OR (c AND 0x3f) = c"
    and "push_bit 2 (drop_bit 2 a) OR drop_bit 4 (push_bit 4 (a AND 0x03)) = a"
    and "push_bit 4 ((push_bit 4 (a AND 0x03) + drop_bit 4 b) AND 0x0f) OR drop_bit 2 (push_bit 2 (b AND 0x0f)) = b"
  unfolding byte_groups unfolding byte_masks
  by (rule byte_eqI; simp add: bit_simps byte_high)+

lemma base64_loop_encode:
  "i mod 4 = 0 \<Longrightarrow> base64_decode_loop schar (psync_base64_encode bs) i out cur = Some (out @ bs)"
proof (induction bs arbitrary: i out cur rule: psync_base64_encode.induct)
  case (1 a b c rest)
  have m: "(i + 1) mod 4 = 1" "(i + 1 + 1) mod 4 = 2" "(i + 1 + 1 + 1) mod 4 = 3" "(i + 1 + 1 + 1 + 1) mod 4 = 0"
    using 1(2) by presburger+
  show ?case
    using 1(1) [OF m(4)]
    by (simp only: psync_base64_encode.simps base64_loop_sym group_small 1(2) m group_bytes append_assoc append.simps
        one_neq_zero zero_neq_one if_True if_False numeral_eq_iff simp_thms) simp
next
  case (2 a b)
  have m: "(i + 1) mod 4 = 1" "(i + 1 + 1) mod 4 = 2" using 2 by presburger+
  show ?case
    by (simp only: psync_base64_encode.simps base64_loop_sym group_small 2 m group_bytes
        one_neq_zero zero_neq_one if_True if_False simp_thms) simp
next
  case (3 a)
  have m: "(i + 1) mod 4 = 1" using 3 by presburger
  show ?case
    by (simp only: psync_base64_encode.simps base64_loop_sym group_small 3 m group_bytes
        one_neq_zero zero_neq_one if_True if_False simp_thms) simp
qed simp

lemma base64_roundtrip: "psync_base64_decode schar (psync_base64_encode bs) = Some bs"
  by (simp add: psync_base64_decode_def base64_loop_encode)

interpretation b64: codec psync_base64_encode "psync_base64_decode schar" "\<lambda>_. True"
  by unfold_locales (rule base64_roundtrip)

text \<open>The buffers: \<open>malloc\<close> reserves enough for the symbols and for the decoded bytes.\<close>

lemma base64_encode_length: "length (psync_base64_encode bs) \<le> (length bs + 2) div 3 * 4"
proof (induction bs rule: psync_base64_encode.induct)
  case (1 a b c rest)
  have "(length (a # b # c # rest) + 2) div 3 = (length rest + 2) div 3 + 1" by simp
  with 1 show ?case by simp
qed simp_all

lemma base64_decode_loop_length:
  "base64_decode_loop schar bs i out cur = Some res \<Longrightarrow> length out \<le> i * 3 div 4 \<Longrightarrow>
     length res \<le> (i + length bs) * 3 div 4"
proof (induction bs arbitrary: i out cur)
  case (Cons b bs)
  define ch where "ch = char_value schar (base64_reverse_table ! unat b)"
  define w where "w = (word_of_int ch :: u8)"
  have a: "i mod 4 \<noteq> 0 \<Longrightarrow> length out + 1 \<le> (i + 1) * 3 div 4" and b: "length out \<le> (i + 1) * 3 div 4"
    using Cons.prems(2) by presburger+
  have run: "base64_decode_loop schar (b # bs) i out cur =
     (if ch = - 1 then base64_decode_loop schar bs i out cur
      else if ch = - 2 then None
      else if i mod 4 = 0 then base64_decode_loop schar bs (i + 1) out (push_bit 2 w)
      else if i mod 4 = 1 then
        base64_decode_loop schar bs (i + 1) (out @ [cur OR drop_bit 4 w]) (push_bit 4 (w AND 0x0f))
      else if i mod 4 = 2 then
        base64_decode_loop schar bs (i + 1) (out @ [cur OR drop_bit 2 w]) (push_bit 6 (w AND 0x03))
      else base64_decode_loop schar bs (i + 1) (out @ [cur OR w]) cur)"
    by (simp only: base64_decode_loop.simps Let_def ch_def w_def)
  have step: "length res \<le> (i + length (b # bs)) * 3 div 4"
    if "base64_decode_loop schar bs (i + 1) out' cur' = Some res" "length out' \<le> (i + 1) * 3 div 4" for out' cur'
    using Cons.IH [OF that] by (simp add: algebra_simps)
  show ?case
  proof (cases "ch = - 1")
    case True
    with Cons run have "length res \<le> (i + length bs) * 3 div 4" by simp
    also have "\<dots> \<le> (i + length (b # bs)) * 3 div 4" by (intro div_le_mono) simp
    finally show ?thesis .
  next
    case False
    show ?thesis
    proof (cases "i mod 4 = 0")
      case True
      with False Cons.prems(1) run step [OF _ b] show ?thesis by (simp split: if_splits)
    next
      case nz: False
      from a [OF nz] have l: "length (out @ [x]) \<le> (i + 1) * 3 div 4" for x by simp
      from False nz Cons.prems(1) run step [OF _ l] show ?thesis by (simp split: if_splits)
    qed
  qed
qed simp

text \<open>Where \<open>char\<close> is unsigned, nothing is rejected or skipped.\<close>

lemma base64_unsigned_loop: "base64_decode_loop False bs i out cur \<noteq> None"
proof (induction bs arbitrary: i out cur)
  case (Cons b bs)
  have "char_value False v \<ge> 0" for v by (simp add: char_value_def)
  then have "char_value False v \<noteq> - 1" "char_value False v \<noteq> - 2" for v by (smt (verit))+
  with Cons show ?case by (simp add: base64_decode_loop.simps(2) Let_def)
qed simp

text \<open>Where it is signed, a symbol outside the alphabet is the only error.\<close>

lemma base64_signed_loop:
  "base64_decode_loop True bs i out cur = None \<longleftrightarrow> list_ex (\<lambda>b. base64_reverse_table ! unat b = - 2) bs"
  by (induction bs arbitrary: i out cur) (auto simp: base64_decode_loop.simps(2) Let_def char_value_def)

text \<open>
  C31. Base64: for any bytes, decoding the encoding gives them back, on any target; both functions
  stay inside the buffers they allocate, for any input.
\<close>

theorem base64_correct:
  "psync_base64_decode schar (psync_base64_encode bs) = Some bs \<and>
   length (psync_base64_encode bs) + 1 \<le> (length bs + 2) div 3 * 4 + 1 \<and>
   (case psync_base64_decode schar str of None \<Rightarrow> True | Some res \<Rightarrow> length res + 1 \<le> (length str + 3) div 4 * 3 + 1)"
proof (intro conjI)
  have "length res \<le> (length str + 3) div 4 * 3" if "psync_base64_decode schar str = Some res" for res
  proof -
    have "length res \<le> length str * 3 div 4"
      using base64_decode_loop_length [of schar str 0 "[]" 0 res] that by (simp add: psync_base64_decode_def)
    also have "\<dots> \<le> (length str + 3) div 4 * 3" by presburger
    finally show ?thesis .
  qed
  then show "case psync_base64_decode schar str of None \<Rightarrow> True | Some res \<Rightarrow> length res + 1 \<le> (length str + 3) div 4 * 3 + 1"
    by (simp split: option.split)
next
  show "length (psync_base64_encode bs) + 1 \<le> (length bs + 2) div 3 * 4 + 1"
    using base64_encode_length [of bs] by linarith
qed (rule base64_roundtrip)

text \<open>
  What base64 decoding rejects: with a signed \<open>char\<close> exactly the inputs that contain a byte
  outside the alphabet and the white space; with an unsigned \<open>char\<close> (aarch64) nothing, because
  the markers of the table read as 254 and 255 and are decoded as data.
\<close>

theorem base64_decode_rejects:
  "(psync_base64_decode True str = None \<longleftrightarrow> list_ex (\<lambda>b. base64_reverse_table ! unat b = - 2) str) \<and>
   psync_base64_decode False str \<noteq> None"
  by (simp add: psync_base64_decode_def base64_signed_loop base64_unsigned_loop)

subsection \<open>Base32\<close>

definition base32_table :: "nat list" where
  "base32_table = [65..<91] @ [50..<56]"

definition sym32 :: "u32 \<Rightarrow> u8" where
  "sym32 w = word_of_nat (base32_table ! unat (0x1f AND w))"

function base32_flush :: "nat \<Rightarrow> u32 \<Rightarrow> bytes" where
  "base32_flush bits buff =
     (if bits = 0 then []
      else
        (let (bits, buff) = (if bits < 5 then (5, push_bit (5 - bits) buff) else (bits, buff))
         in sym32 (drop_bit (bits - 5) buff) # base32_flush (bits - 5) buff))"
  by pat_completeness auto
termination
  by (relation "measure fst") (auto split: if_splits)

function base32_encode_loop :: "bytes \<Rightarrow> nat \<Rightarrow> u32 \<Rightarrow> bytes" where
  "base32_encode_loop str bits buff =
     (if str = [] then base32_flush bits buff
      else
        (let (str, bits, buff) =
            (if bits < 5 then (tl str, bits + 8, push_bit 8 buff OR ucast (hd str)) else (str, bits, buff))
         in sym32 (drop_bit (bits - 5) buff) # base32_encode_loop str (bits - 5) buff))"
  by pat_completeness auto
termination
  by (relation "measure (\<lambda>(str, bits, buff). 8 * length str + bits)") (auto split: if_splits simp: neq_Nil_conv)

declare base32_flush.simps [simp del] base32_encode_loop.simps [simp del]

definition psync_base32_encode :: "bytes \<Rightarrow> bytes" where
  "psync_base32_encode str = base32_encode_loop str 0 0"

fun base32_decode_loop :: "bytes \<Rightarrow> nat \<Rightarrow> u32 \<Rightarrow> bytes \<Rightarrow> bytes option" where
  "base32_decode_loop [] bits buff out = Some out"
| "base32_decode_loop (c # str) bits buff out =
     (let next = (\<lambda>ch :: u8.
          let buff = push_bit 5 buff + ucast ch; bits = bits + 5 in
          if 8 \<le> bits then base32_decode_loop str (bits - 8) buff (out @ [ucast (drop_bit (bits - 8) buff)])
          else base32_decode_loop str bits buff out)
      in if 65 \<le> unat c \<and> unat c \<le> 90 then next ((c AND 0x1f) - 1)
         else if 50 \<le> unat c \<and> unat c \<le> 55 then next (c - 24)
         else None)"

definition psync_base32_decode :: "bytes \<Rightarrow> bytes option" where
  "psync_base32_decode str = base32_decode_loop str 0 0 []"

text \<open>The low \<open>n\<close> bits of a word, the most significant first: what the two bit buffers hold.\<close>

definition tob :: "nat \<Rightarrow> 'a::len word \<Rightarrow> bool list" where
  "tob n w = rev (map (bit w) [0..<n])"

lemma tob_0 [simp]: "tob 0 w = []" and length_tob [simp]: "length (tob n w) = n"
  by (simp_all add: tob_def)

lemma nth_tob: "i < n \<Longrightarrow> tob n w ! i = bit w (n - 1 - i)"
  by (simp add: tob_def rev_nth)

lemma tob_append:
  assumes "\<And>i. i < m \<Longrightarrow> bit w (n + i) = bit u i" "\<And>i. i < n \<Longrightarrow> bit w i = bit v i"
  shows "tob (m + n) w = tob m u @ tob n v"
proof (rule nth_equalityI)
  fix i assume "i < length (tob (m + n) w)"
  then have i: "i < m + n" by simp
  show "tob (m + n) w ! i = (tob m u @ tob n v) ! i"
  proof (cases "i < m")
    case True
    then have "m + n - 1 - i = n + (m - 1 - i)" by simp
    then show ?thesis using True i assms(1) [of "m - 1 - i"] by (simp add: nth_append nth_tob)
  next
    case False
    then have "m + n - 1 - i = n - 1 - (i - m)" "n - 1 - (i - m) < n" using i by auto
    then show ?thesis using False i assms(2) [of "n - 1 - (i - m)"] by (simp add: nth_append nth_tob)
  qed
qed simp

lemma tob_inj: "tob 8 (a :: u8) = tob 8 b \<longleftrightarrow> a = b"
proof
  assume e: "tob 8 a = tob 8 b"
  show "a = b"
  proof (rule bit_word_eqI)
    fix i assume "i < LENGTH(8)"
    then show "bit a i = bit b i"
      using arg_cong [OF e, of "\<lambda>l. l ! (7 - i)"] by (simp add: nth_tob)
  qed
qed simp

lemma tob_push_byte: "bits \<le> 24 \<Longrightarrow> tob (bits + 8) (push_bit 8 (buff :: u32) OR ucast (b :: u8)) = tob bits buff @ tob 8 b"
  by (rule tob_append) (auto simp: bit_simps dest: bit_imp_le_length)

lemma tob_split: "5 \<le> bits \<Longrightarrow> bits \<le> 32 \<Longrightarrow> tob bits (buff :: u32) = tob 5 (drop_bit (bits - 5) buff) @ tob (bits - 5) buff"
  using tob_append [where m = 5 and n = "bits - 5" and w = buff and u = "drop_bit (bits - 5) buff" and v = buff]
  by (simp add: bit_simps)

lemma tob_pad: "bits < 5 \<Longrightarrow> tob 5 (push_bit (5 - bits) (buff :: u32)) = tob bits buff @ replicate (5 - bits) False"
  by (rule nth_equalityI) (auto simp: nth_append nth_tob bit_simps)

lemma tob_take: "tob 5 (take_bit 5 w) = tob 5 w"
  by (simp add: tob_def bit_simps)

definition tobs :: "nat \<Rightarrow> 'a::len word list \<Rightarrow> bool list" where
  "tobs n ws = concat (map (tob n) ws)"

lemma tobs_Nil [simp]: "tobs n [] = []" and tobs_Cons [simp]: "tobs n (w # ws) = tob n w @ tobs n ws"
  by (simp_all add: tobs_def)

lemma length_tobs [simp]: "length (tobs n ws) = n * length ws"
  by (induction ws) simp_all

lemma tobs_inj:
  assumes "tobs 8 (xs :: bytes) @ r = tobs 8 ys @ r'" "length r < 8" "length r' < 8"
  shows "xs = ys"
proof -
  have "8 * length xs + length r = 8 * length ys + length r'"
    using arg_cong [OF assms(1), of length] by simp
  with assms(2,3) have "length xs = length ys" by linarith
  then show ?thesis using assms(1)
    by (induction xs ys rule: list_induct2) (simp_all add: tob_inj append_eq_append_conv)
qed

text \<open>The symbols that the encoder emits hold the bits of its input, padded with zeros.\<close>

lemma base32_flush_steps:
  "base32_flush 0 buff = []"
  "0 < bits \<Longrightarrow> bits < 5 \<Longrightarrow> base32_flush bits buff = [sym32 (push_bit (5 - bits) buff)]"
  "5 \<le> bits \<Longrightarrow> base32_flush bits buff = sym32 (drop_bit (bits - 5) buff) # base32_flush (bits - 5) buff"
  by ((subst base32_flush.simps, simp) | (subst base32_flush.simps, subst base32_flush.simps, simp))+

lemma base32_flush_bits:
  "bits \<le> 32 \<Longrightarrow> \<exists>vs k. base32_flush bits buff = map sym32 vs \<and> tobs 5 vs = tob bits buff @ replicate k False \<and> k < 5"
proof (induction bits rule: less_induct)
  case (less bits)
  consider "bits = 0" | "0 < bits" "bits < 5" | "5 \<le> bits" by linarith
  then show ?case
  proof cases
    case 1
    then show ?thesis by (intro exI [of _ "[]"] exI [of _ 0]) (simp add: base32_flush_steps)
  next
    case 2
    then have "base32_flush bits buff = map sym32 [push_bit (5 - bits) buff]"
      "tobs 5 [push_bit (5 - bits) buff] = tob bits buff @ replicate (5 - bits) False"
      by (simp_all add: base32_flush_steps tob_pad)
    with 2 show ?thesis by (intro exI [of _ "[push_bit (5 - bits) buff]"] exI [of _ "5 - bits"]) simp
  next
    case 3
    then have "bits - 5 < bits" "bits - 5 \<le> 32" using less.prems by simp_all
    from less.IH [OF this] obtain vs k where
      "base32_flush (bits - 5) buff = map sym32 vs" "tobs 5 vs = tob (bits - 5) buff @ replicate k False" "k < 5"
      by blast
    with 3 less.prems have "base32_flush bits buff = map sym32 (drop_bit (bits - 5) buff # vs)"
      "tobs 5 (drop_bit (bits - 5) buff # vs) = tob bits buff @ replicate k False"
      by (simp_all only: base32_flush_steps(3) tob_split [of bits buff] list.map tobs_Cons append_assoc)
    with \<open>k < 5\<close> show ?thesis by blast
  qed
qed

lemma base32_encode_steps:
  "base32_encode_loop [] bits buff = base32_flush bits buff"
  "bits < 5 \<Longrightarrow> base32_encode_loop (b # str) bits buff =
     sym32 (drop_bit (bits + 8 - 5) (push_bit 8 buff OR ucast b)) # base32_encode_loop str (bits + 8 - 5) (push_bit 8 buff OR ucast b)"
  "5 \<le> bits \<Longrightarrow> base32_encode_loop (b # str) bits buff =
     sym32 (drop_bit (bits - 5) buff) # base32_encode_loop (b # str) (bits - 5) buff"
  by (subst base32_encode_loop.simps, simp)+

lemma base32_encode_bits:
  "bits \<le> 12 \<Longrightarrow> \<exists>vs k. base32_encode_loop str bits buff = map sym32 vs \<and>
     tobs 5 vs = tob bits buff @ tobs 8 str @ replicate k False \<and> k < 5"
proof (induction "8 * length str + bits" arbitrary: str bits buff rule: less_induct)
  case less
  have emit: "\<exists>vs k. base32_encode_loop str bits buff = map sym32 vs \<and>
      tobs 5 vs = tob bits buff @ tobs 8 str @ replicate k False \<and> k < 5"
    if run: "base32_encode_loop str bits buff = sym32 (drop_bit (n - 5) w) # base32_encode_loop str' (n - 5) w"
      and n: "5 \<le> n" "n \<le> 12" "8 * length str' + (n - 5) < 8 * length str + bits"
      and t: "tob n w @ tobs 8 str' = tob bits buff @ tobs 8 str" for n w str'
  proof -
    have "n - 5 \<le> 12" using n by simp
    from less.hyps [OF n(3) this, of w] obtain vs k where v: "base32_encode_loop str' (n - 5) w = map sym32 vs"
      "tobs 5 vs = tob (n - 5) w @ tobs 8 str' @ replicate k False" "k < 5"
      by blast
    have "tobs 5 (drop_bit (n - 5) w # vs) = tob 5 (drop_bit (n - 5) w) @ tob (n - 5) w @ tobs 8 str' @ replicate k False"
      using v(2) by simp
    also have "\<dots> = (tob n w @ tobs 8 str') @ replicate k False" using n by (simp add: tob_split [of n])
    finally have "tobs 5 (drop_bit (n - 5) w # vs) = tob bits buff @ tobs 8 str @ replicate k False"
      unfolding t by simp
    moreover have "base32_encode_loop str bits buff = map sym32 (drop_bit (n - 5) w # vs)" using run v(1) by simp
    ultimately show ?thesis using v(3) by blast
  qed
  show ?case
  proof (cases str)
    case Nil
    with base32_flush_bits [of bits buff] less.prems show ?thesis by (simp add: base32_encode_steps(1))
  next
    case (Cons b bs)
    show ?thesis
    proof (cases "bits < 5")
      case True
      with Cons less.prems show ?thesis
        by (intro emit [of "bits + 8" "push_bit 8 buff OR ucast b" bs])
          (simp_all only: base32_encode_steps(2) tob_push_byte, simp_all)
    next
      case False
      with Cons less.prems show ?thesis by (intro emit [of bits buff str]) (simp_all add: base32_encode_steps(3))
    qed
  qed
qed

text \<open>The decoder gathers the bits of the symbols and drops what is left over.\<close>

lemma base32_tables:
  "list_all (\<lambda>k. let c = (word_of_nat (base32_table ! k) :: u8) in
     if 65 \<le> unat c \<and> unat c \<le> 90 then (c AND 0x1f) - 1 = word_of_nat k
     else 50 \<le> unat c \<and> unat c \<le> 55 \<and> c - 24 = word_of_nat k) [0..<32]"
  by code_simp

lemma low5: "0x1f AND (v :: u32) = take_bit 5 v"
  by (simp add: take_bit_eq_mask mask_eq_exp_minus_1 and.commute)

lemma unat_low5: "unat (take_bit 5 (v :: u32)) < 32"
  using take_bit_nat_less_exp [of 5 "unat v"] by (simp add: unsigned_take_bit_eq)

lemma tob_push_sym:
  assumes "bits \<le> 27"
  shows "tob (bits + 5) (push_bit 5 (buff :: u32) + take_bit 5 v) = tob bits buff @ tob 5 v"
proof -
  have "push_bit 5 buff + take_bit 5 v = push_bit 5 buff OR take_bit 5 v"
    by (rule disjunctive_add) (auto simp: bit_simps)
  then show ?thesis using assms by (simp only:) (rule tob_append; auto simp: bit_simps)
qed

lemma tob_out_byte:
  "8 \<le> bits \<Longrightarrow> bits \<le> 32 \<Longrightarrow> tob bits (buff :: u32) = tob 8 (ucast (drop_bit (bits - 8) buff) :: u8) @ tob (bits - 8) buff"
  using tob_append [where m = 8 and n = "bits - 8" and w = buff and u = "ucast (drop_bit (bits - 8) buff) :: u8" and v = buff]
  by (simp add: bit_simps)

lemma base32_decode_sym:
  fixes buff v :: u32
  defines "buff' \<equiv> push_bit 5 buff + take_bit 5 v"
  shows "base32_decode_loop (sym32 v # str) bits buff out =
    (if 8 \<le> bits + 5 then base32_decode_loop str (bits + 5 - 8) buff' (out @ [ucast (drop_bit (bits + 5 - 8) buff')])
     else base32_decode_loop str (bits + 5) buff' out)"
proof -
  define k where "k = unat (take_bit 5 v)"
  have k: "k < 32" "sym32 v = word_of_nat (base32_table ! k)" "take_bit 5 v = word_of_nat k"
    by (simp_all add: k_def unat_low5 sym32_def low5)
  have "ucast (word_of_nat k :: u8) = (word_of_nat k :: u32)"
    using k(1) by (simp add: word_unat_eq_iff unat_of_nat unsigned_ucast_eq take_bit_nat_eq_self)
  then have u: "ucast (word_of_nat k :: u8) = take_bit 5 v" using k(3) by simp
  have "let c = sym32 v in
     if 65 \<le> unat c \<and> unat c \<le> 90 then (c AND 0x1f) - 1 = word_of_nat k
     else 50 \<le> unat c \<and> unat c \<le> 55 \<and> c - 24 = word_of_nat k"
    using base32_tables k(1,2) by (simp only: list_all_iff set_upt) force
  then show ?thesis
    by (cases "65 \<le> unat (sym32 v) \<and> unat (sym32 v) \<le> 90")
      (simp_all only: base32_decode_loop.simps Let_def u buff'_def if_True if_False simp_thms)
qed

lemma base32_decode_bits:
  "bits < 8 \<Longrightarrow> \<exists>xs rem. base32_decode_loop (map sym32 vs) bits buff out = Some (out @ xs) \<and>
     tob bits buff @ tobs 5 vs = tobs 8 xs @ rem \<and> length rem < 8"
proof (induction vs arbitrary: bits buff out)
  case Nil
  then show ?case by (intro exI [of _ "[]"] exI [of _ "tob bits buff"]) simp
next
  case (Cons v vs)
  define buff' where "buff' = push_bit 5 buff + take_bit 5 v"
  have t: "tob bits buff @ tob 5 v = tob (bits + 5) buff'"
    using Cons.prems by (simp add: buff'_def tob_push_sym)
  have t': "tob bits buff @ tobs 5 (v # vs) = tob (bits + 5) buff' @ tobs 5 vs"
    unfolding t [symmetric] by simp
  note run = base32_decode_sym [of v "map sym32 vs" bits buff out, folded buff'_def]
  show ?case
  proof (cases "8 \<le> bits + 5")
    case True
    define c where "c = (ucast (drop_bit (bits + 5 - 8) buff') :: u8)"
    have "bits + 5 - 8 < 8" using Cons.prems by simp
    from Cons.IH [OF this, of buff' "out @ [c]"] obtain xs rem where
      d: "base32_decode_loop (map sym32 vs) (bits + 5 - 8) buff' (out @ [c]) = Some (out @ c # xs)"
      "tob (bits + 5 - 8) buff' @ tobs 5 vs = tobs 8 xs @ rem" "length rem < 8" by auto
    have "tob (bits + 5) buff' = tob 8 c @ tob (bits + 5 - 8) buff'"
      using True Cons.prems unfolding c_def by (intro tob_out_byte) auto
    with d(2) t' have "tob bits buff @ tobs 5 (v # vs) = tobs 8 (c # xs) @ rem" by simp
    moreover from run True d(1) have "base32_decode_loop (map sym32 (v # vs)) bits buff out = Some (out @ c # xs)"
      by (simp only: if_True c_def list.map)
    ultimately show ?thesis using d(3) by blast
  next
    case False
    then have "bits + 5 < 8" by simp
    from Cons.IH [OF this, of buff' out] run t' False show ?thesis by (simp only: if_False list.map)
  qed
qed

lemma base32_roundtrip: "psync_base32_decode (psync_base32_encode str) = Some str"
proof -
  obtain vs k where e: "psync_base32_encode str = map sym32 vs" "tobs 5 vs = tobs 8 str @ replicate k False" "k < 5"
    using base32_encode_bits [of 0 str 0] by (auto simp: psync_base32_encode_def)
  obtain xs rem where d: "psync_base32_decode (map sym32 vs) = Some xs" "tobs 5 vs = tobs 8 xs @ rem" "length rem < 8"
    using base32_decode_bits [of 0 vs 0 "[]"] by (auto simp: psync_base32_decode_def)
  have "str = xs" using e d by (intro tobs_inj [of str "replicate k False" xs rem]) simp_all
  with e d show ?thesis by simp
qed

interpretation b32: codec psync_base32_encode psync_base32_decode "\<lambda>_. True"
  by unfold_locales (rule base32_roundtrip)

lemma base32_decode_loop_length:
  "bits < 8 \<Longrightarrow> base32_decode_loop str bits buff out = Some res \<Longrightarrow> 8 * length res \<le> 8 * length out + bits + 5 * length str"
proof (induction str arbitrary: bits buff out)
  case (Cons c str)
  have "8 * length res \<le> 8 * length out + bits + 5 * length (c # str)"
    if "(let buff = push_bit 5 buff + ucast ch; bits = bits + 5 in
          if 8 \<le> bits then base32_decode_loop str (bits - 8) buff (out @ [ucast (drop_bit (bits - 8) buff)])
          else base32_decode_loop str bits buff out) = Some res" for ch :: u8
  proof (cases "8 \<le> bits + 5")
    case True
    with that have r: "base32_decode_loop str (bits + 5 - 8) (push_bit 5 buff + ucast ch)
        (out @ [ucast (drop_bit (bits + 5 - 8) (push_bit 5 buff + ucast ch))]) = Some res"
      by (simp only: Let_def if_True)
    have "bits + 5 - 8 < 8" using Cons.prems(1) by simp
    from Cons.IH [OF this r] True show ?thesis by simp
  next
    case False
    with that have r: "base32_decode_loop str (bits + 5) (push_bit 5 buff + ucast ch) out = Some res"
      by (simp only: Let_def if_False)
    from Cons.IH [OF _ r] False show ?thesis by simp
  qed
  from this Cons.prems(2) show ?case
    by (simp only: base32_decode_loop.simps Let_def split: if_splits) blast+
qed simp

lemma base32_encode_length: "length (psync_base32_encode str) \<le> (length str + 4) div 5 * 8"
proof -
  obtain vs k where e: "psync_base32_encode str = map sym32 vs" "tobs 5 vs = tobs 8 str @ replicate k False" "k < 5"
    using base32_encode_bits [of 0 str 0] by (auto simp: psync_base32_encode_def)
  have "5 * length vs = 8 * length str + k" using arg_cong [OF e(2), of length] by simp
  moreover have "length str \<le> (length str + 4) div 5 * 5" by presburger
  ultimately have "length vs \<le> (length str + 4) div 5 * 8" using e(3) by linarith
  then show ?thesis using e(1) by simp
qed

text \<open>
  Base32: for any bytes, decoding the encoding gives them back; both functions stay inside the
  buffers they allocate, for any input.
\<close>

theorem base32_correct:
  "psync_base32_decode (psync_base32_encode bs) = Some bs \<and>
   length (psync_base32_encode bs) + 1 \<le> (length bs + 4) div 5 * 8 + 1 \<and>
   (case psync_base32_decode str of None \<Rightarrow> True | Some res \<Rightarrow> length res + 1 \<le> (length str + 7) div 8 * 5 + 1)"
proof (intro conjI)
  have "length res \<le> (length str + 7) div 8 * 5" if "psync_base32_decode str = Some res" for res
  proof -
    have "8 * length res \<le> 5 * length str"
      using base32_decode_loop_length [of 0 str 0 "[]" res] that by (simp add: psync_base32_decode_def)
    moreover have "length str \<le> (length str + 7) div 8 * 8" by presburger
    ultimately show ?thesis by linarith
  qed
  then show "case psync_base32_decode str of None \<Rightarrow> True | Some res \<Rightarrow> length res + 1 \<le> (length str + 7) div 8 * 5 + 1"
    by (simp split: option.split)
next
  show "length (psync_base32_encode bs) + 1 \<le> (length bs + 4) div 5 * 8 + 1"
    using base32_encode_length [of bs] by linarith
qed (rule base32_roundtrip)

end
