(* ===== verification/PStrings.thy ===== *)
theory PStrings
  imports Prelude
begin

text \<open>
  The checks of names: the patterns of names to ignore (\<open>psync_match_pattern\<close> of \<open>pclsync/plibs.c\<close>,
  \<open>psync_is_lname_to_ignore\<close> of \<open>pclsync/psynclib.c\<close>, \<open>lower_patterns\<close> of \<open>pclsync/psettings.c\<close>), the test for UTF-8 and
  the reading of numbers (\<open>pclsync/putil.c\<close>). A C string is the list of its bytes before the terminating zero; a pointer into
  it is the rest of the list. The character functions are those of the C locale.
\<close>

subsection \<open>Matching a pattern\<close>

definition star :: u8 where "star = 42"
definition query :: u8 where "query = 63"
definition semicolon :: u8 where "semicolon = 59"

lemma dropWhile_shorter: "dropWhile P xs = y # ys \<Longrightarrow> length ys < length xs"
  using length_dropWhile_le [of P xs] by simp

text \<open>
  \<open>match_star\<close> goes on behind a star; \<open>match_from ch\<close> tries the places where \<open>ch\<close>, the next character of the
  pattern, occurs, as the loop around \<open>strchr\<close> does.
\<close>

function (sequential) psync_match_pattern :: "bytes \<Rightarrow> bytes \<Rightarrow> bool"
and match_star :: "bytes \<Rightarrow> bytes \<Rightarrow> bool"
and match_from :: "u8 \<Rightarrow> bytes \<Rightarrow> bytes \<Rightarrow> bool" where
  "psync_match_pattern name [] \<longleftrightarrow> name = []"
| "psync_match_pattern name (p # pattern) \<longleftrightarrow>
     (if p = star then match_star name pattern
      else case name of [] \<Rightarrow> False
           | c # name \<Rightarrow> if p \<noteq> c \<and> p \<noteq> query then False else psync_match_pattern name pattern)"
| "match_star name [] \<longleftrightarrow> True"
| "match_star name (p # pattern) \<longleftrightarrow>
     (if p = query then (case name of [] \<Rightarrow> False | c # name \<Rightarrow> match_star name pattern)
      else if p = star then match_star name pattern
      else match_from p name pattern)"
| "match_from ch name pattern \<longleftrightarrow>
     (case dropWhile (\<lambda>c. c \<noteq> ch) name of
        [] \<Rightarrow> False
      | c # name \<Rightarrow> if psync_match_pattern name pattern then True else match_from ch name pattern)"
  by pat_completeness auto

termination
  by (relation "measures [\<lambda>x. case x of Inl (n, p) \<Rightarrow> length p | Inr (Inl (n, p)) \<Rightarrow> length p | Inr (Inr (c, n, p)) \<Rightarrow> length p,
        \<lambda>x. case x of Inl (n, p) \<Rightarrow> length n | Inr (Inl (n, p)) \<Rightarrow> length n | Inr (Inr (c, n, p)) \<Rightarrow> length n]")
     (auto dest: dropWhile_shorter)

subsection \<open>Names to ignore\<close>

definition isspace :: "u8 \<Rightarrow> bool" where
  "isspace c \<longleftrightarrow> c = 32 \<or> 9 \<le> c \<and> c \<le> 13"

definition tolower :: "u8 \<Rightarrow> u8" where
  "tolower c = (if 65 \<le> c \<and> c \<le> 90 then c + 32 else c)"

definition lower_patterns :: "bytes \<Rightarrow> bytes" where
  "lower_patterns str = map tolower str"

text \<open>The two loops over white space.\<close>

definition strip_spaces :: "bytes \<Rightarrow> bytes" where
  "strip_spaces pt = rev (dropWhile isspace (rev (dropWhile isspace pt)))"

function ignore_loop :: "bytes \<Rightarrow> bytes \<Rightarrow> bool" where
  "ignore_loop ign namelower =
     (let pt = takeWhile (\<lambda>c. c \<noteq> semicolon) ign
      in if psync_match_pattern namelower (strip_spaces pt) then True
         else case dropWhile (\<lambda>c. c \<noteq> semicolon) ign of [] \<Rightarrow> False | sc # ign \<Rightarrow> ignore_loop ign namelower)"
  by pat_completeness auto
termination
  by (relation "measure (\<lambda>(ign, name). length ign)") (auto dest: dropWhile_shorter)

definition psync_is_lname_to_ignore :: "bytes \<Rightarrow> bytes \<Rightarrow> nat \<Rightarrow> bool" where
  "psync_is_lname_to_ignore ignorepatterns name namelen = ignore_loop ignorepatterns (map tolower (take namelen name))"

definition psync_is_name_to_ignore :: "bytes \<Rightarrow> bytes \<Rightarrow> bool" where
  "psync_is_name_to_ignore ignorepatterns name = psync_is_lname_to_ignore ignorepatterns name (length name)"

declare psync_match_pattern.simps [simp del] match_star.simps [simp del] match_from.simps [simp del] ignore_loop.simps [simp del]

subsection \<open>What a pattern stands for\<close>

text \<open>A star stands for any bytes, a question mark for one, any other character for itself, as \<open>same\<close> compares.\<close>

definition fits :: "(u8 \<Rightarrow> u8 \<Rightarrow> bool) \<Rightarrow> u8 \<Rightarrow> bytes \<Rightarrow> bool" where
  "fits same p part \<longleftrightarrow> p = star \<or> (\<exists>c. part = [c] \<and> (p = query \<or> same p c))"

definition covers :: "(u8 \<Rightarrow> u8 \<Rightarrow> bool) \<Rightarrow> bytes \<Rightarrow> bytes \<Rightarrow> bool" where
  "covers same pattern name \<longleftrightarrow> (\<exists>parts. list_all2 (fits same) pattern parts \<and> concat parts = name)"

lemma covers_Nil [simp]: "covers same [] name \<longleftrightarrow> name = []"
  by (auto simp: covers_def)

lemma covers_Cons: "covers same (p # pattern) name \<longleftrightarrow> (\<exists>part rest. name = part @ rest \<and> fits same p part \<and> covers same pattern rest)"
proof
  assume "covers same (p # pattern) name"
  then show "\<exists>part rest. name = part @ rest \<and> fits same p part \<and> covers same pattern rest"
    unfolding covers_def list_all2_Cons1 by (metis concat.simps(2))
next
  assume "\<exists>part rest. name = part @ rest \<and> fits same p part \<and> covers same pattern rest"
  then obtain part parts where "name = part @ concat parts" "fits same p part" "list_all2 (fits same) pattern parts"
    unfolding covers_def by blast
  then show "covers same (p # pattern) name" unfolding covers_def by (intro exI [of _ "part # parts"]) simp
qed

lemma covers_star: "covers same (star # pattern) name \<longleftrightarrow> (\<exists>pre rest. name = pre @ rest \<and> covers same pattern rest)"
  by (simp add: covers_Cons fits_def)

lemma covers_one:
  "p \<noteq> star \<Longrightarrow> covers same (p # pattern) name \<longleftrightarrow> (\<exists>c rest. name = c # rest \<and> (p = query \<or> same p c) \<and> covers same pattern rest)"
  by (auto simp: covers_Cons fits_def) (metis append_Cons append_Nil)+

lemma star_query: "star \<noteq> query"
  by (simp add: star_def query_def)

lemma first_occurrence:
  "dropWhile (\<lambda>c. c \<noteq> ch) name = c # rest \<Longrightarrow> \<exists>pre. name = pre @ ch # rest \<and> c = ch \<and> ch \<notin> set pre"
proof -
  assume d: "dropWhile (\<lambda>c. c \<noteq> ch) name = c # rest"
  have "name = takeWhile (\<lambda>c. c \<noteq> ch) name @ c # rest" using takeWhile_dropWhile_id [of "\<lambda>c. c \<noteq> ch" name] d by simp
  moreover have "c = ch" using hd_dropWhile [of "\<lambda>c. c \<noteq> ch" name] d by simp
  ultimately show ?thesis using set_takeWhileD by fastforce
qed

lemma match_correct:
  "psync_match_pattern name pattern \<longleftrightarrow> covers (=) pattern name"
  "match_star name pattern' \<longleftrightarrow> covers (=) (star # pattern') name"
  "ch \<noteq> star \<Longrightarrow> ch \<noteq> query \<Longrightarrow> match_from ch name' pattern'' \<longleftrightarrow> covers (=) (star # ch # pattern'') name'"
proof (induction name pattern and name pattern' and ch name' pattern'' rule: psync_match_pattern_match_star_match_from.induct)
  case (2 name p pattern)
  then show ?case by (cases name) (auto simp: psync_match_pattern.simps covers_one)
next
  case (4 name p pattern)
  consider "p = query" | "p = star" | "p \<noteq> query" "p \<noteq> star" by blast
  then show ?case
  proof cases
    case 1
    have "covers (=) (star # query # pattern) name \<longleftrightarrow> (\<exists>c rest. name = c # rest \<and> covers (=) (star # pattern) rest)"
    proof
      assume "covers (=) (star # query # pattern) name"
      then obtain pre c rest where "name = pre @ c # rest" "covers (=) pattern rest"
        by (auto simp: covers_star covers_one star_query [symmetric])
      then show "\<exists>c rest. name = c # rest \<and> covers (=) (star # pattern) rest"
        by (cases pre) (auto simp: covers_star intro: exI [of _ "tl pre @ [c]"])
    next
      assume "\<exists>c rest. name = c # rest \<and> covers (=) (star # pattern) rest"
      then obtain c pre rest where n: "name = c # pre @ rest" "covers (=) pattern rest" by (auto simp: covers_star)
      have "\<exists>qs d. c # pre = qs @ [d]" by (metis append_butlast_last_id list.distinct(1))
      then obtain qs d where "c # pre = qs @ [d]" by blast
      then have "name = qs @ d # rest" using n(1) by (metis append.assoc append_Cons append_Nil)
      with n(2) show "covers (=) (star # query # pattern) name"
        by (auto simp: covers_star covers_one star_query [symmetric])
    qed
    then show ?thesis using 4 1 by (cases name) (auto simp: match_star.simps)
  next
    case 2
    have "covers (=) (star # star # pattern) name \<longleftrightarrow> covers (=) (star # pattern) name"
      unfolding covers_star by (metis append.assoc append_Nil)
    then show ?thesis using 4 2 star_query by (simp add: match_star.simps)
  next
    case 3
    then show ?thesis using 4 by (simp add: match_star.simps)
  qed
next
  case (5 ch name pattern)
  have c: "covers (=) (star # ch # pattern) n \<longleftrightarrow> (\<exists>pre rest. n = pre @ ch # rest \<and> covers (=) pattern rest)" for n
    using 5(3) 5(4) by (auto simp: covers_star covers_one)
  show ?case
  proof (cases "dropWhile (\<lambda>c. c \<noteq> ch) name")
    case Nil
    then have "ch \<notin> set name" by (auto simp: dropWhile_eq_Nil_conv)
    then have "\<not> covers (=) (star # ch # pattern) name" unfolding c by auto
    moreover have "\<not> match_from ch name pattern" unfolding match_from.simps [of ch name] Nil by simp
    ultimately show ?thesis by blast
  next
    case (Cons d rest)
    then obtain pre where n: "name = pre @ ch # rest" "ch \<notin> set pre" using first_occurrence [OF Cons] by blast
    have m: "match_from ch name pattern \<longleftrightarrow> covers (=) pattern rest \<or> covers (=) (star # ch # pattern) rest"
      using 5 Cons by (subst match_from.simps) auto
    have "(\<exists>pre' rest'. name = pre' @ ch # rest' \<and> covers (=) pattern rest') \<longleftrightarrow>
        covers (=) pattern rest \<or> (\<exists>pre' rest'. rest = pre' @ ch # rest' \<and> covers (=) pattern rest')"
      using n(2) unfolding n(1) by (auto simp: append_eq_append_conv2 append_eq_Cons_conv Cons_eq_append_conv)
    then show ?thesis unfolding m c by simp
  qed
qed (simp_all add: psync_match_pattern.simps match_star.simps covers_star)

subsection \<open>The names that are ignored\<close>

text \<open>A field of the patterns lies between two semicolons or the ends.\<close>

definition is_field :: "bytes \<Rightarrow> bytes \<Rightarrow> bool" where
  "is_field ign field \<longleftrightarrow> semicolon \<notin> set field \<and>
     (\<exists>pre post. ign = pre @ field @ post \<and> (pre = [] \<or> last pre = semicolon) \<and> (post = [] \<or> hd post = semicolon))"

lemma is_field_last: "semicolon \<notin> set ign \<Longrightarrow> is_field ign field \<longleftrightarrow> field = ign"
proof
  assume s: "semicolon \<notin> set ign"
  show "field = ign" if "is_field ign field"
  proof -
    from that obtain pre post where p: "ign = pre @ field @ post" "pre = [] \<or> last pre = semicolon" "post = [] \<or> hd post = semicolon"
      unfolding is_field_def by blast
    have "pre = []" using p(1,2) s last_in_set [of pre] by (cases "pre = []") auto
    moreover have "post = []" using p(1,3) s hd_in_set [of post] by (cases "post = []") auto
    ultimately show ?thesis using p(1) by simp
  qed
  show "is_field ign field" if "field = ign"
    unfolding is_field_def using s that by (intro conjI exI [of _ "[]"]) simp_all
qed

lemma first_split:
  "x \<notin> set xs \<Longrightarrow> x \<notin> set xs' \<Longrightarrow> xs @ x # ys = xs' @ x # ys' \<longleftrightarrow> xs = xs' \<and> ys = ys'"
proof (induction xs arbitrary: xs')
  case Nil
  then show ?case by (cases xs') auto
next
  case (Cons a xs)
  then show ?case by (cases xs') auto
qed

lemma is_field_step:
  assumes "semicolon \<notin> set f"
  shows "is_field (f @ semicolon # ign) field \<longleftrightarrow> field = f \<or> is_field ign field"
proof
  assume "is_field (f @ semicolon # ign) field"
  then obtain pre post where p: "semicolon \<notin> set field" "f @ semicolon # ign = pre @ field @ post"
    "pre = [] \<or> last pre = semicolon" "post = [] \<or> hd post = semicolon" by (auto simp: is_field_def)
  show "field = f \<or> is_field ign field"
  proof (cases "pre = []")
    case True
    then have "post \<noteq> []" using p(1,2) by (metis append_Nil append_Nil2 in_set_conv_decomp)
    then obtain ps where "post = semicolon # ps" using p(4) by (cases post) auto
    then have "f @ semicolon # ign = field @ semicolon # ps" using True p(2) by simp
    then have "f = field" using assms p(1) using first_split [of semicolon f field ign ps] by blast
    then show ?thesis by simp
  next
    case False
    then obtain qs where q: "pre = qs @ [semicolon]" using p(3) by (metis append_butlast_last_id)
    then have e: "f @ semicolon # ign = qs @ semicolon # field @ post" using p(2) by simp
    show ?thesis
    proof (cases "semicolon \<in> set qs")
      case True
      then obtain as bs where as: "qs = as @ semicolon # bs" "semicolon \<notin> set as" by (meson split_list_first)
      then have "f @ semicolon # ign = as @ semicolon # bs @ semicolon # field @ post" using e by simp
      then have "ign = bs @ semicolon # field @ post" using assms as(2) by (simp add: first_split)
      then have "ign = (bs @ [semicolon]) @ field @ post" by simp
      then have "is_field ign field" unfolding is_field_def using p(1,4) by (metis last_snoc)
      then show ?thesis ..
    next
      case False
      then have "ign = field @ post" using assms e by (simp add: first_split)
      then have "is_field ign field" unfolding is_field_def using p(1,4) by (metis append_Nil)
      then show ?thesis ..
    qed
  qed
next
  assume "field = f \<or> is_field ign field"
  then show "is_field (f @ semicolon # ign) field"
  proof
    assume "field = f"
    then show ?thesis unfolding is_field_def using assms by (intro conjI exI [of _ "[]"] exI [of _ "semicolon # ign"]) simp_all
  next
    assume "is_field ign field"
    then obtain pre post where p: "semicolon \<notin> set field" "ign = pre @ field @ post"
      "pre = [] \<or> last pre = semicolon" "post = [] \<or> hd post = semicolon" by (auto simp: is_field_def)
    then show ?thesis unfolding is_field_def
      by (intro conjI exI [of _ "f @ semicolon # pre"] exI [of _ post]) auto
  qed
qed

lemma ignore_loop_correct: "ignore_loop ign name \<longleftrightarrow> (\<exists>field. is_field ign field \<and> covers (=) (strip_spaces field) name)"
proof (induction ign name rule: ignore_loop.induct)
  case (1 ign name)
  let ?f = "takeWhile (\<lambda>c. c \<noteq> semicolon) ign"
  have f: "semicolon \<notin> set ?f" using set_takeWhileD by fastforce
  show ?case
  proof (cases "dropWhile (\<lambda>c. c \<noteq> semicolon) ign")
    case Nil
    then have "semicolon \<notin> set ign" by (auto simp: dropWhile_eq_Nil_conv)
    moreover from this have "?f = ign" by (auto simp: takeWhile_eq_all_conv)
    moreover have "ignore_loop ign name \<longleftrightarrow> psync_match_pattern name (strip_spaces ?f)"
      unfolding ignore_loop.simps [of ign] Nil Let_def by simp
    ultimately show ?thesis unfolding match_correct(1) using is_field_last by metis
  next
    case (Cons c rest)
    then have c: "c = semicolon" using hd_dropWhile [of "\<lambda>c. c \<noteq> semicolon" ign] by simp
    have ign: "ign = ?f @ semicolon # rest" using takeWhile_dropWhile_id [of "\<lambda>c. c \<noteq> semicolon" ign] Cons c by simp
    have "is_field ign field \<longleftrightarrow> field = ?f \<or> is_field rest field" for field
      using is_field_step [OF f, of rest field] ign by simp
    moreover have "ignore_loop ign name \<longleftrightarrow> covers (=) (strip_spaces ?f) name \<or> ignore_loop rest name"
      using Cons by (subst ignore_loop.simps) (simp add: Let_def match_correct(1))
    moreover have "ignore_loop rest name \<longleftrightarrow> (\<exists>field. is_field rest field \<and> covers (=) (strip_spaces field) name)"
      if "\<not> covers (=) (strip_spaces ?f) name"
      using 1 [OF refl _ Cons] that by (simp add: match_correct(1))
    ultimately show ?thesis by (cases "covers (=) (strip_spaces ?f) name") metis+
  qed
qed

text \<open>Lower case does not touch the special characters.\<close>

lemma tolower_special [simp]:
  "tolower c = semicolon \<longleftrightarrow> c = semicolon" "tolower c = star \<longleftrightarrow> c = star" "tolower c = query \<longleftrightarrow> c = query" "isspace (tolower c) = isspace c"
proof -
  consider "\<not> (65 \<le> c \<and> c \<le> 90)" | "65 \<le> c" "c \<le> 90" by blast
  then have "(tolower c = semicolon \<longleftrightarrow> c = semicolon) \<and> (tolower c = star \<longleftrightarrow> c = star) \<and> (tolower c = query \<longleftrightarrow> c = query) \<and> isspace (tolower c) = isspace c"
  proof cases
    case 1
    then show ?thesis unfolding tolower_def by (simp only: if_False simp_thms)
  next
    case 2
    then have n: "65 \<le> unat c" "unat c \<le> 90" by (simp_all add: word_le_nat_alt)
    then have t: "unat (tolower c) = unat c + 32" using 2 by (simp add: tolower_def unat_word_ariths)
    show ?thesis
      using n t by (auto simp: semicolon_def star_def query_def isspace_def word_unat_eq_iff word_le_nat_alt)
  qed
  then show "tolower c = semicolon \<longleftrightarrow> c = semicolon" "tolower c = star \<longleftrightarrow> c = star" "tolower c = query \<longleftrightarrow> c = query" "isspace (tolower c) = isspace c" by blast+
qed

lemma dropWhile_map_isspace: "dropWhile isspace (map tolower xs) = map tolower (dropWhile isspace xs)"
  by (induction xs) auto

lemma strip_lower: "strip_spaces (map tolower xs) = map tolower (strip_spaces xs)"
  by (simp add: strip_spaces_def dropWhile_map_isspace rev_map)

lemma covers_lower: "covers (=) (map tolower pattern) (map tolower name) \<longleftrightarrow> covers (\<lambda>p c. tolower p = tolower c) pattern name"
proof (induction pattern arbitrary: name)
  case (Cons p pattern)
  show ?case
  proof (cases "p = star")
    case True
    then have t: "map tolower (p # pattern) = star # map tolower pattern" by simp
    have "(\<exists>pre rest. map tolower name = pre @ rest \<and> covers (=) (map tolower pattern) rest) \<longleftrightarrow>
        (\<exists>pre rest. name = pre @ rest \<and> covers (=) (map tolower pattern) (map tolower rest))"
    proof
      assume "\<exists>pre rest. map tolower name = pre @ rest \<and> covers (=) (map tolower pattern) rest"
      then show "\<exists>pre rest. name = pre @ rest \<and> covers (=) (map tolower pattern) (map tolower rest)"
        by (auto simp: map_eq_append_conv)
    next
      assume "\<exists>pre rest. name = pre @ rest \<and> covers (=) (map tolower pattern) (map tolower rest)"
      then obtain pre rest where "name = pre @ rest" "covers (=) (map tolower pattern) (map tolower rest)" by blast
      then show "\<exists>pre rest. map tolower name = pre @ rest \<and> covers (=) (map tolower pattern) rest"
        by (intro exI [of _ "map tolower pre"] exI [of _ "map tolower rest"]) simp
    qed
    then show ?thesis unfolding t covers_star using Cons.IH by (simp add: True covers_star)
  next
    case False
    then have "tolower p \<noteq> star" by simp
    then show ?thesis using False Cons.IH
      by (cases name) (auto simp: covers_one)
  qed
qed simp

lemma fields_lower: "is_field (map tolower ign) field \<longleftrightarrow> (\<exists>f. field = map tolower f \<and> is_field ign f)"
proof (induction ign rule: length_induct)
  case (1 ign)
  show ?case
  proof (cases "semicolon \<in> set ign")
    case False
    then have "semicolon \<notin> set (map tolower ign)" using tolower_special(1) by (metis imageE list.set_map)
    with False show ?thesis by (simp add: is_field_last)
  next
    case True
    then obtain as bs where as: "ign = as @ semicolon # bs" "semicolon \<notin> set as" by (meson split_list_first)
    have "tolower semicolon = semicolon" by simp
    moreover have "semicolon \<notin> set (map tolower as)" using as(2) tolower_special(1) by (metis imageE list.set_map)
    moreover have "is_field (map tolower bs) field \<longleftrightarrow> (\<exists>f. field = map tolower f \<and> is_field bs f)" using 1 as(1) by simp
    moreover have "map tolower ign = map tolower as @ semicolon # map tolower bs" using as(1) calculation(1) by simp
    ultimately show ?thesis unfolding as(1) is_field_step [OF as(2)] by (metis is_field_step)
  qed
qed

text \<open>
  C30. A name is ignored exactly when one of the patterns between the semicolons, without the white space around it, stands
  for the whole name, where a star stands for any characters, a question mark for one, and letters are compared
  without regard to case. The search with \<open>strchr\<close> and the recursion lose no match, and they end.
\<close>

theorem name_to_ignore_exact:
  "psync_is_name_to_ignore (lower_patterns ignorepatterns) name \<longleftrightarrow>
     (\<exists>field. is_field ignorepatterns field \<and> covers (\<lambda>p c. tolower p = tolower c) (strip_spaces field) name)"
  by (auto simp: psync_is_name_to_ignore_def psync_is_lname_to_ignore_def lower_patterns_def ignore_loop_correct fields_lower strip_lower covers_lower)

subsection \<open>UTF-8\<close>

definition trailing :: "int list" where
  "trailing = replicate 128 0 @ replicate 64 (-1) @ replicate 32 1 @ replicate 16 2 @ replicate 8 3 @ replicate 8 (-1)"

text \<open>
  The inner loop over \<open>t\<close> trailing bytes: the rest, or \<open>None\<close> for the return of 0. At the end of the list the code reads
  the terminating zero, which is no trailing byte.
\<close>

fun trailing_bytes :: "nat \<Rightarrow> bytes \<Rightarrow> bytes option" where
  "trailing_bytes 0 str = Some str"
| "trailing_bytes (Suc t) str =
     (let b = (case str of [] \<Rightarrow> 0 | b # _ \<Rightarrow> b) in if b AND 0xc0 \<noteq> 0x80 then None else trailing_bytes t (tl str))"

lemma trailing_bytes_length: "trailing_bytes t str = Some rest \<Longrightarrow> length rest \<le> length str"
  by (induction t str rule: trailing_bytes.induct) (auto simp: Let_def split: if_splits)

function psync_is_valid_utf8 :: "bytes \<Rightarrow> bool" where
  "psync_is_valid_utf8 [] = True"
| "psync_is_valid_utf8 (b # str) =
     (let t = trailing ! unat b
      in if t \<noteq> 0
         then if t < 0 then False
              else (case trailing_bytes (nat t) str of None \<Rightarrow> False | Some str \<Rightarrow> psync_is_valid_utf8 str)
         else psync_is_valid_utf8 str)"
  by pat_completeness auto
termination
  by (relation "measure length") (auto dest: trailing_bytes_length simp: less_Suc_eq_le)

text \<open>What a sequence of bytes for one character looks like: a first byte that tells the number of trailing bytes.\<close>

definition trailing_count :: "u8 \<Rightarrow> nat option" where
  "trailing_count b = (if b < 0x80 then Some 0 else if b < 0xc0 then None else if b < 0xe0 then Some 1 else if b < 0xf0 then Some 2
     else if b < 0xf8 then Some 3 else None)"

definition utf8_sequence :: "bytes \<Rightarrow> bool" where
  "utf8_sequence bs \<longleftrightarrow> (\<exists>b cs. bs = b # cs \<and> trailing_count b = Some (length cs) \<and> (\<forall>c \<in> set cs. 0x80 \<le> c \<and> c < 0xc0))"

lemma trailing_table: "trailing ! unat (b :: u8) = (case trailing_count b of None \<Rightarrow> - 1 | Some n \<Rightarrow> int n)"
proof -
  have "unat b < 256" using unsigned_less [of b] by simp
  then show ?thesis
    by (auto simp: trailing_def nth_append trailing_count_def word_less_nat_alt)
qed

lemma is_trailing: "(b :: u8) AND 0xc0 = 0x80 \<longleftrightarrow> 0x80 \<le> b \<and> b < 0xc0"
proof -
  have "(0xc0 :: u8) = push_bit 6 (mask 2)" by (simp add: mask_eq_exp_minus_1 push_bit_eq_mult)
  moreover have "b AND push_bit 6 (mask 2) = push_bit 6 (drop_bit 6 b)" by (intro bit_word_eqI) (auto simp: bit_simps)
  ultimately have e: "b AND 0xc0 = push_bit 6 (drop_bit 6 b)" by metis
  have b: "unat b < 256" using unsigned_less [of b] by simp
  have "unat (b AND 0xc0) = unat (push_bit 6 (drop_bit 6 b))" by (simp only: e)
  also have "\<dots> = take_bit 8 (push_bit 6 (drop_bit 6 (unat b)))" using b take_bit_nat_eq_self [of "unat b" 8]
    by (simp only: unsigned_push_bit_eq unsigned_drop_bit_eq) simp
  also have "\<dots> = (unat b div 64 * 64) mod 256" by (simp only: take_bit_eq_mod push_bit_eq_mult drop_bit_eq_div) simp
  finally have u: "unat (b AND 0xc0) = unat b div 64 * 64 mod 256" .
  have "n div 64 * 64 mod 256 = 128 \<longleftrightarrow> 128 \<le> n \<and> n < 192" if "n < 256" for n :: nat
  proof -
    define q r where "q = n div 64" and "r = n mod 64"
    have n: "n = 64 * q + r" "r < 64" by (simp_all add: q_def r_def)
    then have "q * 64 < 256" using that by linarith
    then have "n div 64 * 64 mod 256 = q * 64" by (simp add: q_def)
    moreover have "q = 2" if "128 \<le> n" "n < 192"
    proof -
      have "1 < q" "q < 3" using n that by linarith+
      then show ?thesis by simp
    qed
    ultimately show ?thesis using n by auto
  qed
  then show ?thesis using b u by (simp add: word_unat_eq_iff word_le_nat_alt word_less_nat_alt)
qed

lemma trailing_bytes_correct:
  "trailing_bytes n str = Some rest \<longleftrightarrow> (\<exists>cs. str = cs @ rest \<and> length cs = n \<and> (\<forall>c \<in> set cs. 0x80 \<le> c \<and> c < 0xc0))"
proof (induction n str rule: trailing_bytes.induct)
  case (2 n str)
  show ?case
  proof (cases str)
    case Nil
    then show ?thesis by (simp add: Let_def)
  next
    case (Cons b bs)
    then show ?thesis
      using 2 by (auto simp: Let_def is_trailing length_Suc_conv Cons_eq_append_conv)
  qed
qed auto

text \<open>
  The test for UTF-8 accepts exactly the sequences of characters whose first byte is followed by the number of trailing
  bytes that it tells, and reads no byte behind the terminating zero. It does not look at the value of a character, so
  that overlong forms and surrogates pass too.
\<close>

theorem valid_utf8_exact:
  "psync_is_valid_utf8 str \<longleftrightarrow> (\<exists>seqs. str = concat seqs \<and> (\<forall>s \<in> set seqs. utf8_sequence s))"
proof (induction str rule: psync_is_valid_utf8.induct)
  case 1
  show ?case by (auto intro: exI [of _ "[]"])
next
  case (2 b str)
  have step: "(\<exists>seqs. b # str = concat seqs \<and> (\<forall>s \<in> set seqs. utf8_sequence s)) \<longleftrightarrow>
    (\<exists>cs rest. str = cs @ rest \<and> utf8_sequence (b # cs) \<and> (\<exists>seqs. rest = concat seqs \<and> (\<forall>s \<in> set seqs. utf8_sequence s)))" (is "?l = ?r")
  proof
    assume ?l
    then obtain seqs where s: "b # str = concat seqs" "\<forall>s \<in> set seqs. utf8_sequence s" by blast
    then obtain q qs where q: "seqs = q # qs" by (cases seqs) auto
    then obtain c cs where "q = c # cs" using s(2) by (auto simp: utf8_sequence_def)
    then have "str = cs @ concat qs" "utf8_sequence (b # cs)" using s q by simp_all
    then show ?r using s(2) q by auto
  next
    assume ?r
    then obtain cs seqs where "str = cs @ concat seqs" "utf8_sequence (b # cs)" "\<forall>s \<in> set seqs. utf8_sequence s" by blast
    then show ?l by (intro exI [of _ "(b # cs) # seqs"]) simp
  qed
  show ?case
  proof (cases "trailing_count b")
    case None
    then show ?thesis unfolding step by (simp add: trailing_table utf8_sequence_def)
  next
    case (Some n)
    have u: "utf8_sequence (b # cs) \<longleftrightarrow> length cs = n \<and> (\<forall>c \<in> set cs. 0x80 \<le> c \<and> c < 0xc0)" for cs
      using Some by (auto simp: utf8_sequence_def)
    show ?thesis
    proof (cases n)
      case 0
      then show ?thesis unfolding step u using 2(2) [OF refl] Some by (simp add: trailing_table)
    next
      case (Suc m)
      then have t: "trailing ! unat b = int n" "int n \<noteq> 0" "\<not> int n < 0" using Some by (simp_all add: trailing_table)
      define S where "S rest \<longleftrightarrow> (\<exists>seqs. rest = concat seqs \<and> (\<forall>s \<in> set seqs. utf8_sequence s))" for rest
      have "psync_is_valid_utf8 (b # str) \<longleftrightarrow> (\<exists>rest. trailing_bytes n str = Some rest \<and> psync_is_valid_utf8 rest)"
        using t by (auto simp: Let_def split: option.splits)
      moreover have "psync_is_valid_utf8 rest \<longleftrightarrow> S rest" if "trailing_bytes n str = Some rest" for rest
        using 2(1) [OF refl] t that by (simp add: S_def)
      ultimately have "psync_is_valid_utf8 (b # str) \<longleftrightarrow> (\<exists>rest. trailing_bytes n str = Some rest \<and> S rest)" by metis
      then show ?thesis unfolding step u trailing_bytes_correct S_def [symmetric] by blast
    qed
  qed
qed

text \<open>An overlong zero and a surrogate pass.\<close>

lemma invalid_utf8_accepted: "psync_is_valid_utf8 [0xc0, 0x80] \<and> psync_is_valid_utf8 [0xed, 0xa0, 0x80]"
  by code_simp

subsection \<open>Numbers\<close>

fun ato_loop :: "'a :: len word \<Rightarrow> bytes \<Rightarrow> 'a word" where
  "ato_loop n [] = n"
| "ato_loop n (c # str) = (if 48 \<le> c \<and> c \<le> 57 then ato_loop (n * 10 + ucast c - 48) str else n)"

definition psync_ato64 :: "bytes \<Rightarrow> u64" where "psync_ato64 str = ato_loop 0 str"
definition psync_ato32 :: "bytes \<Rightarrow> u32" where "psync_ato32 str = ato_loop 0 str"

text \<open>The digits at the front of the string are read as a number that wraps around at the width.\<close>

definition digits_value :: "bytes \<Rightarrow> nat" where
  "digits_value ds = fold (\<lambda>c n. n * 10 + (unat c - 48)) ds 0"

lemma ato_loop_correct:
  "\<forall>c \<in> set ds. 48 \<le> c \<and> c \<le> 57 \<Longrightarrow> rest = [] \<or> \<not> (48 \<le> hd rest \<and> hd rest \<le> 57) \<Longrightarrow>
    ato_loop (word_of_nat n :: 'a :: len word) (ds @ rest) = word_of_nat (fold (\<lambda>c n. n * 10 + (unat c - 48)) ds n)"
proof (induction ds arbitrary: n)
  case Nil
  then show ?case by (cases rest) auto
next
  case (Cons c ds)
  have c: "48 \<le> unat c" using Cons.prems(1) by (simp add: word_le_nat_alt)
  then have "ucast c = (word_of_nat (unat c - 48) + 48 :: 'a word)" by (simp add: of_nat_diff)
  then have e: "word_of_nat n * 10 + ucast c - 48 = (word_of_nat (n * 10 + (unat c - 48)) :: 'a word)" by simp
  have "ato_loop (word_of_nat n :: 'a word) ((c # ds) @ rest) = ato_loop (word_of_nat n * 10 + ucast c - 48) (ds @ rest)" using Cons.prems(1) by simp
  also have "\<dots> = word_of_nat (fold (\<lambda>c n. n * 10 + (unat c - 48)) ds (n * 10 + (unat c - 48)))"
    unfolding e by (rule Cons.IH) (use Cons.prems in simp_all)
  finally show ?case by simp
qed

lemma psync_ato_correct:
  assumes "\<forall>c \<in> set ds. 48 \<le> c \<and> c \<le> 57" "rest = [] \<or> \<not> (48 \<le> hd rest \<and> hd rest \<le> 57)"
  shows "unat (psync_ato64 (ds @ rest)) = digits_value ds mod 2 ^ 64" "unat (psync_ato32 (ds @ rest)) = digits_value ds mod 2 ^ 32"
  using ato_loop_correct [OF assms, of 0, where 'a = 64] ato_loop_correct [OF assms, of 0, where 'a = 32]
  by (simp_all add: psync_ato64_def psync_ato32_def digits_value_def unsigned_of_nat take_bit_nat_def)

end
