(* ===== verification/PPageSort.thy ===== *)
theory PPageSort
  imports Prelude
begin

text \<open>
  \<open>pclsync/ppagecache.c\<close>, the selection and sorting of page cache entries: \<open>psync_qpartition\<close>
  (quickselect) and \<open>psync_pqsort\<close> (quicksort with an explicit stack, completed by one insertion
  sort of the leading part).

  An array is a list, a pointer into it the index of an element as an integer, because \<open>lo - size\<close>
  points before the array. A comparison outside of the array, a push on the full stack and a
  loop that does not end are the value \<open>None\<close>. The swap of two elements by words or by bytes has
  the same effect and is one definition.
\<close>

subsection \<open>Elements\<close>

definition QSORT_TRESH :: int where "QSORT_TRESH = 8"
definition QSORT_MTR :: int where "QSORT_MTR = 64"
definition QSORT_REC_M :: nat where "QSORT_REC_M = 16 * 1024"

type_synonym 'a compar = "'a \<Rightarrow> 'a \<Rightarrow> int"

definition at :: "'a list \<Rightarrow> int \<Rightarrow> 'a" where
  "at xs i = xs ! nat i"

definition inb :: "'a list \<Rightarrow> int \<Rightarrow> bool" where
  "inb xs i \<longleftrightarrow> 0 \<le> i \<and> i < int (length xs)"

definition pqsswap :: "'a list \<Rightarrow> int \<Rightarrow> int \<Rightarrow> 'a list" where
  "pqsswap xs i j = xs[nat i := at xs j, nat j := at xs i]"

subsection \<open>The pivot\<close>

definition rot :: "u32 \<Rightarrow> nat \<Rightarrow> u32" where
  "rot x k = push_bit k x OR drop_bit (32 - k) x"

type_synonym rnd = "u32 \<times> u32 \<times> u32 \<times> u32"

definition pq_seed :: rnd where
  "pq_seed = (0x95ae3d25, 0xe225d755, 0xc63a2ae7, 0xe4556265)"

definition pq_rnd :: "rnd \<Rightarrow> u32 \<times> rnd" where
  "pq_rnd g =
     (let (a, b, c, d) = g; e = a - rot b 27; a = b XOR rot c 17; b = c + d; c = d + e; d = e + a
      in (d, (a, b, c, d)))"

definition med5 :: "'a compar \<Rightarrow> 'a list \<Rightarrow> int \<Rightarrow> int \<Rightarrow> int \<Rightarrow> int \<Rightarrow> int \<Rightarrow> int option" where
  "med5 compar xs a b c d e =
     (if list_all (inb xs) [a, b, c, d, e] then
        (let (a, b) = (if compar (at xs b) (at xs a) < 0 then (b, a) else (a, b));
             (c, d) = (if compar (at xs d) (at xs c) < 0 then (d, c) else (c, d));
             (a, b, c, d) =
               (if compar (at xs a) (at xs c) < 0 then
                  (let a = e; (a, b) = (if compar (at xs b) (at xs a) < 0 then (b, a) else (a, b)) in (a, b, c, d))
                else
                  (let c = e; (c, d) = (if compar (at xs d) (at xs c) < 0 then (d, c) else (c, d)) in (a, b, c, d)));
             (a, c) = (if compar (at xs a) (at xs c) < 0 then (b, c) else (a, d))
         in Some (if compar (at xs a) (at xs c) < 0 then a else c))
      else None)"

text \<open>
  C leaves the order of the five argument evaluations open; here it is from left to right. The
  facts below hold for any pivot in the range.
\<close>

function pq_choose_part ::
    "'a compar \<Rightarrow> 'a list \<Rightarrow> int \<Rightarrow> nat \<Rightarrow> rnd \<Rightarrow> (int \<times> rnd) option" where
  "pq_choose_part compar xs base cnt g =
     (if QSORT_REC_M \<le> cnt then
        Option.bind (pq_choose_part compar xs base (cnt div 5) g) (\<lambda>(a, g).
        Option.bind (pq_choose_part compar xs (base + int (cnt div 5)) (cnt div 5) g) (\<lambda>(b, g).
        Option.bind (pq_choose_part compar xs (base + int (cnt div 5) * 2) (cnt div 5) g) (\<lambda>(c, g).
        Option.bind (pq_choose_part compar xs (base + int (cnt div 5) * 3) (cnt div 5) g) (\<lambda>(d, g).
        Option.bind (pq_choose_part compar xs (base + int (cnt div 5) * 4) (cnt div 5) g) (\<lambda>(e, g).
        Option.bind (med5 compar xs a b c d e) (\<lambda>m. Some (m, g)))))))
      else
        (let pick = (\<lambda>g. let (v, g) = pq_rnd g in (base + int (unat v mod cnt), g));
             (a, g) = pick g; (b, g) = pick g; (c, g) = pick g; (d, g) = pick g; (e, g) = pick g
         in Option.bind (med5 compar xs a b c d e) (\<lambda>m. Some (m, g))))"
  by pat_completeness auto
termination
  by (relation "measure (\<lambda>(compar, xs, base, cnt, g). cnt)") (simp_all add: QSORT_REC_M_def)

declare pq_choose_part.simps [simp del]

subsection \<open>Partitioning\<close>

function scan_up :: "'a compar \<Rightarrow> 'a list \<Rightarrow> int \<Rightarrow> int \<Rightarrow> int option" where
  "scan_up compar xs mid l =
     (let l = l + 1 in
      if \<not> inb xs l \<or> \<not> inb xs mid then None
      else if compar (at xs l) (at xs mid) < 0 then scan_up compar xs mid l
      else Some l)"
  by pat_completeness auto
termination
  by (relation "measure (\<lambda>(compar, xs, mid, l). nat (int (length xs) - l))") (auto simp: inb_def)

function scan_down :: "'a compar \<Rightarrow> 'a list \<Rightarrow> int \<Rightarrow> int \<Rightarrow> int option" where
  "scan_down compar xs mid r =
     (let r = r - 1 in
      if \<not> inb xs r \<or> \<not> inb xs mid then None
      else if compar (at xs mid) (at xs r) < 0 then scan_down compar xs mid r
      else Some r)"
  by pat_completeness auto
termination
  by (relation "measure (\<lambda>(compar, xs, mid, r). nat r)") (auto simp: inb_def)

declare scan_up.simps [simp del] scan_down.simps [simp del]

lemma scan_up_greater: "scan_up compar xs mid l = Some l' \<Longrightarrow> l < l'"
  by (induction compar xs mid l rule: scan_up.induct) (subst (asm) (2) scan_up.simps, force simp: Let_def split: if_splits)

lemma scan_down_less: "scan_down compar xs mid r = Some r' \<Longrightarrow> r' < r"
  by (induction compar xs mid r rule: scan_down.induct) (subst (asm) (2) scan_down.simps, force simp: Let_def split: if_splits)

text \<open>The exchange loop, the same text in both functions.\<close>

function part_loop :: "'a compar \<Rightarrow> 'a list \<Rightarrow> int \<Rightarrow> int \<Rightarrow> int \<Rightarrow> ('a list \<times> int) option" where
  "part_loop compar xs mid l r =
     (case scan_up compar xs mid l of
        None \<Rightarrow> None
      | Some l' \<Rightarrow>
          (case scan_down compar xs mid r of
             None \<Rightarrow> None
           | Some r' \<Rightarrow>
               if l' \<ge> r' then Some (xs, mid)
               else if mid = l' then part_loop compar (pqsswap xs l' r') r' l' (r' + 1)
               else if mid = r' then part_loop compar (pqsswap xs l' r') l' (l' - 1) r'
               else part_loop compar (pqsswap xs l' r') mid l' r'))"
  by pat_completeness auto
termination
  by (relation "measure (\<lambda>(compar, xs, mid, l, r). nat (r - l))") (auto dest!: scan_up_greater scan_down_less)

declare part_loop.simps [simp del]

text \<open>The choice of the pivot; the result holds the array, \<open>mid\<close>, \<open>l\<close> and \<open>r\<close>.\<close>

definition order3 :: "'a compar \<Rightarrow> 'a list \<Rightarrow> int \<Rightarrow> int \<Rightarrow> int \<Rightarrow> 'a list option" where
  "order3 compar xs lo mid hi =
     (if inb xs lo \<and> inb xs mid \<and> inb xs hi then
        (let xs = (if compar (at xs mid) (at xs lo) < 0 then pqsswap xs mid lo else xs)
         in Some (if compar (at xs hi) (at xs mid) < 0 then
                    (let xs = pqsswap xs mid hi
                     in if compar (at xs mid) (at xs lo) < 0 then pqsswap xs mid lo else xs)
                  else xs))
      else None)"

partial_function (option) qpartition_loop ::
    "'a compar \<Rightarrow> int \<Rightarrow> 'a list \<Rightarrow> rnd \<Rightarrow> int \<Rightarrow> int \<Rightarrow> ('a list \<times> rnd) option" where
  "qpartition_loop compar sf xs g lo hi =
     (if hi < lo then None
      else if hi - lo \<le> QSORT_MTR then
        (let mid = lo + (hi - lo) div 2 in
         Option.bind (order3 compar xs lo mid hi) (\<lambda>xs.
         if hi - lo \<le> 2 then Some (xs, g)
         else Option.bind (part_loop compar xs mid lo hi) (\<lambda>(xs, mid).
           if mid < sf then qpartition_loop compar sf xs g (mid + 1) hi
           else if sf < mid then qpartition_loop compar sf xs g lo (mid - 1)
           else Some (xs, g))))
      else
        Option.bind (pq_choose_part compar xs lo (nat (hi - lo)) g) (\<lambda>(mid, g).
        Option.bind (part_loop compar xs mid (lo - 1) (hi + 1)) (\<lambda>(xs, mid).
          if mid < sf then qpartition_loop compar sf xs g (mid + 1) hi
          else if sf < mid then qpartition_loop compar sf xs g lo (mid - 1)
          else Some (xs, g))))"

definition psync_qpartition ::
    "'a compar \<Rightarrow> 'a list \<Rightarrow> nat \<Rightarrow> rnd \<Rightarrow> ('a list \<times> rnd) option" where
  "psync_qpartition compar xs sort_first g =
     (if length xs \<le> 1 then Some (xs, g)
      else qpartition_loop compar (int sort_first) xs g 0 (int (length xs) - 1))"

subsection \<open>Sorting\<close>

text \<open>
  The main loop; \<open>stk\<close> holds the slots of \<open>stack\<close> from \<open>top - 1\<close> down to the second one, whose
  index is 1: when it is empty and \<open>top\<close> reaches \<open>stack\<close>, the loop ends.
\<close>

partial_function (option) pqsort_loop ::
    "'a compar \<Rightarrow> int \<Rightarrow> 'a list \<Rightarrow> rnd \<Rightarrow> int \<Rightarrow> int \<Rightarrow> (int \<times> int) list \<Rightarrow> ('a list \<times> rnd) option" where
  "pqsort_loop compar sf xs g lo hi stk =
     (if hi < lo then None
      else Option.bind
        (if hi - lo \<le> QSORT_MTR then
           (let mid = lo + (hi - lo) div 2 in
            Option.bind (order3 compar xs lo mid hi) (\<lambda>xs.
            Option.bind (part_loop compar xs mid lo hi) (\<lambda>(xs, mid). Some (xs, mid, g))))
         else
           Option.bind (pq_choose_part compar xs lo (nat (hi - lo)) g) (\<lambda>(mid, g).
           Option.bind (part_loop compar xs mid (lo - 1) (hi + 1)) (\<lambda>(xs, mid). Some (xs, mid, g))))
        (\<lambda>(xs, mid, g).
         if hi - mid \<le> QSORT_TRESH \<or> sf \<le> mid then
           (if mid - lo \<le> QSORT_TRESH then
              (case stk of
                 [] \<Rightarrow> Some (xs, g)
               | (lo, hi) # stk \<Rightarrow> pqsort_loop compar sf xs g lo hi stk)
            else pqsort_loop compar sf xs g lo (mid - 1) stk)
         else if mid - lo \<le> QSORT_TRESH then pqsort_loop compar sf xs g (mid + 1) hi stk
         else if length stk + 1 \<ge> 64 then None
         else if hi - mid < mid - lo then pqsort_loop compar sf xs g (mid + 1) hi ((lo, mid - 1) # stk)
         else pqsort_loop compar sf xs g lo (mid - 1) ((mid + 1, hi) # stk)))"

text \<open>The smallest of the elements up to \<open>r\<close>.\<close>

fun min_loop :: "'a compar \<Rightarrow> 'a list \<Rightarrow> nat \<Rightarrow> nat list \<Rightarrow> nat" where
  "min_loop compar xs lo [] = lo"
| "min_loop compar xs lo (l # ls) = min_loop compar xs (if compar (xs ! l) (xs ! lo) < 0 then l else lo) ls"

text \<open>The search for the place of element \<open>l\<close> has no lower bound of its own.\<close>

function insert_pos :: "'a compar \<Rightarrow> 'a list \<Rightarrow> int \<Rightarrow> int \<Rightarrow> int option" where
  "insert_pos compar xs l lo =
     (if \<not> inb xs lo \<or> \<not> inb xs l then None
      else if compar (at xs l) (at xs lo) < 0 then insert_pos compar xs l (lo - 1)
      else Some (lo + 1))"
  by pat_completeness auto
termination
  by (relation "measure (\<lambda>(compar, xs, l, lo). nat (lo + 1))") (auto simp: inb_def)

declare insert_pos.simps [simp del]

text \<open>Element \<open>l\<close> moves to \<open>lo\<close>, the ones between by one place.\<close>

definition rotate_in :: "'a list \<Rightarrow> nat \<Rightarrow> nat \<Rightarrow> 'a list" where
  "rotate_in xs lo l = take lo xs @ xs ! l # drop lo (take l xs) @ drop (l + 1) xs"

fun insertion_loop :: "'a compar \<Rightarrow> 'a list \<Rightarrow> nat list \<Rightarrow> 'a list option" where
  "insertion_loop compar xs [] = Some xs"
| "insertion_loop compar xs (l # ls) =
     Option.bind (insert_pos compar xs (int l) (int l - 1)) (\<lambda>lo.
       insertion_loop compar (if lo \<noteq> int l then rotate_in xs (nat lo) l else xs) ls)"

definition insertion_phase :: "'a compar \<Rightarrow> nat \<Rightarrow> nat \<Rightarrow> 'a list \<Rightarrow> 'a list option" where
  "insertion_phase compar sort_first esize xs =
     (let hi = min (length xs - 1) (sort_first + nat QSORT_TRESH);
          r = min hi ((nat QSORT_TRESH * esize + 4) div esize);
          lo = min_loop compar xs 0 [1..<r + 1];
          xs = pqsswap xs 0 (int lo)
      in insertion_loop compar xs [2..<hi + 1])"

definition psync_pqsort ::
    "'a compar \<Rightarrow> 'a list \<Rightarrow> nat \<Rightarrow> nat \<Rightarrow> rnd \<Rightarrow> ('a list \<times> rnd) option" where
  "psync_pqsort compar xs sort_first esize g =
     (if int (length xs) > QSORT_TRESH then
        Option.bind (pqsort_loop compar (int sort_first) xs g 0 (int (length xs) - 1) []) (\<lambda>(xs, g).
          Option.bind (insertion_phase compar sort_first esize xs) (\<lambda>xs. Some (xs, g)))
      else if length xs \<le> 1 then Some (xs, g)
      else Option.bind (insertion_phase compar sort_first esize xs) (\<lambda>xs. Some (xs, g)))"

subsection \<open>Comparison functions\<close>

text \<open>What the routines need of \<open>compar\<close>: on the elements of the array it is a total preorder.\<close>

definition le_by :: "'a compar \<Rightarrow> 'a \<Rightarrow> 'a \<Rightarrow> bool" where
  "le_by compar a b \<longleftrightarrow> \<not> compar b a < 0"

locale comparator =
  fixes compar :: "'a compar" and ok :: "'a \<Rightarrow> bool"
  assumes compar_asym: "ok a \<Longrightarrow> ok b \<Longrightarrow> compar a b < 0 \<Longrightarrow> le_by compar a b"
    and compar_trans: "ok a \<Longrightarrow> ok b \<Longrightarrow> ok c \<Longrightarrow> le_by compar a b \<Longrightarrow> le_by compar b c \<Longrightarrow> le_by compar a c"
begin

lemma le_total: "ok a \<Longrightarrow> ok b \<Longrightarrow> le_by compar a b \<or> le_by compar b a"
  using compar_asym by (auto simp: le_by_def)

lemma le_refl: "ok a \<Longrightarrow> le_by compar a a"
  using le_total by blast

end

subsection \<open>Exchanges within a range\<close>

lemma length_pqsswap [simp]: "length (pqsswap xs i j) = length xs"
  by (simp add: pqsswap_def)

lemma inb_pqsswap [simp]: "inb (pqsswap xs i j) k = inb xs k"
  by (simp add: inb_def)

lemma at_pqsswap:
  "inb xs i \<Longrightarrow> inb xs j \<Longrightarrow> inb xs k \<Longrightarrow>
     at (pqsswap xs i j) k = (if k = j then at xs i else if k = i then at xs j else at xs k)"
  by (auto simp: pqsswap_def at_def inb_def nth_list_update)

lemma mset_pqsswap [simp]: "inb xs i \<Longrightarrow> inb xs j \<Longrightarrow> mset (pqsswap xs i j) = mset xs"
  by (simp add: pqsswap_def at_def inb_def mset_swap nat_less_iff)

definition perm_in :: "int \<Rightarrow> int \<Rightarrow> 'a list \<Rightarrow> 'a list \<Rightarrow> bool" where
  "perm_in lo hi xs ys \<longleftrightarrow> mset ys = mset xs \<and> at ys ` {lo..hi} = at xs ` {lo..hi} \<and>
     (\<forall>k. inb xs k \<and> (k < lo \<or> hi < k) \<longrightarrow> at ys k = at xs k)"

lemma perm_in_length: "perm_in lo hi xs ys \<Longrightarrow> length ys = length xs"
  by (metis perm_in_def size_mset)

lemma perm_in_refl [simp]: "perm_in lo hi xs xs"
  by (simp add: perm_in_def)

lemma perm_in_trans: "perm_in lo hi xs ys \<Longrightarrow> perm_in lo hi ys zs \<Longrightarrow> perm_in lo hi xs zs"
  using perm_in_length [of lo hi xs ys] by (simp add: perm_in_def inb_def)

lemma perm_in_swap:
  assumes "0 \<le> lo" "hi < int (length xs)" "i \<in> {lo..hi}" "j \<in> {lo..hi}"
  shows "perm_in lo hi xs (pqsswap xs i j)"
proof -
  have b: "inb xs k" if "k \<in> {lo..hi}" for k using assms that by (auto simp: inb_def)
  have "at (pqsswap xs i j) ` {lo..hi} = at xs ` {lo..hi}"
  proof (intro equalityI subsetI)
    fix x assume "x \<in> at (pqsswap xs i j) ` {lo..hi}"
    then show "x \<in> at xs ` {lo..hi}"
      using assms(3,4) b by (auto simp: at_pqsswap split: if_splits)
  next
    fix x assume "x \<in> at xs ` {lo..hi}"
    then obtain k where k: "k \<in> {lo..hi}" "x = at xs k" by auto
    define k' where "k' = (if k = i then j else if k = j then i else k)"
    have "k' \<in> {lo..hi}" "at (pqsswap xs i j) k' = x"
      using k assms(3,4) b by (auto simp: k'_def at_pqsswap)
    then show "x \<in> at (pqsswap xs i j) ` {lo..hi}" by blast
  qed
  then show ?thesis
    using assms b by (auto simp: perm_in_def at_pqsswap)
qed

lemma perm_in_widen:
  assumes "perm_in lo hi xs ys" "lo' \<le> lo" "hi \<le> hi'" "0 \<le> lo'" "hi' < int (length xs)" "lo \<le> hi"
  shows "at ys ` {lo'..hi'} = at xs ` {lo'..hi'}"
proof -
  have "{lo'..hi'} = {lo'..<lo} \<union> {lo..hi} \<union> {hi<..hi'}" using assms by auto
  moreover have "at ys ` {lo'..<lo} = at xs ` {lo'..<lo}" "at ys ` {hi<..hi'} = at xs ` {hi<..hi'}"
    by (rule image_cong; use assms in \<open>auto simp: perm_in_def inb_def\<close>)+
  ultimately show ?thesis using assms(1) by (simp add: image_Un perm_in_def)
qed

text \<open>
  The array is cut at \<open>k\<close> when nothing before \<open>k\<close> is greater than anything from \<open>k\<close> on; exchanges on
  one side of the cut keep it.
\<close>

definition cut_at :: "'a compar \<Rightarrow> 'a list \<Rightarrow> int \<Rightarrow> bool" where
  "cut_at compar xs k \<longleftrightarrow>
     (\<forall>i \<in> {0..k - 1}. \<forall>j \<in> {k..int (length xs) - 1}. inb xs i \<longrightarrow> inb xs j \<longrightarrow> le_by compar (at xs i) (at xs j))"

lemma cut_atD: "cut_at compar xs k \<Longrightarrow> 0 \<le> i \<Longrightarrow> i < k \<Longrightarrow> k \<le> j \<Longrightarrow> j < int (length xs) \<Longrightarrow> le_by compar (at xs i) (at xs j)"
  by (auto simp: cut_at_def inb_def)

lemma cut_perm:
  assumes p: "perm_in lo hi xs ys" and b: "0 \<le> lo" "lo \<le> hi" "hi < int (length xs)" and c: "cut_at compar xs k"
    and k: "k \<le> lo \<or> hi < k"
  shows "cut_at compar ys k"
proof -
  have len: "length ys = length xs" using p by (rule perm_in_length)
  have *: "le_by compar (at ys i) (at ys j)" if i: "0 \<le> i" "i < k" and j: "k \<le> j" "j < int (length xs)" for i j
  proof -
    have "\<exists>i'. 0 \<le> i' \<and> i' < k \<and> at xs i' = at ys i \<and> i' < int (length xs)"
    proof (cases "i \<in> {lo..hi}")
      case True
      then have "at ys i \<in> at xs ` {lo..hi}" using p by (auto simp: perm_in_def)
      then obtain i' where "i' \<in> {lo..hi}" "at xs i' = at ys i" by auto
      then show ?thesis using k i b True by (intro exI [of _ i']) auto
    next
      case False
      then have "at ys i = at xs i" using p i j by (auto simp: perm_in_def inb_def)
      then show ?thesis using i j by (metis order.strict_trans1 order_less_le_trans less_le_not_le)
    qed
    moreover have "\<exists>j'. k \<le> j' \<and> j' < int (length xs) \<and> at xs j' = at ys j"
    proof (cases "j \<in> {lo..hi}")
      case True
      then have "at ys j \<in> at xs ` {lo..hi}" using p by (auto simp: perm_in_def)
      then obtain j' where "j' \<in> {lo..hi}" "at xs j' = at ys j" by auto
      then show ?thesis using k j b True by (intro exI [of _ j']) auto
    next
      case False
      then have "at ys j = at xs j" using p i j by (auto simp: perm_in_def inb_def)
      then show ?thesis using j by metis
    qed
    ultimately show ?thesis using cut_atD [OF c] by metis
  qed
  then show ?thesis by (auto simp: cut_at_def len)
qed

subsection \<open>The partition\<close>

lemma scan_up_step:
  "scan_up compar xs mid l =
     (if \<not> inb xs (l + 1) \<or> \<not> inb xs mid then None
      else if compar (at xs (l + 1)) (at xs mid) < 0 then scan_up compar xs mid (l + 1) else Some (l + 1))"
  by (subst scan_up.simps) (simp add: Let_def)

lemma scan_down_step:
  "scan_down compar xs mid r =
     (if \<not> inb xs (r - 1) \<or> \<not> inb xs mid then None
      else if compar (at xs mid) (at xs (r - 1)) < 0 then scan_down compar xs mid (r - 1) else Some (r - 1))"
  by (subst scan_down.simps) (simp add: Let_def)

context comparator
begin

lemma at_ok: "\<forall>x \<in> set xs. ok x \<Longrightarrow> inb xs i \<Longrightarrow> ok (at xs i)"
  by (simp add: at_def inb_def nat_less_iff)

text \<open>The pivot stops both scans.\<close>

lemma scan_up_correct:
  assumes "\<forall>x \<in> set xs. ok x" "- 1 \<le> l" "l < mid" "inb xs mid"
  shows "\<exists>l'. scan_up compar xs mid l = Some l' \<and> l < l' \<and> l' \<le> mid \<and>
    (\<forall>k. l < k \<and> k < l' \<longrightarrow> le_by compar (at xs k) (at xs mid)) \<and> le_by compar (at xs mid) (at xs l')"
  using assms(2,3)
proof (induction "nat (mid - l)" arbitrary: l rule: less_induct)
  case less
  have b: "inb xs (l + 1)" using less.prems assms(4) by (auto simp: inb_def)
  show ?case
  proof (cases "compar (at xs (l + 1)) (at xs mid) < 0")
    case True
    have ne: "l + 1 \<noteq> mid"
      using True le_refl [OF at_ok [OF assms(1,4)]] by (auto simp: le_by_def)
    have le: "le_by compar (at xs (l + 1)) (at xs mid)"
      using True compar_asym at_ok [OF assms(1)] b assms(4) by blast
    from ne less.prems have n: "nat (mid - (l + 1)) < nat (mid - l)" "- 1 \<le> l + 1" "l + 1 < mid" by auto
    from less.hyps [OF n] obtain l' where l': "scan_up compar xs mid (l + 1) = Some l'" "l + 1 < l'" "l' \<le> mid"
      "\<forall>k. l + 1 < k \<and> k < l' \<longrightarrow> le_by compar (at xs k) (at xs mid)" "le_by compar (at xs mid) (at xs l')" by blast
    have "le_by compar (at xs k) (at xs mid)" if "l < k" "k < l'" for k
      using le l'(4) that by (cases "k = l + 1") auto
    with l' True b assms(4) show ?thesis by (subst scan_up_step) auto
  next
    case False
    then show ?thesis using b assms(4) less.prems by (subst scan_up_step) (auto simp: le_by_def)
  qed
qed

lemma scan_down_correct:
  assumes "\<forall>x \<in> set xs. ok x" "r \<le> int (length xs)" "mid < r" "inb xs mid"
  shows "\<exists>r'. scan_down compar xs mid r = Some r' \<and> r' < r \<and> mid \<le> r' \<and>
    (\<forall>k. r' < k \<and> k < r \<longrightarrow> le_by compar (at xs mid) (at xs k)) \<and> le_by compar (at xs r') (at xs mid)"
  using assms(2,3)
proof (induction "nat (r - mid)" arbitrary: r rule: less_induct)
  case less
  have b: "inb xs (r - 1)" using less.prems assms(4) by (auto simp: inb_def)
  show ?case
  proof (cases "compar (at xs mid) (at xs (r - 1)) < 0")
    case True
    have ne: "r - 1 \<noteq> mid"
      using True le_refl [OF at_ok [OF assms(1,4)]] by (auto simp: le_by_def)
    have le: "le_by compar (at xs mid) (at xs (r - 1))"
      using True compar_asym at_ok [OF assms(1)] b assms(4) by blast
    from ne less.prems have n: "nat (r - 1 - mid) < nat (r - mid)" "r - 1 \<le> int (length xs)" "mid < r - 1" by auto
    from less.hyps [OF n] obtain r' where r': "scan_down compar xs mid (r - 1) = Some r'" "r' < r - 1" "mid \<le> r'"
      "\<forall>k. r' < k \<and> k < r - 1 \<longrightarrow> le_by compar (at xs mid) (at xs k)" "le_by compar (at xs r') (at xs mid)" by blast
    have "le_by compar (at xs mid) (at xs k)" if "r' < k" "k < r" for k
      using le r'(4) that by (cases "k = r - 1") auto
    with r' True b assms(4) show ?thesis by (subst scan_down_step) auto
  next
    case False
    then show ?thesis using b assms(4) less.prems by (subst scan_down_step) (auto simp: le_by_def)
  qed
qed

lemma part_loop_correct:
  assumes "\<forall>x \<in> set xs. ok x" "0 \<le> lo" "hi < int (length xs)" "lo - 1 \<le> l" "l < mid" "mid < r" "r \<le> hi + 1"
    and "\<forall>k \<in> {lo..l}. le_by compar (at xs k) (at xs mid)" "\<forall>k \<in> {r..hi}. le_by compar (at xs mid) (at xs k)"
  shows "\<exists>ys m. part_loop compar xs mid l r = Some (ys, m) \<and> m \<in> {lo..hi} \<and> perm_in lo hi xs ys \<and>
    (\<forall>k \<in> {lo..m}. le_by compar (at ys k) (at ys m)) \<and> (\<forall>k \<in> {m..hi}. le_by compar (at ys m) (at ys k))"
  using assms(1,3-)
proof (induction "nat (r - l)" arbitrary: xs mid l r rule: less_induct)
  case less
  note a = less.prems
  have im: "inb xs mid" using a assms(2) by (auto simp: inb_def)
  obtain l' where l': "scan_up compar xs mid l = Some l'" "l < l'" "l' \<le> mid"
    "\<forall>k. l < k \<and> k < l' \<longrightarrow> le_by compar (at xs k) (at xs mid)" "le_by compar (at xs mid) (at xs l')"
    using scan_up_correct [OF a(1) _ a(4) im] a assms(2) by auto
  obtain r' where r': "scan_down compar xs mid r = Some r'" "r' < r" "mid \<le> r'"
    "\<forall>k. r' < k \<and> k < r \<longrightarrow> le_by compar (at xs mid) (at xs k)" "le_by compar (at xs r') (at xs mid)"
    using scan_down_correct [OF a(1) _ a(5) im] a by auto
  have below: "le_by compar (at xs k) (at xs mid)" if "k \<in> {lo..<l'}" for k
    using that a(7) l'(4) by (cases "k \<le> l") auto
  have above: "le_by compar (at xs mid) (at xs k)" if "k \<in> {r'<..hi}" for k
    using that a(8) r'(4) by (cases "k \<ge> r") auto
  show ?case
  proof (cases "l' \<ge> r'")
    case True
    then have e: "l' = mid" "r' = mid" using l'(3) r'(3) by auto
    have "le_by compar (at xs mid) (at xs mid)" using le_refl [OF at_ok [OF a(1) im]] .
    then have "\<forall>k \<in> {lo..mid}. le_by compar (at xs k) (at xs mid)" "\<forall>k \<in> {mid..hi}. le_by compar (at xs mid) (at xs k)"
      using below above e by (metis atLeastAtMost_iff atLeastLessThan_iff order_le_less greaterThanAtMost_iff)+
    moreover have "part_loop compar xs mid l r = Some (xs, mid)"
      by (subst part_loop.simps) (simp add: l'(1) r'(1) True)
    ultimately show ?thesis using a by auto
  next
    case False
    define ys where "ys = pqsswap xs l' r'"
    have lr: "l' \<in> {lo..hi}" "r' \<in> {lo..hi}" "l' < r'" using a l' r' False by auto
    have p: "perm_in lo hi xs ys" unfolding ys_def using a(2) assms(2) lr by (intro perm_in_swap) auto
    have len: "length ys = length xs" by (simp add: ys_def)
    have ok: "\<forall>x \<in> set ys. ok x" using a(1) p by (metis perm_in_def mset_eq_setD)
    have at: "at ys k = (if k = r' then at xs l' else if k = l' then at xs r' else at xs k)" if "k \<in> {lo..hi}" for k
      unfolding ys_def using a(2) assms(2) lr that by (intro at_pqsswap) (auto simp: inb_def)
    define mid' where "mid' = (if mid = l' then r' else if mid = r' then l' else mid)"
    define l'' where "l'' = (if mid = r' \<and> mid \<noteq> l' then l' - 1 else l')"
    define r'' where "r'' = (if mid = l' then r' + 1 else r')"
    have run: "part_loop compar xs mid l r = part_loop compar ys mid' l'' r''"
      using False l'(1) r'(1) by (subst part_loop.simps) (simp add: ys_def mid'_def l''_def r''_def)
    have piv: "at ys mid' = at xs mid" "mid' \<in> {lo..hi}"
      using at lr l'(3) r'(3) by (auto simp: mid'_def)
    have 1: "nat (r'' - l'') < nat (r - l)" "lo - 1 \<le> l''" "l'' < mid'" "mid' < r''" "r'' \<le> hi + 1"
      using a l' r' False by (auto simp: mid'_def l''_def r''_def split: if_splits)
    have 2: "le_by compar (at ys k) (at ys mid')" if "k \<in> {lo..l''}" for k
      using that below [of k] r'(5) at [of k] lr piv by (auto simp: l''_def split: if_splits)
    have 3: "le_by compar (at ys mid') (at ys k)" if "k \<in> {r''..hi}" for k
      using that above [of k] l'(5) at [of k] lr piv by (auto simp: r''_def split: if_splits)
    have "\<exists>zs m. part_loop compar ys mid' l'' r'' = Some (zs, m) \<and> m \<in> {lo..hi} \<and> perm_in lo hi ys zs \<and>
      (\<forall>k \<in> {lo..m}. le_by compar (at zs k) (at zs m)) \<and> (\<forall>k \<in> {m..hi}. le_by compar (at zs m) (at zs k))"
      by (rule less.hyps) (use 1 2 3 ok a(2) len in auto)
    then show ?thesis unfolding run using perm_in_trans [OF p] by blast
  qed
qed

end

lemma med5_in:
  "list_all (inb xs) [a, b, c, d, e] \<Longrightarrow> \<exists>m. med5 compar xs a b c d e = Some m \<and> m \<in> {a, b, c, d, e}"
  by (simp add: med5_def Let_def)

lemma pq_choose_part_small:
  assumes "cnt < QSORT_REC_M"
  shows "\<exists>r1 r2 r3 r4 r5 g'. pq_choose_part compar xs base cnt g =
     Option.bind (med5 compar xs (base + int (r1 mod cnt)) (base + int (r2 mod cnt)) (base + int (r3 mod cnt))
       (base + int (r4 mod cnt)) (base + int (r5 mod cnt))) (\<lambda>m. Some (m, g'))"
proof -
  obtain v1 g1 v2 g2 v3 g3 v4 g4 v5 g5 where
    "pq_rnd g = (v1, g1)" "pq_rnd g1 = (v2, g2)" "pq_rnd g2 = (v3, g3)" "pq_rnd g3 = (v4, g4)" "pq_rnd g4 = (v5, g5)"
    by (meson surj_pair)
  then show ?thesis using assms
    by (intro exI [of _ "unat v1"] exI [of _ "unat v2"] exI [of _ "unat v3"] exI [of _ "unat v4"] exI [of _ "unat v5"]
        exI [of _ g5], subst pq_choose_part.simps) (simp add: Let_def)
qed

lemma pq_choose_part_in:
  "0 < cnt \<Longrightarrow> 0 \<le> base \<Longrightarrow> base + int cnt \<le> int (length xs) \<Longrightarrow>
     \<exists>m g'. pq_choose_part compar xs base cnt g = Some (m, g') \<and> base \<le> m \<and> m < base + int cnt"
proof (induction cnt arbitrary: base g rule: less_induct)
  case (less cnt)
  show ?case
  proof (cases "QSORT_REC_M \<le> cnt")
    case True
    define c where "c = cnt div 5"
    have c: "0 < c" "c < cnt" "5 * int c \<le> int cnt" using True by (simp_all add: c_def QSORT_REC_M_def)
    have rec: "\<exists>m g'. pq_choose_part compar xs (base + int c * i) c g = Some (m, g') \<and>
        base \<le> m \<and> m < base + int cnt" if "0 \<le> i" "i \<le> 4" for i g
    proof -
      have i: "0 \<le> int c * i" "int c * i \<le> int c * 4" using that by (simp_all add: mult_left_mono)
      have "\<exists>m g'. pq_choose_part compar xs (base + int c * i) c g = Some (m, g') \<and>
          base + int c * i \<le> m \<and> m < base + int c * i + int c"
        by (rule less.IH) (use c i less.prems in linarith)+
      then obtain m g' where "pq_choose_part compar xs (base + int c * i) c g = Some (m, g')"
        "base + int c * i \<le> m" "m < base + int c * i + int c" by blast
      moreover have "base \<le> m" "m < base + int cnt" using calculation(2,3) c i by linarith+
      ultimately show ?thesis by blast
    qed
    obtain a g1 where 1: "pq_choose_part compar xs base c g = Some (a, g1)" "base \<le> a" "a < base + int cnt"
      using rec [of 0 g] by auto
    obtain b g2 where 2: "pq_choose_part compar xs (base + int c) c g1 = Some (b, g2)" "base \<le> b" "b < base + int cnt"
      using rec [of 1 g1] by auto
    obtain cc g3 where 3: "pq_choose_part compar xs (base + int c * 2) c g2 = Some (cc, g3)" "base \<le> cc" "cc < base + int cnt"
      using rec [of 2 g2] by auto
    obtain d g4 where 4: "pq_choose_part compar xs (base + int c * 3) c g3 = Some (d, g4)" "base \<le> d" "d < base + int cnt"
      using rec [of 3 g3] by auto
    obtain e g5 where 5: "pq_choose_part compar xs (base + int c * 4) c g4 = Some (e, g5)" "base \<le> e" "e < base + int cnt"
      using rec [of 4 g4] by auto
    have "list_all (inb xs) [a, b, cc, d, e]" using 1 2 3 4 5 less.prems by (auto simp: inb_def)
    from med5_in [OF this, of compar] obtain m where m: "med5 compar xs a b cc d e = Some m" "m \<in> {a, b, cc, d, e}" by blast
    have "pq_choose_part compar xs base cnt g = Some (m, g5)"
      using True 1(1) 2(1) 3(1) 4(1) 5(1) m(1)
      by (subst pq_choose_part.simps) (simp add: c_def)
    moreover have "base \<le> m \<and> m < base + int cnt" using m(2) 1(2,3) 2(2,3) 3(2,3) 4(2,3) 5(2,3) by auto
    ultimately show ?thesis by blast
  next
    case False
    then obtain r1 r2 r3 r4 r5 g' where r: "pq_choose_part compar xs base cnt g =
       Option.bind (med5 compar xs (base + int (r1 mod cnt)) (base + int (r2 mod cnt)) (base + int (r3 mod cnt))
         (base + int (r4 mod cnt)) (base + int (r5 mod cnt))) (\<lambda>m. Some (m, g'))"
      using pq_choose_part_small [of cnt compar xs base g] by auto
    have b: "base \<le> base + int (k mod cnt) \<and> base + int (k mod cnt) < base + int cnt" for k
      using less.prems(1) by simp
    have "inb xs (base + int (k mod cnt))" for k
      unfolding inb_def using b [of k] less.prems by linarith
    then have "list_all (inb xs) [base + int (r1 mod cnt), base + int (r2 mod cnt), base + int (r3 mod cnt),
        base + int (r4 mod cnt), base + int (r5 mod cnt)]" by simp
    from med5_in [OF this, of compar] obtain m where "med5 compar xs (base + int (r1 mod cnt)) (base + int (r2 mod cnt))
        (base + int (r3 mod cnt)) (base + int (r4 mod cnt)) (base + int (r5 mod cnt)) = Some m" "base \<le> m \<and> m < base + int cnt"
      using b by (metis insertE singletonD)
    then have "pq_choose_part compar xs base cnt g = Some (m, g')" unfolding r by simp
    then show ?thesis using \<open>base \<le> m \<and> m < base + int cnt\<close> by blast
  qed
qed

context comparator
begin

lemma order3_correct:
  assumes "\<forall>x \<in> set xs. ok x" "0 \<le> lo" "lo \<le> hi" "hi < int (length xs)"
  defines "mid \<equiv> lo + (hi - lo) div 2"
  shows "\<exists>ys. order3 compar xs lo mid hi = Some ys \<and> perm_in lo hi xs ys \<and>
    le_by compar (at ys lo) (at ys mid) \<and> le_by compar (at ys mid) (at ys hi)"
proof -
  have m: "lo \<le> mid" "mid \<le> hi" "mid = hi \<Longrightarrow> lo = hi" using assms(3) by (auto simp: mid_def)
  have b: "inb xs lo" "inb xs mid" "inb xs hi" using m assms(2-4) by (auto simp: inb_def)
  have o: "ok (at xs lo)" "ok (at xs mid)" "ok (at xs hi)" using b at_ok [OF assms(1)] by auto
  note total = compar_asym [OF o(1,2)] compar_asym [OF o(2,1)] compar_asym [OF o(1,3)] compar_asym [OF o(3,1)]
    compar_asym [OF o(2,3)] compar_asym [OF o(3,2)] le_refl [OF o(1)] le_refl [OF o(2)] le_refl [OF o(3)]
  have sw: "perm_in lo hi zs (pqsswap zs i j)" if "length zs = length xs" "i \<in> {lo..hi}" "j \<in> {lo..hi}" for zs :: "'a list" and i j
    using that assms(2,4) by (intro perm_in_swap) auto
  define x1 where "x1 = (if compar (at xs mid) (at xs lo) < 0 then pqsswap xs mid lo else xs)"
  define x2 where "x2 = (if compar (at x1 hi) (at x1 mid) < 0 then
      (let z = pqsswap x1 mid hi in if compar (at z mid) (at z lo) < 0 then pqsswap z mid lo else z) else x1)"
  have l1: "length x1 = length xs" by (simp add: x1_def)
  have i1: "inb x1 i = inb xs i" for i by (simp add: inb_def l1)
  have p1: "perm_in lo hi xs x1" unfolding x1_def using sw [of xs mid lo] m assms(3) by auto
  have p2: "perm_in lo hi x1 x2"
    unfolding x2_def Let_def using sw [of x1 mid hi] sw [of "pqsswap x1 mid hi" mid lo] m assms(3) l1
    by (auto intro: perm_in_trans)
  have run: "order3 compar xs lo mid hi = Some x2"
    unfolding order3_def x2_def x1_def Let_def using b by simp
  have ne: "mid \<noteq> lo \<and> hi \<noteq> lo \<and> hi \<noteq> mid" if "compar (at xs mid) (at xs lo) < 0"
  proof -
    have "mid \<noteq> lo" using that total(7) by (auto simp: le_by_def)
    then show ?thesis using m by auto
  qed
  have a1: "at x1 lo = (if compar (at xs mid) (at xs lo) < 0 then at xs mid else at xs lo)"
      "at x1 mid = (if compar (at xs mid) (at xs lo) < 0 then at xs lo else at xs mid)" "at x1 hi = at xs hi"
    using ne b by (simp_all add: x1_def at_pqsswap)
  have o1: "ok (at x1 lo)" "ok (at x1 mid)" "ok (at x1 hi)" using a1 o by auto
  have le1: "le_by compar (at x1 lo) (at x1 mid)" using a1 total(1) by (auto simp: le_by_def)
  have "le_by compar (at x2 lo) (at x2 mid) \<and> le_by compar (at x2 mid) (at x2 hi)"
  proof (cases "compar (at x1 hi) (at x1 mid) < 0")
    case False
    then show ?thesis using le1 by (simp add: x2_def le_by_def)
  next
    case True
    define z where "z = pqsswap x1 mid hi"
    have "mid \<noteq> hi" using True le_refl [OF o1(2)] by (auto simp: le_by_def)
    have lz: "inb z i = inb xs i" for i by (simp add: z_def i1)
    have az: "at z lo = (if mid = lo then at x1 hi else at x1 lo)" "at z mid = at x1 hi" "at z hi = at x1 mid"
      using b i1 m \<open>mid \<noteq> hi\<close> by (auto simp: z_def at_pqsswap)
    have hm: "le_by compar (at x1 hi) (at x1 mid)" using compar_asym [OF o1(3,2) True] .
    have x2: "x2 = (if compar (at z mid) (at z lo) < 0 then pqsswap z mid lo else z)"
      using True by (simp add: x2_def z_def Let_def)
    show ?thesis
    proof (cases "compar (at z mid) (at z lo) < 0")
      case False
      then show ?thesis using x2 az hm by (auto simp: le_by_def)
    next
      case True
      then have "mid \<noteq> lo" using az le_refl [OF o1(3)] by (auto simp: le_by_def)
      then have "lo \<noteq> hi" using m by auto
      have "at x2 lo = at x1 hi" "at x2 mid = at x1 lo" "at x2 hi = at x1 mid"
        using True x2 az b lz \<open>mid \<noteq> lo\<close> \<open>mid \<noteq> hi\<close> \<open>lo \<noteq> hi\<close> by (auto simp: at_pqsswap)
      then show ?thesis using le1 True az \<open>mid \<noteq> lo\<close> compar_asym [OF o1(3,1)] by simp
    qed
  qed
  then show ?thesis using run perm_in_trans [OF p1 p2] by blast
qed

text \<open>A partition of a block makes the place of the pivot a cut on both of its sides.\<close>

lemma partition_cuts:
  assumes "\<forall>x \<in> set ys. ok x" "0 \<le> lo" "hi < int (length ys)" "cut_at compar ys lo" "cut_at compar ys (hi + 1)" "m \<in> {lo..hi}"
    and "\<forall>k \<in> {lo..m}. le_by compar (at ys k) (at ys m)" "\<forall>k \<in> {m..hi}. le_by compar (at ys m) (at ys k)"
  shows "cut_at compar ys m \<and> cut_at compar ys (m + 1)"
proof -
  have im: "inb ys m" using assms by (auto simp: inb_def)
  have 1: "le_by compar (at ys i) (at ys m)" if "0 \<le> i" "i \<le> m" for i
    using that assms(3,6,7) cut_atD [OF assms(4), of i m] by (cases "i < lo") auto
  have 2: "le_by compar (at ys m) (at ys j)" if "m \<le> j" "j < int (length ys)" for j
    using that assms(2,6,8) cut_atD [OF assms(5), of m j] by (cases "hi < j") auto
  have "le_by compar (at ys i) (at ys j)" if "0 \<le> i" "i \<le> m" "m \<le> j" "j < int (length ys)" for i j
    using compar_trans [OF at_ok [OF assms(1)] at_ok [OF assms(1) im] at_ok [OF assms(1)] 1 2, of i j] that
    by (auto simp: inb_def)
  then show ?thesis by (auto simp: cut_at_def)
qed

text \<open>One round of either routine on the block from \<open>lo\<close> to \<open>hi\<close>.\<close>

definition round_ok :: "int \<Rightarrow> int \<Rightarrow> 'a list \<Rightarrow> 'a list \<Rightarrow> int \<Rightarrow> bool" where
  "round_ok lo hi xs ys m \<longleftrightarrow> perm_in lo hi xs ys \<and> m \<in> {lo..hi} \<and> cut_at compar ys m \<and> cut_at compar ys (m + 1)"

lemma block_perm:
  assumes "perm_in lo hi xs ys" "0 \<le> lo" "lo \<le> hi" "hi < int (length xs)" "cut_at compar xs lo" "cut_at compar xs (hi + 1)"
    "\<forall>x \<in> set xs. ok x"
  shows "cut_at compar ys lo" "cut_at compar ys (hi + 1)" "length ys = length xs" "\<forall>x \<in> set ys. ok x"
  using cut_perm [OF assms(1-4)] assms(5-7) perm_in_length [OF assms(1)] assms(1) mset_eq_setD
  by (fastforce simp: perm_in_def)+

lemma part_round:
  assumes "\<forall>x \<in> set xs. ok x" "0 \<le> lo" "lo \<le> hi" "hi < int (length xs)" "cut_at compar xs lo" "cut_at compar xs (hi + 1)"
    and "lo - 1 \<le> l" "l < mid" "mid < r" "r \<le> hi + 1"
    "\<forall>k \<in> {lo..l}. le_by compar (at xs k) (at xs mid)" "\<forall>k \<in> {r..hi}. le_by compar (at xs mid) (at xs k)"
  shows "\<exists>ys m. part_loop compar xs mid l r = Some (ys, m) \<and> round_ok lo hi xs ys m"
proof -
  obtain ys m where p: "part_loop compar xs mid l r = Some (ys, m)" "m \<in> {lo..hi}" "perm_in lo hi xs ys"
    "\<forall>k \<in> {lo..m}. le_by compar (at ys k) (at ys m)" "\<forall>k \<in> {m..hi}. le_by compar (at ys m) (at ys k)"
    using part_loop_correct [OF assms(1,2,4,7-12)] by blast
  note b = block_perm [OF p(3) assms(2-6,1)]
  have "cut_at compar ys m \<and> cut_at compar ys (m + 1)"
    by (rule partition_cuts [OF b(4) assms(2) _ b(1,2) p(2,4,5)]) (simp add: b(3) assms(4))
  with p show ?thesis by (auto simp: round_ok_def)
qed

lemma small_round:
  assumes "\<forall>x \<in> set xs. ok x" "0 \<le> lo" "lo + 2 \<le> hi" "hi < int (length xs)" "cut_at compar xs lo" "cut_at compar xs (hi + 1)"
  shows "\<exists>ys zs m. order3 compar xs lo (lo + (hi - lo) div 2) hi = Some ys \<and>
    part_loop compar ys (lo + (hi - lo) div 2) lo hi = Some (zs, m) \<and> round_ok lo hi xs zs m"
proof -
  have le: "lo \<le> hi" using assms(3) by simp
  obtain ys where y: "order3 compar xs lo (lo + (hi - lo) div 2) hi = Some ys" "perm_in lo hi xs ys"
    "le_by compar (at ys lo) (at ys (lo + (hi - lo) div 2))" "le_by compar (at ys (lo + (hi - lo) div 2)) (at ys hi)"
    using order3_correct [OF assms(1,2) le assms(4)] by blast
  note b = block_perm [OF y(2) assms(2) le assms(4-6,1)]
  have "\<exists>zs m. part_loop compar ys (lo + (hi - lo) div 2) lo hi = Some (zs, m) \<and> round_ok lo hi ys zs m"
    by (rule part_round [OF b(4) assms(2) le _ b(1,2)]) (use b(3) assms y in auto)
  then show ?thesis using y(1,2) perm_in_trans by (force simp: round_ok_def)
qed

lemma large_round:
  assumes "\<forall>x \<in> set xs. ok x" "0 \<le> lo" "lo < hi" "hi < int (length xs)" "cut_at compar xs lo" "cut_at compar xs (hi + 1)"
  shows "\<exists>mid g' zs m. pq_choose_part compar xs lo (nat (hi - lo)) g = Some (mid, g') \<and>
    part_loop compar xs mid (lo - 1) (hi + 1) = Some (zs, m) \<and> round_ok lo hi xs zs m"
proof -
  obtain mid g' where p: "pq_choose_part compar xs lo (nat (hi - lo)) g = Some (mid, g')" "lo \<le> mid" "mid < hi"
    using pq_choose_part_in [of "nat (hi - lo)" lo xs compar g] assms by auto
  have "\<exists>zs m. part_loop compar xs mid (lo - 1) (hi + 1) = Some (zs, m) \<and> round_ok lo hi xs zs m"
    by (rule part_round [OF assms(1,2) _ assms(4-6)]) (use p assms in auto)
  with p show ?thesis by blast
qed

end

subsection \<open>Selection\<close>

context comparator
begin

lemma round_block:
  assumes "round_ok lo hi xs ys m" "0 \<le> lo" "lo \<le> hi" "hi < int (length xs)" "cut_at compar xs lo" "cut_at compar xs (hi + 1)"
    "\<forall>x \<in> set xs. ok x"
  shows "cut_at compar ys lo" "cut_at compar ys (hi + 1)" "length ys = length xs" "\<forall>x \<in> set ys. ok x" "cut_at compar ys m"
    "cut_at compar ys (m + 1)" "lo \<le> m" "m \<le> hi" "mset ys = mset xs"
  using block_perm [OF _ assms(2-7), of ys] assms(1) by (auto simp: round_ok_def perm_in_def)

lemma qpartition_loop_correct:
  assumes "\<forall>x \<in> set xs. ok x" "0 \<le> lo" "lo \<le> sf" "sf \<le> hi" "hi < int (length xs)"
    "cut_at compar xs lo" "cut_at compar xs (hi + 1)"
  shows "\<exists>ys g'. qpartition_loop compar sf xs g lo hi = Some (ys, g') \<and> mset ys = mset xs \<and> cut_at compar ys sf"
  using assms
proof (induction "nat (hi - lo)" arbitrary: xs g lo hi rule: less_induct)
  case less
  note a = less.prems
  have le: "lo \<le> hi" using a by simp
  have continue: "\<exists>ys g'. (if m < sf then qpartition_loop compar sf zs g2 (m + 1) hi
        else if sf < m then qpartition_loop compar sf zs g2 lo (m - 1) else Some (zs, g2)) = Some (ys, g') \<and>
      mset ys = mset xs \<and> cut_at compar ys sf"
    if "round_ok lo hi xs zs m" for zs m and g2 :: rnd
  proof -
    note z = round_block [OF that a(2) le a(5,6,7,1)]
    consider "m < sf" | "sf < m" | "m = sf" by linarith
    then show ?thesis
    proof cases
      case 1
      have "\<exists>ys g'. qpartition_loop compar sf zs g2 (m + 1) hi = Some (ys, g') \<and> mset ys = mset zs \<and> cut_at compar ys sf"
        by (rule less.hyps) (use 1 z a in auto)
      with 1 z(9) show ?thesis by auto
    next
      case 2
      have "\<exists>ys g'. qpartition_loop compar sf zs g2 lo (m - 1) = Some (ys, g') \<and> mset ys = mset zs \<and> cut_at compar ys sf"
        by (rule less.hyps) (use 2 z a in auto)
      with 2 z(9) show ?thesis by auto
    next
      case 3
      then have "(if m < sf then qpartition_loop compar sf zs g2 (m + 1) hi
        else if sf < m then qpartition_loop compar sf zs g2 lo (m - 1) else Some (zs, g2)) = Some (zs, g2)" by simp
      then show ?thesis using z 3 by blast
    qed
  qed
  consider "hi - lo \<le> 2" | "2 < hi - lo" "hi - lo \<le> QSORT_MTR" | "QSORT_MTR < hi - lo" by linarith
  then show ?case
  proof cases
    case 1
    define mid where "mid = lo + (hi - lo) div 2"
    obtain ys where y: "order3 compar xs lo mid hi = Some ys" "perm_in lo hi xs ys"
      "le_by compar (at ys lo) (at ys mid)" "le_by compar (at ys mid) (at ys hi)"
      using order3_correct [OF a(1,2) le a(5)] unfolding mid_def by blast
    note b = block_perm [OF y(2) a(2) le a(5,6,7,1)]
    have run: "qpartition_loop compar sf xs g lo hi = Some (ys, g)"
      using 1 le y(1) by (subst qpartition_loop.simps) (simp add: QSORT_MTR_def mid_def)
    have o: "ok (at ys k)" if "0 \<le> k" "k < int (length xs)" for k
      using at_ok [OF b(4)] that b(3) by (simp add: inb_def)
    have mid: "lo \<le> mid" "mid \<le> hi" "mid \<le> lo + 1" "hi \<le> mid + 1" "mid = hi \<Longrightarrow> lo = hi"
      using 1 le by (auto simp: mid_def)
    have "le_by compar (at ys lo) (at ys hi)"
      by (rule compar_trans [OF o o o y(3,4)]) (use mid a in auto)
    then have sorted: "le_by compar (at ys i) (at ys j)" if "lo \<le> i" "i < j" "j \<le> hi" for i j
    proof -
      have "i = lo \<and> j = mid \<or> i = mid \<and> j = hi \<or> i = lo \<and> j = hi" using that mid by linarith
      then show ?thesis using y(3,4) \<open>le_by compar (at ys lo) (at ys hi)\<close> by auto
    qed
    have "le_by compar (at ys i) (at ys j)" if "0 \<le> i" "i < sf" "sf \<le> j" "j < int (length ys)" for i j
    proof -
      consider "i < lo" | "hi < j" | "lo \<le> i" "j \<le> hi" by linarith
      then show ?thesis
        using cut_atD [OF b(1), of i j] cut_atD [OF b(2), of i j] sorted [of i j] that a(3,4) by cases auto
    qed
    then have "cut_at compar ys sf" by (auto simp: cut_at_def)
    moreover have "mset ys = mset xs" using y(2) by (simp add: perm_in_def)
    ultimately show ?thesis using run by blast
  next
    case 2
    then have "lo + 2 \<le> hi" by simp
    from small_round [OF a(1,2) this a(5-7)] obtain ys zs m where
      s: "order3 compar xs lo (lo + (hi - lo) div 2) hi = Some ys"
      "part_loop compar ys (lo + (hi - lo) div 2) lo hi = Some (zs, m)" "round_ok lo hi xs zs m" by blast
    have "qpartition_loop compar sf xs g lo hi =
        (if m < sf then qpartition_loop compar sf zs g (m + 1) hi
         else if sf < m then qpartition_loop compar sf zs g lo (m - 1) else Some (zs, g))"
      using 2 s(1,2) by (subst qpartition_loop.simps) simp
    then show ?thesis using continue [OF s(3)] by simp
  next
    case 3
    then have "lo < hi" by (simp add: QSORT_MTR_def)
    from large_round [OF a(1,2) this a(5-7)] obtain mid g2 zs m where
      s: "pq_choose_part compar xs lo (nat (hi - lo)) g = Some (mid, g2)"
      "part_loop compar xs mid (lo - 1) (hi + 1) = Some (zs, m)" "round_ok lo hi xs zs m" by blast
    have "qpartition_loop compar sf xs g lo hi =
        (if m < sf then qpartition_loop compar sf zs g2 (m + 1) hi
         else if sf < m then qpartition_loop compar sf zs g2 lo (m - 1) else Some (zs, g2))"
      using 3 s(1,2) by (subst qpartition_loop.simps) (simp add: QSORT_MTR_def)
    then show ?thesis using continue [OF s(3)] by simp
  qed
qed

lemma qpartition_correct:
  assumes "\<forall>x \<in> set xs. ok x" "sort_first < length xs \<or> length xs \<le> 1"
  shows "\<exists>ys g'. psync_qpartition compar xs sort_first g = Some (ys, g') \<and> mset ys = mset xs \<and>
    (\<forall>i < sort_first. \<forall>j. sort_first \<le> j \<and> j < length xs \<longrightarrow> le_by compar (ys ! i) (ys ! j))"
proof (cases "length xs \<le> 1")
  case True
  then have "psync_qpartition compar xs sort_first g = Some (xs, g)" by (simp add: psync_qpartition_def)
  moreover have "\<not> (i < sort_first \<and> sort_first \<le> j \<and> j < length xs)" for i j using True by auto
  ultimately show ?thesis by blast
next
  case False
  then have "\<exists>ys g'. qpartition_loop compar (int sort_first) xs g 0 (int (length xs) - 1) = Some (ys, g') \<and>
      mset ys = mset xs \<and> cut_at compar ys (int sort_first)"
    using assms by (intro qpartition_loop_correct) (auto simp: cut_at_def)
  then obtain ys g' where r: "psync_qpartition compar xs sort_first g = Some (ys, g')" "mset ys = mset xs"
    "cut_at compar ys (int sort_first)" using False by (auto simp: psync_qpartition_def)
  have "le_by compar (ys ! i) (ys ! j)" if "i < sort_first" "sort_first \<le> j" "j < length xs" for i j
    using cut_atD [OF r(3), of "int i" "int j"] that mset_eq_length [OF r(2)] by (simp add: at_def)
  with r show ?thesis by blast
qed

end

subsection \<open>Sorting\<close>

text \<open>The pending blocks of the main loop: the current one in front of the stack.\<close>

fun disjoint_blocks :: "(int \<times> int) list \<Rightarrow> bool" where
  "disjoint_blocks [] \<longleftrightarrow> True"
| "disjoint_blocks ((a, b) # bl) \<longleftrightarrow> (\<forall>(c, d) \<in> set bl. d < a \<or> b < c) \<and> disjoint_blocks bl"

fun depth_ok :: "int \<Rightarrow> (int \<times> int) list \<Rightarrow> bool" where
  "depth_ok n [] \<longleftrightarrow> True"
| "depth_ok n ((a, b) # bl) \<longleftrightarrow> (b - a + 1) * 2 ^ length bl \<le> n \<and> depth_ok n bl"

definition blocks_size :: "(int \<times> int) list \<Rightarrow> nat" where
  "blocks_size bl = sum_list (map (\<lambda>(a, b). nat (b - a + 1)) bl)"

lemma blocks_size_Cons [simp]: "blocks_size ((a, b) # bl) = nat (b - a + 1) + blocks_size bl"
  by (simp add: blocks_size_def)

text \<open>
  Behind every place before \<open>sf\<close> that is not in a pending block, a cut comes within the threshold,
  and no pending block extends over it.
\<close>

definition settled :: "'a compar \<Rightarrow> 'a list \<Rightarrow> (int \<times> int) list \<Rightarrow> int \<Rightarrow> bool" where
  "settled compar xs bl i \<longleftrightarrow>
     (\<exists>k. i < k \<and> k \<le> i + QSORT_TRESH \<and> cut_at compar xs k \<and> (\<forall>(a, b) \<in> set bl. k \<le> a \<or> b < k))"

definition blocks_ok :: "'a compar \<Rightarrow> int \<Rightarrow> 'a list \<Rightarrow> (int \<times> int) list \<Rightarrow> bool" where
  "blocks_ok compar sf xs bl \<longleftrightarrow> disjoint_blocks bl \<and>
     (\<forall>(a, b) \<in> set bl. 0 \<le> a \<and> a + QSORT_TRESH \<le> b \<and> b < int (length xs) \<and> cut_at compar xs a \<and> cut_at compar xs (b + 1)) \<and>
     (\<forall>i. 0 \<le> i \<and> i < sf \<and> i < int (length xs) \<longrightarrow>
        (\<exists>(a, b) \<in> set bl. a \<le> i \<and> i \<le> b) \<or> settled compar xs bl i)"

lemma settled_perm:
  assumes "settled compar xs ((lo, hi) # bl) i" "perm_in lo hi xs ys" "0 \<le> lo" "lo \<le> hi" "hi < int (length xs)"
    and "\<forall>(a, b) \<in> set new. lo \<le> a \<and> b \<le> hi"
  shows "settled compar ys (new @ bl) i"
proof -
  obtain k where k: "i < k" "k \<le> i + QSORT_TRESH" "cut_at compar xs k" "k \<le> lo \<or> hi < k" "\<forall>(a, b) \<in> set bl. k \<le> a \<or> b < k"
    using assms(1) by (auto simp: settled_def)
  have "cut_at compar ys k" using cut_perm [OF assms(2-5) k(3,4)] .
  moreover have "\<forall>(a, b) \<in> set (new @ bl). k \<le> a \<or> b < k" using k(4,5) assms(6) by auto
  ultimately show ?thesis using k(1,2) by (auto simp: settled_def)
qed

text \<open>A block is replaced by what is left of its two parts.\<close>

definition parts :: "int \<Rightarrow> int \<Rightarrow> int \<Rightarrow> int \<Rightarrow> (int \<times> int) list \<Rightarrow> bool" where
  "parts sf lo hi m new \<longleftrightarrow> disjoint_blocks new \<and>
     (\<forall>(a, b) \<in> set new. (a, b) = (lo, m - 1) \<or> (a, b) = (m + 1, hi)) \<and>
     (if m - lo \<le> QSORT_TRESH then (lo, m - 1) \<notin> set new else (lo, m - 1) \<in> set new) \<and>
     (if hi - m \<le> QSORT_TRESH \<or> sf \<le> m then (m + 1, hi) \<notin> set new else (m + 1, hi) \<in> set new)"

lemma disjoint_blocks_append:
  "disjoint_blocks (xs @ ys) \<longleftrightarrow> disjoint_blocks xs \<and> disjoint_blocks ys \<and>
     (\<forall>(a, b) \<in> set xs. \<forall>(c, d) \<in> set ys. d < a \<or> b < c)"
  by (induction xs) (auto simp: ball_Un case_prod_beta, fastforce)

lemma blocks_ok_round:
  assumes inv: "blocks_ok compar sf xs ((lo, hi) # bl)" and p: "perm_in lo hi xs ys"
    and m: "lo \<le> m" "m \<le> hi" "cut_at compar ys m" "cut_at compar ys (m + 1)" and new: "parts sf lo hi m new"
  shows "blocks_ok compar sf ys (new @ bl)"
proof -
  have len: "length ys = length xs" using p by (rule perm_in_length)
  have b: "0 \<le> lo" "lo + QSORT_TRESH \<le> hi" "hi < int (length xs)" "cut_at compar xs lo" "cut_at compar xs (hi + 1)"
    "disjoint_blocks bl" "\<forall>(c, d) \<in> set bl. d < lo \<or> hi < c"
    using inv by (auto simp: blocks_ok_def)
  have le: "lo \<le> hi" using b(2) by (simp add: QSORT_TRESH_def)
  note cuts = cut_perm [OF p b(1) le b(3)]
  have in_new: "\<forall>(a, c) \<in> set new. lo \<le> a \<and> c \<le> hi" using new m by (auto simp: parts_def)
  have "disjoint_blocks (new @ bl)"
    using new b(6,7) in_new by (auto simp: disjoint_blocks_append parts_def) fastforce
  moreover have "0 \<le> a \<and> a + QSORT_TRESH \<le> c \<and> c < int (length ys) \<and> cut_at compar ys a \<and> cut_at compar ys (c + 1)"
    if "(a, c) \<in> set (new @ bl)" for a c
  proof (cases "(a, c) \<in> set new")
    case True
    then show ?thesis
      using new m b(1-3) cuts [OF b(4)] cuts [OF b(5)] len by (auto simp: parts_def split: if_splits)
  next
    case False
    with that have c: "(a, c) \<in> set bl" by simp
    with b(7) have d: "c < lo \<or> hi < a" by auto
    have "0 \<le> a \<and> a + QSORT_TRESH \<le> c \<and> c < int (length xs) \<and> cut_at compar xs a \<and> cut_at compar xs (c + 1)"
      using inv c by (auto simp: blocks_ok_def)
    then show ?thesis using cuts [where k = a] cuts [where k = "c + 1"] d len by (auto simp: QSORT_TRESH_def)
  qed
  moreover have "(\<exists>(a, c) \<in> set (new @ bl). a \<le> i \<and> i \<le> c) \<or> settled compar ys (new @ bl) i"
    if i: "0 \<le> i" "i < sf" "i < int (length ys)" for i
  proof (cases "lo \<le> i \<and> i \<le> hi")
    case False
    from inv i len have "(\<exists>(a, c) \<in> set ((lo, hi) # bl). a \<le> i \<and> i \<le> c) \<or> settled compar xs ((lo, hi) # bl) i"
      by (auto simp: blocks_ok_def)
    then show ?thesis using False settled_perm [OF _ p b(1) le b(3) in_new] by auto
  next
    case True
    have out: "\<forall>(a, c) \<in> set bl. k \<le> a \<or> c < k" if "lo \<le> k" "k \<le> hi + 1" for k
      using b(7) that by fastforce
    have settledI: "settled compar ys (new @ bl) i"
      if "i < k" "k \<le> i + QSORT_TRESH" "cut_at compar ys k" "k \<le> hi + 1" "\<forall>(a, c) \<in> set new. k \<le> a \<or> c < k" for k
      unfolding settled_def using that out [of k] True by (intro exI [of _ k]) auto
    have no_overlap: "\<forall>(a, c) \<in> set new. m \<le> a \<or> c < m" "\<forall>(a, c) \<in> set new. m + 1 \<le> a \<or> c < m + 1"
      "\<forall>(a, c) \<in> set new. hi + 1 \<le> a \<or> c < hi + 1"
      using new m by (fastforce simp: parts_def)+
    consider "i < m" | "i = m" | "m < i" by linarith
    then show ?thesis
    proof cases
      case 1
      show ?thesis
      proof (cases "m - lo \<le> QSORT_TRESH")
        case True
        then show ?thesis
          using settledI [of m] 1 m no_overlap(1) \<open>lo \<le> i \<and> i \<le> hi\<close> by auto
      next
        case False
        then have "(lo, m - 1) \<in> set new" using new by (simp add: parts_def)
        then show ?thesis using 1 \<open>lo \<le> i \<and> i \<le> hi\<close> by (intro disjI1 bexI [of _ "(lo, m - 1)"]) auto
      qed
    next
      case 2
      then show ?thesis using settledI [of "m + 1"] m no_overlap(2) by (auto simp: QSORT_TRESH_def)
    next
      case 3
      show ?thesis
      proof (cases "hi - m \<le> QSORT_TRESH")
        case h: True
        then show ?thesis
          using settledI [of "hi + 1"] 3 True cuts [OF b(5)] no_overlap(3) m by auto
      next
        case False
        then have "(m + 1, hi) \<in> set new" using new 3 i by (auto simp: parts_def)
        then show ?thesis using 3 \<open>lo \<le> i \<and> i \<le> hi\<close> by (intro disjI1 bexI [of _ "(m + 1, hi)"]) auto
      qed
    qed
  qed
  ultimately show ?thesis by (auto simp: blocks_ok_def)
qed

context comparator
begin

text \<open>The main loop ends, never overflows its stack, and leaves no place unsettled.\<close>

lemma pqsort_round:
  assumes "\<forall>x \<in> set xs. ok x" "blocks_ok compar sf xs ((lo, hi) # stk)"
  shows "\<exists>ys m g'. round_ok lo hi xs ys m \<and>
    pqsort_loop compar sf xs g lo hi stk =
      (if hi - m \<le> QSORT_TRESH \<or> sf \<le> m then
           (if m - lo \<le> QSORT_TRESH then
              (case stk of
                 [] \<Rightarrow> Some (ys, g')
               | (lo, hi) # stk \<Rightarrow> pqsort_loop compar sf ys g' lo hi stk)
            else pqsort_loop compar sf ys g' lo (m - 1) stk)
         else if m - lo \<le> QSORT_TRESH then pqsort_loop compar sf ys g' (m + 1) hi stk
         else if length stk + 1 \<ge> 64 then None
         else if hi - m < m - lo then pqsort_loop compar sf ys g' (m + 1) hi ((lo, m - 1) # stk)
         else pqsort_loop compar sf ys g' lo (m - 1) ((m + 1, hi) # stk))"
proof -
  have b: "0 \<le> lo" "lo + QSORT_TRESH \<le> hi" "hi < int (length xs)" "cut_at compar xs lo" "cut_at compar xs (hi + 1)"
    using assms(2) by (auto simp: blocks_ok_def)
  have le: "\<not> hi < lo" "lo + 2 \<le> hi" "lo < hi" using b(2) by (auto simp: QSORT_TRESH_def)
  show ?thesis
  proof (cases "hi - lo \<le> QSORT_MTR")
    case True
    obtain ys zs m where s: "order3 compar xs lo (lo + (hi - lo) div 2) hi = Some ys"
      "part_loop compar ys (lo + (hi - lo) div 2) lo hi = Some (zs, m)" "round_ok lo hi xs zs m"
      using small_round [OF assms(1) b(1) le(2) b(3-5)] by blast
    show ?thesis
      by (intro exI [of _ zs] exI [of _ m] exI [of _ g] conjI s(3), subst pqsort_loop.simps)
        (simp only: Let_def True le(1) s(1,2) if_True if_False bind.bind_lunit case_prod_conv)
  next
    case False
    obtain mid g' zs m where s: "pq_choose_part compar xs lo (nat (hi - lo)) g = Some (mid, g')"
      "part_loop compar xs mid (lo - 1) (hi + 1) = Some (zs, m)" "round_ok lo hi xs zs m"
      using large_round [OF assms(1) b(1) le(3) b(3-5)] by blast
    show ?thesis
      by (intro exI [of _ zs] exI [of _ m] exI [of _ g'] conjI s(3), subst pqsort_loop.simps)
        (simp only: Let_def False le(1) s(1,2) if_True if_False bind.bind_lunit case_prod_conv)
  qed
qed

lemma depth_small:
  assumes "depth_ok n ((lo, hi) # stk)" "n < 2 ^ 63" "lo \<le> hi"
  shows "length stk < 63"
proof (rule ccontr)
  assume "\<not> length stk < 63"
  then have "(2 :: int) ^ 63 \<le> 2 ^ length stk" by (intro power_increasing) auto
  also have "\<dots> \<le> (hi - lo + 1) * 2 ^ length stk" using assms(3) by simp
  also have "\<dots> \<le> n" using assms(1) by simp
  finally show False using assms(2) by simp
qed

lemma pqsort_loop_correct:
  assumes "\<forall>x \<in> set xs. ok x" "blocks_ok compar sf xs ((lo, hi) # stk)"
    and "depth_ok (int (length xs)) ((lo, hi) # stk)" "int (length xs) < 2 ^ 63"
  shows "\<exists>ys g'. pqsort_loop compar sf xs g lo hi stk = Some (ys, g') \<and> mset ys = mset xs \<and> blocks_ok compar sf ys []"
  using assms
proof (induction "blocks_size ((lo, hi) # stk)" arbitrary: xs g lo hi stk rule: less_induct)
  case less
  note a = less.prems
  have b: "0 \<le> lo" "lo + QSORT_TRESH \<le> hi" "hi < int (length xs)" "cut_at compar xs lo" "cut_at compar xs (hi + 1)"
    using a(2) by (auto simp: blocks_ok_def)
  have le: "lo \<le> hi" using b(2) by (simp add: QSORT_TRESH_def)
  obtain ys m g' where r: "round_ok lo hi xs ys m" and run: "pqsort_loop compar sf xs g lo hi stk =
      (if hi - m \<le> QSORT_TRESH \<or> sf \<le> m then
           (if m - lo \<le> QSORT_TRESH then
              (case stk of
                 [] \<Rightarrow> Some (ys, g')
               | (lo, hi) # stk \<Rightarrow> pqsort_loop compar sf ys g' lo hi stk)
            else pqsort_loop compar sf ys g' lo (m - 1) stk)
         else if m - lo \<le> QSORT_TRESH then pqsort_loop compar sf ys g' (m + 1) hi stk
         else if length stk + 1 \<ge> 64 then None
         else if hi - m < m - lo then pqsort_loop compar sf ys g' (m + 1) hi ((lo, m - 1) # stk)
         else pqsort_loop compar sf ys g' lo (m - 1) ((m + 1, hi) # stk))"
    using pqsort_round [OF a(1,2), of g] by blast
  note z = round_block [OF r b(1) le b(3-5) a(1)]
  have p: "perm_in lo hi xs ys" using r by (simp add: round_ok_def)
  note keep = blocks_ok_round [OF a(2) p z(7,8,5,6)]
  have d: "(hi - lo + 1) * 2 ^ length stk \<le> int (length xs)" "depth_ok (int (length xs)) stk" using a(3) by auto
  have go: "\<exists>zs g''. pqsort_loop compar sf ys g' lo' hi' stk' = Some (zs, g'') \<and> mset zs = mset xs \<and> blocks_ok compar sf zs []"
    if "blocks_ok compar sf ys ((lo', hi') # stk')" "depth_ok (int (length xs)) ((lo', hi') # stk')"
      "blocks_size ((lo', hi') # stk') < blocks_size ((lo, hi) # stk)" for lo' hi' stk'
    using less.hyps [OF that(3) z(4) that(1)] that(2) a(4) z(3,9) by metis
  have half: "(hi' - lo' + 1) * 2 ^ length stk \<le> int (length xs)" if "hi' - lo' \<le> hi - lo" for lo' hi'
  proof -
    have "(hi' - lo' + 1) * 2 ^ length stk \<le> (hi - lo + 1) * 2 ^ length stk" using that by (intro mult_right_mono) auto
    with d(1) show ?thesis by linarith
  qed
  have quarter: "(hi' - lo' + 1) * 2 ^ (length stk + 1) \<le> int (length xs)" if "2 * (hi' - lo' + 1) \<le> hi - lo + 1" for lo' hi'
  proof -
    have "(hi' - lo' + 1) * 2 ^ (length stk + 1) = 2 * (hi' - lo' + 1) * 2 ^ length stk" by simp
    also have "\<dots> \<le> (hi - lo + 1) * 2 ^ length stk" using that by (intro mult_right_mono) auto
    finally show ?thesis using d(1) by linarith
  qed
  show ?case
  proof (cases "hi - m \<le> QSORT_TRESH \<or> sf \<le> m")
    case R: True
    show ?thesis
    proof (cases "m - lo \<le> QSORT_TRESH")
      case L: True
      have k: "blocks_ok compar sf ys ([] @ stk)" by (rule keep) (use R L z(7,8) in \<open>auto simp: parts_def QSORT_TRESH_def\<close>)
      show ?thesis
      proof (cases stk)
        case Nil
        then have "pqsort_loop compar sf xs g lo hi stk = Some (ys, g')" unfolding run using R L by simp
        moreover have "blocks_ok compar sf ys []" using k Nil by simp
        ultimately show ?thesis using z(9) by blast
      next
        case (Cons bl stk')
        obtain lo' hi' where bl: "bl = (lo', hi')" by force
        have "\<exists>zs g''. pqsort_loop compar sf ys g' lo' hi' stk' = Some (zs, g'') \<and> mset zs = mset xs \<and> blocks_ok compar sf zs []"
          by (rule go) (use k d(2) le in \<open>simp_all add: Cons bl\<close>)
        then show ?thesis unfolding run using R L by (simp add: Cons bl)
      qed
    next
      case L: False
      have k: "blocks_ok compar sf ys ([(lo, m - 1)] @ stk)" by (rule keep) (use R L z(7,8) in \<open>auto simp: parts_def QSORT_TRESH_def\<close>)
      have "\<exists>zs g''. pqsort_loop compar sf ys g' lo (m - 1) stk = Some (zs, g'') \<and> mset zs = mset xs \<and> blocks_ok compar sf zs []"
        by (rule go) (use k d(2) z(7,8) half [of "m - 1" lo] in auto)
      then show ?thesis unfolding run using R L by simp
    qed
  next
    case R: False
    show ?thesis
    proof (cases "m - lo \<le> QSORT_TRESH")
      case L: True
      have k: "blocks_ok compar sf ys ([(m + 1, hi)] @ stk)" by (rule keep) (use R L z(7,8) in \<open>auto simp: parts_def QSORT_TRESH_def\<close>)
      have "\<exists>zs g''. pqsort_loop compar sf ys g' (m + 1) hi stk = Some (zs, g'') \<and> mset zs = mset xs \<and> blocks_ok compar sf zs []"
        by (rule go) (use k d(2) z(7,8) half [of hi "m + 1"] in auto)
      then show ?thesis unfolding run using R L by simp
    next
      case L: False
      have room: "\<not> length stk + 1 \<ge> 64" using depth_small [OF a(3,4) le] by simp
      show ?thesis
      proof (cases "hi - m < m - lo")
        case True
        have k: "blocks_ok compar sf ys ([(m + 1, hi), (lo, m - 1)] @ stk)" by (rule keep) (use R L z(7,8) in \<open>auto simp: parts_def QSORT_TRESH_def\<close>)
        have "\<exists>zs g''. pqsort_loop compar sf ys g' (m + 1) hi ((lo, m - 1) # stk) = Some (zs, g'') \<and> mset zs = mset xs \<and> blocks_ok compar sf zs []"
          by (rule go) (use k d(2) z(7,8) True half [of "m - 1" lo] quarter [of hi "m + 1"] in auto)
        then show ?thesis unfolding run using R L room True by simp
      next
        case False
        have k: "blocks_ok compar sf ys ([(lo, m - 1), (m + 1, hi)] @ stk)" by (rule keep) (use R L z(7,8) in \<open>auto simp: parts_def QSORT_TRESH_def\<close>)
        have "\<exists>zs g''. pqsort_loop compar sf ys g' lo (m - 1) ((m + 1, hi) # stk) = Some (zs, g'') \<and> mset zs = mset xs \<and> blocks_ok compar sf zs []"
          by (rule go) (use k d(2) z(7,8) False half [of hi "m + 1"] quarter [of "m - 1" lo] in auto)
        then show ?thesis unfolding run using R L room False by simp
      qed
    qed
  qed
qed

end

subsection \<open>The final insertion sort\<close>

lemma length_rotate_in [simp]: "l < length xs \<Longrightarrow> lo \<le> l \<Longrightarrow> length (rotate_in xs lo l) = length xs"
  by (simp add: rotate_in_def)

lemma rotate_in_same: "l < length xs \<Longrightarrow> rotate_in xs l l = xs"
  by (simp add: rotate_in_def id_take_nth_drop [symmetric])

lemma take_rotate_in:
  "l < length xs \<Longrightarrow> lo \<le> l \<Longrightarrow> take (l + 1) (rotate_in xs lo l) = take lo xs @ xs ! l # drop lo (take l xs)"
  by (simp add: rotate_in_def Suc_diff_le)

lemma drop_rotate_in:
  "l < length xs \<Longrightarrow> lo \<le> l \<Longrightarrow> drop (l + 1) (rotate_in xs lo l) = drop (l + 1) xs"
  by (simp add: rotate_in_def Suc_diff_le)

lemma insert_pos_step:
  "insert_pos compar xs l lo =
     (if \<not> inb xs lo \<or> \<not> inb xs l then None
      else if compar (at xs l) (at xs lo) < 0 then insert_pos compar xs l (lo - 1) else Some (lo + 1))"
  by (subst insert_pos.simps) simp

context comparator
begin

lemma sorted_upto_ok:
  "\<forall>x \<in> set xs. ok x \<Longrightarrow> i < length xs \<Longrightarrow> ok (xs ! i)"
  by simp

lemma min_loop_min:
  assumes "\<forall>x \<in> set xs. ok x" "lo < length xs" "\<forall>l \<in> set ls. l < length xs"
  shows "min_loop compar xs lo ls \<in> set (lo # ls) \<and>
    (\<forall>k \<in> set (lo # ls). le_by compar (xs ! min_loop compar xs lo ls) (xs ! k))"
  using assms(2,3)
proof (induction ls arbitrary: lo)
  case Nil
  then show ?case using le_refl assms(1) by simp
next
  case (Cons l ls)
  define lo' where "lo' = (if compar (xs ! l) (xs ! lo) < 0 then l else lo)"
  have b: "lo' < length xs" using Cons.prems by (simp add: lo'_def)
  have o: "ok (xs ! l)" "ok (xs ! lo)" "ok (xs ! lo')" using Cons.prems b assms(1) by auto
  have le: "le_by compar (xs ! lo') (xs ! l)" "le_by compar (xs ! lo') (xs ! lo)"
    using compar_asym [OF o(1,2)] le_refl [OF o(1)] le_refl [OF o(2)] by (auto simp: lo'_def le_by_def)
  define r where "r = min_loop compar xs lo' ls"
  have r: "r \<in> set (lo' # ls)" "\<forall>k \<in> set (lo' # ls). le_by compar (xs ! r) (xs ! k)"
    using Cons.IH [OF b] Cons.prems by (auto simp: r_def)
  have "ok (xs ! r)" using r(1) b Cons.prems assms(1) by auto
  then have "le_by compar (xs ! r) (xs ! k)" if "k \<in> set (lo # l # ls)" for k
    using r(2) that compar_trans [OF _ o(3) o(1) _ le(1)] compar_trans [OF _ o(3) o(2) _ le(2)] by auto
  moreover have "min_loop compar xs lo (l # ls) = r" by (simp add: r_def lo'_def)
  moreover have "r \<in> set (lo # l # ls)" using r(1) by (auto simp: lo'_def split: if_splits)
  ultimately show ?case by simp
qed

text \<open>The smallest element in front stops the search for the place.\<close>

lemma insert_pos_correct:
  assumes "\<forall>x \<in> set xs. ok x" "1 \<le> l" "l < length xs" "le_by compar (xs ! 0) (xs ! l)"
  shows "\<exists>p. insert_pos compar xs (int l) (int l - 1) = Some (int p) \<and> 1 \<le> p \<and> p \<le> l \<and>
    le_by compar (xs ! (p - 1)) (xs ! l) \<and> (\<forall>k. p \<le> k \<and> k < l \<longrightarrow> le_by compar (xs ! l) (xs ! k))"
proof -
  have "\<exists>p. insert_pos compar xs (int l) (int lo) = Some (int p) \<and> 1 \<le> p \<and> p \<le> lo + 1 \<and>
    le_by compar (xs ! (p - 1)) (xs ! l) \<and> (\<forall>k. p \<le> k \<and> k \<le> lo \<longrightarrow> le_by compar (xs ! l) (xs ! k))" if "lo < l" for lo
    using that
  proof (induction lo)
    case 0
    then show ?case using assms by (subst insert_pos_step) (auto simp: inb_def at_def le_by_def intro!: exI [of _ 1])
  next
    case (Suc lo)
    have b: "inb xs (int (Suc lo))" "inb xs (int l)" using Suc.prems assms(3) by (auto simp: inb_def)
    show ?case
    proof (cases "compar (xs ! l) (xs ! Suc lo) < 0")
      case True
      then have le: "le_by compar (xs ! l) (xs ! Suc lo)"
        using compar_asym assms(1,3) Suc.prems by simp
      obtain p where p: "insert_pos compar xs (int l) (int lo) = Some (int p)" "1 \<le> p" "p \<le> lo + 1"
        "le_by compar (xs ! (p - 1)) (xs ! l)" "\<forall>k. p \<le> k \<and> k \<le> lo \<longrightarrow> le_by compar (xs ! l) (xs ! k)"
        using Suc by auto
      have "insert_pos compar xs (int l) (int (Suc lo)) = Some (int p)"
        using True p(1) b by (subst insert_pos_step) (simp add: at_def nat_add_distrib)
      moreover have "le_by compar (xs ! l) (xs ! k)" if "p \<le> k" "k \<le> Suc lo" for k
        using that p(5) le by (cases "k = Suc lo") auto
      ultimately show ?thesis using p(2-4) by (intro exI [of _ p]) auto
    next
      case False
      then have "insert_pos compar xs (int l) (int (Suc lo)) = Some (int (Suc (Suc lo)))"
        using b by (subst insert_pos_step) (simp add: at_def nat_add_distrib)
      then show ?thesis using False by (intro exI [of _ "Suc (Suc lo)"]) (auto simp: le_by_def)
    qed
  qed
  from this [of "l - 1"] assms(2) obtain p where "insert_pos compar xs (int l) (int (l - 1)) = Some (int p)" "1 \<le> p" "p \<le> l"
    "le_by compar (xs ! (p - 1)) (xs ! l)" "\<forall>k. p \<le> k \<and> k \<le> l - 1 \<longrightarrow> le_by compar (xs ! l) (xs ! k)" by auto
  moreover have "int l - 1 = int (l - 1)" using assms(2) by simp
  moreover have "\<forall>k. p \<le> k \<and> k < l \<longrightarrow> le_by compar (xs ! l) (xs ! k)" using calculation(5) by auto
  ultimately show ?thesis by metis
qed

lemma insertion_step:
  assumes "\<forall>x \<in> set xs. ok x" "1 \<le> l" "l < length xs" "le_by compar (xs ! 0) (xs ! l)"
    and sorted: "sorted_wrt (le_by compar) (take l xs)"
  shows "\<exists>p ys. insert_pos compar xs (int l) (int l - 1) = Some (int p) \<and>
    ys = (if int p \<noteq> int l then rotate_in xs (nat (int p)) l else xs) \<and>
    sorted_wrt (le_by compar) (take (l + 1) ys) \<and> mset ys = mset xs \<and> length ys = length xs \<and>
    drop (l + 1) ys = drop (l + 1) xs \<and> ys ! 0 = xs ! 0"
proof -
  obtain p where p: "insert_pos compar xs (int l) (int l - 1) = Some (int p)" "1 \<le> p" "p \<le> l"
    "le_by compar (xs ! (p - 1)) (xs ! l)" "\<forall>k. p \<le> k \<and> k < l \<longrightarrow> le_by compar (xs ! l) (xs ! k)"
    using insert_pos_correct [OF assms(1-4)] by blast
  define ys where "ys = rotate_in xs p l"
  have ys: "ys = (if int p \<noteq> int l then rotate_in xs (nat (int p)) l else xs)"
    using rotate_in_same [OF assms(3)] by (simp add: ys_def)
  have P: "take l xs = take p xs @ drop p (take l xs)"
    using p(3) by (metis append_take_drop_id min.absorb1 take_take)
  have before: "le_by compar y (xs ! l)" if "y \<in> set (take p xs)" for y
  proof -
    note y = that
    obtain i where "i < length (take p xs)" "take p xs ! i = y" using y by (meson in_set_conv_nth)
    then have i: "i < p" "y = xs ! i" "i < length xs" by auto
    have "le_by compar (xs ! i) (xs ! (p - 1))"
    proof (cases "i = p - 1")
      case True
      then show ?thesis using le_refl assms(1) i by simp
    next
      case False
      then have "i < p - 1" using i(1) by simp
      then have "le_by compar (take l xs ! i) (take l xs ! (p - 1))"
        using p(2,3) assms(3) by (intro sorted_wrt_nth_less [OF sorted]) auto
      then show ?thesis using i p(2,3) assms(3) by simp
    qed
    then show ?thesis
      using compar_trans [OF _ _ _ _ p(4)] i assms(1,3) p(2,3) by simp
  qed
  have after: "le_by compar (xs ! l) y" if "y \<in> set (drop p (take l xs))" for y
    using that p(5) assms(3) by (auto simp: in_set_conv_nth)
  have "sorted_wrt (le_by compar) (take (l + 1) ys)"
    unfolding ys_def take_rotate_in [OF assms(3) p(3)]
    using sorted before after compar_trans
    by (subst (asm) P) (auto simp: sorted_wrt_append)
  moreover have "mset ys = mset xs"
  proof -
    have "mset ys = mset (take l xs) + {#xs ! l#} + mset (drop (l + 1) xs)"
      by (subst P) (simp add: ys_def rotate_in_def)
    also have "\<dots> = mset (take l xs @ xs ! l # drop (l + 1) xs)" by simp
    also have "take l xs @ xs ! l # drop (l + 1) xs = xs" using id_take_nth_drop [OF assms(3)] by simp
    finally show ?thesis .
  qed
  moreover have "ys ! 0 = xs ! 0"
    using p(2,3) assms(3) by (simp add: ys_def rotate_in_def nth_append)
  moreover have "length ys = length xs" "drop (l + 1) ys = drop (l + 1) xs"
    using p(3) assms(3) drop_rotate_in [OF assms(3) p(3)] by (simp_all add: ys_def)
  ultimately show ?thesis
    using p(1) ys by blast
qed

lemma insertion_loop_correct:
  assumes "\<forall>x \<in> set xs. ok x" "1 \<le> l" "l \<le> h" "h \<le> length xs" "\<forall>k < h. le_by compar (xs ! 0) (xs ! k)"
    and "sorted_wrt (le_by compar) (take l xs)"
  shows "\<exists>ys. insertion_loop compar xs [l..<h] = Some ys \<and> sorted_wrt (le_by compar) (take h ys) \<and>
    mset ys = mset xs \<and> drop h ys = drop h xs"
  using assms
proof (induction "h - l" arbitrary: l xs)
  case 0
  then show ?case by simp
next
  case (Suc n)
  then have l: "l < h" by simp
  obtain p ys where s: "insert_pos compar xs (int l) (int l - 1) = Some (int p)"
    "ys = (if int p \<noteq> int l then rotate_in xs (nat (int p)) l else xs)"
    "sorted_wrt (le_by compar) (take (l + 1) ys)" "mset ys = mset xs" "length ys = length xs"
    "drop (l + 1) ys = drop (l + 1) xs" "ys ! 0 = xs ! 0"
    using insertion_step [OF Suc.prems(1,2) _ _ Suc.prems(6)] l Suc.prems(4,5) by (meson order_less_le_trans)
  have run: "insertion_loop compar xs [l..<h] = insertion_loop compar ys [l + 1..<h]"
    using s(1,2) by (simp add: upt_conv_Cons [OF l])
  have ok: "\<forall>x \<in> set ys. ok x" using Suc.prems(1) mset_eq_setD [OF s(4)] by simp
  have len: "length (take (l + 1) ys) = l + 1" using l Suc.prems(4) s(5) by simp
  have front: "mset (take (l + 1) ys) = mset (take (l + 1) xs)"
    using s(4,6) by (metis add_right_cancel append_take_drop_id mset_append)
  have min: "le_by compar (ys ! 0) (ys ! k)" if "k < h" for k
  proof (cases "k \<le> l")
    case True
    have "ys ! k \<in> set (take (l + 1) ys)" using True len by (metis Suc_eq_plus1 le_imp_less_Suc nth_mem nth_take)
    then have "ys ! k \<in> set (take (l + 1) xs)" using mset_eq_setD [OF front] by simp
    then obtain j where "j < length (take (l + 1) xs)" "take (l + 1) xs ! j = ys ! k" by (meson in_set_conv_nth)
    then have "j \<le> l" "ys ! k = xs ! j" by auto
    then show ?thesis using Suc.prems(5) l s(7) by simp
  next
    case False
    have "drop (l + 1) ys ! (k - (l + 1)) = drop (l + 1) xs ! (k - (l + 1))" by (simp only: s(6))
    then have "ys ! k = xs ! k" using s(5) that Suc.prems(4) False by simp
    then show ?thesis using Suc.prems(5) that s(7) by simp
  qed
  have "\<exists>zs. insertion_loop compar ys [l + 1..<h] = Some zs \<and> sorted_wrt (le_by compar) (take h zs) \<and>
      mset zs = mset ys \<and> drop h zs = drop h ys"
    by (rule Suc.hyps) (use Suc.hyps(2) l ok min s(3,5) Suc.prems(4) in auto)
  moreover have "drop h ys = drop h xs"
    using s(6) l by (metis Suc_eq_plus1 Suc_leI drop_drop le_add_diff_inverse2)
  ultimately show ?case unfolding run using s(4) by auto
qed

end

context comparator
begin

text \<open>If \<open>n\<close> elements are below \<open>y\<close>, the first \<open>n\<close> of the sorted list are.\<close>

lemma sorted_front_le:
  assumes "sorted_wrt (le_by compar) zs" "mset zs = mset us" "\<forall>x \<in> set us. ok x" "ok y" "n \<le> length us"
    and "\<forall>k < n. le_by compar (us ! k) y" "i < n"
  shows "le_by compar (zs ! i) y"
proof (rule ccontr)
  assume no: "\<not> le_by compar (zs ! i) y"
  define P where "P = (\<lambda>z. le_by compar z y)"
  have len: "length zs = length us" using mset_eq_length [OF assms(2)] .
  have ok: "ok (zs ! j)" if "j < length zs" for j
    using that assms(3) mset_eq_setD [OF assms(2)] by (metis nth_mem)
  have i: "i < length zs" using assms(5,7) len by simp
  have "\<not> P z" if z: "z \<in> set (drop i zs)" for z
  proof
    assume P: "P z"
    from z obtain j where "j < length (drop i zs)" "drop i zs ! j = z" by (meson in_set_conv_nth)
    then have j: "i + j < length zs" "z = zs ! (i + j)" by auto
    have "le_by compar (zs ! i) (zs ! (i + j))"
      using sorted_wrt_nth_less [OF assms(1), of i "i + j"] le_refl [OF ok [OF i]] j(1) by (cases "j = 0") auto
    then show False
      using no P j compar_trans [OF ok [OF i] ok [OF j(1)] assms(4)] by (simp add: P_def)
  qed
  then have "filter P (drop i zs) = []" by (simp add: filter_empty_conv)
  then have "length (filter P zs) = length (filter P (take i zs))"
    by (metis append_Nil2 append_take_drop_id filter_append)
  also have "\<dots> \<le> i" by (metis length_filter_le length_take min.cobounded2 order_trans)
  finally have "length (filter P zs) \<le> i" .
  moreover have "length (filter P us) = length (filter P zs)"
    using assms(2) by (metis mset_filter size_mset)
  moreover have "length (filter P us) \<ge> n"
  proof -
    have "\<forall>x \<in> set (take n us). P x" using assms(6) by (auto simp: in_set_conv_nth P_def)
    then have "filter P (take n us) = take n us" by simp
    then have "length (filter P (take n us)) = n" using assms(5) by simp
    moreover have "length (filter P us) = length (filter P (take n us)) + length (filter P (drop n us))"
      by (metis append_take_drop_id filter_append length_append)
    ultimately show ?thesis by simp
  qed
  ultimately show False using assms(7) by simp
qed

lemma insertion_phase_correct:
  assumes "\<forall>x \<in> set xs. ok x" "2 \<le> length xs" "0 < esize" "blocks_ok compar (int n) xs []"
  shows "\<exists>ys. insertion_phase compar n esize xs = Some ys \<and> mset ys = mset xs \<and>
    (\<forall>i j. i < n \<longrightarrow> i < j \<longrightarrow> j < length xs \<longrightarrow> le_by compar (ys ! i) (ys ! j))"
proof -
  define hi where "hi = min (length xs - 1) (n + 8)"
  define r where "r = min hi ((8 * esize + 4) div esize)"
  define m where "m = min_loop compar xs 0 [1..<r + 1]"
  define ws where "ws = pqsswap xs 0 (int m)"
  have hi: "1 \<le> hi" "hi < length xs" using assms(2) by (auto simp: hi_def)
  have "8 \<le> (8 * esize + 4) div esize" using assms(3) by (simp add: div_le_mono less_eq_div_iff_mult_less_eq)
  then have r: "r \<le> hi" "min hi 8 \<le> r" by (auto simp: r_def)
  have far: "le_by compar (xs ! k) (xs ! j)" if "k < n" "k + 8 \<le> j" "j < length xs" for k j
  proof -
    from that assms(4) have "settled compar xs [] (int k)" by (auto simp: blocks_ok_def)
    then obtain c where "int k < c" "c \<le> int k + 8" "cut_at compar xs c" by (auto simp: settled_def QSORT_TRESH_def)
    then show ?thesis using cut_atD [of compar xs c "int k" "int j"] that by (simp add: at_def)
  qed
  have ran: "set (0 # [1..<r + 1]) = {0..r}" by auto
  have ml: "m \<in> {0..r}" "\<forall>k \<in> {0..r}. le_by compar (xs ! m) (xs ! k)"
  proof -
    have "0 < length xs" "\<forall>l \<in> set [1..<r + 1]. l < length xs" using hi r by auto
    from min_loop_min [OF assms(1) this] show "m \<in> {0..r}" "\<forall>k \<in> {0..r}. le_by compar (xs ! m) (xs ! k)"
      unfolding m_def [symmetric] ran by auto
  qed
  have b: "inb xs 0" "inb xs (int m)" using ml(1) r(1) hi by (auto simp: inb_def)
  have wx: "ws = xs[0 := xs ! m, m := xs ! 0]" by (simp add: ws_def pqsswap_def at_def)
  have mw: "mset ws = mset xs" using b by (simp add: ws_def)
  have lw: "length ws = length xs" by (simp add: wx)
  have okw: "\<forall>x \<in> set ws. ok x" using assms(1) mset_eq_setD [OF mw] by simp
  have tw: "mset (take (hi + 1) ws) = mset (take (hi + 1) xs)" "drop (hi + 1) ws = drop (hi + 1) xs"
    using ml(1) r(1) hi mset_swap [of m "take (hi + 1) xs" 0] by (simp_all add: wx take_update_swap)
  have first: "le_by compar (ws ! 0) (ws ! k)" if "k < hi + 1" for k
  proof -
    have "xs \<noteq> []" using hi by auto
    then have w0: "ws ! 0 = xs ! m" by (cases "m = 0") (simp_all add: wx)
    show ?thesis
    proof (cases "k \<le> r")
      case True
      define k' where "k' = (if k = m then 0 else if k = 0 then m else k)"
      have "ws ! k = xs ! k'" using True ml(1) hi r(1) \<open>xs \<noteq> []\<close> by (auto simp: wx nth_list_update k'_def)
      moreover have "k' \<in> {0..r}" using True ml(1) by (auto simp: k'_def)
      ultimately show ?thesis using ml(2) w0 by auto
    next
      case False
      then have k: "8 < k" "k < length xs" "0 < n" using that r hi by (auto simp: hi_def)
      have "ws ! k = xs ! k" using False ml(1) k by (simp add: wx)
      moreover have "le_by compar (xs ! m) (xs ! 0)" using ml(2) by simp
      moreover have "le_by compar (xs ! 0) (xs ! k)" using far [of 0 k] k by simp
      moreover have "ok (xs ! 0)" using assms(1) \<open>xs \<noteq> []\<close> by simp
      ultimately show ?thesis
        using w0 compar_trans [of "xs ! m" "xs ! 0" "xs ! k"] assms(1) ml(1) r(1) hi k by auto
    qed
  qed
  have two: "take 2 ws = [ws ! 0, ws ! 1]"
    using assms(2) lw by (cases ws; cases "tl ws") auto
  have "\<exists>ys. insertion_loop compar ws [2..<hi + 1] = Some ys \<and> sorted_wrt (le_by compar) (take (hi + 1) ys) \<and>
      mset ys = mset ws \<and> drop (hi + 1) ys = drop (hi + 1) ws"
    by (rule insertion_loop_correct [OF okw]) (use hi lw first two in auto)
  then obtain ys where y: "insertion_loop compar ws [2..<hi + 1] = Some ys" "sorted_wrt (le_by compar) (take (hi + 1) ys)"
    "mset ys = mset xs" "drop (hi + 1) ys = drop (hi + 1) xs"
    using mw tw by auto
  have run: "insertion_phase compar n esize xs = Some ys"
  proof -
    have e: "nat QSORT_TRESH = 8" by (simp add: QSORT_TRESH_def)
    show ?thesis
      unfolding insertion_phase_def Let_def e using y(1) unfolding ws_def m_def r_def hi_def .
  qed
  have ly: "length ys = length xs" using mset_eq_length [OF y(3)] .
  have front: "mset (take (hi + 1) ys) = mset (take (hi + 1) xs)"
    using y(3,4) by (metis add_right_cancel append_take_drop_id mset_append)
  have "le_by compar (ys ! i) (ys ! j)" if ij: "i < n" "i < j" "j < length xs" for i j
  proof (cases "j \<le> hi")
    case True
    then show ?thesis using sorted_wrt_nth_less [OF y(2) ij(2)] ij ly hi by simp
  next
    case False
    then have h: "hi = n + 8" using ij(3) by (auto simp: hi_def)
    have "drop (hi + 1) ys ! (j - (hi + 1)) = drop (hi + 1) xs ! (j - (hi + 1))" by (simp only: y(4))
    then have yj: "ys ! j = xs ! j" using ly ij False by simp
    have "le_by compar (take (hi + 1) ys ! i) (xs ! j)"
    proof (rule sorted_front_le [OF y(2) front, of "xs ! j" n])
      show "\<forall>x \<in> set (take (hi + 1) xs). ok x" using assms(1) by (meson in_set_takeD)
      show "ok (xs ! j)" using assms(1) ij by simp
      show "n \<le> length (take (hi + 1) xs)" using h hi by simp
      show "\<forall>k < n. le_by compar (take (hi + 1) xs ! k) (xs ! j)" using far [of _ j] ij False h by auto
    qed (rule ij(1))
    then show ?thesis using yj ij h by simp
  qed
  with run y(3) show ?thesis by blast
qed

lemma pqsort_correct:
  assumes "\<forall>x \<in> set xs. ok x" "0 < esize" "int (length xs) < 2 ^ 63"
  shows "\<exists>ys g'. psync_pqsort compar xs n esize g = Some (ys, g') \<and> mset ys = mset xs \<and>
    (\<forall>i j. i < n \<longrightarrow> i < j \<longrightarrow> j < length xs \<longrightarrow> le_by compar (ys ! i) (ys ! j))"
proof -
  have finish: "\<exists>zs. insertion_phase compar n esize ys = Some zs \<and> mset zs = mset xs \<and>
    (\<forall>i j. i < n \<longrightarrow> i < j \<longrightarrow> j < length xs \<longrightarrow> le_by compar (zs ! i) (zs ! j))"
    if "mset ys = mset xs" "blocks_ok compar (int n) ys []" "2 \<le> length xs" for ys
  proof -
    have "length ys = length xs" "\<forall>x \<in> set ys. ok x"
      using mset_eq_length [OF that(1)] mset_eq_setD [OF that(1)] assms(1) by simp_all
    then show ?thesis using insertion_phase_correct [of ys esize n] assms(2) that by simp
  qed
  consider "length xs \<le> 1" | "2 \<le> length xs" "\<not> int (length xs) > QSORT_TRESH" | "int (length xs) > QSORT_TRESH"
    by linarith
  then show ?thesis
  proof cases
    case 1
    then have "psync_pqsort compar xs n esize g = Some (xs, g)" by (simp add: psync_pqsort_def QSORT_TRESH_def)
    moreover have "\<not> (i < j \<and> j < length xs)" for i j using 1 by auto
    ultimately show ?thesis by blast
  next
    case 2
    have "settled compar xs [] i" if "0 \<le> i" "i < int (length xs)" for i
      unfolding settled_def
      by (rule exI [of _ "int (length xs)"]) (use that 2 in \<open>auto simp: cut_at_def QSORT_TRESH_def\<close>)
    then have "blocks_ok compar (int n) xs []" by (auto simp: blocks_ok_def)
    from finish [OF refl this 2(1)] obtain zs where "insertion_phase compar n esize xs = Some zs" "mset zs = mset xs"
      "\<forall>i j. i < n \<longrightarrow> i < j \<longrightarrow> j < length xs \<longrightarrow> le_by compar (zs ! i) (zs ! j)" by blast
    moreover from this(1) 2 have "psync_pqsort compar xs n esize g = Some (zs, g)" by (simp add: psync_pqsort_def)
    ultimately show ?thesis by blast
  next
    case 3
    then have len: "2 \<le> length xs" by (simp add: QSORT_TRESH_def)
    have inv: "blocks_ok compar (int n) xs [(0, int (length xs) - 1)]"
      using 3 by (auto simp: blocks_ok_def cut_at_def)
    obtain ys g' where y: "pqsort_loop compar (int n) xs g 0 (int (length xs) - 1) [] = Some (ys, g')"
      "mset ys = mset xs" "blocks_ok compar (int n) ys []"
      using pqsort_loop_correct [OF assms(1) inv _ assms(3), of g] by fastforce
    from finish [OF y(2,3) len] obtain zs where z: "insertion_phase compar n esize ys = Some zs" "mset zs = mset xs"
      "\<forall>i j. i < n \<longrightarrow> i < j \<longrightarrow> j < length xs \<longrightarrow> le_by compar (zs ! i) (zs ! j)" by blast
    have "psync_pqsort compar xs n esize g = Some (zs, g')"
      using 3 y(1) z(1) by (simp add: psync_pqsort_def)
    with z(2,3) show ?thesis by blast
  qed
qed

end

end
