(* ===== verification/PPageClean.thy ===== *)
theory PPageClean
  imports PPageSort "HOL-Library.Product_Lexorder"
begin

text \<open>
  \<open>pclsync/ppagecache.c\<close>, \<open>clean_cache\<close>: which pages of the read cache are given up when it
  is full. The rows of the table \<open>pagecache\<close> are a parameter; the entries are selected with
  \<open>psync_qpartition\<close> in seven stages, and the ids of the rest are sorted for the update.
\<close>

subsection \<open>Entries and their orders\<close>

record pagecache_entry =
  lastuse :: u32
  eid :: u32
  usecnt :: u16
  isfirst :: int
  isxfirst :: int

text \<open>The conversion of a difference to \<open>int\<close>.\<close>

definition to_int :: "int \<Rightarrow> int" where
  "to_int d = sint (word_of_int d :: 32 word)"

definition pagecache_entry_cmp_lastuse :: "pagecache_entry compar" where
  "pagecache_entry_cmp_lastuse e1 e2 = to_int (uint (lastuse e2) - uint (lastuse e1))"

definition pagecache_entry_cmp_usecnt_lastuse2 :: "pagecache_entry compar" where
  "pagecache_entry_cmp_usecnt_lastuse2 e1 e2 =
     (if usecnt e1 \<ge> 2 \<and> usecnt e2 < 2 then - 1 else if usecnt e2 \<ge> 2 \<and> usecnt e1 < 2 then 1
      else to_int (uint (lastuse e2) - uint (lastuse e1)))"

definition pagecache_entry_cmp_usecnt_lastuse4 :: "pagecache_entry compar" where
  "pagecache_entry_cmp_usecnt_lastuse4 e1 e2 =
     (if usecnt e1 \<ge> 4 \<and> usecnt e2 < 4 then - 1 else if usecnt e2 \<ge> 4 \<and> usecnt e1 < 4 then 1
      else to_int (uint (lastuse e2) - uint (lastuse e1)))"

definition pagecache_entry_cmp_usecnt_lastuse8 :: "pagecache_entry compar" where
  "pagecache_entry_cmp_usecnt_lastuse8 e1 e2 =
     (if usecnt e1 \<ge> 8 \<and> usecnt e2 < 8 then - 1 else if usecnt e2 \<ge> 8 \<and> usecnt e1 < 8 then 1
      else to_int (uint (lastuse e2) - uint (lastuse e1)))"

definition pagecache_entry_cmp_usecnt_lastuse16 :: "pagecache_entry compar" where
  "pagecache_entry_cmp_usecnt_lastuse16 e1 e2 =
     (if usecnt e1 \<ge> 16 \<and> usecnt e2 < 16 then - 1 else if usecnt e2 \<ge> 16 \<and> usecnt e1 < 16 then 1
      else to_int (uint (lastuse e2) - uint (lastuse e1)))"

definition pagecache_entry_cmp_id :: "pagecache_entry compar" where
  "pagecache_entry_cmp_id e1 e2 = to_int (sint (eid e1) - sint (eid e2))"

definition pagecache_entry_cmp_first_pages :: "pagecache_entry compar" where
  "pagecache_entry_cmp_first_pages e1 e2 =
     (let d = isfirst e2 - isfirst e1 in
      if d \<noteq> 0 then d
      else if isfirst e1 \<noteq> 0 then to_int (uint (lastuse e2) - uint (lastuse e1))
      else (let d = isxfirst e2 - isxfirst e1 in
            if d \<noteq> 0 then d else to_int (uint (lastuse e2) - uint (lastuse e1))))"

definition pagecache_entry_cmp_xfirst_pages :: "pagecache_entry compar" where
  "pagecache_entry_cmp_xfirst_pages e1 e2 =
     (let d = isxfirst e2 - isxfirst e1 in
      if d \<noteq> 0 then d else to_int (uint (lastuse e2) - uint (lastuse e1)))"

text \<open>
  The truncated differences are an order as long as times and ids stay below \<open>2 ^ 31\<close>; on such
  entries every comparison is the lexicographic order of a key.
\<close>

definition entry_ok :: "pagecache_entry \<Rightarrow> bool" where
  "entry_ok e \<longleftrightarrow> uint (lastuse e) < 2 ^ 31 \<and> uint (eid e) < 2 ^ 31 \<and> isfirst e \<in> {0, 1} \<and> isxfirst e \<in> {0, 1}"

lemma to_int_small: "- (2 ^ 31) \<le> d \<Longrightarrow> d < 2 ^ 31 \<Longrightarrow> to_int d = d"
  by (simp add: to_int_def sint_sbintrunc' signed_take_bit_int_eq_self_iff)

lemma to_int_diff: "0 \<le> x \<Longrightarrow> x < 2 ^ 31 \<Longrightarrow> 0 \<le> y \<Longrightarrow> y < 2 ^ 31 \<Longrightarrow> to_int (x - y) = x - y"
  by (rule to_int_small) linarith+

lemma comparator_by_key:
  fixes key :: "'a \<Rightarrow> int \<times> int"
  assumes "\<And>a b. ok a \<Longrightarrow> ok b \<Longrightarrow> compar a b < 0 \<longleftrightarrow> key a < key b"
  shows "comparator compar ok"
  by unfold_locales (auto simp: le_by_def assms)

lemma diff_lastuse: "entry_ok a \<Longrightarrow> entry_ok b \<Longrightarrow>
    to_int (uint (lastuse a) - uint (lastuse b)) = uint (lastuse a) - uint (lastuse b)"
  by (rule to_int_diff) (auto simp: entry_ok_def)

lemma sint_id: "entry_ok a \<Longrightarrow> sint (eid a) = uint (eid a)"
  unfolding sint_uint using uint_ge_0 [of "eid a"]
  by (intro signed_take_bit_int_eq_self) (auto simp: entry_ok_def intro: order_trans [OF _ uint_ge_0])

lemma diff_id: "entry_ok a \<Longrightarrow> entry_ok b \<Longrightarrow> to_int (sint (eid a) - sint (eid b)) = uint (eid a) - uint (eid b)"
  unfolding sint_id by (rule to_int_diff) (auto simp: entry_ok_def)

interpretation by_lastuse: comparator pagecache_entry_cmp_lastuse entry_ok
  by (rule comparator_by_key [where key = "\<lambda>e. (0, - uint (lastuse e))"])
    (simp add: pagecache_entry_cmp_lastuse_def diff_lastuse)

interpretation by_uses2: comparator pagecache_entry_cmp_usecnt_lastuse2 entry_ok
  by (rule comparator_by_key [where key = "\<lambda>e. (if usecnt e \<ge> 2 then 0 else 1, - uint (lastuse e))"])
    (auto simp: pagecache_entry_cmp_usecnt_lastuse2_def diff_lastuse)

interpretation by_uses4: comparator pagecache_entry_cmp_usecnt_lastuse4 entry_ok
  by (rule comparator_by_key [where key = "\<lambda>e. (if usecnt e \<ge> 4 then 0 else 1, - uint (lastuse e))"])
    (auto simp: pagecache_entry_cmp_usecnt_lastuse4_def diff_lastuse)

interpretation by_uses8: comparator pagecache_entry_cmp_usecnt_lastuse8 entry_ok
  by (rule comparator_by_key [where key = "\<lambda>e. (if usecnt e \<ge> 8 then 0 else 1, - uint (lastuse e))"])
    (auto simp: pagecache_entry_cmp_usecnt_lastuse8_def diff_lastuse)

interpretation by_uses16: comparator pagecache_entry_cmp_usecnt_lastuse16 entry_ok
  by (rule comparator_by_key [where key = "\<lambda>e. (if usecnt e \<ge> 16 then 0 else 1, - uint (lastuse e))"])
    (auto simp: pagecache_entry_cmp_usecnt_lastuse16_def diff_lastuse)

interpretation by_id: comparator pagecache_entry_cmp_id entry_ok
  by (rule comparator_by_key [where key = "\<lambda>e. (0, uint (eid e))"])
    (simp add: pagecache_entry_cmp_id_def diff_id)

interpretation by_first: comparator pagecache_entry_cmp_first_pages entry_ok
  by (rule comparator_by_key [where key =
        "\<lambda>e. (if isfirst e = 1 then 0 else if isxfirst e = 1 then 1 else 2, - uint (lastuse e))"])
    (auto simp: pagecache_entry_cmp_first_pages_def Let_def diff_lastuse entry_ok_def [of a for a])

interpretation by_xfirst: comparator pagecache_entry_cmp_xfirst_pages entry_ok
  by (rule comparator_by_key [where key = "\<lambda>e. (- isxfirst e, - uint (lastuse e))"])
    (auto simp: pagecache_entry_cmp_xfirst_pages_def Let_def diff_lastuse)

subsection \<open>Reading the table\<close>

text \<open>
  \<open>db\<close> is the table: its rows in the order of their ids. Every query takes up to 50000 rows behind
  the last id \<open>e\<close>; \<open>wait i\<close> says whether another thread waits for the database lock when \<open>i\<close>
  entries have been read, which only ends the current query.
\<close>

record page_row =
  rid :: u64
  rpageid :: u64
  rlastuse :: u64
  rusecnt :: u64
  rtype :: u64

definition PAGE_TYPE_READ :: u64 where "PAGE_TYPE_READ = 1"
definition PSYNC_FS_FIRST_PAGES_UNDER_ID :: u64 where "PSYNC_FS_FIRST_PAGES_UNDER_ID = 128 * 1024 div 4096"
definition PSYNC_FS_XFIRST_PAGES_UNDER_ID :: u64 where "PSYNC_FS_XFIRST_PAGES_UNDER_ID = 1024 * 1024 div 4096"

definition entry_of_row :: "page_row \<Rightarrow> pagecache_entry" where
  "entry_of_row row =
     \<lparr>lastuse = ucast (rlastuse row), eid = ucast (rid row),
      usecnt = (if rusecnt row > 65535 then 65535 else ucast (rusecnt row)),
      isfirst = (if rlastuse row < PSYNC_FS_FIRST_PAGES_UNDER_ID then 1 else 0),
      isxfirst = (if rlastuse row < PSYNC_FS_XFIRST_PAGES_UNDER_ID then 1 else 0)\<rparr>"

fun read_chunk ::
    "nat \<Rightarrow> (nat \<Rightarrow> bool) \<Rightarrow> page_row list \<Rightarrow> pagecache_entry list \<Rightarrow> u64 \<Rightarrow> pagecache_entry list \<times> u64" where
  "read_chunk cnt wait [] es e = (es, e)"
| "read_chunk cnt wait (row # rows) es e =
     (if cnt \<le> length es then (es, e)
      else if rtype row = PAGE_TYPE_READ then
        (let es = es @ [entry_of_row row] in
         if length es mod 0x400 = 0x3ff \<and> wait (length es) then (es, rid row)
         else read_chunk cnt wait rows es (rid row))
      else read_chunk cnt wait rows es (rid row))"

definition query_rows :: "page_row list \<Rightarrow> u64 \<Rightarrow> page_row list" where
  "query_rows db e = take 50000 (filter (\<lambda>r. rid r > e) db)"

partial_function (option) read_entries ::
    "nat \<Rightarrow> (nat \<Rightarrow> bool) \<Rightarrow> page_row list \<Rightarrow> pagecache_entry list \<Rightarrow> u64 \<Rightarrow> pagecache_entry list option" where
  "read_entries cnt wait db es e =
     (if cnt \<le> length es then Some es
      else if query_rows db e = [] then Some es
      else (let (es, e) = read_chunk cnt wait (query_rows db e) es e in read_entries cnt wait db es e))"

text \<open>Whatever the interruptions, the entries are those of the rows of the read cache.\<close>

definition wanted :: "page_row list \<Rightarrow> pagecache_entry list" where
  "wanted rows = map entry_of_row (filter (\<lambda>r. rtype r = PAGE_TYPE_READ) rows)"

lemma wanted_Cons [simp]:
  "wanted (r # rs) = (if rtype r = PAGE_TYPE_READ then entry_of_row r # wanted rs else wanted rs)"
  and wanted_append [simp]: "wanted (xs @ ys) = wanted xs @ wanted ys" and wanted_Nil [simp]: "wanted [] = []"
  by (simp_all add: wanted_def)

text \<open>A query handles a non-empty initial part of its rows and stops behind the last of them.\<close>

lemma read_chunk_prefix:
  "length es < cnt \<Longrightarrow> rows \<noteq> [] \<Longrightarrow>
     \<exists>a b. rows = a @ b \<and> a \<noteq> [] \<and> read_chunk cnt wait rows es e = (es @ wanted a, rid (last a)) \<and>
       length es + length (wanted a) \<le> cnt"
proof (induction rows arbitrary: es e)
  case (Cons row rows)
  have stop: ?case if "read_chunk cnt wait (row # rows) es e = (es @ wanted [row], rid row)"
    using that Cons.prems(1) by (intro exI [of _ "[row]"] exI [of _ rows]) auto
  have go: ?case
    if run: "read_chunk cnt wait (row # rows) es e = read_chunk cnt wait rows (es @ wanted [row]) (rid row)"
  proof (cases "rows = [] \<or> cnt \<le> length (es @ wanted [row])")
    case True
    then show ?thesis using run by (intro stop, cases rows) auto
  next
    case False
    then have "length (es @ wanted [row]) < cnt" "rows \<noteq> []" by auto
    from Cons.IH [OF this, of "rid row"] obtain a b where
      "rows = a @ b" "a \<noteq> []" "read_chunk cnt wait rows (es @ wanted [row]) (rid row) = ((es @ wanted [row]) @ wanted a, rid (last a))"
      "length (es @ wanted [row]) + length (wanted a) \<le> cnt" by blast
    then show ?thesis using run by (intro exI [of _ "row # a"] exI [of _ b]) auto
  qed
  show ?case
  proof (cases "rtype row = PAGE_TYPE_READ")
    case True
    show ?thesis
    proof (cases "length (es @ [entry_of_row row]) mod 0x400 = 0x3ff \<and> wait (length (es @ [entry_of_row row]))")
      case w: True
      show ?thesis by (rule stop) (use True w Cons.prems in \<open>simp add: Let_def\<close>)
    next
      case w: False
      show ?thesis by (rule go) (use True w Cons.prems in \<open>auto simp: Let_def\<close>)
    qed
  next
    case False
    show ?thesis by (rule go) (use False Cons.prems in simp)
  qed
qed simp

lemma filter_behind:
  assumes "sorted_wrt (\<lambda>r s. rid r < rid s) (a @ b)" "a \<noteq> []"
  shows "filter (\<lambda>r. rid r > rid (last a)) (a @ b) = b"
proof -
  have "filter (\<lambda>r. rid r > rid (last a)) a = []"
    using assms by (induction a rule: rev_induct) (auto simp: sorted_wrt_append filter_empty_conv)
  moreover have "filter (\<lambda>r. rid r > rid (last a)) b = b"
    using assms by (auto simp: sorted_wrt_append filter_id_conv)
  ultimately show ?thesis by simp
qed

lemma read_entries_correct:
  assumes "sorted_wrt (\<lambda>r s. rid r < rid s) db" "length es \<le> cnt"
  shows "read_entries cnt wait db es e = Some (take cnt (es @ wanted (filter (\<lambda>r. rid r > e) db)))"
  using assms(2)
proof (induction "length (filter (\<lambda>r. rid r > e) db)" arbitrary: es e rule: less_induct)
  case less
  define rest where "rest = filter (\<lambda>r. rid r > e) db"
  have rows: "query_rows db e = take 50000 rest" by (simp add: query_rows_def rest_def)
  consider "cnt \<le> length es" | "length es < cnt" "rest = []" | "length es < cnt" "rest \<noteq> []" by linarith
  then show ?case
  proof cases
    case 1
    then show ?thesis using less.prems by (subst read_entries.simps) simp
  next
    case 2
    then show ?thesis by (subst read_entries.simps) (simp add: rows flip: rest_def)
  next
    case 3
    then have "query_rows db e \<noteq> []" by (simp add: rows)
    from read_chunk_prefix [OF 3(1) this, of wait e] obtain a b where
      ab: "query_rows db e = a @ b" "a \<noteq> []" "read_chunk cnt wait (query_rows db e) es e = (es @ wanted a, rid (last a))"
      "length es + length (wanted a) \<le> cnt" by blast
    define c where "c = b @ drop 50000 rest"
    have r: "rest = a @ c" using ab(1) rows by (metis append_assoc append_take_drop_id c_def)
    have s: "sorted_wrt (\<lambda>r s. rid r < rid s) (a @ c)"
      unfolding r [symmetric] rest_def using assms(1) by (rule sorted_wrt_filter)
    have "filter (\<lambda>r. rid r > rid (last a)) db = filter (\<lambda>r. rid r > rid (last a)) rest"
    proof -
      have "rid (last a) > e" using r ab(2) last_in_set [of a] unfolding rest_def
        by (metis (mono_tags, lifting) Un_iff mem_Collect_eq set_append set_filter)
      then show ?thesis unfolding rest_def filter_filter by (intro filter_cong) auto
    qed
    then have f: "filter (\<lambda>r. rid r > rid (last a)) db = c" using filter_behind [OF s ab(2)] r by simp
    have "read_entries cnt wait db (es @ wanted a) (rid (last a)) = Some (take cnt ((es @ wanted a) @ wanted c))"
      using less.hyps [of "rid (last a)" "es @ wanted a"] ab(2,4) r f by (simp flip: rest_def)
    moreover have "read_entries cnt wait db es e = read_entries cnt wait db (es @ wanted a) (rid (last a))"
      using 3(1) ab(2,3) \<open>query_rows db e \<noteq> []\<close> by (subst read_entries.simps) simp
    ultimately show ?thesis by (simp add: r flip: rest_def)
  qed
qed

subsection \<open>The selection\<close>

definition clean_stage ::
    "pagecache_entry compar \<Rightarrow> nat \<Rightarrow> pagecache_entry list list \<times> pagecache_entry list \<times> rnd \<Rightarrow>
     (pagecache_entry list list \<times> pagecache_entry list \<times> rnd) option" where
  "clean_stage compar rcnt st =
     (case st of (kept, entries, g) \<Rightarrow>
        Option.bind (psync_qpartition compar entries rcnt g) (\<lambda>(entries, g).
          Some (kept @ [take rcnt entries], drop rcnt entries, g)))"

text \<open>Consecutive stages, each on what the previous one has left.\<close>

fun clean_stages ::
    "(pagecache_entry compar \<times> nat) list \<Rightarrow> pagecache_entry list list \<times> pagecache_entry list \<times> rnd \<Rightarrow>
     (pagecache_entry list list \<times> pagecache_entry list \<times> rnd) option" where
  "clean_stages [] st = Some st"
| "clean_stages ((compar, rcnt) # cs) st = Option.bind (clean_stage compar rcnt st) (clean_stages cs)"

definition first_stages :: "nat \<Rightarrow> (pagecache_entry compar \<times> nat) list" where
  "first_stages ocnt =
     [(pagecache_entry_cmp_first_pages, 15 * ocnt div 100), (pagecache_entry_cmp_xfirst_pages, 5 * ocnt div 100)]"

definition lru_stages :: "nat \<Rightarrow> (pagecache_entry compar \<times> nat) list" where
  "lru_stages ocnt =
     [(pagecache_entry_cmp_lastuse, 40 * ocnt div 100), (pagecache_entry_cmp_usecnt_lastuse2, 20 * ocnt div 100),
      (pagecache_entry_cmp_usecnt_lastuse4, 15 * ocnt div 100), (pagecache_entry_cmp_usecnt_lastuse8, 10 * ocnt div 100),
      (pagecache_entry_cmp_usecnt_lastuse16, 5 * ocnt div 100)]"

text \<open>The result: the reserved parts, and the ids of the pages to free in the order of the updates.\<close>

definition clean_cache ::
    "pagecache_entry list \<Rightarrow> rnd \<Rightarrow> (pagecache_entry list list \<times> u32 list \<times> rnd) option" where
  "clean_cache entries g =
     Option.bind (clean_stages (first_stages (length entries)) ([], entries, g)) (\<lambda>(kept, entries, g).
     Option.bind (clean_stages (lru_stages (length entries)) (kept, entries, g)) (\<lambda>(kept, entries, g).
     Option.bind (psync_pqsort pagecache_entry_cmp_id entries (length entries) 16 g) (\<lambda>(entries, g).
       Some (kept, map eid entries, g))))"

lemma clean_stage_ok:
  assumes "comparator compar entry_ok" "\<forall>e \<in> set entries. entry_ok e" "rcnt < length entries \<or> length entries = 0 \<and> rcnt = 0"
  shows "\<exists>seg rest g'. clean_stage compar rcnt (kept, entries, g) = Some (kept @ [seg], rest, g') \<and>
    mset seg + mset rest = mset entries \<and> length seg = rcnt \<and> length rest = length entries - rcnt \<and>
    (\<forall>e \<in> set rest. entry_ok e) \<and> (\<forall>a \<in> set seg. \<forall>b \<in> set rest. le_by compar a b)"
proof -
  have c: "rcnt < length entries \<or> length entries \<le> 1" using assms(3) by auto
  obtain ys g' where y: "psync_qpartition compar entries rcnt g = Some (ys, g')" "mset ys = mset entries"
    "\<forall>i < rcnt. \<forall>j. rcnt \<le> j \<and> j < length entries \<longrightarrow> le_by compar (ys ! i) (ys ! j)"
    using comparator.qpartition_correct [OF assms(1,2) c, of g] by (metis surj_pair)
  have len: "length ys = length entries" using mset_eq_length [OF y(2)] .
  have m: "mset (take rcnt ys) + mset (drop rcnt ys) = mset entries"
    using y(2) by (metis append_take_drop_id mset_append)
  have "\<forall>e \<in> set (drop rcnt ys). entry_ok e"
    using assms(2) mset_eq_setD [OF y(2)] by (metis in_set_dropD)
  moreover have "le_by compar a b" if "a \<in> set (take rcnt ys)" "b \<in> set (drop rcnt ys)" for a b
  proof -
    note ab = that
    obtain i where "i < length (take rcnt ys)" "take rcnt ys ! i = a" using ab(1) by (meson in_set_conv_nth)
    moreover obtain j where "j < length (drop rcnt ys)" "drop rcnt ys ! j = b" using ab(2) by (meson in_set_conv_nth)
    ultimately show ?thesis using y(3) [rule_format, of i "rcnt + j"] len by auto
  qed
  moreover have "length (take rcnt ys) = rcnt" using assms(3) len by auto
  ultimately show ?thesis
    using y(1) m len by (intro exI [of _ "take rcnt ys"] exI [of _ "drop rcnt ys"] exI [of _ g']) (simp add: clean_stage_def)
qed

text \<open>What the reserved parts have to satisfy: no part may come after anything that is left behind it.\<close>

fun reserved_ok ::
    "pagecache_entry compar list \<Rightarrow> pagecache_entry list list \<Rightarrow> pagecache_entry list \<Rightarrow> bool" where
  "reserved_ok (compar # cs) (seg # segs) freed \<longleftrightarrow>
     (\<forall>a \<in> set seg. \<forall>b \<in> set (concat segs @ freed). le_by compar a b) \<and> reserved_ok cs segs freed"
| "reserved_ok [] [] freed \<longleftrightarrow> True"
| "reserved_ok _ _ freed \<longleftrightarrow> False"

lemma reserved_ok_append:
  "reserved_ok cs segs rest \<Longrightarrow> reserved_ok cs' segs' freed \<Longrightarrow> set rest = set (concat segs' @ freed) \<Longrightarrow>
     reserved_ok (cs @ cs') (segs @ segs') freed"
  by (induction cs segs rest rule: reserved_ok.induct) auto

lemma clean_stages_ok:
  assumes "\<forall>(c, r) \<in> set cs. comparator c entry_ok" "\<forall>e \<in> set entries. entry_ok e"
    and "sum_list (map snd cs) < length entries \<or> length entries = 0 \<and> sum_list (map snd cs) = 0"
  shows "\<exists>segs rest g'. clean_stages cs (kept, entries, g) = Some (kept @ segs, rest, g') \<and>
    mset (concat segs @ rest) = mset entries \<and> map length segs = map snd cs \<and> (\<forall>e \<in> set rest. entry_ok e) \<and>
    reserved_ok (map fst cs) segs rest"
  using assms
proof (induction cs arbitrary: kept entries g)
  case Nil
  then show ?case by (intro exI [of _ "[]"] exI [of _ entries] exI [of _ g]) simp
next
  case (Cons cr cs)
  obtain c r where cr: "cr = (c, r)" by force
  have r: "r < length entries \<or> length entries = 0 \<and> r = 0" using Cons.prems(3) by (auto simp: cr)
  obtain seg es g1 where s: "clean_stage c r (kept, entries, g) = Some (kept @ [seg], es, g1)"
    "mset seg + mset es = mset entries" "length seg = r" "length es = length entries - r"
    "\<forall>e \<in> set es. entry_ok e" "\<forall>a \<in> set seg. \<forall>b \<in> set es. le_by c a b"
    using clean_stage_ok [OF _ Cons.prems(2) r, of c kept g] Cons.prems(1) by (auto simp: cr)
  have c: "\<forall>(c, r) \<in> set cs. comparator c entry_ok"
    "sum_list (map snd cs) < length es \<or> length es = 0 \<and> sum_list (map snd cs) = 0"
    using Cons.prems(1,3) s(4) by (auto simp: cr)
  obtain segs rest g2 where t: "clean_stages cs (kept @ [seg], es, g1) = Some ((kept @ [seg]) @ segs, rest, g2)"
    "mset (concat segs @ rest) = mset es" "map length segs = map snd cs" "\<forall>e \<in> set rest. entry_ok e"
    "reserved_ok (map fst cs) segs rest"
    using Cons.IH [OF c(1) s(5) c(2), of "kept @ [seg]" g1] by blast
  have "set (concat segs @ rest) = set es" using mset_eq_setD [OF t(2)] .
  then have "reserved_ok (map fst (cr # cs)) (seg # segs) rest" using s(6) t(5) by (simp add: cr)
  moreover have "clean_stages (cr # cs) (kept, entries, g) = Some (kept @ (seg # segs), rest, g2)"
    using s(1) t(1) by (simp add: cr)
  moreover have "mset (concat (seg # segs) @ rest) = mset entries" using s(2) t(2) by (simp add: add.assoc)
  ultimately show ?case using s(3) t(3,4) by (intro exI [of _ "seg # segs"] exI [of _ rest] exI [of _ g2]) (simp add: cr)
qed

lemmas stage_comparators = by_first.comparator_axioms by_xfirst.comparator_axioms by_lastuse.comparator_axioms
  by_uses2.comparator_axioms by_uses4.comparator_axioms by_uses8.comparator_axioms by_uses16.comparator_axioms

definition clean_orders :: "pagecache_entry compar list" where
  "clean_orders = map fst (first_stages 0 @ lru_stages 0)"

lemma clean_cache_ok:
  assumes "\<forall>e \<in> set entries. entry_ok e" "length entries < 2 ^ 32"
  shows "\<exists>kept freed g' n. clean_cache entries g = Some (kept, map eid freed, g') \<and>
    mset (concat kept @ freed) = mset entries \<and> reserved_ok clean_orders kept freed \<and>
    n = length entries - 15 * length entries div 100 - 5 * length entries div 100 \<and>
    map length kept = map snd (first_stages (length entries) @ lru_stages n) \<and> sorted (map (uint \<circ> eid) freed)"
proof -
  define n1 where "n1 = length entries"
  have f: "\<forall>(c, r) \<in> set (first_stages n1). comparator c entry_ok" "\<forall>(c, r) \<in> set (lru_stages n). comparator c entry_ok" for n
    by (simp_all add: first_stages_def lru_stages_def stage_comparators)
  have "sum_list (map snd (first_stages n1)) < n1 \<or> n1 = 0 \<and> sum_list (map snd (first_stages n1)) = 0"
    by (simp add: first_stages_def) linarith
  then have c1: "sum_list (map snd (first_stages n1)) < length entries \<or>
      length entries = 0 \<and> sum_list (map snd (first_stages n1)) = 0"
    by (simp only: n1_def)
  from clean_stages_ok [OF f(1) assms(1) c1, of "[]" g]
  obtain segs1 es g1 where 1: "clean_stages (first_stages n1) ([], entries, g) = Some (segs1, es, g1)"
    "mset (concat segs1 @ es) = mset entries" "map length segs1 = map snd (first_stages n1)" "\<forall>e \<in> set es. entry_ok e"
    "reserved_ok (map fst (first_stages n1)) segs1 es" by auto
  define n where "n = length es"
  have "length es = n1 - length (concat segs1)" using mset_eq_length [OF 1(2)] by (simp add: n1_def)
  then have n: "n = n1 - 15 * n1 div 100 - 5 * n1 div 100"
    using 1(3) by (simp add: n_def length_concat first_stages_def)
  have "sum_list (map snd (lru_stages n)) < n \<or> n = 0 \<and> sum_list (map snd (lru_stages n)) = 0"
    by (simp add: lru_stages_def) linarith
  then have c2: "sum_list (map snd (lru_stages n)) < length es \<or> length es = 0 \<and> sum_list (map snd (lru_stages n)) = 0"
    by (simp only: n_def)
  from clean_stages_ok [OF f(2) 1(4) c2, of segs1 g1]
  obtain segs2 rest g2 where 2: "clean_stages (lru_stages n) (segs1, es, g1) = Some (segs1 @ segs2, rest, g2)"
    "mset (concat segs2 @ rest) = mset es" "map length segs2 = map snd (lru_stages n)" "\<forall>e \<in> set rest. entry_ok e"
    "reserved_ok (map fst (lru_stages n)) segs2 rest" by blast
  have "int (length rest) < 2 ^ 63"
    using mset_eq_length [OF 1(2)] mset_eq_length [OF 2(2)] assms(2) by simp
  from by_id.pqsort_correct [OF 2(4) _ this, of 16 "length rest" g2]
  obtain freed g3 where 3: "psync_pqsort pagecache_entry_cmp_id rest (length rest) 16 g2 = Some (freed, g3)"
    "mset freed = mset rest" "\<forall>i j. i < length rest \<longrightarrow> i < j \<longrightarrow> j < length rest \<longrightarrow> le_by pagecache_entry_cmp_id (freed ! i) (freed ! j)"
    by auto
  have len: "length freed = length rest" and sf: "set freed = set rest"
    using mset_eq_length [OF 3(2)] mset_eq_setD [OF 3(2)] by auto
  have "sorted (map (uint \<circ> eid) freed)"
  proof (subst sorted_wrt_iff_nth_less, intro allI impI)
    fix i j assume ij: "i < j" "j < length (map (uint \<circ> eid) freed)"
    have "entry_ok (freed ! i)" "entry_ok (freed ! j)" using ij len sf 2(4) by auto
    then show "map (uint \<circ> eid) freed ! i \<le> map (uint \<circ> eid) freed ! j"
      using 3(3) [rule_format, of i j] ij len diff_id [of "freed ! j" "freed ! i"]
      by (simp add: le_by_def pagecache_entry_cmp_id_def)
  qed
  moreover have "reserved_ok (map fst (lru_stages n)) segs2 freed"
    using reserved_ok_append [OF 2(5), of "[]" "[]" freed] sf by simp
  then have "reserved_ok (map fst (first_stages n1) @ map fst (lru_stages n)) (segs1 @ segs2) freed"
    using mset_eq_setD [OF 2(2)] sf by (intro reserved_ok_append [OF 1(5)]) auto
  then have "reserved_ok clean_orders (segs1 @ segs2) freed"
    by (simp add: clean_orders_def first_stages_def lru_stages_def)
  moreover have "clean_cache entries g = Some (segs1 @ segs2, map eid freed, g3)"
    using 1(1) 2(1) 3(1) by (simp add: clean_cache_def n1_def n_def)
  moreover have "mset (concat (segs1 @ segs2) @ freed) = mset entries"
    using 1(2) 2(2) 3(2) by (simp add: add.assoc)
  moreover have "map length (segs1 @ segs2) = map snd (first_stages (length entries) @ lru_stages n)"
    using 1(3) 2(3) by (simp add: n1_def)
  ultimately show ?thesis using n unfolding n1_def by blast
qed

subsection \<open>Properties\<close>

text \<open>
  Quickselect: with a comparison that orders the elements, \<open>psync_qpartition\<close> ends without a
  comparison outside of the array, permutes it, and brings the \<open>sort_first\<close> smallest elements to its front.
\<close>

theorem psync_qpartition_selects:
  assumes "comparator compar ok" "\<forall>x \<in> set xs. ok x" "sort_first < length xs \<or> length xs \<le> 1"
  shows "\<exists>ys g'. psync_qpartition compar xs sort_first g = Some (ys, g') \<and> mset ys = mset xs \<and>
    (\<forall>i < sort_first. \<forall>j. sort_first \<le> j \<and> j < length xs \<longrightarrow> le_by compar (ys ! i) (ys ! j))"
  by (rule comparator.qpartition_correct [OF assms])

definition page :: "nat \<Rightarrow> nat \<Rightarrow> nat \<Rightarrow> pagecache_entry" where
  "page i t u = \<lparr>lastuse = word_of_nat t, eid = word_of_nat i, usecnt = word_of_nat u, isfirst = 0, isxfirst = 0\<rparr>"

lemma page_ok: "t < 2 ^ 31 \<Longrightarrow> i < 2 ^ 31 \<Longrightarrow> entry_ok (page i t u)"
  by (simp add: entry_ok_def page_def uint_nat unat_of_nat take_bit_nat_eq_self)

theorem psync_qpartition_selects_witness:
  "\<exists>ys g'. psync_qpartition pagecache_entry_cmp_lastuse [page 1 10 1, page 2 30 1, page 3 20 1] 1 pq_seed = Some (ys, g') \<and>
     mset ys = mset [page 1 10 1, page 2 30 1, page 3 20 1]"
proof -
  have "\<forall>e \<in> set [page 1 10 1, page 2 30 1, page 3 20 1]. entry_ok e" by (simp add: page_ok)
  from psync_qpartition_selects [OF by_lastuse.comparator_axioms this, of 1 pq_seed] show ?thesis by auto
qed

text \<open>
  C15. Quicksort: \<open>psync_pqsort\<close> ends without a comparison outside of the array and without filling
  its stack of 64 blocks, permutes the array, and leaves its first \<open>n\<close> elements sorted and before all
  the others.
\<close>

theorem psync_pqsort_sorts:
  assumes "comparator compar ok" "\<forall>x \<in> set xs. ok x" "0 < esize" "int (length xs) < 2 ^ 63"
  shows "\<exists>ys g'. psync_pqsort compar xs n esize g = Some (ys, g') \<and> mset ys = mset xs \<and>
    (\<forall>i j. i < n \<longrightarrow> i < j \<longrightarrow> j < length xs \<longrightarrow> le_by compar (ys ! i) (ys ! j))"
  by (rule comparator.pqsort_correct [OF assms])

theorem psync_pqsort_sorts_witness:
  "\<exists>ys g'. psync_pqsort pagecache_entry_cmp_id [page 7 10 1, page 2 30 1, page 5 20 1] 3 16 pq_seed = Some (ys, g') \<and>
     mset ys = mset [page 7 10 1, page 2 30 1, page 5 20 1]"
proof -
  have "\<forall>e \<in> set [page 7 10 1, page 2 30 1, page 5 20 1]. entry_ok e" by (simp add: page_ok)
  from psync_pqsort_sorts [OF by_id.comparator_axioms this, of 16 3 pq_seed] show ?thesis by auto
qed

text \<open>
  C16. Cleaning the cache: the selection ends, every entry is reserved or freed, exactly once; each of the
  seven reserved parts has its share of the entries, and none of its entries comes after an entry of a
  later part or a freed one in the order of the part; the ids to free are ascending.
\<close>

theorem clean_cache_selection:
  assumes "\<forall>e \<in> set entries. entry_ok e" "length entries < 2 ^ 32"
  shows "\<exists>kept freed g' n. clean_cache entries g = Some (kept, map eid freed, g') \<and>
    mset (concat kept @ freed) = mset entries \<and> reserved_ok clean_orders kept freed \<and>
    n = length entries - 15 * length entries div 100 - 5 * length entries div 100 \<and>
    map length kept = map snd (first_stages (length entries) @ lru_stages n) \<and> sorted (map (uint \<circ> eid) freed)"
  by (rule clean_cache_ok [OF assms])

theorem clean_cache_selection_witness:
  "clean_cache [page 1 10 1, page 2 30 1, page 3 20 1] pq_seed \<noteq> None"
proof -
  have "\<forall>e \<in> set [page 1 10 1, page 2 30 1, page 3 20 1]. entry_ok e" by (simp add: page_ok)
  from clean_cache_selection [OF this, of pq_seed] show ?thesis by auto
qed

text \<open>
  Reading the table in queries of 50000 rows, interrupted whenever another thread waits for the
  database, gives the entries of all rows of the read cache, in order, up to the size of the array.
\<close>

theorem read_entries_complete:
  assumes "sorted_wrt (\<lambda>r s. rid r < rid s) db"
  shows "read_entries cnt wait db [] 0 = Some (take cnt (wanted (filter (\<lambda>r. rid r > 0) db)))"
  using read_entries_correct [OF assms, of "[]" cnt wait 0] by simp

theorem read_entries_complete_witness:
  "\<exists>es. read_entries 2 (\<lambda>_. True)
     [\<lparr>rid = 1, rpageid = 0, rlastuse = 1700000000, rusecnt = 70000, rtype = 1\<rparr>,
      \<lparr>rid = 4, rpageid = 9, rlastuse = 1700000001, rusecnt = 1, rtype = 1\<rparr>] [] 0 = Some es \<and> length es = 2"
  by (subst read_entries_complete) (simp_all add: wanted_def PAGE_TYPE_READ_def)

text \<open>
  The share that is meant for the first pages of files goes to the most recently used entries
  instead: the flags are computed from the time of the last use, so the number of the page has no
  influence on an entry, and with any time from 256 on both flags are 0.
\<close>

theorem first_pages_flag_ignores_page:
  "entry_of_row (row\<lparr>rpageid := p\<rparr>) = entry_of_row row \<and>
   (rlastuse row < 256 \<or> isfirst (entry_of_row row) = 0 \<and> isxfirst (entry_of_row row) = 0)"
proof -
  have "rlastuse row < 32 \<Longrightarrow> rlastuse row < 256" by (erule order.strict_trans) simp
  then show ?thesis
    by (auto simp: entry_of_row_def PSYNC_FS_FIRST_PAGES_UNDER_ID_def PSYNC_FS_XFIRST_PAGES_UNDER_ID_def)
qed

end
