(* ===== verification/PCache.thy ===== *)
theory PCache
  imports Prelude "HOL-Library.Sublist"
begin

text \<open>
  \<open>pclsync/pcache.c\<close>: the cache of expiring objects. A hash table of 2048 lists under 8 locks; every
  entry has a timer of \<open>ptimer.c\<close> that removes it. \<open>ptimer_stop\<close> fails for a timer whose callback
  has begun: \<open>running\<close> holds these timers, and their entries are left to the callback.

  One step of the model is one critical section of a bucket's lock. Keys are byte strings without
  the terminating zero. \<open>given\<close> and \<open>freed\<close> record the values that were returned to a caller and
  those that were passed to the free callback.
\<close>

subsection \<open>State\<close>

definition CACHE_HASH_SIZE :: nat where "CACHE_HASH_SIZE = 2048"
definition CACHE_NUM_LOCKS :: nat where "CACHE_NUM_LOCKS = 8"

definition hash_to_bucket :: "'a::len word \<Rightarrow> nat" where
  "hash_to_bucket h = unat h mod CACHE_HASH_SIZE"

text \<open>The product wraps around in the type of \<open>h\<close>.\<close>

definition hash_to_lock :: "'a::len word \<Rightarrow> nat" where
  "hash_to_lock h = unat (h * word_of_nat CACHE_NUM_LOCKS) div CACHE_HASH_SIZE mod CACHE_NUM_LOCKS"

record 'v cache_entry =
  evalue :: 'v
  etimer :: nat
  ehash :: u32
  ekey :: bytes

record 'v cache =
  cache_hash :: "'v cache_entry list list"
  hash_seed :: u32
  running :: "nat set"
  next_timer :: nat
  given :: "'v list"
  freed :: "'v list"

text \<open>\<open>schar\<close> says whether \<open>char\<close> is signed, so that its conversion extends the sign.\<close>

definition hash_char :: "bool \<Rightarrow> u32 \<Rightarrow> u8 \<Rightarrow> u32" where
  "hash_char schar hash k = (if schar then scast k else ucast k) + push_bit 5 hash + hash"

definition compute_hash :: "bool \<Rightarrow> u32 \<Rightarrow> bytes \<Rightarrow> u32" where
  "compute_hash schar seed key =
     (let hash = fold (\<lambda>k hash. hash_char schar hash k) key seed; hash = hash + push_bit 3 hash
      in hash XOR drop_bit 11 hash)"

definition pcache_init :: "u32 \<Rightarrow> 'v cache" where
  "pcache_init now =
     \<lparr>cache_hash = replicate CACHE_HASH_SIZE [], hash_seed = now * 0xc2b2ae35, running = {}, next_timer = 0,
      given = [], freed = []\<rparr>"

definition bucket :: "'v cache \<Rightarrow> u32 \<Rightarrow> 'v cache_entry list" where
  "bucket s h = cache_hash s ! hash_to_bucket h"

definition set_bucket :: "u32 \<Rightarrow> 'v cache_entry list \<Rightarrow> 'v cache \<Rightarrow> 'v cache" where
  "set_bucket h l s = s\<lparr>cache_hash := (cache_hash s)[hash_to_bucket h := l]\<rparr>"

definition matches :: "u32 \<Rightarrow> bytes \<Rightarrow> 'v cache_entry \<Rightarrow> bool" where
  "matches h key he \<longleftrightarrow> ehash he = h \<and> ekey he = key"

subsection \<open>Operations\<close>

text \<open>The first entry of the key whose timer can be stopped, and the list without it.\<close>

fun take_entry :: "nat set \<Rightarrow> u32 \<Rightarrow> bytes \<Rightarrow> 'v cache_entry list \<Rightarrow> ('v \<times> 'v cache_entry list) option" where
  "take_entry run h key [] = None"
| "take_entry run h key (he # lst) =
     (if matches h key he \<and> etimer he \<notin> run then Some (evalue he, lst)
      else (case take_entry run h key lst of None \<Rightarrow> None | Some (v, lst') \<Rightarrow> Some (v, he # lst')))"

definition pcache_get :: "bool \<Rightarrow> bytes \<Rightarrow> 'v cache \<Rightarrow> 'v option \<times> 'v cache" where
  "pcache_get schar key s =
     (let h = compute_hash schar (hash_seed s) key in
      case take_entry (running s) h key (bucket s h) of
        None \<Rightarrow> (None, s)
      | Some (val, lst) \<Rightarrow> (Some val, (set_bucket h lst s)\<lparr>given := given s @ [val]\<rparr>))"

definition pcache_has :: "bool \<Rightarrow> bytes \<Rightarrow> 'v cache \<Rightarrow> bool" where
  "pcache_has schar key s =
     (let h = compute_hash schar (hash_seed s) key in list_ex (matches h key) (bucket s h))"

text \<open>\<open>++l == maxkeys\<close> for some entry of the key.\<close>

fun limit_reached :: "u32 \<Rightarrow> bytes \<Rightarrow> nat \<Rightarrow> nat \<Rightarrow> 'v cache_entry list \<Rightarrow> bool" where
  "limit_reached h key maxkeys l [] \<longleftrightarrow> False"
| "limit_reached h key maxkeys l (he # lst) \<longleftrightarrow>
     (if matches h key he then l + 1 = maxkeys \<or> limit_reached h key maxkeys (l + 1) lst
      else limit_reached h key maxkeys l lst)"

definition pcache_add :: "bool \<Rightarrow> bytes \<Rightarrow> 'v \<Rightarrow> nat \<Rightarrow> 'v cache \<Rightarrow> 'v cache" where
  "pcache_add schar key ptr maxkeys s =
     (let h = compute_hash schar (hash_seed s) key in
      if maxkeys \<noteq> 0 \<and> limit_reached h key maxkeys 0 (bucket s h) then s\<lparr>freed := freed s @ [ptr]\<rparr>
      else (set_bucket h (\<lparr>evalue = ptr, etimer = next_timer s, ehash = h, ekey = key\<rparr> # bucket s h) s)
             \<lparr>next_timer := next_timer s + 1\<rparr>)"

text \<open>\<open>pcache_del\<close> leaves the lock to free a value and starts again: one section, and the loop of sections.\<close>

definition del_section :: "bool \<Rightarrow> bytes \<Rightarrow> 'v cache \<Rightarrow> 'v cache option" where
  "del_section schar key s =
     (let h = compute_hash schar (hash_seed s) key in
      case take_entry (running s) h key (bucket s h) of
        None \<Rightarrow> None
      | Some (val, lst) \<Rightarrow> Some ((set_bucket h lst s)\<lparr>freed := freed s @ [val]\<rparr>))"

partial_function (option) pcache_del :: "bool \<Rightarrow> bytes \<Rightarrow> 'v cache \<Rightarrow> 'v cache option" where
  "pcache_del schar key s =
     (case del_section schar key s of None \<Rightarrow> Some s | Some s' \<Rightarrow> pcache_del schar key s')"

text \<open>The entries of a bucket that stay, and the values of the others.\<close>

fun clean_list :: "('v cache_entry \<Rightarrow> bool) \<Rightarrow> nat set \<Rightarrow> 'v cache_entry list \<Rightarrow> 'v cache_entry list \<times> 'v list" where
  "clean_list P run [] = ([], [])"
| "clean_list P run (he # lst) =
     (let (kept, vals) = clean_list P run lst in
      if \<not> P he then (he # kept, vals)
      else if etimer he \<notin> run then (kept, evalue he # vals)
      else (he # kept, vals))"

definition clean_bucket :: "('v cache_entry \<Rightarrow> bool) \<Rightarrow> nat \<Rightarrow> 'v cache \<Rightarrow> 'v cache" where
  "clean_bucket P b s =
     (let (kept, vals) = clean_list P (running s) (cache_hash s ! b)
      in s\<lparr>cache_hash := (cache_hash s)[b := kept], freed := freed s @ vals\<rparr>)"

definition pcache_clean :: "'v cache \<Rightarrow> 'v cache" where
  "pcache_clean s = fold (clean_bucket (\<lambda>he. True)) [0..<CACHE_HASH_SIZE] s"

text \<open>\<open>strncmp\<close> over the length of the prefix: the key begins with it.\<close>

definition has_prefix :: "bytes list \<Rightarrow> 'v cache_entry \<Rightarrow> bool" where
  "has_prefix prefs he \<longleftrightarrow> list_ex (\<lambda>p. prefix p (ekey he)) prefs"

definition pcache_clean_oneof :: "bytes list \<Rightarrow> 'v cache \<Rightarrow> 'v cache" where
  "pcache_clean_oneof prefs s = fold (clean_bucket (has_prefix prefs)) [0..<CACHE_HASH_SIZE] s"

text \<open>The timer of an entry begins to run, and its callback.\<close>

definition timer_fires :: "'v cache_entry \<Rightarrow> 'v cache \<Rightarrow> 'v cache" where
  "timer_fires he s = s\<lparr>running := insert (etimer he) (running s)\<rparr>"

definition cache_timer :: "'v cache_entry \<Rightarrow> 'v cache \<Rightarrow> 'v cache" where
  "cache_timer he s =
     (set_bucket (ehash he) (filter (\<lambda>x. etimer x \<noteq> etimer he) (bucket s (ehash he))) s)
       \<lparr>freed := freed s @ [evalue he], running := running s - {etimer he}\<rparr>"

subsection \<open>Locks\<close>

lemma hash_to_bucket_less [simp]: "hash_to_bucket h < CACHE_HASH_SIZE"
  by (simp add: hash_to_bucket_def CACHE_HASH_SIZE_def)

text \<open>Entries of one bucket are under one lock, whether it is computed from a hash or from the bucket's number.\<close>

lemma hash_to_lock_bucket:
  fixes h :: u32
  shows "hash_to_lock h = hash_to_bucket h div 256"
proof -
  have "unat (h * 8) = unat h * 8 mod 2 ^ 32" by (simp add: unat_mult_lem unat_word_ariths)
  then have "hash_to_lock h = unat h * 8 mod (2 ^ 29 * 8) div (256 * 8) mod 8"
    by (simp add: hash_to_lock_def CACHE_HASH_SIZE_def CACHE_NUM_LOCKS_def)
  also have "unat h * 8 mod (2 ^ 29 * 8) = unat h mod 2 ^ 29 * 8" by (rule mod_mult_mult2)
  also have "unat h mod 2 ^ 29 * 8 div (256 * 8) = unat h mod 2 ^ 29 div 256" by (rule div_mult_mult2) simp
  also have "unat h mod 2 ^ 29 div 256 mod 8 = unat h mod 2 ^ 29 mod (256 * 8) div 256"
    by (subst mod_mult2_eq) simp
  also have "unat h mod 2 ^ 29 mod (256 * 8) = unat h mod (256 * 8)" by (rule mod_mod_cancel) simp
  finally show ?thesis by (simp add: hash_to_bucket_def CACHE_HASH_SIZE_def)
qed

lemma bucket_lock:
  assumes "b < CACHE_HASH_SIZE"
  shows "hash_to_lock (word_of_nat b :: u64) = b div 256"
proof -
  have "unat ((word_of_nat b :: u64) * 8) = b * 8"
    using assms by (simp add: unat_word_ariths unat_of_nat take_bit_nat_eq_self CACHE_HASH_SIZE_def)
  then show ?thesis
    using assms by (simp add: hash_to_lock_def CACHE_HASH_SIZE_def CACHE_NUM_LOCKS_def)
qed

subsection \<open>Invariant\<close>

definition entries :: "'v cache \<Rightarrow> 'v cache_entry list" where
  "entries s = concat (cache_hash s)"

definition placed :: "bool \<Rightarrow> u32 \<Rightarrow> nat \<Rightarrow> nat \<Rightarrow> 'v cache_entry \<Rightarrow> bool" where
  "placed schar seed timers b he \<longleftrightarrow>
     hash_to_bucket (ehash he) = b \<and> ehash he = compute_hash schar seed (ekey he) \<and> etimer he < timers"

definition cache_ok :: "bool \<Rightarrow> 'v cache \<Rightarrow> bool" where
  "cache_ok schar s \<longleftrightarrow>
     length (cache_hash s) = CACHE_HASH_SIZE \<and>
     (\<forall>b < CACHE_HASH_SIZE. \<forall>he \<in> set (cache_hash s ! b). placed schar (hash_seed s) (next_timer s) b he) \<and>
     distinct (map etimer (entries s)) \<and> running s \<subseteq> etimer ` set (entries s)"

definition holdings :: "'v cache \<Rightarrow> 'v multiset" where
  "holdings s = mset (map evalue (entries s)) + mset (given s) + mset (freed s)"

lemma placed_mono: "placed schar seed n b he \<Longrightarrow> n \<le> n' \<Longrightarrow> placed schar seed n' b he"
  unfolding placed_def using order_less_le_trans by blast

lemma mset_map_union: "mset xs = mset ys + mset zs \<Longrightarrow> mset (map f xs) = mset (map f ys) + mset (map f zs)"
  by (metis image_mset_union mset_map)

lemma mset_filter_split: "mset xs = mset (filter (\<lambda>x. \<not> P x) xs) + mset (filter P xs)"
  by (induction xs) auto

lemma filter_unique_key: "distinct (map f xs) \<Longrightarrow> x \<in> set xs \<Longrightarrow> filter (\<lambda>y. f y = f x) xs = [x]"
proof (induction xs)
  case (Cons a xs)
  show ?case
  proof (cases "a = x")
    case True
    then have "filter (\<lambda>y. f y = f x) xs = []" using Cons.prems(1) by (auto simp: filter_empty_conv) (metis image_eqI)
    then show ?thesis using True by simp
  next
    case False
    then have "f a \<noteq> f x" using Cons.prems by auto
    then show ?thesis using Cons False by simp
  qed
qed simp

text \<open>Everything but the own bucket stays when a bucket's list is replaced.\<close>

lemma concat_update:
  assumes "b < length xss"
  shows "mset (concat (xss[b := l])) + mset (xss ! b) = mset (concat xss) + mset l"
proof -
  have "concat xss = concat (take b xss) @ xss ! b @ concat (drop (Suc b) xss)"
    by (metis assms concat.simps(2) concat_append id_take_nth_drop)
  moreover have "concat (xss[b := l]) = concat (take b xss) @ l @ concat (drop (Suc b) xss)"
    by (simp add: upd_conv_take_nth_drop assms)
  ultimately show ?thesis by (simp add: ac_simps)
qed

lemma mset_entries_update:
  assumes "b < length (cache_hash s)" "mset (cache_hash s ! b) = mset l + mset gone"
  shows "mset (entries s) = mset (concat ((cache_hash s)[b := l])) + mset gone"
  using concat_update [OF assms(1), of l] assms(2) by (simp add: entries_def)

text \<open>Taking entries out of one bucket.\<close>

lemma cache_ok_remove:
  assumes "cache_ok schar s" "b < CACHE_HASH_SIZE" "mset (cache_hash s ! b) = mset l + mset gone"
    and s': "cache_hash s' = (cache_hash s)[b := l]" "hash_seed s' = hash_seed s" "next_timer s' = next_timer s"
      "running s' \<subseteq> running s" "running s' \<inter> etimer ` set gone = {}"
  shows "cache_ok schar s'" "mset (entries s) = mset (entries s') + mset gone"
proof -
  have len: "length (cache_hash s) = CACHE_HASH_SIZE" using assms(1) by (simp add: cache_ok_def)
  show m: "mset (entries s) = mset (entries s') + mset gone"
    using mset_entries_update [of b s l gone] assms(2,3) len by (simp add: entries_def s'(1))
  have "mset (map etimer (entries s)) = mset (map etimer (entries s' @ gone))" using m by simp
  then have "distinct (map etimer (entries s' @ gone))"
    using assms(1) by (metis cache_ok_def mset_eq_imp_distinct_iff)
  then have d: "distinct (map etimer (entries s'))" by simp
  have "set (entries s) = set (entries s') \<union> set gone" using m by (metis set_mset_mset set_mset_union)
  then have "etimer ` set (entries s) = etimer ` set (entries s') \<union> etimer ` set gone" by auto
  then have "running s' \<subseteq> etimer ` set (entries s')"
    using assms(1) s'(4,5) unfolding cache_ok_def by blast
  moreover have "set l \<subseteq> set (cache_hash s ! b)" using assms(3) by (metis set_mset_mset set_mset_union Un_upper1)
  ultimately show "cache_ok schar s'"
    using assms(1,2) d len by (auto simp: cache_ok_def s'(1-3) nth_list_update)
qed

lemma take_entry_Some:
  "take_entry run h key lst = Some (v, lst') \<Longrightarrow>
     \<exists>he. evalue he = v \<and> matches h key he \<and> etimer he \<notin> run \<and> mset lst = mset lst' + mset [he] \<and>
       he = hd (filter (\<lambda>x. matches h key x \<and> etimer x \<notin> run) lst) \<and>
       filter (\<lambda>x. matches h key x \<and> etimer x \<notin> run) lst' = tl (filter (\<lambda>x. matches h key x \<and> etimer x \<notin> run) lst) \<and>
       filter (\<lambda>x. matches h key x \<and> etimer x \<notin> run) lst \<noteq> [] \<and>
       (\<forall>P. \<not> P he \<longrightarrow> filter P lst' = filter P lst)"
  by (induction lst arbitrary: lst') (fastforce split: if_splits option.splits)+

lemma take_entry_None:
  "take_entry run h key lst = None \<longleftrightarrow> filter (\<lambda>x. matches h key x \<and> etimer x \<notin> run) lst = []"
  by (induction lst) (auto split: option.splits)

lemma clean_list_result:
  "clean_list P run lst = (kept, vals) \<Longrightarrow>
     kept = filter (\<lambda>he. \<not> P he \<or> etimer he \<in> run) lst \<and> vals = map evalue (filter (\<lambda>he. P he \<and> etimer he \<notin> run) lst)"
  by (induction lst arbitrary: kept vals) (auto simp: Let_def split: prod.splits if_splits)

lemma entry_placed: "cache_ok schar s \<Longrightarrow> he \<in> set (entries s) \<Longrightarrow>
    he \<in> set (bucket s (ehash he)) \<and> placed schar (hash_seed s) (next_timer s) (hash_to_bucket (ehash he)) he"
proof -
  assume ok: "cache_ok schar s" and "he \<in> set (entries s)"
  then obtain l where "l \<in> set (cache_hash s)" "he \<in> set l" by (auto simp: entries_def)
  then obtain b where b: "b < length (cache_hash s)" "he \<in> set (cache_hash s ! b)" by (metis in_set_conv_nth)
  then have p: "placed schar (hash_seed s) (next_timer s) b he" using ok by (simp add: cache_ok_def)
  then have "b = hash_to_bucket (ehash he)" unfolding placed_def by blast
  with b p show ?thesis by (simp add: bucket_def)
qed

lemma running_less: "cache_ok schar s \<Longrightarrow> t \<in> running s \<Longrightarrow> t < next_timer s"
proof -
  assume ok: "cache_ok schar s" and "t \<in> running s"
  then obtain he where "he \<in> set (entries s)" "t = etimer he" by (auto simp: cache_ok_def)
  then show ?thesis using entry_placed [OF ok] by (simp add: placed_def)
qed

lemma bucket_subset: "length (cache_hash s) = CACHE_HASH_SIZE \<Longrightarrow> set (bucket s h) \<subseteq> set (entries s)"
  using nth_mem [of "hash_to_bucket h" "cache_hash s"] hash_to_bucket_less [of h] by (force simp: entries_def bucket_def)

lemma bucket_other: "hash_to_bucket h' \<noteq> hash_to_bucket h \<Longrightarrow>
    cache_hash s' = (cache_hash s)[hash_to_bucket h := l] \<Longrightarrow> bucket s' h' = bucket s h'"
  by (simp add: bucket_def)

lemma bucket_same: "hash_to_bucket h' = hash_to_bucket h \<Longrightarrow> length (cache_hash s) = CACHE_HASH_SIZE \<Longrightarrow>
    cache_hash s' = (cache_hash s)[hash_to_bucket h := l] \<Longrightarrow> bucket s' h' = l"
  by (simp add: bucket_def)

text \<open>All entries of a key are in the bucket of its hash, in the order of the table.\<close>

lemma bucket_holds_key:
  fixes key :: bytes
  assumes "cache_ok schar s"
  defines "h \<equiv> compute_hash schar (hash_seed s) key"
  shows "length (filter (matches h key) (bucket s h)) = length (filter (\<lambda>he. ekey he = key) (entries s))"
proof -
  let ?P = "\<lambda>he. ekey he = key"
  have len: "length (cache_hash s) = CACHE_HASH_SIZE" using assms(1) by (simp add: cache_ok_def)
  have pl: "ekey he = key \<Longrightarrow> b < CACHE_HASH_SIZE \<Longrightarrow> he \<in> set (cache_hash s ! b) \<Longrightarrow> ehash he = h \<and> b = hash_to_bucket h" for b he
    using assms(1) unfolding cache_ok_def placed_def h_def by metis
  have "filter (matches h key) (bucket s h) = filter ?P (bucket s h)"
    unfolding bucket_def by (rule filter_cong [OF refl]) (use pl [OF _ hash_to_bucket_less] in \<open>auto simp: matches_def\<close>)
  moreover have "filter ?P (cache_hash s ! b) = []" if "b < CACHE_HASH_SIZE" "b \<noteq> hash_to_bucket h" for b
    using pl [OF _ that(1)] that(2) by (auto simp: filter_empty_conv)
  then have no: "filter ?P l = []"
    if "l \<in> set (take (hash_to_bucket h) (cache_hash s)) \<or> l \<in> set (drop (Suc (hash_to_bucket h)) (cache_hash s))" for l
    using that len hash_to_bucket_less [of h] by (auto simp: in_set_conv_nth less_diff_conv simp del: hash_to_bucket_less)
  have "filter ?P (concat (take (hash_to_bucket h) (cache_hash s))) = []"
    "filter ?P (concat (drop (Suc (hash_to_bucket h)) (cache_hash s))) = []"
    unfolding filter_concat concat_eq_Nil_conv using no by auto
  moreover have "entries s = concat (take (hash_to_bucket h) (cache_hash s)) @ bucket s h @ concat (drop (Suc (hash_to_bucket h)) (cache_hash s))"
    unfolding entries_def bucket_def using len
    by (metis concat.simps(2) concat_append hash_to_bucket_less id_take_nth_drop)
  ultimately show ?thesis by simp
qed

subsection \<open>Abstraction\<close>

text \<open>
  What a caller can get: for every key the values that can still be taken, the most recent one first.
\<close>

definition available :: "bool \<Rightarrow> 'v cache \<Rightarrow> bytes \<Rightarrow> 'v list" where
  "available schar s key =
     (let h = compute_hash schar (hash_seed s) key
      in map evalue (filter (\<lambda>he. matches h key he \<and> etimer he \<notin> running s) (bucket s h)))"

lemma take_step:
  assumes ok: "cache_ok schar s" and h: "h = compute_hash schar (hash_seed s) key"
    and t: "take_entry (running s) h key (bucket s h) = Some (v, lst)"
    and s': "cache_hash s' = (cache_hash s)[hash_to_bucket h := lst]" "hash_seed s' = hash_seed s"
      "next_timer s' = next_timer s" "running s' = running s"
  shows "cache_ok schar s'" "mset (map evalue (entries s)) = mset (map evalue (entries s')) + {#v#}"
    "available schar s = (available schar s')(key := v # available schar s' key)"
proof -
  obtain he where he: "evalue he = v" "matches h key he" "etimer he \<notin> running s" "mset (bucket s h) = mset lst + mset [he]"
    "he = hd (filter (\<lambda>x. matches h key x \<and> etimer x \<notin> running s) (bucket s h))"
    "filter (\<lambda>x. matches h key x \<and> etimer x \<notin> running s) lst = tl (filter (\<lambda>x. matches h key x \<and> etimer x \<notin> running s) (bucket s h))"
    "filter (\<lambda>x. matches h key x \<and> etimer x \<notin> running s) (bucket s h) \<noteq> []"
    "\<forall>P. \<not> P he \<longrightarrow> filter P lst = filter P (bucket s h)"
    using take_entry_Some [OF t] by blast
  have len: "length (cache_hash s) = CACHE_HASH_SIZE" using ok by (simp add: cache_ok_def)
  note r = cache_ok_remove [OF ok hash_to_bucket_less he(4) [unfolded bucket_def] s'(1-3)]
  show "cache_ok schar s'" using r(1) he(3) by (simp add: s'(4))
  have "mset (entries s) = mset (entries s') + mset [he]" using r(2) he(3) by (simp add: s'(4))
  from mset_map_union [OF this, of evalue] he(1)
  show "mset (map evalue (entries s)) = mset (map evalue (entries s')) + {#v#}" by simp
  show "available schar s = (available schar s')(key := v # available schar s' key)"
  proof
    fix k
    define h' where "h' = compute_hash schar (hash_seed s) k"
    have av: "available schar s k = map evalue (filter (\<lambda>x. matches h' k x \<and> etimer x \<notin> running s) (bucket s h'))"
      "available schar s' k = map evalue (filter (\<lambda>x. matches h' k x \<and> etimer x \<notin> running s) (bucket s' h'))"
      by (simp_all add: available_def h'_def s'(2,4) Let_def)
    show "available schar s k = ((available schar s')(key := v # available schar s' key)) k"
    proof (cases "k = key")
      case True
      then have h': "h' = h" by (simp add: h'_def h)
      have "available schar s' k = map evalue (tl (filter (\<lambda>x. matches h key x \<and> etimer x \<notin> running s) (bucket s h)))"
        unfolding av h' bucket_same [OF refl len s'(1)] using True he(6) by simp
      moreover have "available schar s k = v # map evalue (tl (filter (\<lambda>x. matches h key x \<and> etimer x \<notin> running s) (bucket s h)))"
        unfolding av h' using True he(1,5,7)
        by (cases "filter (\<lambda>x. matches h key x \<and> etimer x \<notin> running s) (bucket s h)") auto
      ultimately show ?thesis using True by simp
    next
      case False
      have "filter (\<lambda>x. matches h' k x \<and> etimer x \<notin> running s) (bucket s' h') =
          filter (\<lambda>x. matches h' k x \<and> etimer x \<notin> running s) (bucket s h')"
      proof (cases "hash_to_bucket h' = hash_to_bucket h")
        case True
        have "\<not> (matches h' k he \<and> etimer he \<notin> running s)" using he(2) False by (simp add: matches_def)
        then show ?thesis using he(8) bucket_same [OF True len s'(1)] True by (simp add: bucket_def)
      qed (simp add: bucket_other [OF _ s'(1)])
      then show ?thesis using False by (simp add: av)
    qed
  qed
qed

subsection \<open>The operations keep the invariant\<close>

lemma pcache_get_correct:
  assumes "cache_ok schar s" "pcache_get schar key s = (res, s')"
  shows "cache_ok schar s'" "holdings s' = holdings s"
    "res = (case available schar s key of [] \<Rightarrow> None | v # _ \<Rightarrow> Some v)"
    "available schar s' = (available schar s)(key := tl (available schar s key))"
proof -
  define h where "h = compute_hash schar (hash_seed s) key"
  have "cache_ok schar s' \<and> holdings s' = holdings s \<and> res = (case available schar s key of [] \<Rightarrow> None | v # _ \<Rightarrow> Some v) \<and>
    available schar s' = (available schar s)(key := tl (available schar s key))"
  proof (cases "take_entry (running s) h key (bucket s h)")
    case None
    then have "available schar s key = []" using take_entry_None by (fastforce simp: available_def h_def Let_def)
    moreover have "s' = s" "res = None" using assms(2) None by (auto simp: pcache_get_def h_def Let_def)
    ultimately show ?thesis using assms(1) by (simp add: fun_upd_idem)
  next
    case (Some vl)
    obtain v lst where vl: "vl = (v, lst)" by force
    have s': "s' = (set_bucket h lst s)\<lparr>given := given s @ [v]\<rparr>" "res = Some v"
      using assms(2) Some by (auto simp: pcache_get_def h_def Let_def vl)
    note t = take_step [OF assms(1) h_def Some [unfolded vl], of s']
    have "available schar s = (available schar s')(key := v # available schar s' key)"
      by (rule t(3)) (simp_all add: s' set_bucket_def)
    then have "available schar s key = v # available schar s' key"
      "available schar s' = (available schar s)(key := available schar s' key)"
      by auto
    moreover have "holdings s' = holdings s"
      using t(2) by (simp add: holdings_def s' set_bucket_def)
    moreover have "cache_ok schar s'" by (rule t(1)) (simp_all add: s' set_bucket_def)
    ultimately show ?thesis using s'(2) by auto
  qed
  then show "cache_ok schar s'" "holdings s' = holdings s"
    "res = (case available schar s key of [] \<Rightarrow> None | v # _ \<Rightarrow> Some v)"
    "available schar s' = (available schar s)(key := tl (available schar s key))" by auto
qed

lemma del_section_correct:
  assumes "cache_ok schar s" "del_section schar key s = Some s'"
  shows "cache_ok schar s'" "holdings s' = holdings s"
    "\<exists>v. available schar s = (available schar s')(key := v # available schar s' key)"
proof -
  define h where "h = compute_hash schar (hash_seed s) key"
  obtain v lst where t: "take_entry (running s) h key (bucket s h) = Some (v, lst)"
    and s': "s' = (set_bucket h lst s)\<lparr>freed := freed s @ [v]\<rparr>"
    using assms(2) by (auto simp: del_section_def h_def Let_def split: option.splits)
  note t = take_step [OF assms(1) h_def t, of s']
  show "cache_ok schar s'" by (rule t(1)) (simp_all add: s' set_bucket_def)
  show "holdings s' = holdings s" using t(2) by (simp add: holdings_def s' set_bucket_def)
  have "available schar s = (available schar s')(key := v # available schar s' key)"
    by (rule t(3)) (simp_all add: s' set_bucket_def)
  then show "\<exists>v. available schar s = (available schar s')(key := v # available schar s' key)" by blast
qed

text \<open>The loop of \<open>pcache_del\<close> ends: every section takes one of the values that are left.\<close>

lemma pcache_del_correct:
  assumes "cache_ok schar s"
  shows "\<exists>s'. pcache_del schar key s = Some s' \<and> cache_ok schar s' \<and> holdings s' = holdings s \<and>
    available schar s' = (available schar s)(key := [])"
  using assms
proof (induction "length (available schar s key)" arbitrary: s rule: less_induct)
  case less
  show ?case
  proof (cases "del_section schar key s")
    case None
    then have "available schar s key = []"
      using take_entry_None by (fastforce simp: del_section_def available_def Let_def split: option.splits)
    then show ?thesis using None less.prems by (subst pcache_del.simps) (simp add: fun_upd_idem)
  next
    case (Some s1)
    note d = del_section_correct [OF less.prems Some]
    obtain v where v: "available schar s = (available schar s1)(key := v # available schar s1 key)" using d(3) by blast
    then have "length (available schar s1 key) < length (available schar s key)" by simp
    from less.hyps [OF this d(1)] obtain s' where "pcache_del schar key s1 = Some s'" "cache_ok schar s'"
      "holdings s' = holdings s1" "available schar s' = (available schar s1)(key := [])" by blast
    then show ?thesis using d(2) v Some by (subst pcache_del.simps) simp
  qed
qed

lemma limit_reached_count:
  "l < maxkeys \<Longrightarrow> limit_reached h key maxkeys l lst \<longleftrightarrow> maxkeys \<le> l + length (filter (matches h key) lst)"
proof (induction lst arbitrary: l)
  case (Cons he lst)
  show ?case
    using Cons.IH [of l] Cons.IH [of "l + 1"] Cons.prems
    by (cases "matches h key he"; cases "l + 1 = maxkeys") auto
qed simp

lemma pcache_add_correct:
  fixes key :: bytes and maxkeys :: nat
  assumes "cache_ok schar s"
  defines "h \<equiv> compute_hash schar (hash_seed s) key"
  defines "full \<equiv> maxkeys \<noteq> 0 \<and> maxkeys \<le> length (filter (matches h key) (bucket s h))"
  shows "cache_ok schar (pcache_add schar key v maxkeys s)"
    "holdings (pcache_add schar key v maxkeys s) = holdings s + {#v#}"
    "available schar (pcache_add schar key v maxkeys s) =
       (if full then available schar s else (available schar s)(key := v # available schar s key))"
proof -
  define he where "he = \<lparr>evalue = v, etimer = next_timer s, ehash = h, ekey = key\<rparr>"
  define s1 where "s1 = (set_bucket h (he # bucket s h) s)\<lparr>next_timer := next_timer s + 1\<rparr>"
  have run: "pcache_add schar key v maxkeys s = (if full then s\<lparr>freed := freed s @ [v]\<rparr> else s1)"
  proof (cases "maxkeys = 0")
    case False
    then have "limit_reached h key maxkeys 0 (bucket s h) \<longleftrightarrow> maxkeys \<le> length (filter (matches h key) (bucket s h))"
      using limit_reached_count [of 0 maxkeys] by simp
    then show ?thesis by (simp add: pcache_add_def Let_def full_def s1_def he_def h_def [symmetric])
  qed (simp add: pcache_add_def Let_def full_def s1_def he_def h_def [symmetric])
  have len: "length (cache_hash s) = CACHE_HASH_SIZE" using assms(1) by (simp add: cache_ok_def)
  have "mset (entries s1) + mset (bucket s h) = mset (entries s) + mset (he # bucket s h)"
    using concat_update [of "hash_to_bucket h" "cache_hash s" "he # bucket s h"] len
    by (simp add: entries_def s1_def set_bucket_def bucket_def)
  then have m: "mset (entries s1) = add_mset he (mset (entries s))" by simp
  have new: "next_timer s \<notin> etimer ` set (entries s)"
  proof
    assume "next_timer s \<in> etimer ` set (entries s)"
    then obtain x where "x \<in> set (entries s)" "etimer x = next_timer s" by auto
    then show False using entry_placed [OF assms(1), of x] by (simp add: placed_def)
  qed
  have "mset (map etimer (entries s1)) = mset (next_timer s # map etimer (entries s))" using m by (simp add: he_def)
  then have d: "distinct (map etimer (entries s1))"
    using assms(1) new by (metis cache_ok_def distinct.simps(2) list.set_map mset_eq_imp_distinct_iff)
  have set1: "set (entries s1) = insert he (set (entries s))" using m by (metis set_mset_add_mset_insert set_mset_mset)
  have pl: "placed schar (hash_seed s1) (next_timer s1) b x"
    if "b < CACHE_HASH_SIZE" "x \<in> set (cache_hash s1 ! b)" for b x
  proof (cases "b = hash_to_bucket h")
    case True
    then have "x = he \<or> x \<in> set (cache_hash s ! b)" using that len by (simp add: s1_def set_bucket_def bucket_def)
    then show ?thesis
    proof
      assume "x = he"
      then show ?thesis using True by (simp add: placed_def he_def s1_def set_bucket_def h_def)
    next
      assume "x \<in> set (cache_hash s ! b)"
      then have "placed schar (hash_seed s) (next_timer s) b x" using assms(1) that(1) by (simp add: cache_ok_def)
      from placed_mono [OF this] show ?thesis by (simp add: s1_def set_bucket_def)
    qed
  next
    case False
    then have "x \<in> set (cache_hash s ! b)" using that by (simp add: s1_def set_bucket_def)
    then have "placed schar (hash_seed s) (next_timer s) b x" using assms(1) that(1) by (simp add: cache_ok_def)
    from placed_mono [OF this] show ?thesis by (simp add: s1_def set_bucket_def)
  qed
  have "running s1 = running s" by (simp add: s1_def set_bucket_def)
  then have "cache_ok schar s1"
    using assms(1) len d pl set1 by (auto simp: cache_ok_def) (simp_all add: s1_def set_bucket_def)
  then show "cache_ok schar (pcache_add schar key v maxkeys s)"
    using assms(1) by (simp add: run) (simp add: cache_ok_def entries_def)
  show "holdings (pcache_add schar key v maxkeys s) = holdings s + {#v#}"
    using m by (simp add: run holdings_def) (simp add: entries_def s1_def set_bucket_def he_def)
  have "available schar s1 = (available schar s)(key := v # available schar s key)"
  proof
    fix k
    define h' where "h' = compute_hash schar (hash_seed s) k"
    have av: "available schar s k = map evalue (filter (\<lambda>x. matches h' k x \<and> etimer x \<notin> running s) (bucket s h'))"
      "available schar s1 k = map evalue (filter (\<lambda>x. matches h' k x \<and> etimer x \<notin> running s) (bucket s1 h'))"
      by (simp_all add: available_def h'_def s1_def set_bucket_def bucket_def Let_def)
    have c: "cache_hash s1 = (cache_hash s)[hash_to_bucket h := he # bucket s h]" by (simp add: s1_def set_bucket_def)
    have nr: "etimer he \<notin> running s" using running_less [OF assms(1)] by (auto simp: he_def)
    have mk: "matches h' k he \<longleftrightarrow> k = key" by (auto simp: matches_def he_def h'_def h_def)
    show "available schar s1 k = ((available schar s)(key := v # available schar s key)) k"
    proof (cases "hash_to_bucket h' = hash_to_bucket h")
      case True
      then have "bucket s1 h' = he # bucket s h'" using bucket_same [OF True len c] by (simp add: bucket_def)
      then show ?thesis using nr mk av by (auto simp: he_def)
    next
      case False
      then have "k \<noteq> key" by (auto simp: h'_def h_def)
      then show ?thesis using av bucket_other [OF False c] by simp
    qed
  qed
  moreover have "available schar (s\<lparr>freed := freed s @ [v]\<rparr>) = available schar s"
    by (rule ext) (simp add: available_def bucket_def)
  ultimately show "available schar (pcache_add schar key v maxkeys s) =
       (if full then available schar s else (available schar s)(key := v # available schar s key))"
    by (simp add: run)
qed

subsection \<open>Cleaning and timers\<close>

lemma clean_bucket_correct:
  assumes "cache_ok schar s" "b < CACHE_HASH_SIZE" and P: "\<And>he. P he \<longleftrightarrow> Q (ekey he)"
  shows "cache_ok schar (clean_bucket P b s)" "holdings (clean_bucket P b s) = holdings s"
    "available schar (clean_bucket P b s) =
       (\<lambda>k. if hash_to_bucket (compute_hash schar (hash_seed s) k) = b \<and> Q k then [] else available schar s k)"
    "hash_seed (clean_bucket P b s) = hash_seed s"
proof -
  define kept where "kept = filter (\<lambda>he. \<not> P he \<or> etimer he \<in> running s) (cache_hash s ! b)"
  define gone where "gone = filter (\<lambda>he. P he \<and> etimer he \<notin> running s) (cache_hash s ! b)"
  define s1 where "s1 = s\<lparr>cache_hash := (cache_hash s)[b := kept], freed := freed s @ map evalue gone\<rparr>"
  have run: "clean_bucket P b s = s1"
    using clean_list_result [of P "running s" "cache_hash s ! b"]
    by (auto simp: clean_bucket_def s1_def kept_def gone_def split: prod.splits)
  have "kept = filter (\<lambda>he. \<not> (P he \<and> etimer he \<notin> running s)) (cache_hash s ! b)"
    unfolding kept_def by (rule filter_cong) auto
  then have m: "mset (cache_hash s ! b) = mset kept + mset gone"
    unfolding gone_def using mset_filter_split by metis
  have r: "running s1 = running s" by (simp add: s1_def)
  have "running s1 \<inter> etimer ` set gone = {}" by (auto simp: r gone_def)
  note rem = cache_ok_remove [OF assms(1,2) m, of s1, OF _ _ _ _ this]
  show "cache_ok schar (clean_bucket P b s)" unfolding run by (rule rem(1)) (simp_all add: s1_def)
  have "mset (entries s) = mset (entries s1) + mset gone" by (rule rem(2)) (simp_all add: s1_def)
  from mset_map_union [OF this] have "mset (map evalue (entries s)) = mset (map evalue (entries s1)) + mset (map evalue gone)" .
  then show "holdings (clean_bucket P b s) = holdings s" unfolding run by (simp add: holdings_def) (simp add: s1_def)
  show "hash_seed (clean_bucket P b s) = hash_seed s" unfolding run by (simp add: s1_def)
  have len: "length (cache_hash s) = CACHE_HASH_SIZE" using assms(1) by (simp add: cache_ok_def)
  show "available schar (clean_bucket P b s) =
      (\<lambda>k. if hash_to_bucket (compute_hash schar (hash_seed s) k) = b \<and> Q k then [] else available schar s k)"
  proof
    fix k
    define h where "h = compute_hash schar (hash_seed s) k"
    have av: "available schar s k = map evalue (filter (\<lambda>x. matches h k x \<and> etimer x \<notin> running s) (cache_hash s ! hash_to_bucket h))"
      "available schar s1 k = map evalue (filter (\<lambda>x. matches h k x \<and> etimer x \<notin> running s) (cache_hash s1 ! hash_to_bucket h))"
      by (simp_all add: available_def h_def s1_def bucket_def Let_def)
    have k: "matches h k x \<Longrightarrow> P x \<longleftrightarrow> Q k" for x by (simp add: P matches_def)
    show "available schar (clean_bucket P b s) k =
        (if hash_to_bucket (compute_hash schar (hash_seed s) k) = b \<and> Q k then [] else available schar s k)"
    proof (cases "hash_to_bucket h = b")
      case True
      then have "cache_hash s1 ! hash_to_bucket h = kept" using assms(2) len by (simp add: s1_def)
      moreover have "filter (\<lambda>x. matches h k x \<and> etimer x \<notin> running s) kept =
          (if Q k then [] else filter (\<lambda>x. matches h k x \<and> etimer x \<notin> running s) (cache_hash s ! b))"
        unfolding kept_def filter_filter using k by (auto simp: filter_empty_conv intro!: filter_cong)
      ultimately show ?thesis using True by (simp add: run av flip: h_def)
    next
      case False
      then have "cache_hash s1 ! hash_to_bucket h = cache_hash s ! hash_to_bucket h" by (simp add: s1_def)
      then show ?thesis using False by (simp add: run av flip: h_def)
    qed
  qed
qed

lemma clean_fold_correct:
  assumes "cache_ok schar s" "\<forall>b \<in> set bs. b < CACHE_HASH_SIZE" and P: "\<And>he. P he \<longleftrightarrow> Q (ekey he)"
  shows "cache_ok schar (fold (clean_bucket P) bs s) \<and> holdings (fold (clean_bucket P) bs s) = holdings s \<and>
    available schar (fold (clean_bucket P) bs s) =
      (\<lambda>k. if hash_to_bucket (compute_hash schar (hash_seed s) k) \<in> set bs \<and> Q k then [] else available schar s k)"
  using assms(1,2)
proof (induction bs arbitrary: s)
  case (Cons b bs)
  then have "b < CACHE_HASH_SIZE" by simp
  note c = clean_bucket_correct [where P = P and Q = Q, OF Cons.prems(1) this P]
  show ?case
    using Cons.IH [OF c(1)] Cons.prems(2) c(2-4) by (auto simp: fun_eq_iff)
qed simp

lemma pcache_clean_correct:
  assumes "cache_ok schar s"
  shows "cache_ok schar (pcache_clean s)" "holdings (pcache_clean s) = holdings s"
    "available schar (pcache_clean s) = (\<lambda>k. [])"
  using clean_fold_correct [OF assms, of "[0..<CACHE_HASH_SIZE]" "\<lambda>_. True" "\<lambda>_. True"] by (simp_all add: pcache_clean_def)

lemma pcache_clean_oneof_correct:
  assumes "cache_ok schar s"
  shows "cache_ok schar (pcache_clean_oneof prefs s)" "holdings (pcache_clean_oneof prefs s) = holdings s"
    "available schar (pcache_clean_oneof prefs s) =
      (\<lambda>k. if list_ex (\<lambda>p. prefix p k) prefs then [] else available schar s k)"
  using clean_fold_correct [OF assms, of "[0..<CACHE_HASH_SIZE]" "has_prefix prefs" "\<lambda>k. list_ex (\<lambda>p. prefix p k) prefs"]
  by (simp_all add: pcache_clean_oneof_def has_prefix_def)

lemma timer_fires_correct:
  assumes "cache_ok schar s" "he \<in> set (entries s)"
  shows "cache_ok schar (timer_fires he s)" "holdings (timer_fires he s) = holdings s"
  using assms by (auto simp: cache_ok_def timer_fires_def entries_def holdings_def)

lemma cache_timer_correct:
  assumes "cache_ok schar s" "he \<in> set (entries s)" "etimer he \<in> running s"
  shows "cache_ok schar (cache_timer he s)" "holdings (cache_timer he s) = holdings s"
    "available schar (cache_timer he s) = available schar s"
proof -
  define h where "h = ehash he"
  define rest where "rest = filter (\<lambda>x. etimer x \<noteq> etimer he) (bucket s h)"
  define s1 where "s1 = cache_timer he s"
  have len: "length (cache_hash s) = CACHE_HASH_SIZE" and d: "distinct (map etimer (entries s))"
    using assms(1) by (simp_all add: cache_ok_def)
  have s1: "cache_hash s1 = (cache_hash s)[hash_to_bucket h := rest]" "hash_seed s1 = hash_seed s" "next_timer s1 = next_timer s"
    "running s1 = running s - {etimer he}" "given s1 = given s" "freed s1 = freed s @ [evalue he]"
    by (simp_all add: s1_def cache_timer_def set_bucket_def h_def rest_def)
  have hb: "he \<in> set (bucket s h)" using entry_placed [OF assms(1,2)] by (simp add: h_def)
  have "mset (filter (\<lambda>x. etimer x = etimer he) (bucket s h)) = mset [he]"
  proof -
    have "entries s = concat (take (hash_to_bucket h) (cache_hash s)) @ bucket s h @ concat (drop (Suc (hash_to_bucket h)) (cache_hash s))"
      unfolding entries_def bucket_def using len
      by (metis concat.simps(2) concat_append hash_to_bucket_less id_take_nth_drop)
    then have db: "distinct (map etimer (bucket s h))" using d by simp
    show ?thesis using filter_unique_key [OF db hb] by simp
  qed
  then have m: "mset (cache_hash s ! hash_to_bucket h) = mset rest + mset [he]"
    using mset_filter_split [of "bucket s h" "\<lambda>x. etimer x = etimer he"]
    by (simp add: rest_def bucket_def)
  have dis: "running s1 \<inter> etimer ` set [he] = {}" by (simp add: s1(4))
  note rem = cache_ok_remove [OF assms(1) hash_to_bucket_less m, of s1, OF s1(1-3) _ dis]
  show "cache_ok schar (cache_timer he s)" using rem(1) by (simp add: s1 flip: s1_def)
  have "mset (entries s) = mset (entries s1) + mset [he]" by (rule rem(2)) (auto simp: s1)
  from mset_map_union [OF this, of evalue] have "mset (map evalue (entries s)) = mset (map evalue (entries s1)) + {#evalue he#}"
    by simp
  then show "holdings (cache_timer he s) = holdings s" by (simp add: holdings_def s1 flip: s1_def)
  have only: "etimer x \<in> running s1 \<longleftrightarrow> etimer x \<in> running s" if "etimer x \<noteq> etimer he" for x
    using that by (simp add: s1)
  show "available schar (cache_timer he s) = available schar s"
  proof
    fix k
    define h' where "h' = compute_hash schar (hash_seed s) k"
    have "filter (\<lambda>x. matches h' k x \<and> etimer x \<notin> running s1) (bucket s1 h') =
        filter (\<lambda>x. matches h' k x \<and> etimer x \<notin> running s) (bucket s h')"
    proof (cases "hash_to_bucket h' = hash_to_bucket h")
      case True
      then have "bucket s1 h' = rest" "bucket s h' = bucket s h" using bucket_same [OF True len s1(1)] by (simp_all add: bucket_def)
      then show ?thesis using assms(3) by (auto simp: rest_def s1(4) intro!: filter_cong)
    next
      case False
      have "etimer x \<noteq> etimer he" if "x \<in> set (bucket s h')" for x
      proof
        assume e: "etimer x = etimer he"
        have x: "x \<in> set (entries s)"
          using that bucket_subset [OF len] by blast
        with e d assms(2) have "x = he" by (metis distinct_map inj_onD)
        then have "he \<in> set (cache_hash s ! hash_to_bucket h')" using that by (simp add: bucket_def)
        then have "placed schar (hash_seed s) (next_timer s) (hash_to_bucket h') he" using assms(1) by (simp add: cache_ok_def)
        then show False using False unfolding placed_def h_def by metis
      qed
      then show ?thesis using bucket_other [OF False s1(1)] by (auto simp: s1(4) intro!: filter_cong)
    qed
    then show "available schar (cache_timer he s) k = available schar s k"
      by (simp add: available_def h'_def s1(2) Let_def flip: s1_def)
  qed
qed

subsection \<open>All interleavings\<close>

text \<open>
  The cache together with everything that was ever added to it. A step is a critical section of
  some thread or a timer that begins to run.
\<close>

inductive cache_step :: "bool \<Rightarrow> 'v cache \<times> 'v multiset \<Rightarrow> 'v cache \<times> 'v multiset \<Rightarrow> bool" for schar where
  get: "pcache_get schar key s = (res, s') \<Longrightarrow> cache_step schar (s, A) (s', A)"
| add: "cache_step schar (s, A) (pcache_add schar key v maxkeys s, add_mset v A)"
| del: "del_section schar key s = Some s' \<Longrightarrow> cache_step schar (s, A) (s', A)"
| clean: "b < CACHE_HASH_SIZE \<Longrightarrow> cache_step schar (s, A) (clean_bucket (\<lambda>he. True) b s, A)"
| clean_oneof: "b < CACHE_HASH_SIZE \<Longrightarrow> cache_step schar (s, A) (clean_bucket (has_prefix prefs) b s, A)"
| fire: "he \<in> set (entries s) \<Longrightarrow> etimer he \<notin> running s \<Longrightarrow> cache_step schar (s, A) (timer_fires he s, A)"
| expire: "he \<in> set (entries s) \<Longrightarrow> etimer he \<in> running s \<Longrightarrow> cache_step schar (s, A) (cache_timer he s, A)"

definition cache_start :: "'v cache \<times> 'v multiset \<Rightarrow> bool" where
  "cache_start sA \<longleftrightarrow> (\<exists>now. sA = (pcache_init now, {#}))"

definition cache_inv :: "bool \<Rightarrow> 'v cache \<times> 'v multiset \<Rightarrow> bool" where
  "cache_inv schar sA \<longleftrightarrow> cache_ok schar (fst sA) \<and> holdings (fst sA) = snd sA"

lemma concat_replicate_Nil: "concat (replicate n []) = []"
  by (induction n) simp_all

interpretation pc: transition_system cache_start "cache_step schar" "cache_inv schar"
proof
  show "cache_inv schar s" if "cache_start s" for s :: "'v cache \<times> 'v multiset"
    using that by (auto simp: cache_start_def cache_inv_def cache_ok_def holdings_def entries_def pcache_init_def concat_replicate_Nil)
next
  show "cache_inv schar s'" if "cache_inv schar s" "cache_step schar s s'" for s s' :: "'v cache \<times> 'v multiset"
    using that(2,1)
  proof (cases rule: cache_step.cases)
    case (clean b s A)
    then show ?thesis
      using clean_bucket_correct(1,2) [of schar s b "\<lambda>_. True" "\<lambda>_. True"] that(1) by (simp add: cache_inv_def)
  next
    case (clean_oneof b s A prefs)
    then show ?thesis
      using clean_bucket_correct(1,2) [of schar s b "has_prefix prefs" "\<lambda>k. list_ex (\<lambda>p. prefix p k) prefs"] that(1)
      by (simp add: cache_inv_def has_prefix_def)
  next
    case (get key s res s' A)
    with pcache_get_correct(1,2) [of schar s key res s'] that(1) show ?thesis by (simp add: cache_inv_def)
  next
    case (add s A key v maxkeys)
    with pcache_add_correct(1,2) [of schar s key v maxkeys] that(1) show ?thesis by (simp add: cache_inv_def)
  next
    case (del key s s' A)
    with del_section_correct(1,2) [of schar s key s'] that(1) show ?thesis by (simp add: cache_inv_def)
  next
    case (fire he s A)
    with timer_fires_correct [of schar s he] that(1) show ?thesis by (simp add: cache_inv_def)
  next
    case (expire he s A)
    with cache_timer_correct(1,2) [of schar s he] that(1) show ?thesis by (simp add: cache_inv_def)
  qed
qed

subsection \<open>The cache as a keyed stack\<close>

text \<open>
  What a client of the cache relies on: the values of a key form a stack, keys do not influence
  each other.
\<close>

locale keyed_stack =
  fixes stack :: "'s \<Rightarrow> 'k \<Rightarrow> 'v list" and pop :: "'k \<Rightarrow> 's \<Rightarrow> 'v option \<times> 's" and push :: "'k \<Rightarrow> 'v \<Rightarrow> 's \<Rightarrow> 's"
    and clear :: "'k \<Rightarrow> 's \<Rightarrow> 's" and inv :: "'s \<Rightarrow> bool"
  assumes pop_result: "inv s \<Longrightarrow> fst (pop k s) = (case stack s k of [] \<Rightarrow> None | v # _ \<Rightarrow> Some v)"
    and pop_stack: "inv s \<Longrightarrow> stack (snd (pop k s)) = (stack s)(k := tl (stack s k))"
    and push_stack: "inv s \<Longrightarrow> stack (push k v s) = (stack s)(k := v # stack s k)"
    and clear_stack: "inv s \<Longrightarrow> stack (clear k s) = (stack s)(k := [])"
    and pop_inv: "inv s \<Longrightarrow> inv (snd (pop k s))"
    and push_inv: "inv s \<Longrightarrow> inv (push k v s)"
    and clear_inv: "inv s \<Longrightarrow> inv (clear k s)"
begin

lemma pop_push: "inv s \<Longrightarrow> fst (pop k (push k v s)) = Some v"
  by (simp add: pop_result push_inv push_stack)

lemma pop_push_restores: "inv s \<Longrightarrow> stack (snd (pop k (push k v s))) = stack s"
  by (simp add: pop_stack push_inv push_stack)

lemma pop_after_clear: "inv s \<Longrightarrow> fst (pop k (clear k (push k v s))) = None"
  by (simp add: pop_result push_inv clear_inv clear_stack)

lemma push_commute_stack: "inv s \<Longrightarrow> k \<noteq> l \<Longrightarrow> stack (push k v (push l w s)) = stack (push l w (push k v s))"
  by (simp add: push_stack push_inv fun_upd_twist)

end

text \<open>\<open>pcache_add\<close> without a limit, and \<open>pcache_del\<close>, which always ends.\<close>

interpretation stk: keyed_stack "available schar" "pcache_get schar" "\<lambda>k v. pcache_add schar k v 0"
    "\<lambda>k s. the (pcache_del schar k s)" "cache_ok schar"
proof
  fix s :: "'v cache" and k v
  assume ok: "cache_ok schar s"
  obtain res s' where g: "pcache_get schar k s = (res, s')" by force
  note c = pcache_get_correct [OF ok g]
  show "fst (pcache_get schar k s) = (case available schar s k of [] \<Rightarrow> None | v # _ \<Rightarrow> Some v)" using g c(3) by simp
  show "available schar (snd (pcache_get schar k s)) = (available schar s)(k := tl (available schar s k))" using g c(4) by simp
  show "cache_ok schar (snd (pcache_get schar k s))" using g c(1) by simp
  show "available schar (pcache_add schar k v 0 s) = (available schar s)(k := v # available schar s k)"
    using pcache_add_correct(3) [OF ok, of k v 0] by simp
  show "cache_ok schar (pcache_add schar k v 0 s)" by (rule pcache_add_correct(1) [OF ok])
  obtain s2 where "pcache_del schar k s = Some s2" "cache_ok schar s2" "available schar s2 = (available schar s)(k := [])"
    using pcache_del_correct [OF ok] by blast
  then show "available schar (the (pcache_del schar k s)) = (available schar s)(k := [])"
    "cache_ok schar (the (pcache_del schar k s))" by simp_all
qed

subsection \<open>Properties\<close>

text \<open>
  C23. No value is lost, freed twice or freed while a caller has it: in every reachable state of any
  number of threads and timers, the values that were added are exactly those in the cache, those
  that were returned and those that were freed; and the hash table is well formed.
\<close>

theorem cache_values_conserved:
  assumes "reaches cache_start (cache_step schar) (s, A)"
  shows "mset (map evalue (entries s)) + mset (given s) + mset (freed s) = A \<and> cache_ok schar s"
  using pc.inv_reaches [OF assms] by (simp add: cache_inv_def holdings_def)

theorem cache_values_conserved_witness:
  "\<exists>s. s = pcache_add True [97] (7 :: nat) 1 (pcache_add True [97] 5 1 (pcache_init 0)) \<and>
     mset (map evalue (entries s)) + mset (given s) + mset (freed s) = {#5, 7#} \<and> freed s = [7]"
proof -
  let ?s = "pcache_add True [97] (7 :: nat) 1 (pcache_add True [97] 5 1 (pcache_init 0))"
  have "reaches cache_start (cache_step True) (pcache_init 0 :: nat cache, {#})"
    by (rule reaches_init) (auto simp: cache_start_def)
  note reaches_step [OF reaches_step [OF this cache_step.add [where v = 5 and key = "[97]" and maxkeys = 1]]
      cache_step.add [where v = 7 and key = "[97]" and maxkeys = 1]]
  from cache_values_conserved [OF this]
  have "mset (map evalue (entries ?s)) + mset (given ?s) + mset (freed ?s) = {#5, 7#}" by (simp add: add_mset_commute)
  moreover have "freed ?s = [7]"
    by (simp add: pcache_add_def Let_def pcache_init_def bucket_def set_bucket_def matches_def compute_hash_def
        del: One_nat_def)
  ultimately show ?thesis by blast
qed

text \<open>
  C22. Refinement of a stack per key: \<open>pcache_get\<close> returns and removes the value that was added last and
  is still available, \<open>pcache_add\<close> puts a value on top unless \<open>maxkeys\<close> entries of the key exist,
  \<open>pcache_del\<close> ends and empties the key, \<open>pcache_clean\<close> empties all keys and \<open>pcache_clean_oneof\<close> those
  with one of the prefixes; no operation changes another key.
\<close>

theorem cache_refines_stacks:
  assumes "cache_ok schar s"
  shows "fst (pcache_get schar k s) = (case available schar s k of [] \<Rightarrow> None | v # _ \<Rightarrow> Some v) \<and>
    available schar (snd (pcache_get schar k s)) = (available schar s)(k := tl (available schar s k)) \<and>
    available schar (pcache_add schar k v maxkeys s) =
      (if maxkeys \<noteq> 0 \<and> maxkeys \<le> length (filter (\<lambda>he. ekey he = k) (entries s)) then available schar s
       else (available schar s)(k := v # available schar s k)) \<and>
    map_option (available schar) (pcache_del schar k s) = Some ((available schar s)(k := [])) \<and>
    available schar (pcache_clean s) = (\<lambda>k. []) \<and>
    available schar (pcache_clean_oneof prefs s) = (\<lambda>k. if list_ex (\<lambda>p. prefix p k) prefs then [] else available schar s k)"
proof (intro conjI)
  have "length (filter (matches (compute_hash schar (hash_seed s) k) k) (bucket s (compute_hash schar (hash_seed s) k))) =
    length (filter (\<lambda>he. ekey he = k) (entries s))"
    by (rule bucket_holds_key [OF assms])
  then show "available schar (pcache_add schar k v maxkeys s) =
      (if maxkeys \<noteq> 0 \<and> maxkeys \<le> length (filter (\<lambda>he. ekey he = k) (entries s)) then available schar s
       else (available schar s)(k := v # available schar s k))"
    using pcache_add_correct(3) [OF assms] by simp
  show "map_option (available schar) (pcache_del schar k s) = Some ((available schar s)(k := []))"
    using pcache_del_correct [OF assms, of k] by auto
qed (rule stk.pop_result [OF assms] stk.pop_stack [OF assms] pcache_clean_correct(3) [OF assms]
    pcache_clean_oneof_correct(3) [OF assms])+

theorem cache_refines_stacks_witness:
  "available True (pcache_add True [97] (7 :: nat) 0 (pcache_init 0)) [97] = 7 # available True (pcache_init 0) [97]"
proof -
  have "cache_ok True (pcache_init 0 :: nat cache)"
    using pc.inv_init [of "(pcache_init 0, {#})"] by (auto simp: cache_start_def cache_inv_def)
  from cache_refines_stacks [OF this, of "[97]" 7 0] show ?thesis by simp
qed

text \<open>
  One lock per bucket: the lock that the operations compute from a hash and the one that the cleaning
  functions compute from the number of the bucket are the same, and a valid index.
\<close>

theorem bucket_has_one_lock:
  fixes h :: u32
  shows "hash_to_lock h = hash_to_lock (word_of_nat (hash_to_bucket h) :: u64) \<and> hash_to_lock h < CACHE_NUM_LOCKS"
  using hash_to_lock_bucket [of h] bucket_lock [OF hash_to_bucket_less [of h]]
  by (simp add: hash_to_lock_def CACHE_NUM_LOCKS_def)

end
