(* ===== verification/PStatus.thy ===== *)
theory PStatus
  imports Prelude
begin

text \<open>
  \<open>pclsync/pstatus.c\<close>: the six status variables of the client, the overall status that is computed
  from them, and the waiting for combinations of them. The results
  of the queries are arguments; the formatted strings, the callbacks and the settings are not part of the model.
\<close>

subsection \<open>Constants\<close>

definition PSTATUS_NUM_STATUSES :: nat where "PSTATUS_NUM_STATUSES = 6"

definition PSTATUS_READY :: u32 where "PSTATUS_READY = 0"
definition PSTATUS_DOWNLOADING :: u32 where "PSTATUS_DOWNLOADING = 1"
definition PSTATUS_UPLOADING :: u32 where "PSTATUS_UPLOADING = 2"
definition PSTATUS_DOWNLOADINGANDUPLOADING :: u32 where "PSTATUS_DOWNLOADINGANDUPLOADING = 3"
definition PSTATUS_LOGIN_REQUIRED :: u32 where "PSTATUS_LOGIN_REQUIRED = 4"
definition PSTATUS_BAD_LOGIN_DATA :: u32 where "PSTATUS_BAD_LOGIN_DATA = 5"
definition PSTATUS_BAD_LOGIN_TOKEN :: u32 where "PSTATUS_BAD_LOGIN_TOKEN = 6"
definition PSTATUS_ACCOUNT_FULL :: u32 where "PSTATUS_ACCOUNT_FULL = 7"
definition PSTATUS_DISK_FULL :: u32 where "PSTATUS_DISK_FULL = 8"
definition PSTATUS_PAUSED :: u32 where "PSTATUS_PAUSED = 9"
definition PSTATUS_STOPPED :: u32 where "PSTATUS_STOPPED = 10"
definition PSTATUS_OFFLINE :: u32 where "PSTATUS_OFFLINE = 11"
definition PSTATUS_CONNECTING :: u32 where "PSTATUS_CONNECTING = 12"
definition PSTATUS_SCANNING :: u32 where "PSTATUS_SCANNING = 13"
definition PSTATUS_USER_MISMATCH :: u32 where "PSTATUS_USER_MISMATCH = 14"
definition PSTATUS_ACCOUNT_EXPIRED :: u32 where "PSTATUS_ACCOUNT_EXPIRED = 15"
definition PSTATUS_TFA_REQUIRED :: u32 where "PSTATUS_TFA_REQUIRED = 16"
definition PSTATUS_BAD_TFA_CODE :: u32 where "PSTATUS_BAD_TFA_CODE = 17"
definition PSTATUS_VERIFY_REQUIRED :: u32 where "PSTATUS_VERIFY_REQUIRED = 18"
definition PSTATUS_RELOCATION :: u32 where "PSTATUS_RELOCATION = 19"
definition PSTATUS_RELOCATED :: u32 where "PSTATUS_RELOCATED = 20"

definition PSTATUS_TYPE_RUN :: nat where "PSTATUS_TYPE_RUN = 0"
definition PSTATUS_TYPE_ONLINE :: nat where "PSTATUS_TYPE_ONLINE = 1"
definition PSTATUS_TYPE_AUTH :: nat where "PSTATUS_TYPE_AUTH = 2"
definition PSTATUS_TYPE_ACCFULL :: nat where "PSTATUS_TYPE_ACCFULL = 3"
definition PSTATUS_TYPE_DISKFULL :: nat where "PSTATUS_TYPE_DISKFULL = 4"
definition PSTATUS_TYPE_LOCALSCAN :: nat where "PSTATUS_TYPE_LOCALSCAN = 5"

definition PSTATUS_INVALID :: u32 where "PSTATUS_INVALID = 0"
definition PSTATUS_RUN_RUN :: u32 where "PSTATUS_RUN_RUN = 1"
definition PSTATUS_RUN_PAUSE :: u32 where "PSTATUS_RUN_PAUSE = 2"
definition PSTATUS_RUN_STOP :: u32 where "PSTATUS_RUN_STOP = 4"
definition PSTATUS_ONLINE_CONNECTING :: u32 where "PSTATUS_ONLINE_CONNECTING = 1"
definition PSTATUS_ONLINE_SCANNING :: u32 where "PSTATUS_ONLINE_SCANNING = 2"
definition PSTATUS_ONLINE_ONLINE :: u32 where "PSTATUS_ONLINE_ONLINE = 4"
definition PSTATUS_ONLINE_OFFLINE :: u32 where "PSTATUS_ONLINE_OFFLINE = 8"
definition PSTATUS_AUTH_PROVIDED :: u32 where "PSTATUS_AUTH_PROVIDED = 1"
definition PSTATUS_AUTH_REQUIRED :: u32 where "PSTATUS_AUTH_REQUIRED = 2"
definition PSTATUS_AUTH_MISMATCH :: u32 where "PSTATUS_AUTH_MISMATCH = 4"
definition PSTATUS_AUTH_BADLOGIN :: u32 where "PSTATUS_AUTH_BADLOGIN = 8"
definition PSTATUS_AUTH_BADTOKEN :: u32 where "PSTATUS_AUTH_BADTOKEN = 16"
definition PSTATUS_AUTH_EXPIRED :: u32 where "PSTATUS_AUTH_EXPIRED = 32"
definition PSTATUS_AUTH_TFAREQ :: u32 where "PSTATUS_AUTH_TFAREQ = 64"
definition PSTATUS_AUTH_BADCODE :: u32 where "PSTATUS_AUTH_BADCODE = 128"
definition PSTATUS_AUTH_VERIFYREQ :: u32 where "PSTATUS_AUTH_VERIFYREQ = 256"
definition PSTATUS_AUTH_RELOCATING :: u32 where "PSTATUS_AUTH_RELOCATING = 512"
definition PSTATUS_AUTH_RELOCATED :: u32 where "PSTATUS_AUTH_RELOCATED = 1024"
definition PSTATUS_ACCFULL_QUOTAOK :: u32 where "PSTATUS_ACCFULL_QUOTAOK = 1"
definition PSTATUS_ACCFULL_OVERQUOTA :: u32 where "PSTATUS_ACCFULL_OVERQUOTA = 2"
definition PSTATUS_DISKFULL_OK :: u32 where "PSTATUS_DISKFULL_OK = 1"
definition PSTATUS_DISKFULL_FULL :: u32 where "PSTATUS_DISKFULL_FULL = 2"
definition PSTATUS_LOCALSCAN_SCANNING :: u32 where "PSTATUS_LOCALSCAN_SCANNING = 1"
definition PSTATUS_LOCALSCAN_READY :: u32 where "PSTATUS_LOCALSCAN_READY = 2"

lemmas type_defs = PSTATUS_TYPE_RUN_def PSTATUS_TYPE_ONLINE_def PSTATUS_TYPE_AUTH_def PSTATUS_TYPE_ACCFULL_def
  PSTATUS_TYPE_DISKFULL_def PSTATUS_TYPE_LOCALSCAN_def PSTATUS_NUM_STATUSES_def

lemmas status_defs = PSTATUS_READY_def PSTATUS_DOWNLOADING_def PSTATUS_UPLOADING_def PSTATUS_DOWNLOADINGANDUPLOADING_def
  PSTATUS_LOGIN_REQUIRED_def PSTATUS_BAD_LOGIN_DATA_def PSTATUS_BAD_LOGIN_TOKEN_def PSTATUS_ACCOUNT_FULL_def
  PSTATUS_DISK_FULL_def PSTATUS_PAUSED_def PSTATUS_STOPPED_def PSTATUS_OFFLINE_def PSTATUS_CONNECTING_def
  PSTATUS_SCANNING_def PSTATUS_USER_MISMATCH_def PSTATUS_ACCOUNT_EXPIRED_def PSTATUS_TFA_REQUIRED_def
  PSTATUS_BAD_TFA_CODE_def PSTATUS_VERIFY_REQUIRED_def PSTATUS_RELOCATION_def PSTATUS_RELOCATED_def

lemmas value_defs = PSTATUS_INVALID_def PSTATUS_RUN_RUN_def PSTATUS_RUN_PAUSE_def PSTATUS_RUN_STOP_def
  PSTATUS_ONLINE_CONNECTING_def PSTATUS_ONLINE_SCANNING_def PSTATUS_ONLINE_ONLINE_def PSTATUS_ONLINE_OFFLINE_def
  PSTATUS_AUTH_PROVIDED_def PSTATUS_AUTH_REQUIRED_def PSTATUS_AUTH_MISMATCH_def PSTATUS_AUTH_BADLOGIN_def
  PSTATUS_AUTH_BADTOKEN_def PSTATUS_AUTH_EXPIRED_def PSTATUS_AUTH_TFAREQ_def PSTATUS_AUTH_BADCODE_def
  PSTATUS_AUTH_VERIFYREQ_def PSTATUS_AUTH_RELOCATING_def PSTATUS_AUTH_RELOCATED_def
  PSTATUS_ACCFULL_QUOTAOK_def PSTATUS_ACCFULL_OVERQUOTA_def PSTATUS_DISKFULL_OK_def PSTATUS_DISKFULL_FULL_def
  PSTATUS_LOCALSCAN_SCANNING_def PSTATUS_LOCALSCAN_READY_def

definition PSTATUS_COMBINE :: "nat \<Rightarrow> u32 \<Rightarrow> u32" where
  "PSTATUS_COMBINE type statuses = push_bit 24 (word_of_nat type) + statuses"

subsection \<open>State\<close>

text \<open>\<open>status\<close> and the fields before it are those of \<open>psync_status\<close>.\<close>

record pstatus =
  bytestoupload :: u64
  bytestouploadcurrent :: u64
  bytesuploaded :: u64
  bytestodownload :: u64
  bytestodownloadcurrent :: u64
  bytesdownloaded :: u64
  filestoupload :: u32
  filesuploading :: u32
  filestodownload :: u32
  filesdownloading :: u32
  uploadspeed :: u32
  downloadspeed :: u32
  remoteisfull :: bool
  localisfull :: bool
  status :: u32
  statuses :: "u32 list"
  status_waiters :: nat
  psync_do_run :: bool

definition initial_statuses :: "u32 list" where
  "initial_statuses = [PSTATUS_INVALID, PSTATUS_ONLINE_OFFLINE, PSTATUS_INVALID, PSTATUS_ACCFULL_QUOTAOK,
     PSTATUS_DISKFULL_OK, PSTATUS_LOCALSCAN_SCANNING]"

definition calc_status :: "pstatus \<Rightarrow> u32" where
  "calc_status s =
     (let auth = statuses s ! PSTATUS_TYPE_AUTH; run = statuses s ! PSTATUS_TYPE_RUN;
          online = statuses s ! PSTATUS_TYPE_ONLINE; scan = statuses s ! PSTATUS_TYPE_LOCALSCAN;
          acc = statuses s ! PSTATUS_TYPE_ACCFULL; disk = statuses s ! PSTATUS_TYPE_DISKFULL
      in
      if auth \<noteq> PSTATUS_AUTH_PROVIDED \<and> auth \<noteq> PSTATUS_INVALID then
        (if auth = PSTATUS_AUTH_REQUIRED then PSTATUS_LOGIN_REQUIRED
         else if auth = PSTATUS_AUTH_MISMATCH then PSTATUS_USER_MISMATCH
         else if auth = PSTATUS_AUTH_BADLOGIN then PSTATUS_BAD_LOGIN_DATA
         else if auth = PSTATUS_AUTH_BADTOKEN then PSTATUS_BAD_LOGIN_TOKEN
         else if auth = PSTATUS_AUTH_EXPIRED then PSTATUS_ACCOUNT_EXPIRED
         else if auth = PSTATUS_AUTH_TFAREQ then PSTATUS_TFA_REQUIRED
         else if auth = PSTATUS_AUTH_VERIFYREQ then PSTATUS_VERIFY_REQUIRED
         else if auth = PSTATUS_AUTH_BADCODE then PSTATUS_BAD_TFA_CODE
         else if auth = PSTATUS_AUTH_RELOCATING then PSTATUS_RELOCATION
         else if auth = PSTATUS_AUTH_RELOCATED then PSTATUS_RELOCATED
         else - 1)
      else if run \<noteq> PSTATUS_RUN_RUN then
        (if run = PSTATUS_RUN_PAUSE then PSTATUS_PAUSED
         else if run = PSTATUS_RUN_STOP then PSTATUS_STOPPED
         else - 1)
      else if online \<noteq> PSTATUS_ONLINE_ONLINE then
        (if online = PSTATUS_ONLINE_CONNECTING then PSTATUS_CONNECTING
         else if online = PSTATUS_ONLINE_SCANNING then PSTATUS_SCANNING
         else if online = PSTATUS_ONLINE_OFFLINE then PSTATUS_OFFLINE
         else - 1)
      else if scan \<noteq> PSTATUS_LOCALSCAN_READY then
        (if scan = PSTATUS_LOCALSCAN_SCANNING then PSTATUS_SCANNING
         else - 1)
      else if acc \<noteq> PSTATUS_ACCFULL_QUOTAOK then
        (if acc = PSTATUS_ACCFULL_OVERQUOTA then PSTATUS_ACCOUNT_FULL
         else - 1)
      else if disk \<noteq> PSTATUS_DISKFULL_OK then
        (if disk = PSTATUS_DISKFULL_FULL then PSTATUS_DISK_FULL
         else - 1)
      else if (filesdownloading s \<noteq> 0 \<or> filestodownload s \<noteq> 0) \<and> (filesuploading s \<noteq> 0 \<or> filestoupload s \<noteq> 0)
        then PSTATUS_DOWNLOADINGANDUPLOADING
      else if filesdownloading s \<noteq> 0 \<or> filestodownload s \<noteq> 0 then PSTATUS_DOWNLOADING
      else if filesuploading s \<noteq> 0 \<or> filestoupload s \<noteq> 0 then PSTATUS_UPLOADING
      else PSTATUS_READY)"

text \<open>
  The two recalculations, with the row that their query gives, if any: the number of tasks and the
  sum of the sizes. \<open>cached\<close> are the new and modified files, with the size in the cache if the file is found.
\<close>

definition pstatus_download_recalc :: "(u64 \<times> u64) option \<Rightarrow> pstatus \<Rightarrow> pstatus" where
  "pstatus_download_recalc row s =
     (let s = (case row of
                 Some (n, sizes) \<Rightarrow> s\<lparr>filestodownload := ucast n, bytestodownload := sizes\<rparr>
               | None \<Rightarrow> s\<lparr>filestodownload := 0, bytestodownload := 0\<rparr>);
          s = (if filestodownload s = 0 then s\<lparr>downloadspeed := 0\<rparr> else s)
      in s\<lparr>status := calc_status s\<rparr>)"

fun add_cached :: "u64 option list \<Rightarrow> u32 \<times> u64 \<Rightarrow> u32 \<times> u64" where
  "add_cached [] (filestou, bytestou) = (filestou, bytestou)"
| "add_cached (None # cached) (filestou, bytestou) = add_cached cached (filestou, bytestou)"
| "add_cached (Some len # cached) (filestou, bytestou) = add_cached cached (filestou + 1, bytestou + len)"

definition pstatus_upload_recalc :: "(u64 \<times> u64) option \<Rightarrow> u64 option list \<Rightarrow> pstatus \<Rightarrow> pstatus" where
  "pstatus_upload_recalc row cached s =
     (let (filestou, bytestou) =
            add_cached cached (case row of Some (n, sizes) \<Rightarrow> (ucast n, sizes) | None \<Rightarrow> (0, 0));
          s = s\<lparr>filestoupload := filestou, bytestoupload := bytestou\<rparr>;
          s = (if filestou = 0 then s\<lparr>uploadspeed := 0\<rparr> else s)
      in s\<lparr>status := calc_status s\<rparr>)"

text \<open>\<open>saved\<close> is the setting \<open>runstatus\<close>.\<close>

definition pstatus_init :: "u32 \<Rightarrow> (u64 \<times> u64) option \<Rightarrow> (u64 \<times> u64) option \<Rightarrow> u64 option list \<Rightarrow> pstatus" where
  "pstatus_init saved downloads uploads cached =
     (let run = (if saved < PSTATUS_RUN_RUN \<or> saved > PSTATUS_RUN_STOP then PSTATUS_RUN_RUN else saved);
          s = \<lparr>bytestoupload = 0, bytestouploadcurrent = 0, bytesuploaded = 0, bytestodownload = 0,
               bytestodownloadcurrent = 0, bytesdownloaded = 0, filestoupload = 0, filesuploading = 0, filestodownload = 0, filesdownloading = 0,
               uploadspeed = 0, downloadspeed = 0, remoteisfull = False, localisfull = False, status = 0,
               statuses = initial_statuses[PSTATUS_TYPE_RUN := run], status_waiters = 0, psync_do_run = True\<rparr>;
          s = pstatus_upload_recalc uploads cached (pstatus_download_recalc downloads s)
      in s\<lparr>status := calc_status s\<rparr>)"

subsection \<open>Operations\<close>

definition pstatus_get :: "nat \<Rightarrow> pstatus \<Rightarrow> u32" where
  "pstatus_get statusid s = statuses s ! statusid"

text \<open>
  \<open>pstatus_set\<close>: the section under the mutex, which also wakes all waiting threads if there are any;
  then, without the mutex, the computation of the status and its comparison with the current one.
\<close>

definition set_section :: "nat \<Rightarrow> u32 \<Rightarrow> pstatus \<Rightarrow> pstatus" where
  "set_section statusid st s =
     (let s = s\<lparr>statuses := (statuses s)[statusid := st]\<rparr>
      in s\<lparr>remoteisfull := (statuses s ! PSTATUS_TYPE_ACCFULL = PSTATUS_ACCFULL_OVERQUOTA),
           localisfull := (statuses s ! PSTATUS_TYPE_DISKFULL = PSTATUS_DISKFULL_FULL)\<rparr>)"

text \<open>The result says whether an update is sent.\<close>

definition set_compare :: "u32 \<Rightarrow> pstatus \<Rightarrow> pstatus \<times> bool" where
  "set_compare st s = (if status s \<noteq> st then (s\<lparr>status := st\<rparr>, True) else (s, False))"

definition pstatus_set :: "nat \<Rightarrow> u32 \<Rightarrow> pstatus \<Rightarrow> pstatus \<times> bool" where
  "pstatus_set statusid st s = (let s = set_section statusid st s in set_compare (calc_status s) s)"

definition comb_holds :: "u32 list \<Rightarrow> u32 \<Rightarrow> bool" where
  "comb_holds sts c \<longleftrightarrow> sts ! unat (drop_bit 24 c) AND (c AND 0x00ffffff) \<noteq> 0"

fun pstatus_ok_status_arr :: "u32 list \<Rightarrow> u32 list \<Rightarrow> bool" where
  "pstatus_ok_status_arr sts [] \<longleftrightarrow> True"
| "pstatus_ok_status_arr sts (c # cs) \<longleftrightarrow> (if \<not> comb_holds sts c then False else pstatus_ok_status_arr sts cs)"

text \<open>
  \<open>pstatus_wait_statuses_arr\<close>: a run of the loops with the mutex, from the test of condition \<open>i\<close>, to the
  next \<open>pthread_cond_wait\<close> or to the return.
\<close>

datatype wait_result = Returns | Sleeps nat

function wait_loop :: "u32 list \<Rightarrow> u32 list \<Rightarrow> nat \<Rightarrow> bool \<Rightarrow> wait_result" where
  "wait_loop sts cs i waited =
     (if i < length cs then (if \<not> comb_holds sts (cs ! i) then Sleeps i else wait_loop sts cs (i + 1) waited)
      else if waited then wait_loop sts cs 0 False
      else Returns)"
  by pat_completeness auto
termination
  by (relation "measures [\<lambda>(sts, cs, i, waited). of_bool waited, \<lambda>(sts, cs, i, waited). length cs - i]") auto

declare wait_loop.simps [simp del]

text \<open>The loop condition of \<open>pstatus_wait\<close>.\<close>

definition pstatus_wait_blocked :: "nat \<Rightarrow> u32 \<Rightarrow> pstatus \<Rightarrow> bool" where
  "pstatus_wait_blocked statusid st s \<longleftrightarrow> statuses s ! statusid AND st = 0 \<and> psync_do_run s"

definition pstatus_download_set_speed :: "u32 \<Rightarrow> pstatus \<Rightarrow> pstatus \<times> bool" where
  "pstatus_download_set_speed speed s =
     (if downloadspeed s \<noteq> speed then (s\<lparr>downloadspeed := (if filesdownloading s \<noteq> 0 then speed else 0)\<rparr>, True) else (s, False))"

definition pstatus_upload_set_speed :: "u32 \<Rightarrow> pstatus \<Rightarrow> pstatus \<times> bool" where
  "pstatus_upload_set_speed speed s =
     (if uploadspeed s \<noteq> speed then (s\<lparr>uploadspeed := (if filesuploading s \<noteq> 0 then speed else 0)\<rparr>, True) else (s, False))"

definition pstatus_send_update :: "pstatus \<Rightarrow> pstatus" where
  "pstatus_send_update s = s\<lparr>status := calc_status s\<rparr>"

subsection \<open>Threads\<close>

text \<open>
  Every section under the mutex is one step of a thread. \<open>Sleeping\<close> is inside \<open>pthread_cond_wait\<close>;
  \<open>awake\<close> are the sleeping threads that a broadcast has reached. A sleeping thread may run without a
  broadcast, as POSIX allows. \<open>pstatus_set\<close> reads and writes the status without the mutex: the
  computation and the comparison are two further steps.
\<close>

datatype blocked = InWait nat u32 | InWaitArr "u32 list" nat

datatype pc = Idle | Sleeping blocked | CheckRun | SetCalc | SetCompare u32 | Exited

record 't sys =
  st :: pstatus
  pcs :: "'t \<Rightarrow> pc"
  awake :: "'t set"

fun asleep :: "pc \<Rightarrow> bool" where
  "asleep (Sleeping b) = True"
| "asleep _ = False"

definition wait_section :: "nat \<Rightarrow> u32 \<Rightarrow> pstatus \<Rightarrow> pstatus \<times> pc" where
  "wait_section statusid v s =
     (if pstatus_wait_blocked statusid v s
      then (s\<lparr>status_waiters := status_waiters s + 1\<rparr>, Sleeping (InWait statusid v)) else (s, CheckRun))"

definition wait_arr_section :: "u32 list \<Rightarrow> nat \<Rightarrow> bool \<Rightarrow> pstatus \<Rightarrow> pstatus \<times> pc" where
  "wait_arr_section cs i waited s =
     (case wait_loop (statuses s) cs i waited of
        Returns \<Rightarrow> (s, Idle)
      | Sleeps j \<Rightarrow> (s\<lparr>status_waiters := status_waiters s + 1\<rparr>, Sleeping (InWaitArr cs j)))"

text \<open>Behind \<open>pthread_cond_wait\<close>.\<close>

fun wake_section :: "blocked \<Rightarrow> pstatus \<Rightarrow> pstatus \<times> pc" where
  "wake_section (InWait statusid v) s = wait_section statusid v (s\<lparr>status_waiters := status_waiters s - 1\<rparr>)"
| "wake_section (InWaitArr cs i) s = wait_arr_section cs i True (s\<lparr>status_waiters := status_waiters s - 1\<rparr>)"

definition broadcast :: "'t sys \<Rightarrow> 't set" where
  "broadcast s = (if status_waiters (st s) > 0 then {t. asleep (pcs s t)} else awake s)"

inductive status_step :: "'t sys \<Rightarrow> 't sys \<Rightarrow> bool" where
  wait: "pcs s t = Idle \<Longrightarrow> statusid < PSTATUS_NUM_STATUSES \<Longrightarrow> wait_section statusid v (st s) = (S, pc) \<Longrightarrow>
    status_step s (s\<lparr>st := S, pcs := (pcs s)(t := pc)\<rparr>)"
| wait_arr: "pcs s t = Idle \<Longrightarrow> wait_arr_section cs 0 False (st s) = (S, pc) \<Longrightarrow>
    status_step s (s\<lparr>st := S, pcs := (pcs s)(t := pc)\<rparr>)"
| wake: "pcs s t = Sleeping b \<Longrightarrow> wake_section b (st s) = (S, pc) \<Longrightarrow>
    status_step s (s\<lparr>st := S, pcs := (pcs s)(t := pc), awake := awake s - {t}\<rparr>)"
| check_run: "pcs s t = CheckRun \<Longrightarrow>
    status_step s (s\<lparr>pcs := (pcs s)(t := if psync_do_run (st s) then Idle else Exited)\<rparr>)"
| set_locked: "pcs s t = Idle \<Longrightarrow> statusid < PSTATUS_NUM_STATUSES \<Longrightarrow>
    status_step s (s\<lparr>st := set_section statusid v (st s), pcs := (pcs s)(t := SetCalc), awake := broadcast s\<rparr>)"
| set_calc: "pcs s t = SetCalc \<Longrightarrow> status_step s (s\<lparr>pcs := (pcs s)(t := SetCompare (calc_status (st s)))\<rparr>)"
| set_write: "pcs s t = SetCompare v \<Longrightarrow>
    status_step s (s\<lparr>st := fst (set_compare v (st s)), pcs := (pcs s)(t := Idle)\<rparr>)"
| recalc_download: "status_step s (s\<lparr>st := pstatus_download_recalc row (st s)\<rparr>)"
| recalc_upload: "status_step s (s\<lparr>st := pstatus_upload_recalc row cached (st s)\<rparr>)"
| stop: "status_step s (s\<lparr>st := (st s)\<lparr>psync_do_run := False\<rparr>\<rparr>)"
| wait_term: "status_step s (s\<lparr>awake := broadcast s\<rparr>)"

inductive_cases status_stepE: "status_step s s'"

definition status_start :: "'t sys \<Rightarrow> bool" where
  "status_start s \<longleftrightarrow> (\<exists>saved dn up cached. s = \<lparr>st = pstatus_init saved dn up cached, pcs = (\<lambda>t. Idle), awake = {}\<rparr>)"

subsection \<open>Waiting\<close>

definition unmet :: "u32 list \<Rightarrow> blocked \<Rightarrow> bool" where
  "unmet sts b = (case b of InWait i v \<Rightarrow> sts ! i AND v = 0 | InWaitArr cs i \<Rightarrow> i < length cs \<and> \<not> comb_holds sts (cs ! i))"

lemma ok_status_arr_iff: "pstatus_ok_status_arr sts cs \<longleftrightarrow> (\<forall>c\<in>set cs. comb_holds sts c)"
  by (induction cs) auto

lemma wait_loop_from:
  "wait_loop sts cs i False = Returns \<longleftrightarrow> (\<forall>j. i \<le> j \<longrightarrow> j < length cs \<longrightarrow> comb_holds sts (cs ! j))"
proof (induction "length cs - i" arbitrary: i)
  case 0
  then show ?case by (subst wait_loop.simps) auto
next
  case (Suc n)
  then have "wait_loop sts cs (Suc i) False = Returns \<longleftrightarrow> (\<forall>j. Suc i \<le> j \<longrightarrow> j < length cs \<longrightarrow> comb_holds sts (cs ! j))"
    by simp
  with Suc.hyps(2) show ?case
    by (subst wait_loop.simps) (auto simp: Suc_le_eq dest: le_neq_implies_less)
qed

lemma wait_loop_True:
  "wait_loop sts cs i True = Returns \<longleftrightarrow> (\<forall>c\<in>set cs. comb_holds sts c)"
proof (induction "length cs - i" arbitrary: i)
  case 0
  then show ?case by (subst wait_loop.simps) (auto simp: wait_loop_from all_set_conv_all_nth)
next
  case (Suc n)
  then have "wait_loop sts cs (Suc i) True = Returns \<longleftrightarrow> (\<forall>c\<in>set cs. comb_holds sts c)" by simp
  with Suc.hyps(2) show ?case by (subst wait_loop.simps) (auto simp: all_set_conv_all_nth)
qed

lemma wait_loop_Returns: "i = 0 \<or> waited \<Longrightarrow> wait_loop sts cs i waited = Returns \<longleftrightarrow> pstatus_ok_status_arr sts cs"
  by (cases waited) (auto simp: wait_loop_True wait_loop_from ok_status_arr_iff all_set_conv_all_nth)

lemma wait_loop_Sleeps: "wait_loop sts cs i waited = Sleeps j \<Longrightarrow> unmet sts (InWaitArr cs j)"
  by (induction sts cs i waited rule: wait_loop.induct)
    (subst (asm) (2) wait_loop.simps, auto simp: unmet_def split: if_splits)

subsection \<open>The invariant of the threads\<close>

text \<open>
  The counter is exact; a sleeping thread that no broadcast has reached waits for a condition that is
  false, so no wake-up is lost.
\<close>

definition waits_ok :: "'t sys \<Rightarrow> bool" where
  "waits_ok s \<longleftrightarrow> (\<forall>t b. pcs s t = Sleeping b \<longrightarrow> t \<notin> awake s \<longrightarrow> unmet (statuses (st s)) b)"

definition status_inv :: "('t::finite) sys \<Rightarrow> bool" where
  "status_inv s \<longleftrightarrow> length (statuses (st s)) = PSTATUS_NUM_STATUSES \<and>
     status_waiters (st s) = count_of asleep (pcs s) \<and> waits_ok s"

lemma asleep_iff: "asleep p \<longleftrightarrow> (\<exists>b. p = Sleeping b)"
  by (cases p) auto

lemma wait_section_spec:
  assumes "wait_section i v s = (S, p)"
  shows "statuses S = statuses s" "status_waiters S = status_waiters s + of_bool (asleep p)"
    "p = Sleeping b \<Longrightarrow> unmet (statuses s) b"
  using assms by (auto simp: wait_section_def pstatus_wait_blocked_def unmet_def split: if_splits)

lemma wait_arr_section_spec:
  assumes "wait_arr_section cs i w s = (S, p)"
  shows "statuses S = statuses s" "status_waiters S = status_waiters s + of_bool (asleep p)"
    "p = Sleeping b \<Longrightarrow> unmet (statuses s) b"
  using assms by (auto simp: wait_arr_section_def split: wait_result.splits dest: wait_loop_Sleeps)

lemma wake_section_spec:
  assumes "wake_section c s = (S, p)"
  shows "statuses S = statuses s" "status_waiters S = status_waiters s - 1 + of_bool (asleep p)"
    "p = Sleeping b \<Longrightarrow> unmet (statuses s) b"
  using assms by (cases c; force dest: wait_section_spec wait_arr_section_spec)+

lemmas section_specs = wait_section_spec wait_arr_section_spec wake_section_spec

lemma set_section_simps [simp]:
  "statuses (set_section i v s) = (statuses s)[i := v]" "status_waiters (set_section i v s) = status_waiters s"
  by (simp_all add: set_section_def Let_def)

lemma set_compare_simps [simp]:
  "statuses (fst (set_compare v s)) = statuses s" "status_waiters (fst (set_compare v s)) = status_waiters s"
  by (simp_all add: set_compare_def)

lemma recalc_simps [simp]:
  "statuses (pstatus_download_recalc row s) = statuses s"
  "status_waiters (pstatus_download_recalc row s) = status_waiters s"
  "statuses (pstatus_upload_recalc row cached s) = statuses s"
  "status_waiters (pstatus_upload_recalc row cached s) = status_waiters s"
  by (simp_all add: pstatus_download_recalc_def pstatus_upload_recalc_def Let_def split: option.split prod.split)

lemma broadcast_asleep: "status_waiters (st s) = count_of asleep (pcs s) \<Longrightarrow> pcs s t = Sleeping b \<Longrightarrow> t \<in> broadcast s"
  using count_pos_iff [of asleep "pcs s"] by (auto simp: broadcast_def asleep_iff)

lemma status_start_inv: "status_start s \<Longrightarrow> status_inv s"
  by (auto simp: status_start_def status_inv_def pstatus_init_def Let_def initial_statuses_def type_defs
      count_of_def waits_ok_def)

text \<open>A thread runs a section that keeps the statuses.\<close>

lemma thread_moves:
  assumes "status_inv s" "statuses S = statuses (st s)"
    "status_waiters S = status_waiters (st s) - of_bool (asleep (pcs s t)) + of_bool (asleep p)"
    "\<And>b. p = Sleeping b \<Longrightarrow> unmet (statuses (st s)) b" "A = awake s - {t} \<or> A = awake s \<and> \<not> asleep (pcs s t)"
  shows "status_inv (s\<lparr>st := S, pcs := (pcs s)(t := p), awake := A\<rparr>)"
  using assms count_of_others [of asleep "pcs s" t]
  by (auto simp: status_inv_def count_of_upd waits_ok_def)

lemmas thread_moves_awake = thread_moves [where A = "awake s" and s = s for s, simplified]
  thread_moves [where A = "awake s" and S = "st s" and s = s for s, simplified]

lemma status_step_inv: "status_inv s \<Longrightarrow> status_step s s' \<Longrightarrow> status_inv s'"
proof (erule status_stepE, goal_cases)
  case (1 t i v S p)
  then show ?case by (auto intro!: thread_moves_awake dest: wait_section_spec)
next
  case (2 t cs S p)
  then show ?case by (auto intro!: thread_moves_awake dest: wait_arr_section_spec)
next
  case (3 t b S p)
  then show ?case by (auto intro!: thread_moves dest: wake_section_spec)
next
  case (4 t)
  then show ?case by (auto intro!: thread_moves_awake)
next
  case (5 t i v)
  then have "\<And>u b. pcs s u = Sleeping b \<Longrightarrow> u \<in> broadcast s"
    by (auto simp: status_inv_def intro: broadcast_asleep)
  with 5 show ?case
    by (auto simp: status_inv_def count_of_upd waits_ok_def count_of_others [of asleep "pcs s" t] split: if_splits)
next
  case (6 t)
  then show ?case by (auto intro!: thread_moves_awake)
next
  case (7 t v)
  then show ?case by (auto intro!: thread_moves_awake)
qed (auto simp: status_inv_def waits_ok_def dest: broadcast_asleep)

interpretation sts: transition_system status_start status_step status_inv
  by unfold_locales (fact status_start_inv, fact status_step_inv)


lemma unmet_simps:
  "unmet sts (InWait i v) \<Longrightarrow> sts ! i AND v = 0"
  "unmet sts (InWaitArr cs j) \<Longrightarrow> \<not> pstatus_ok_status_arr sts cs"
  by (auto simp: unmet_def ok_status_arr_iff dest: nth_mem)

lemma unmet_asleep:
  fixes s :: "('t::finite) sys"
  shows "reaches status_start status_step s \<Longrightarrow> pcs s t = Sleeping b \<Longrightarrow> t \<notin> awake s \<Longrightarrow> unmet (statuses (st s)) b"
  by (drule sts.inv_reaches) (auto simp: status_inv_def waits_ok_def)

text \<open>Two threads, the values \<open>True\<close> and \<open>False\<close> of \<open>bool\<close>, for the witnesses.\<close>

definition sys2 :: "pstatus \<Rightarrow> pc \<Rightarrow> pc \<Rightarrow> bool sys" where
  "sys2 S p q = \<lparr>st = S, pcs = (\<lambda>t. if t then p else q), awake = {}\<rparr>"

lemma sys2_upd: "sys2 S p q\<lparr>st := S', pcs := (pcs (sys2 S p q))(True := p')\<rparr> = sys2 S' p' q"
  "sys2 S p q\<lparr>st := S', pcs := (pcs (sys2 S p q))(False := q')\<rparr> = sys2 S' p q'"
  by (auto simp: sys2_def)

definition start2 :: pstatus where
  "start2 = pstatus_init PSTATUS_RUN_RUN None None []"

lemmas init_defs = start2_def pstatus_init_def pstatus_upload_recalc_def pstatus_download_recalc_def
  initial_statuses_def Let_def type_defs value_defs

lemma start2_simps:
  "statuses start2 = [PSTATUS_RUN_RUN, PSTATUS_ONLINE_OFFLINE, PSTATUS_INVALID, PSTATUS_ACCFULL_QUOTAOK,
     PSTATUS_DISKFULL_OK, PSTATUS_LOCALSCAN_SCANNING]"
  "status_waiters start2 = 0" "filestodownload start2 = 0" "filesdownloading start2 = 0" "filestoupload start2 = 0"
  "filesuploading start2 = 0" "psync_do_run start2"
  by (simp_all add: init_defs)

lemma start2_reaches: "reaches status_start status_step (sys2 start2 Idle Idle)"
  by (rule reaches_init) (auto simp: start2_def status_start_def sys2_def)

lemma sys2_wait:
  assumes "reaches status_start status_step (sys2 S Idle q)" "i < PSTATUS_NUM_STATUSES" "wait_section i v S = (S', p)"
  shows "reaches status_start status_step (sys2 S' p q)"
  using reaches_step [OF assms(1) status_step.wait [where t = True and statusid = i and v = v]] assms(2,3)
  by (simp add: sys2_upd) (simp add: sys2_def)

text \<open>The three steps of a call of \<open>pstatus_set\<close> while nobody waits.\<close>

lemma sys2_set:
  assumes "reaches status_start status_step (sys2 S p q)" "i < PSTATUS_NUM_STATUSES" "status_waiters S = 0"
  shows "p = Idle \<Longrightarrow> reaches status_start status_step (sys2 (set_section i v S) SetCalc q)"
    and "q = Idle \<Longrightarrow> reaches status_start status_step (sys2 (set_section i v S) p SetCalc)"
  using reaches_step [OF assms(1) status_step.set_locked [where t = True and statusid = i and v = v]]
    reaches_step [OF assms(1) status_step.set_locked [where t = False and statusid = i and v = v]] assms(2,3)
  by (auto simp: sys2_def broadcast_def fun_upd_def if_distrib cong: if_cong)

lemma sys2_calc:
  assumes "reaches status_start status_step (sys2 S p q)"
  shows "p = SetCalc \<Longrightarrow> reaches status_start status_step (sys2 S (SetCompare (calc_status S)) q)"
    and "q = SetCalc \<Longrightarrow> reaches status_start status_step (sys2 S p (SetCompare (calc_status S)))"
  using reaches_step [OF assms status_step.set_calc [where t = True]]
    reaches_step [OF assms status_step.set_calc [where t = False]]
  by (auto simp: sys2_def fun_upd_def if_distrib cong: if_cong)

lemma sys2_write:
  assumes "reaches status_start status_step (sys2 S p q)"
  shows "p = SetCompare v \<Longrightarrow> reaches status_start status_step (sys2 (fst (set_compare v S)) Idle q)"
    and "q = SetCompare v \<Longrightarrow> reaches status_start status_step (sys2 (fst (set_compare v S)) p Idle)"
  using reaches_step [OF assms status_step.set_write [where t = True and v = v]]
    reaches_step [OF assms status_step.set_write [where t = False and v = v]]
  by (auto simp: sys2_def fun_upd_def if_distrib cong: if_cong)

subsection \<open>Properties\<close>

text \<open>
  C24. A thread that sleeps in one of the two waiting functions and that no broadcast has reached
  waits for a condition that is false, in every reachable state: no wake-up is lost, whatever the other
  threads set. The counter of waiting threads, which decides whether there is a broadcast, is exact.
\<close>

theorem status_no_lost_wakeup:
  fixes s :: "('t::finite) sys"
  assumes "reaches status_start status_step s"
  shows "status_waiters (st s) = count_of asleep (pcs s) \<and>
    (\<forall>t i v. pcs s t = Sleeping (InWait i v) \<longrightarrow> t \<notin> awake s \<longrightarrow> pstatus_get i (st s) AND v = 0) \<and>
    (\<forall>t cs i. pcs s t = Sleeping (InWaitArr cs i) \<longrightarrow> t \<notin> awake s \<longrightarrow> \<not> pstatus_ok_status_arr (statuses (st s)) cs)"
  using sts.inv_reaches [OF assms] unmet_asleep [OF assms]
  by (auto simp: status_inv_def pstatus_get_def dest!: unmet_simps)

text \<open>One thread waits for the client to be online; then the other one sets it offline, which is no change.\<close>

lemma wait_online_reaches:
  "reaches status_start status_step (sys2 (start2\<lparr>status_waiters := 1\<rparr>)
     (Sleeping (InWait PSTATUS_TYPE_ONLINE PSTATUS_ONLINE_ONLINE)) Idle)"
  by (rule sys2_wait [OF start2_reaches, of PSTATUS_TYPE_ONLINE PSTATUS_ONLINE_ONLINE])
    (auto simp: wait_section_def pstatus_wait_blocked_def start2_simps type_defs value_defs)

theorem status_no_lost_wakeup_witness:
  "1 = count_of asleep (pcs (sys2 start2 (Sleeping (InWait PSTATUS_TYPE_ONLINE PSTATUS_ONLINE_ONLINE)) Idle)) \<and>
   pstatus_get PSTATUS_TYPE_ONLINE (start2\<lparr>status_waiters := 1\<rparr>) AND PSTATUS_ONLINE_ONLINE = 0"
  using status_no_lost_wakeup [OF wait_online_reaches] by (auto simp: sys2_def)

text \<open>
  \<open>pstatus_wait_statuses_arr\<close> returns, from its start or after any wait, exactly when all its
  conditions hold at once for \<open>pstatus_ok_status_arr\<close>, with the mutex held: a condition that held before a wait
  is tested again.
\<close>

theorem wait_arr_returns_iff_ok:
  assumes "i = 0 \<or> waited"
  shows "snd (wait_arr_section cs i waited s) = Idle \<longleftrightarrow> pstatus_ok_status_arr (statuses s) cs"
  unfolding wait_loop_Returns [OF assms, symmetric] wait_arr_section_def by (simp split: wait_result.splits)

theorem wait_arr_returns_iff_ok_witness:
  "snd (wait_arr_section [PSTATUS_COMBINE PSTATUS_TYPE_RUN PSTATUS_RUN_RUN] 0 False start2) = Idle"
  unfolding wait_arr_returns_iff_ok [OF disjI1 [OF refl]]
  by (simp add: comb_holds_def PSTATUS_COMBINE_def start2_simps type_defs value_defs)

text \<open>
  A call of \<open>pstatus_set\<close> that does not overlap another leaves the status equal to the one computed from the
  six variables and the counters; it is \<open>PSTATUS_READY\<close> exactly when the client runs and is online, the local scan is
  done, nothing is full, nothing is to be transferred and the login data is provided or not known yet.
\<close>

lemma other_status_not_ready:
  "PSTATUS_DOWNLOADING \<noteq> PSTATUS_READY" "PSTATUS_UPLOADING \<noteq> PSTATUS_READY" "PSTATUS_DOWNLOADINGANDUPLOADING \<noteq> PSTATUS_READY"
  "PSTATUS_LOGIN_REQUIRED \<noteq> PSTATUS_READY" "PSTATUS_BAD_LOGIN_DATA \<noteq> PSTATUS_READY" "PSTATUS_BAD_LOGIN_TOKEN \<noteq> PSTATUS_READY"
  "PSTATUS_ACCOUNT_FULL \<noteq> PSTATUS_READY" "PSTATUS_DISK_FULL \<noteq> PSTATUS_READY" "PSTATUS_PAUSED \<noteq> PSTATUS_READY"
  "PSTATUS_STOPPED \<noteq> PSTATUS_READY" "PSTATUS_OFFLINE \<noteq> PSTATUS_READY" "PSTATUS_CONNECTING \<noteq> PSTATUS_READY"
  "PSTATUS_SCANNING \<noteq> PSTATUS_READY" "PSTATUS_USER_MISMATCH \<noteq> PSTATUS_READY" "PSTATUS_ACCOUNT_EXPIRED \<noteq> PSTATUS_READY"
  "PSTATUS_TFA_REQUIRED \<noteq> PSTATUS_READY" "PSTATUS_BAD_TFA_CODE \<noteq> PSTATUS_READY" "PSTATUS_VERIFY_REQUIRED \<noteq> PSTATUS_READY"
  "PSTATUS_RELOCATION \<noteq> PSTATUS_READY" "PSTATUS_RELOCATED \<noteq> PSTATUS_READY" "- 1 \<noteq> PSTATUS_READY"
  by (simp_all add: status_defs)

lemma if_eq_iff: "(if b then x else y) = z \<longleftrightarrow> (if b then x = z else y = z)"
  by simp

lemma calc_status_ready:
  "calc_status s = PSTATUS_READY \<longleftrightarrow>
      pstatus_get PSTATUS_TYPE_AUTH s \<in> {PSTATUS_INVALID, PSTATUS_AUTH_PROVIDED} \<and>
      pstatus_get PSTATUS_TYPE_RUN s = PSTATUS_RUN_RUN \<and> pstatus_get PSTATUS_TYPE_ONLINE s = PSTATUS_ONLINE_ONLINE \<and>
      pstatus_get PSTATUS_TYPE_LOCALSCAN s = PSTATUS_LOCALSCAN_READY \<and>
      pstatus_get PSTATUS_TYPE_ACCFULL s = PSTATUS_ACCFULL_QUOTAOK \<and> pstatus_get PSTATUS_TYPE_DISKFULL s = PSTATUS_DISKFULL_OK \<and>
      filestodownload s = 0 \<and> filesdownloading s = 0 \<and> filestoupload s = 0 \<and> filesuploading s = 0"
  unfolding calc_status_def pstatus_get_def Let_def if_eq_iff by (simp only: other_status_not_ready if_cancel) auto

lemma calc_status_cong:
  "statuses s = statuses s' \<Longrightarrow> filestodownload s = filestodownload s' \<Longrightarrow> filesdownloading s = filesdownloading s' \<Longrightarrow>
   filestoupload s = filestoupload s' \<Longrightarrow> filesuploading s = filesuploading s' \<Longrightarrow> calc_status s = calc_status s'"
  by (simp only: calc_status_def)

theorem sequential_status_exact:
  "let (s', upd) = pstatus_set i v s in
     status s' = calc_status s' \<and> statuses s' = (statuses s)[i := v] \<and> (upd \<longleftrightarrow> status s' \<noteq> status s) \<and>
     (status s' = PSTATUS_READY \<longleftrightarrow>
        pstatus_get PSTATUS_TYPE_AUTH s' \<in> {PSTATUS_INVALID, PSTATUS_AUTH_PROVIDED} \<and>
        pstatus_get PSTATUS_TYPE_RUN s' = PSTATUS_RUN_RUN \<and> pstatus_get PSTATUS_TYPE_ONLINE s' = PSTATUS_ONLINE_ONLINE \<and>
        pstatus_get PSTATUS_TYPE_LOCALSCAN s' = PSTATUS_LOCALSCAN_READY \<and>
        pstatus_get PSTATUS_TYPE_ACCFULL s' = PSTATUS_ACCFULL_QUOTAOK \<and> pstatus_get PSTATUS_TYPE_DISKFULL s' = PSTATUS_DISKFULL_OK \<and>
        filestodownload s' = 0 \<and> filesdownloading s' = 0 \<and> filestoupload s' = 0 \<and> filesuploading s' = 0)"
proof -
  let ?S = "set_section i v s" and ?s' = "fst (pstatus_set i v s)"
  have "calc_status ?s' = calc_status ?S"
    by (rule calc_status_cong) (simp_all add: pstatus_set_def set_compare_def Let_def)
  then have eq: "status ?s' = calc_status ?s'" by (simp add: pstatus_set_def set_compare_def Let_def)
  have "statuses ?s' = (statuses s)[i := v]" "snd (pstatus_set i v s) \<longleftrightarrow> status ?s' \<noteq> status s"
    by (auto simp: pstatus_set_def set_compare_def Let_def) (simp_all add: set_section_def Let_def)
  with eq show ?thesis by (simp add: case_prod_unfold Let_def calc_status_ready del: insert_iff)
qed

text \<open>
  C39. Two overlapping calls of \<open>pstatus_set\<close> can leave a wrong status: the value is computed and stored without
  the mutex, so a thread that was delayed between the two overwrites the newer status. No thread is left to correct it.
\<close>

theorem overlapping_sets_leave_stale_status:
  "\<exists>s :: bool sys. reaches status_start status_step s \<and> (\<forall>t. pcs s t = Idle) \<and>
     pstatus_get PSTATUS_TYPE_ONLINE (st s) = PSTATUS_ONLINE_OFFLINE \<and> calc_status (st s) = PSTATUS_OFFLINE \<and>
     status (st s) = PSTATUS_CONNECTING"
proof -
  let ?A = "set_section PSTATUS_TYPE_ONLINE PSTATUS_ONLINE_CONNECTING start2"
  let ?B = "set_section PSTATUS_TYPE_ONLINE PSTATUS_ONLINE_OFFLINE ?A"
  let ?C = "fst (set_compare (calc_status ?B) ?B)"
  let ?D = "fst (set_compare (calc_status ?A) ?C)"
  have w: "status_waiters start2 = 0" and i: "PSTATUS_TYPE_ONLINE < PSTATUS_NUM_STATUSES" by (simp_all add: start2_simps type_defs)
  have "reaches status_start status_step (sys2 ?A (SetCompare (calc_status ?A)) Idle)"
    by (rule sys2_calc(1) [OF sys2_set(1) [OF start2_reaches i w refl] refl])
  then have "reaches status_start status_step (sys2 ?B (SetCompare (calc_status ?A)) (SetCompare (calc_status ?B)))"
    by (intro sys2_calc(2) [OF sys2_set(2) [OF _ i]] refl) (simp_all add: w)
  from sys2_write(1) [OF sys2_write(2) [OF this refl] refl]
  have "reaches status_start status_step (sys2 ?D Idle Idle)" .
  moreover have calc: "calc_status ?A = PSTATUS_CONNECTING" "calc_status ?B = PSTATUS_OFFLINE"
    by (simp_all add: set_section_def calc_status_def start2_simps type_defs value_defs)
  have "calc_status ?D = calc_status ?B"
    by (rule calc_status_cong) (simp_all add: set_compare_def)
  with calc have "calc_status ?D = PSTATUS_OFFLINE \<and> status ?D = PSTATUS_CONNECTING \<and>
      pstatus_get PSTATUS_TYPE_ONLINE ?D = PSTATUS_ONLINE_OFFLINE"
    by (simp add: pstatus_get_def set_compare_def start2_simps type_defs status_defs)
  ultimately show ?thesis by (intro exI [of _ "sys2 ?D Idle Idle"]) (simp add: sys2_def)
qed

end
