(* ===== verification/PAdler.thy ===== *)
theory PAdler
  imports Prelude
begin

text \<open>
  The Adler-32 checksum of \<open>pclsync/pnetlibs.c\<close> and its rolling update, which slides a window over a
  file one byte at a time. Both are computed in 32-bit words; the theorems compare them with sums of
  natural numbers.
\<close>

subsection \<open>The code\<close>

definition ADLER32_BASE :: u32 where "ADLER32_BASE = 65521"
definition ADLER32_NMAX :: nat where "ADLER32_NMAX = 5552"
definition ADLER32_INITIAL :: u32 where "ADLER32_INITIAL = 1"

definition ADLER32_1 :: "u8 \<Rightarrow> u32 \<times> u32 \<Rightarrow> u32 \<times> u32" where
  "ADLER32_1 b = (\<lambda>(adler, s). let adler = adler + ucast b in (adler, s + adler))"

definition ADLER32_16 :: "bytes \<Rightarrow> u32 \<times> u32 \<Rightarrow> u32 \<times> u32" where
  "ADLER32_16 buff st = fold ADLER32_1 (take 16 buff) st"

text \<open>The inner loop over blocks of 16 bytes: the state and the advanced buffer.\<close>

fun adler_blocks :: "nat \<Rightarrow> bytes \<Rightarrow> u32 \<times> u32 \<Rightarrow> (u32 \<times> u32) \<times> bytes" where
  "adler_blocks 0 buff st = (st, buff)"
| "adler_blocks (Suc n) buff st = adler_blocks n (drop 16 buff) (ADLER32_16 buff st)"

lemma snd_adler_blocks: "snd (adler_blocks n buff st) = drop (16 * n) buff"
  by (induction n buff st rule: adler_blocks.induct) (simp_all add: add.commute)

definition adler_reduce :: "u32 \<times> u32 \<Rightarrow> u32 \<times> u32" where
  "adler_reduce = (\<lambda>(adler, s). (adler mod ADLER32_BASE, s mod ADLER32_BASE))"

function adler_long :: "bytes \<Rightarrow> u32 \<times> u32 \<Rightarrow> (u32 \<times> u32) \<times> bytes" where
  "adler_long buff st =
     (if ADLER32_NMAX \<le> length buff
      then (let (st, rest) = adler_blocks (ADLER32_NMAX div 16) buff st
            in adler_long rest (adler_reduce st))
      else (st, buff))"
  by pat_completeness auto
termination
  by (relation "measure (\<lambda>(buff, st). length buff)")
    (auto simp: ADLER32_NMAX_def dest!: arg_cong [where f = snd] simp: snd_adler_blocks)

function adler_sixteens :: "bytes \<Rightarrow> u32 \<times> u32 \<Rightarrow> (u32 \<times> u32) \<times> bytes" where
  "adler_sixteens buff st =
     (if 16 \<le> length buff then adler_sixteens (drop 16 buff) (ADLER32_16 buff st) else (st, buff))"
  by pat_completeness auto
termination
  by (relation "measure (\<lambda>(buff, st). length buff)") auto

declare adler_long.simps [simp del] adler_sixteens.simps [simp del]

definition adler32 :: "u32 \<Rightarrow> bytes \<Rightarrow> u32" where
  "adler32 adler buff =
     (let s = drop_bit 16 adler; adler = adler AND 0xffff;
          (st, buff) = adler_long buff (adler, s);
          (st, buff) = adler_sixteens buff st;
          (adler, s) = adler_reduce (fold ADLER32_1 buff st)
      in adler OR push_bit 16 s)"

definition adler32_roll :: "u32 \<Rightarrow> u8 \<Rightarrow> u8 \<Rightarrow> u32 \<Rightarrow> u32" where
  "adler32_roll adler byteout bytein len =
     (let s = drop_bit 16 adler; adler = adler AND 0xffff;
          adler = adler + (ADLER32_BASE + ucast bytein - ucast byteout);
          s = (ADLER32_BASE * ADLER32_BASE + s - len * ucast byteout - ADLER32_INITIAL + adler) mod ADLER32_BASE;
          adler = adler mod ADLER32_BASE
      in adler OR push_bit 16 s)"

subsection \<open>The sums\<close>

fun adler_sums :: "bytes \<Rightarrow> nat \<times> nat \<Rightarrow> nat \<times> nat" where
  "adler_sums [] (a, s) = (a, s)"
| "adler_sums (b # bs) (a, s) = adler_sums bs (a + unat b, s + a + unat b)"

definition adler_value :: "nat \<times> nat \<Rightarrow> u32" where
  "adler_value = (\<lambda>(a, s). word_of_nat (a mod 65521 + 65536 * (s mod 65521)))"

text \<open>\<open>state_at k\<close>: the words are far enough from overflow for the bytes that follow, up to \<open>NMAX\<close>.\<close>

definition state_at :: "nat \<Rightarrow> u32 \<times> u32 \<Rightarrow> nat \<times> nat \<Rightarrow> bool" where
  "state_at k = (\<lambda>(wa, ws) (a, s). unat wa mod 65521 = a mod 65521 \<and> unat ws mod 65521 = s mod 65521 \<and>
     unat wa \<le> 65535 + 255 * k \<and> 2 * unat ws \<le> 2 * 65535 * (k + 1) + 255 * k * (k + 1))"

lemma unat_plus_small: "unat (a :: u32) + unat b < 2 ^ 32 \<Longrightarrow> unat (a + b) = unat a + unat b"
  by (simp add: unat_word_ariths)

lemma unat_byte: "unat (ucast (b :: u8) :: u32) = unat b" "unat b \<le> 255"
proof -
  have b: "unat b < 2 ^ LENGTH(8)" by (rule unsigned_less)
  then show "unat b \<le> 255" by simp
  with b show "unat (ucast b :: u32) = unat b" by (simp add: unsigned_ucast_eq take_bit_nat_eq_self)
qed

lemma state_step:
  assumes "state_at k w (a, s)" "k < 5552"
  shows "state_at (Suc k) (ADLER32_1 b w) (a + unat b, s + a + unat b)"
proof -
  obtain wa ws where w: "w = (wa, ws)" by (cases w)
  have bnd: "unat wa \<le> 65535 + 255 * k" "2 * unat ws \<le> 2 * 65535 * (k + 1) + 255 * (k * (k + 1))"
    and cong: "unat wa mod 65521 = a mod 65521" "unat ws mod 65521 = s mod 65521"
    using assms(1) by (auto simp: state_at_def w)
  have k: "k * (k + 1) \<le> 5551 * 5552" using assms(2) by (intro mult_mono) auto
  have wa: "unat (wa + ucast b) = unat wa + unat b"
    using bnd(1) assms(2) unat_byte [of b] by (subst unat_plus_small) auto
  have ws: "unat (ws + (wa + ucast b)) = unat ws + (unat wa + unat b)"
    using bnd k assms(2) unat_byte [of b] wa by (subst unat_plus_small) auto
  have "(unat wa + unat b) mod 65521 = (a + unat b) mod 65521" using cong(1) by (rule mod_add_cong) simp
  moreover have "(unat ws + (unat wa + unat b)) mod 65521 = (s + (a + unat b)) mod 65521"
    using cong(2) calculation by (rule mod_add_cong)
  ultimately show ?thesis
    using bnd unat_byte(2) [of b] by (simp add: state_at_def ADLER32_1_def Let_def wa ws w add.assoc del: of_nat_add) (simp add: algebra_simps)
qed

lemma adler_sums_append: "adler_sums (xs @ ys) st = adler_sums ys (adler_sums xs st)"
  by (induction xs st rule: adler_sums.induct) auto

lemma state_fold:
  "state_at k w st \<Longrightarrow> k + length bs \<le> 5552 \<Longrightarrow> state_at (k + length bs) (fold ADLER32_1 bs w) (adler_sums bs st)"
proof (induction bs arbitrary: k w st)
  case (Cons b bs)
  obtain a s where st: "st = (a, s)" by (cases st)
  have "state_at (Suc k) (ADLER32_1 b w) (a + unat b, s + a + unat b)"
    using Cons.prems by (intro state_step) (simp_all add: st)
  from Cons.IH [OF this] Cons.prems(2) show ?case by (simp add: st)
next
  case Nil
  then show ?case by (cases st) simp
qed

lemma adler_blocks_fold:
  "16 * n \<le> length buff \<Longrightarrow> adler_blocks n buff st = (fold ADLER32_1 (take (16 * n) buff) st, drop (16 * n) buff)"
proof (induction n buff st rule: adler_blocks.induct)
  case (2 n buff st)
  have "take (16 + 16 * n) buff = take 16 buff @ take (16 * n) (drop 16 buff)" by (rule take_add)
  with 2 show ?case by (simp add: ADLER32_16_def add.commute)
qed simp

lemma adler_sixteens_fold:
  "case adler_sixteens buff st of (st', rest) \<Rightarrow> fold ADLER32_1 rest st' = fold ADLER32_1 buff st"
proof (induction buff st rule: adler_sixteens.induct)
  case (1 buff st)
  then show ?case
    by (subst adler_sixteens.simps)
      (auto simp: ADLER32_16_def split: prod.splits simp flip: fold_append [THEN fun_cong, unfolded comp_def])
qed

lemma unat_mod_base: "unat (adler_w mod ADLER32_BASE) = unat adler_w mod 65521"
  by (simp add: ADLER32_BASE_def unat_mod)

lemma state_reduce: "state_at k w st \<Longrightarrow> state_at 0 (adler_reduce w) st"
  by (cases w; cases st) (auto simp: state_at_def adler_reduce_def unat_mod_base less_imp_le
      intro: order_trans [OF less_imp_le [OF mod_less_divisor]])

lemma adler_long_state:
  "state_at 0 w st \<Longrightarrow> adler_long buff w = (w', rest) \<Longrightarrow>
   \<exists>pre. buff = pre @ rest \<and> length rest < 5552 \<and> state_at 0 w' (adler_sums pre st)"
proof (induction buff w arbitrary: st rule: adler_long.induct)
  case (1 buff w)
  show ?case
  proof (cases "ADLER32_NMAX \<le> length buff")
    case False
    with 1(2,3) show ?thesis
      by (subst (asm) adler_long.simps) (intro exI [of _ "[]"], cases st, auto simp: ADLER32_NMAX_def)
  next
    case True
    let ?pre = "take 5552 buff" and ?w = "fold ADLER32_1 (take 5552 buff) w"
    have blocks: "adler_blocks (ADLER32_NMAX div 16) buff w = (?w, drop 5552 buff)"
      using True by (subst adler_blocks_fold) (auto simp: ADLER32_NMAX_def)
    have st: "state_at 0 (adler_reduce ?w) (adler_sums ?pre st)"
      by (rule state_reduce, rule state_fold [OF 1(2)]) simp
    have "adler_long (drop 5552 buff) (adler_reduce ?w) = (w', rest)"
      using 1(3) True blocks by (subst (asm) adler_long.simps) simp
    from 1(1) [OF True blocks [symmetric] refl st this] obtain pre
      where "drop 5552 buff = pre @ rest" "length rest < 5552" "state_at 0 w' (adler_sums pre (adler_sums ?pre st))"
      by blast
    then show ?thesis
      by (intro exI [of _ "?pre @ pre"]) (simp add: adler_sums_append append_take_drop_id flip: \<open>drop 5552 buff = pre @ rest\<close>)
  qed
qed

lemma word_or_push16:
  assumes "unat a < 65536"
  shows "(a :: u32) OR push_bit 16 s = a + 65536 * s"
proof -
  have "\<not> bit a n" if "n \<ge> 16" for n
  proof -
    have "a = take_bit 16 a"
      using assms by (intro word_unat_eq_iff [THEN iffD2]) (simp add: unsigned_take_bit_eq take_bit_nat_eq_self)
    with that show ?thesis by (metis bit_take_bit_iff not_less)
  qed
  then have "a AND push_bit 16 s = 0" by (intro bit_word_eqI) (auto simp: bit_simps)
  then have "a + push_bit 16 s = a OR push_bit 16 s" by (rule disjunctive_add_eq_or)
  then show ?thesis by (simp add: push_bit_eq_mult mult.commute)
qed

lemma unat_halves:
  "unat ((w :: u32) AND 0xffff) = unat w mod 65536" "unat (drop_bit 16 w) = unat w div 65536"
proof -
  have "(0xffff :: u32) = mask 16" by (simp add: mask_eq_exp_minus_1)
  then have *: "w AND 0xffff = take_bit 16 w" by (simp only: take_bit_eq_mask)
  show "unat (w AND 0xffff) = unat w mod 65536" unfolding * unsigned_take_bit_eq by (simp add: take_bit_eq_mod)
  have "unat w < 2 ^ LENGTH(32)" by (rule unsigned_less)
  then show "unat (drop_bit 16 w) = unat w div 65536"
    unfolding unsigned_drop_bit_eq by (simp add: drop_bit_eq_div take_bit_nat_eq_self)
qed

lemma unat_of_nat_word: "unat (w :: 'a::len word) = n \<Longrightarrow> w = word_of_nat n"
  by auto

lemma of_nat_unat_small: "n < 2 ^ LENGTH('a::len) \<Longrightarrow> unat (word_of_nat n :: 'a word) = n"
  by (simp add: unsigned_of_nat take_bit_nat_eq_self)

lemma halves_value: "unat a = x mod 65521 \<Longrightarrow> unat s = y mod 65521 \<Longrightarrow> a OR push_bit 16 s = adler_value (x, y)"
proof -
  assume "unat a = x mod 65521" "unat s = y mod 65521"
  then have "a = word_of_nat (x mod 65521)" "s = word_of_nat (y mod 65521)" "unat a < 65536"
    by (metis unat_of_nat_word | simp)+
  then show ?thesis by (simp add: word_or_push16 adler_value_def)
qed

text \<open>What \<open>adler32\<close> computes from any start value.\<close>

lemma adler32_sums:
  "adler32 w bs = adler_value (adler_sums bs (unat w mod 65536, unat w div 65536))"
proof -
  let ?w = "(w AND 0xffff, drop_bit 16 w)" and ?st = "(unat w mod 65536, unat w div 65536)"
  have "unat w < 65536 * 65536" using unsigned_less [of w] by simp
  then have "unat w div 65536 < 65536" by (subst div_less_iff_less_mult) simp_all
  then have start: "state_at 0 ?w ?st" by (simp add: state_at_def unat_halves)
  obtain w1 r1 where l: "adler_long bs ?w = (w1, r1)" by (cases "adler_long bs ?w")
  obtain w2 r2 where x: "adler_sixteens r1 w1 = (w2, r2)" by (cases "adler_sixteens r1 w1")
  from adler_long_state [OF start l] obtain pre where pre: "bs = pre @ r1" "length r1 < 5552"
    "state_at 0 w1 (adler_sums pre ?st)" by blast
  have "state_at (length r1) (fold ADLER32_1 r2 w2) (adler_sums bs ?st)"
    using state_fold [OF pre(3), of r1] pre(1,2) adler_sixteens_fold [of r1 w1]
    by (simp add: x adler_sums_append)
  then show ?thesis
    unfolding adler32_def Let_def l x prod.case
    by (cases "fold ADLER32_1 r2 w2"; cases "adler_sums bs ?st")
      (auto simp: adler_reduce_def unat_mod_base state_at_def intro!: halves_value)
qed

subsection \<open>Rolling\<close>

lemma adler_sums_shift:
  "adler_sums xs (a + d, s + e) = (fst (adler_sums xs (a, s)) + d, snd (adler_sums xs (a, s)) + e + length xs * d)"
proof (induction xs arbitrary: a s e)
  case (Cons x xs)
  from Cons.IH [of "a + unat x" "s + a + unat x" "e + d"] show ?case by (simp add: ac_simps)
qed simp

lemma unat_value:
  "unat (adler_value (a, s)) mod 65536 = a mod 65521" "unat (adler_value (a, s)) div 65536 = s mod 65521"
proof -
  have "a mod 65521 < 65521" "s mod 65521 < 65521" by simp_all
  then have "a mod 65521 + 65536 * (s mod 65521) < 2 ^ LENGTH(32)" by simp
  then have "unat (adler_value (a, s)) = a mod 65521 + 65536 * (s mod 65521)"
    unfolding adler_value_def prod.case by (rule of_nat_unat_small)
  with \<open>a mod 65521 < 65521\<close> show "unat (adler_value (a, s)) mod 65536 = a mod 65521"
    "unat (adler_value (a, s)) div 65536 = s mod 65521" by simp_all
qed

text \<open>The value of the rolling update over natural numbers.\<close>

lemma roll_value:
  assumes "unat len * unat x \<le> 65521 * 65521"
  shows "adler32_roll (adler_value (a, s)) x y len =
    adler_value (a mod 65521 + 65521 + unat y - unat x,
      65521 * 65521 + s mod 65521 + (a mod 65521 + 65521 + unat y - unat x) - (unat len * unat x + 1))"
proof -
  let ?w = "adler_value (a, s)"
  define A where "A = a mod 65521"
  define S where "S = s mod 65521"
  define a' where "a' = A + 65521 + unat y - unat x"
  define P where "P = 65521 * 65521 + S + a'"
  define Q where "Q = unat len * unat x + 1"
  have sm: "A < 65521" "S < 65521" "unat x \<le> 255" "unat y \<le> 255" by (simp_all add: unat_byte A_def S_def)
  have low: "?w AND 0xffff = word_of_nat A" and high: "drop_bit 16 ?w = word_of_nat S"
    by (rule unat_of_nat_word, simp add: unat_halves unat_value A_def S_def)+
  have bytes: "ucast b = (word_of_nat (unat b) :: u32)" for b :: u8 by (rule unat_of_nat_word) (simp add: unat_byte)
  have PQ: "Q \<le> P" and P: "P < 2 ^ LENGTH(32)" using assms sm by (simp_all add: P_def Q_def a'_def)
  have base: "ADLER32_BASE = word_of_nat 65521" "(1 :: u32) = word_of_nat 1" "len = word_of_nat (unat len)"
    by (simp_all add: ADLER32_BASE_def)
  have wa: "word_of_nat A + (ADLER32_BASE + ucast y - ucast x) = word_of_nat a'"
  proof -
    have "unat x \<le> A + 65521 + unat y" using sm(3) by simp
    then have "(word_of_nat a' :: u32) = word_of_nat (A + 65521 + unat y) - word_of_nat (unat x)"
      unfolding a'_def by (rule of_nat_diff)
    then show ?thesis by (simp only: of_nat_add bytes base(1)) (simp only: add_diff_eq ac_simps)
  qed
  have ws: "ADLER32_BASE * ADLER32_BASE + word_of_nat S - len * ucast x - ADLER32_INITIAL + word_of_nat a' = word_of_nat (P - Q)"
  proof -
    have "(word_of_nat (P - Q) :: u32) = word_of_nat P - word_of_nat Q" by (rule of_nat_diff [OF PQ])
    also have "\<dots> = word_of_nat 65521 * word_of_nat 65521 + word_of_nat S + word_of_nat a' -
        (word_of_nat (unat len) * word_of_nat (unat x) + word_of_nat 1)"
      by (simp only: P_def Q_def of_nat_add of_nat_mult)
    finally show ?thesis
      by (simp only: bytes ADLER32_INITIAL_def base(1,2) base(3) [symmetric]) (simp only: diff_diff_eq add_diff_eq diff_add_eq ac_simps)
  qed
  have ua: "unat (word_of_nat a' :: u32) = a'" and us: "unat (word_of_nat (P - Q) :: u32) = P - Q"
    using sm(1,3,4) less_imp_diff_less [OF P] by (intro of_nat_unat_small, simp add: a'_def)+
  have "adler32_roll ?w x y len = adler_value (a', P - Q)"
    unfolding adler32_roll_def Let_def low high wa ws
    by (rule halves_value) (simp_all only: unat_mod_base ua us)
  then show ?thesis by (simp only: a'_def P_def Q_def A_def S_def)
qed

lemma nat_mod_cancel: "(a + c) mod m = (b + c) mod m \<Longrightarrow> a mod m = b mod (m :: nat)"
proof -
  assume "(a + c) mod m = (b + c) mod m"
  then have "(int a + int c) mod int m = (int b + int c) mod int m" by (metis of_nat_add of_nat_mod)
  then have "(int a + int c - int c) mod int m = (int b + int c - int c) mod int m" by (rule mod_diff_cong) simp
  then show ?thesis by (metis add_diff_cancel_right' of_nat_eq_iff of_nat_mod)
qed

lemma adler_value_cong: "a mod 65521 = a' mod 65521 \<Longrightarrow> s mod 65521 = s' mod 65521 \<Longrightarrow> adler_value (a, s) = adler_value (a', s')"
  by (simp add: adler_value_def)

lemma adler32_init: "adler32 ADLER32_INITIAL bs = adler_value (adler_sums bs (1, 0))"
  by (simp add: adler32_sums ADLER32_INITIAL_def)

lemma adler_roll_window:
  assumes "unat len = length ws + 1" "unat len * unat x \<le> 65521 * 65521"
  shows "adler32_roll (adler32 ADLER32_INITIAL (x # ws)) x y len = adler32 ADLER32_INITIAL (ws @ [y])"
proof -
  obtain a s where w: "adler_sums ws (1, 0) = (a, s)" by (cases "adler_sums ws (1, 0)")
  let ?n = "unat len * unat x"
  have old: "adler_sums (x # ws) (1, 0) = (a + unat x, s + 1 + ?n)"
    using adler_sums_shift [of ws 1 "unat x" 0 "1 + unat x"] w by (simp add: assms(1))
  have new: "adler_sums (ws @ [y]) (1, 0) = (a + unat y, s + a + unat y)" by (simp add: adler_sums_append w del: One_nat_def)
  have init: "unat ADLER32_INITIAL mod 65536 = 1" "unat ADLER32_INITIAL div 65536 = 0" by (simp_all add: ADLER32_INITIAL_def)
  define A where "A = (a + unat x) mod 65521"
  define A' where "A' = A + 65521 + unat y - unat x"
  have x: "unat x \<le> 255" by (rule unat_byte)
  have A': "A' mod 65521 = (a + unat y) mod 65521"
  proof -
    have "(A' + unat x) mod 65521 = (a + unat y + unat x) mod 65521"
    proof -
      have "A' + unat x = (a + unat x) mod 65521 + (65521 + unat y)" using x by (simp add: A'_def A_def)
      also have "\<dots> mod 65521 = (a + unat x + (65521 + unat y)) mod 65521" by (rule mod_add_left_eq)
      also have "a + unat x + (65521 + unat y) = a + unat y + unat x + 65521" by simp
      finally show ?thesis by (simp only: mod_add_self2)
    qed
    then show ?thesis by (rule nat_mod_cancel)
  qed
  show ?thesis
    unfolding adler32_sums init old new roll_value [OF assms(2)]
  proof (rule adler_value_cong)
    show "((a + unat x) mod 65521 + 65521 + unat y - unat x) mod 65521 = (a + unat y) mod 65521"
      using A' by (simp add: A'_def A_def)
    let ?V = "65521 * 65521 + (s + 1 + ?n) mod 65521 + A' - (?n + 1)"
    have "(?V + (?n + 1)) mod 65521 = (s + a + unat y + (?n + 1)) mod 65521"
    proof -
      have "?V + (?n + 1) = 65521 * 65521 + (s + 1 + ?n) mod 65521 + A'"
        using assms(2) x by (simp add: A'_def)
      also have "\<dots> = ((s + 1 + ?n) mod 65521 + A') + 65521 * 65521" by (simp only: ac_simps)
      also have "\<dots> mod 65521 = ((s + 1 + ?n) mod 65521 + A') mod 65521" by (rule mod_mult_self1)
      also have "\<dots> = ((s + 1 + ?n) + (a + unat y)) mod 65521" by (rule mod_add_cong [OF mod_mod_trivial A'])
      finally show ?thesis by (simp only: ac_simps)
    qed
    then show "(65521 * 65521 + (s + 1 + ?n) mod 65521 + ((a + unat x) mod 65521 + 65521 + unat y - unat x) - (?n + 1)) mod 65521 =
        (s + a + unat y) mod 65521"
      unfolding A'_def A_def by (rule nat_mod_cancel)
  qed
qed


text \<open>
  C21. Rolling the checksum by one byte gives the checksum of the shifted window, in 32-bit words, for every
  window whose length times the leaving byte does not exceed the square of the base, so for all windows of up to
  \<open>2 ^ 24\<close> bytes; and the checksum itself, with its delayed reductions, is the pair of sums modulo 65521.
\<close>

theorem adler32_roll_correct:
  assumes "length win = unat len" "unat len \<le> 2 ^ 24" "win = x # ws"
  shows "adler32_roll (adler32 ADLER32_INITIAL win) x y len = adler32 ADLER32_INITIAL (ws @ [y]) \<and>
    adler32 ADLER32_INITIAL win = adler_value (adler_sums win (1, 0))"
proof -
  have "unat len * unat x \<le> 2 ^ 24 * 255" using assms(2) unat_byte(2) [of x] by (rule mult_le_mono)
  then have "unat len * unat x \<le> 65521 * 65521" by simp
  moreover have "unat len = length ws + 1" using assms(1,3) by simp
  ultimately show ?thesis unfolding assms(3) by (intro conjI adler_roll_window adler32_init)
qed

theorem adler32_roll_correct_witness:
  "adler32_roll (adler32 ADLER32_INITIAL [5, 7]) 5 9 2 = adler32 ADLER32_INITIAL [7, 9]"
  by (rule adler32_roll_correct [of "[5, 7]" 2 5 "[7]" 9, THEN conjunct1, unfolded append_Cons append_Nil]) simp_all

end
