(* ===== verification/PBlockHash.thy ===== *)
theory PBlockHash
  imports Prelude
begin

text \<open>
  The table of block checksums of \<open>pclsync/pnetlibs.c\<close> (\<open>psync_net_create_hash\<close>,
  \<open>psync_net_hash_remove\<close>, the look-ups and \<open>psync_net_block_match_found\<close>): open addressing with
  linear probing over a prime number of slots, deletion by shifting back, and chains of equal
  blocks. Block numbers are kept as natural numbers: the server's list is limited to
  \<open>PSYNC_MAX_CHECKSUMS_SIZE\<close> bytes, far below \<open>2 ^ 32\<close> entries. A slot holds a block number
  plus one, or 0. A loop that runs until it finds an empty slot is a \<open>partial_function\<close>: \<open>None\<close> would mean
  that it does not end.
\<close>

subsection \<open>Data\<close>

record block_checksum =
  sha1 :: bytes
  adler :: u32

record file_checksums =
  filesize :: nat
  blocksize :: nat
  blocks :: "block_checksum list"

definition MAX_ADLER_COLL :: nat where "MAX_ADLER_COLL = 64"

datatype range_type = PSYNC_RANGE_TRANSFER | PSYNC_RANGE_COPY

record block_action =
  aoff :: nat
  aidx :: nat
  atype :: range_type

subsection \<open>The size of the table\<close>

function is_prime_from :: "nat \<Rightarrow> nat \<Rightarrow> bool" where
  "is_prime_from i num =
     (if i * i \<le> num then (if num mod i = 0 then False else is_prime_from (i + 2) num) else True)"
  by pat_completeness auto
termination
proof (relation "measure (\<lambda>(i, num). num + 2 - i)")
  fix i num :: nat
  assume "i * i \<le> num"
  moreover have "i \<le> i * i" by (cases i) auto
  ultimately have "i \<le> num" by (rule order_trans [rotated])
  then show "((i + 2, num), (i, num)) \<in> measure (\<lambda>(i, num). num + 2 - i)" by simp
qed simp

declare is_prime_from.simps [simp del]

definition psync_is_prime :: "nat \<Rightarrow> bool" where
  "psync_is_prime num = is_prime_from 5 num"

partial_function (option) prime_loop :: "nat \<Rightarrow> nat option" where
  "prime_loop cnt =
     (if psync_is_prime cnt then Some cnt
      else let cnt = cnt + 4 in if psync_is_prime cnt then Some cnt else prime_loop (cnt + 2))"

definition hash_elementcnt :: "nat \<Rightarrow> nat option" where
  "hash_elementcnt blockcnt = prime_loop ((blockcnt + 1) div 2 * 6 + 1)"

subsection \<open>Creation\<close>

definition next_slot :: "nat \<Rightarrow> nat \<Rightarrow> nat" where
  "next_slot cnt sl = (if sl + 1 \<ge> cnt then 0 else sl + 1)"

text \<open>The search for the slot of block \<open>i\<close> from a used slot: the slot, the collisions, and whether it holds the same digest.\<close>

function insert_probe :: "nat list \<Rightarrow> block_checksum list \<Rightarrow> nat \<Rightarrow> nat \<Rightarrow> nat \<Rightarrow> nat \<times> nat \<times> bool" where
  "insert_probe els bl i sl col =
     (if sha1 (bl ! i) = sha1 (bl ! (els ! sl - 1)) then (sl, col, True)
      else let sl = next_slot (length els) sl; col = col + 1
           in if col > MAX_ADLER_COLL then (sl, col, False)
              else if els ! sl \<noteq> 0 then insert_probe els bl i sl col
              else (sl, col, False))"
  by pat_completeness auto
termination by (relation "measure (\<lambda>(els, bl, i, sl, col). MAX_ADLER_COLL - col)") auto

declare insert_probe.simps [simp del]

text \<open>One round of the loop over the blocks: the slots and the links between equal blocks.\<close>

definition insert_block :: "block_checksum list \<Rightarrow> nat \<Rightarrow> nat list \<times> nat list \<Rightarrow> nat list \<times> nat list" where
  "insert_block bl i = (\<lambda>(els, nxt).
     let sl = unat (adler (bl ! i)) mod length els
     in if els ! sl \<noteq> 0
        then (case insert_probe els bl i sl 0 of (sl, col, same) \<Rightarrow>
               let nxt = (if same then nxt[i := els ! sl] else nxt)
               in if col > MAX_ADLER_COLL then (els, nxt) else (els[sl := i + 1], nxt))
        else (els[sl := i + 1], nxt))"

definition psync_net_create_hash :: "file_checksums \<Rightarrow> (nat list \<times> nat list) option" where
  "psync_net_create_hash cs =
     (case hash_elementcnt (length (blocks cs)) of
        None \<Rightarrow> None
      | Some cnt \<Rightarrow> Some (fold (insert_block (blocks cs)) [0..<length (blocks cs)]
                       (replicate cnt 0, replicate (length (blocks cs)) 0)))"

subsection \<open>Look-ups\<close>

text \<open>The first slot from \<open>sl\<close> that is empty or whose content satisfies \<open>P\<close>.\<close>

partial_function (option) probe :: "(nat \<Rightarrow> bool) \<Rightarrow> nat list \<Rightarrow> nat \<Rightarrow> nat option" where
  "probe P els sl =
     (if els ! sl = 0 then Some sl else if P (els ! sl) then Some sl else probe P els (next_slot (length els) sl))"

definition has_adler :: "block_checksum list \<Rightarrow> u32 \<Rightarrow> nat \<Rightarrow> bool" where
  "has_adler bl a idx \<longleftrightarrow> adler (bl ! (idx - 1)) = a"

definition has_key :: "block_checksum list \<Rightarrow> u32 \<Rightarrow> bytes \<Rightarrow> nat \<Rightarrow> bool" where
  "has_key bl a sha idx \<longleftrightarrow> adler (bl ! (idx - 1)) = a \<and> sha1 (bl ! (idx - 1)) = sha"

definition psync_net_hash_has_adler :: "nat list \<Rightarrow> block_checksum list \<Rightarrow> u32 \<Rightarrow> bool option" where
  "psync_net_hash_has_adler els bl a =
     map_option (\<lambda>sl. els ! sl \<noteq> 0) (probe (has_adler bl a) els (unat a mod length els))"

definition psync_net_hash_has_adler_and_sha1 :: "nat list \<Rightarrow> block_checksum list \<Rightarrow> u32 \<Rightarrow> bytes \<Rightarrow> nat option" where
  "psync_net_hash_has_adler_and_sha1 els bl a sha =
     map_option (\<lambda>sl. els ! sl) (probe (has_key bl a sha) els (unat a mod length els))"

subsection \<open>Removal\<close>

text \<open>The walk from the home slot \<open>bp\<close> to \<open>sl\<close>: whether it meets the empty slot.\<close>

partial_function (option) meets_zero :: "nat \<Rightarrow> nat \<Rightarrow> nat \<Rightarrow> nat \<Rightarrow> bool option" where
  "meets_zero cnt zeroidx sl bp =
     (if bp = zeroidx then Some True else if bp = sl then Some False else meets_zero cnt zeroidx sl (next_slot cnt bp))"

partial_function (option) shift_back :: "block_checksum list \<Rightarrow> nat list \<Rightarrow> nat \<Rightarrow> nat \<Rightarrow> nat list option" where
  "shift_back bl els zeroidx sl =
     (let sl = next_slot (length els) sl; idx = els ! sl
      in if idx = 0 then Some els
         else let bp = unat (adler (bl ! (idx - 1))) mod length els
              in if bp \<noteq> sl
                 then Option.bind (meets_zero (length els) zeroidx sl bp)
                        (\<lambda>meets. if meets then shift_back bl (els[zeroidx := idx, sl := 0]) sl sl
                                 else shift_back bl els zeroidx sl)
                 else shift_back bl els zeroidx sl)"

definition psync_net_hash_remove :: "nat list \<Rightarrow> block_checksum list \<Rightarrow> u32 \<Rightarrow> bytes \<Rightarrow> nat list option" where
  "psync_net_hash_remove els bl a sha =
     (case probe (has_key bl a sha) els (unat a mod length els) of
        None \<Rightarrow> None
      | Some sl \<Rightarrow> if els ! sl = 0 then Some els else shift_back bl (els[sl := 0]) sl sl)"

subsection \<open>A matching block\<close>

partial_function (option) mark_chain :: "nat list \<Rightarrow> nat \<Rightarrow> nat \<Rightarrow> nat \<Rightarrow> block_action list \<Rightarrow> block_action list option" where
  "mark_chain nxt fileidx fileoffset cidx acts =
     (let acts = acts[cidx := \<lparr>aoff = fileoffset, aidx = fileidx, atype = PSYNC_RANGE_COPY\<rparr>]
      in if nxt ! cidx \<noteq> 0 then mark_chain nxt fileidx fileoffset (nxt ! cidx - 1) acts else Some acts)"

definition psync_net_block_match_found ::
  "block_checksum list \<Rightarrow> nat list \<Rightarrow> nat \<Rightarrow> nat \<Rightarrow> nat \<Rightarrow> nat list \<times> block_action list \<Rightarrow> (nat list \<times> block_action list) option" where
  "psync_net_block_match_found bl nxt idx fileidx fileoffset = (\<lambda>(els, acts).
     let idx = idx - 1
     in if atype (acts ! idx) \<noteq> PSYNC_RANGE_TRANSFER then Some (els, acts)
        else (case mark_chain nxt fileidx fileoffset idx acts of
                None \<Rightarrow> None
              | Some acts \<Rightarrow> map_option (\<lambda>els. (els, acts)) (psync_net_hash_remove els bl (adler (bl ! idx)) (sha1 (bl ! idx)))))"

declare prime_loop.simps [code] probe.simps [code] meets_zero.simps [code] shift_back.simps [code] mark_chain.simps [code]

subsection \<open>The size is prime and found\<close>

definition divides_only_itself :: "nat \<Rightarrow> bool" where
  "divides_only_itself n \<longleftrightarrow> n > 1 \<and> (\<forall>d. d dvd n \<longrightarrow> d = 1 \<or> d = n)"

text \<open>The numbers that are prime to 6 are the candidates.\<close>

definition prime_to_6 :: "nat \<Rightarrow> bool" where
  "prime_to_6 n \<longleftrightarrow> n mod 6 = 1 \<or> n mod 6 = 5"

lemma is_prime_from_iff:
  "0 < i \<Longrightarrow> odd i \<Longrightarrow> is_prime_from i num \<longleftrightarrow> (\<forall>d. d dvd num \<longrightarrow> odd d \<longrightarrow> i \<le> d \<longrightarrow> \<not> d * d \<le> num)"
proof (induction i num rule: is_prime_from.induct)
  case (1 i num)
  have next_odd: "odd d \<Longrightarrow> i \<le> d \<longleftrightarrow> d = i \<or> i + 2 \<le> d" for d using 1(3) by presburger
  show ?case
  proof (cases "i * i \<le> num")
    case True
    then show ?thesis
      using 1 by (subst is_prime_from.simps) (auto simp: next_odd dvd_eq_mod_eq_0)
  next
    case False
    then have "\<not> d * d \<le> num" if "i \<le> d" for d
      using mult_le_mono [OF that that] by linarith
    with False show ?thesis by (subst is_prime_from.simps) auto
  qed
qed

lemma prime_to_6_dvd: "prime_to_6 n \<Longrightarrow> d dvd n \<Longrightarrow> odd d \<and> \<not> 3 dvd d"
proof
  assume n: "prime_to_6 n" and d: "d dvd n"
  have "odd n" "\<not> 3 dvd n" using n unfolding prime_to_6_def by presburger+
  with d show "odd d" "\<not> 3 dvd d" by (meson dvd_trans)+
qed

lemma psync_is_prime_correct:
  assumes "prime_to_6 n" "n > 1"
  shows "psync_is_prime n \<longleftrightarrow> divides_only_itself n"
proof
  assume p: "psync_is_prime n"
  have big: "d * d > n" if "d dvd n" "d \<noteq> 1" for d
  proof -
    have "odd d \<and> \<not> 3 dvd d" by (rule prime_to_6_dvd [OF assms(1) that(1)])
    then have "d \<noteq> 0" by (metis even_zero)
    moreover from \<open>odd d \<and> _\<close> have "d \<noteq> 2" "d \<noteq> 3" "d \<noteq> 4" by auto
    ultimately have "d \<ge> 5" using that(2) by linarith
    with p that \<open>odd d \<and> _\<close> show ?thesis by (auto simp: psync_is_prime_def is_prime_from_iff not_le)
  qed
  have "d = 1 \<or> d = n" if "d dvd n" for d
  proof (rule ccontr)
    assume d: "\<not> (d = 1 \<or> d = n)"
    obtain e where "n = d * e" using \<open>d dvd n\<close> unfolding dvd_def by blast
    with d have e: "n = d * e" "e \<noteq> 1" by auto
    have "d * d > n" by (rule big) (use \<open>d dvd n\<close> d in auto)
    moreover have "e * e > n" by (rule big) (use e in auto)
    ultimately have "n * n < (d * d) * (e * e)"
      by (intro mult_strict_mono) (simp_all only: le_less_trans [OF le0] le0)
    then show False by (simp add: e ac_simps)
  qed
  with assms(2) show "divides_only_itself n" by (simp add: divides_only_itself_def)
next
  assume "divides_only_itself n"
  then show "psync_is_prime n"
    using assms(2) by (auto simp: psync_is_prime_def is_prime_from_iff divides_only_itself_def)
qed

lemma larger_prime: "\<exists>p. p \<ge> n \<and> p > 3 \<and> divides_only_itself p \<and> prime_to_6 p"
proof -
  let ?m = "fact (n + 3) + 1 :: nat"
  define p where "p = (LEAST d. d > 1 \<and> d dvd ?m)"
  have ex: "?m > 1 \<and> ?m dvd ?m" using fact_gt_zero [of "n + 3"] by simp
  then have p: "p > 1" "p dvd ?m" unfolding p_def by (metis (mono_tags, lifting) LeastI)+
  have least: "d > 1 \<Longrightarrow> d dvd ?m \<Longrightarrow> p \<le> d" for d unfolding p_def by (rule Least_le) simp
  have big: "p > n + 3"
  proof (rule ccontr)
    assume "\<not> p > n + 3"
    then have "p dvd fact (n + 3)" using p(1) by (intro dvd_fact) auto
    with p(2) have "p dvd 1" by (metis dvd_add_right_iff)
    with p(1) show False by simp
  qed
  have only: "divides_only_itself p"
    unfolding divides_only_itself_def using p(1)
  proof (intro conjI allI impI)
    fix d assume d: "d dvd p"
    with p have "d > 0" "d \<le> p" by (auto intro: dvd_pos_nat dvd_imp_le)
    moreover have "p \<le> d" if "d > 1" using least [OF that] d p(2) dvd_trans by blast
    ultimately show "d = 1 \<or> d = p" by force
  qed simp
  have "\<not> 2 dvd p" "\<not> 3 dvd p" using only big unfolding divides_only_itself_def by auto
  then have "prime_to_6 p" unfolding prime_to_6_def by presburger
  with only big show ?thesis by (intro exI [of _ p]) simp
qed

lemma prime_loop_found:
  assumes "n mod 6 = 1" "n > 1"
  shows "\<exists>cnt. prime_loop n = Some cnt \<and> n \<le> cnt \<and> divides_only_itself cnt"
proof -
  obtain p where p: "p \<ge> n" "divides_only_itself p" "prime_to_6 p" using larger_prime [of n] by blast
  from p(1) assms show ?thesis
  proof (induction "p - n" arbitrary: n rule: less_induct)
    case less
    have n6: "prime_to_6 n" "prime_to_6 (n + 4)" using less.prems(2) unfolding prime_to_6_def by presburger+
    consider "psync_is_prime n" | "\<not> psync_is_prime n" "psync_is_prime (n + 4)"
      | "\<not> psync_is_prime n" "\<not> psync_is_prime (n + 4)" by blast
    then show ?case
    proof cases
      case 1
      then show ?thesis using n6 less.prems by (subst prime_loop.simps) (simp add: psync_is_prime_correct)
    next
      case 2
      then show ?thesis using n6 less.prems psync_is_prime_correct [OF n6(2)]
        by (subst prime_loop.simps) (auto simp: Let_def)
    next
      case 3
      have "psync_is_prime n \<longleftrightarrow> divides_only_itself n" "psync_is_prime (n + 4) \<longleftrightarrow> divides_only_itself (n + 4)"
        using less.prems(3) by (intro psync_is_prime_correct n6; linarith)+
      then have "p \<noteq> n" "p \<noteq> n + 4" using p(2) 3 by blast+
      moreover have "p mod 6 = 1 \<or> p mod 6 = 5" using p(3) by (simp add: prime_to_6_def)
      moreover obtain k where "n = 6 * k + 1" using less.prems(2) by (metis mult_div_mod_eq)
      moreover obtain l where "p = 6 * l + p mod 6" by (metis mult_div_mod_eq)
      ultimately have "p = 6 * l + 1 \<and> l \<noteq> k \<or> p = 6 * l + 5 \<and> l \<noteq> k" "n = 6 * k + 1" by auto
      then have "n + 6 \<le> p" using less.prems(1) by auto
      have "\<exists>cnt. prime_loop (n + 6) = Some cnt \<and> n + 6 \<le> cnt \<and> divides_only_itself cnt"
      proof (rule less.hyps)
        show "p - (n + 6) < p - n" using \<open>n + 6 \<le> p\<close> by linarith
        show "(n + 6) mod 6 = 1" using less.prems(2) by simp
      qed (use \<open>n + 6 \<le> p\<close> in simp_all)
      moreover have "prime_loop n = prime_loop (n + 4 + 2)" by (subst prime_loop.simps) (simp add: 3 Let_def)
      moreover have "n + 4 + 2 = n + 6" by simp
      ultimately show ?thesis by (metis add_leD1)
    qed
  qed
qed

lemma hash_elementcnt_found:
  assumes "blockcnt > 0"
  shows "\<exists>cnt. hash_elementcnt blockcnt = Some cnt \<and> 3 * blockcnt < cnt \<and> divides_only_itself cnt"
proof -
  let ?n = "(blockcnt + 1) div 2 * 6 + 1"
  have "?n mod 6 = 1" "?n > 1" "?n > 3 * blockcnt" using assms by presburger+
  with prime_loop_found [of ?n] show ?thesis by (auto simp: hash_elementcnt_def)
qed

subsection \<open>Distances on the ring of slots\<close>

text \<open>\<open>dist n a b\<close>: the number of steps from slot \<open>a\<close> to slot \<open>b\<close>. A slot \<open>k\<close> lies on the way from
  \<open>a\<close> to \<open>b\<close>, without \<open>b\<close>, when \<open>dist n a k < dist n a b\<close>.\<close>

definition dist :: "nat \<Rightarrow> nat \<Rightarrow> nat \<Rightarrow> nat" where
  "dist n a b = (if a \<le> b then b - a else b + n - a)"

lemma dist_less: "a < n \<Longrightarrow> b < n \<Longrightarrow> dist n a b < n"
  by (auto simp: dist_def)

lemma dist_zero [simp]: "a < n \<Longrightarrow> b < n \<Longrightarrow> dist n a b = 0 \<longleftrightarrow> a = b"
  by (auto simp: dist_def)

lemma dist_pos [simp]: "a < n \<Longrightarrow> b < n \<Longrightarrow> 0 < dist n a b \<longleftrightarrow> a \<noteq> b"
  using dist_zero by fastforce

lemma dist_refl [simp]: "dist n a a = 0"
  by (simp add: dist_def)

lemma next_slot_less [simp]: "o' < n \<Longrightarrow> next_slot n o' < n"
  by (auto simp: next_slot_def)

lemma dist_next: "a < n \<Longrightarrow> b < n \<Longrightarrow> a \<noteq> b \<Longrightarrow> dist n (next_slot n a) b + 1 = dist n a b"
  by (auto simp: dist_def next_slot_def)

lemma dist_to_next: "a < n \<Longrightarrow> b < n \<Longrightarrow> next_slot n b \<noteq> a \<Longrightarrow> dist n a (next_slot n b) = dist n a b + 1"
  by (auto simp: dist_def next_slot_def split: if_splits)

lemma dist_inj: "a < n \<Longrightarrow> b < n \<Longrightarrow> c < n \<Longrightarrow> dist n a b = dist n a c \<Longrightarrow> b = c"
  by (auto simp: dist_def split: if_splits)

text \<open>Between a slot on the way and the end, nothing changes when the way starts later.\<close>

lemma dist_from_later:
  "h < n \<Longrightarrow> z < n \<Longrightarrow> k < n \<Longrightarrow> q < n \<Longrightarrow> dist n h z < dist n h q \<Longrightarrow> dist n z k < dist n z q \<Longrightarrow> dist n h k < dist n h q"
  by (auto simp: dist_def split: if_splits)

subsection \<open>The invariant of the table\<close>

text \<open>
  Every block in the table can be reached from its home slot over used slots; one empty slot ends every
  search. \<open>hole\<close> is a slot that may be empty on these ways, while a removal closes the gap.
\<close>

definition home :: "block_checksum list \<Rightarrow> nat \<Rightarrow> nat \<Rightarrow> nat" where
  "home bl n idx = unat (adler (bl ! (idx - 1))) mod n"

definition reachable_but :: "block_checksum list \<Rightarrow> nat list \<Rightarrow> nat set \<Rightarrow> bool" where
  "reachable_but bl els holes \<longleftrightarrow>
     (\<forall>q < length els. els ! q \<noteq> 0 \<longrightarrow>
        (\<forall>k < length els. dist (length els) (home bl (length els) (els ! q)) k < dist (length els) (home bl (length els) (els ! q)) q \<longrightarrow>
           els ! k \<noteq> 0 \<or> k \<in> holes))"

definition table_ok :: "block_checksum list \<Rightarrow> nat list \<Rightarrow> bool" where
  "table_ok bl els \<longleftrightarrow> 0 \<in> set els \<and> (\<forall>idx \<in> set els. idx \<le> length bl) \<and> reachable_but bl els {}"

lemma home_less: "n > 0 \<Longrightarrow> home bl n idx < n"
  by (simp add: home_def)

lemma reachable_butD:
  assumes "reachable_but bl els H" "q < length els" "els ! q \<noteq> 0" "k < length els"
    "dist (length els) (home bl (length els) (els ! q)) k < dist (length els) (home bl (length els) (els ! q)) q"
  shows "els ! k \<noteq> 0 \<or> k \<in> H"
  using assms by (auto simp: reachable_but_def)

text \<open>Searches end.\<close>

lemma probe_ends:
  assumes "z < length els" "els ! z = 0" "o' < length els"
  shows "\<exists>sl. probe P els o' = Some sl \<and> sl < length els \<and> (els ! sl = 0 \<or> P (els ! sl)) \<and>
    (\<forall>k < length els. dist (length els) o' k < dist (length els) o' sl \<longrightarrow> els ! k \<noteq> 0 \<and> \<not> P (els ! k))"
  using assms(3)
proof (induction "dist (length els) o' z" arbitrary: o')
  case 0
  then have "o' = z" using assms(1) by simp
  then show ?case using assms by (subst probe.simps) auto
next
  case (Suc d)
  show ?case
  proof (cases "els ! o' = 0 \<or> P (els ! o')")
    case True
    with Suc.prems show ?thesis by (subst probe.simps) auto
  next
    case False
    let ?n = "length els" and ?o = "next_slot (length els) o'"
    have "o' \<noteq> z" using Suc.hyps(2) by auto
    then have "d = dist ?n ?o z" using Suc.hyps(2) dist_next [of o' ?n z] assms(1) Suc.prems by simp
    from Suc.hyps(1) [OF this] Suc.prems obtain sl where sl: "probe P els ?o = Some sl" "sl < ?n" "els ! sl = 0 \<or> P (els ! sl)"
      "\<forall>k < ?n. dist ?n ?o k < dist ?n ?o sl \<longrightarrow> els ! k \<noteq> 0 \<and> \<not> P (els ! k)" by auto
    have "els ! k \<noteq> 0 \<and> \<not> P (els ! k)" if k: "k < ?n" "dist ?n o' k < dist ?n o' sl" for k
    proof (cases "k = o'")
      case True
      with False show ?thesis by simp
    next
      case ne: False
      then have "o' \<noteq> sl" using k by auto
      then have "dist ?n ?o k < dist ?n ?o sl"
        using k ne dist_next [of o' ?n k] dist_next [of o' ?n sl] Suc.prems sl(2) by linarith
      with sl(4) k(1) show ?thesis by blast
    qed
    moreover have "probe P els o' = Some sl" using False sl(1) by (subst probe.simps) simp
    ultimately show ?thesis using sl by blast
  qed
qed

lemma zero_slot: "0 \<in> set els \<Longrightarrow> \<exists>z < length els. els ! z = 0"
  by (auto simp: in_set_conv_nth)

text \<open>A search finds the slot of a block that satisfies the predicate if there is one with this home slot.\<close>

lemma probe_finds:
  assumes ok: "table_ok bl els" and q: "q < length els" "els ! q \<noteq> 0" "P (els ! q)"
    and home: "home bl (length els) (els ! q) = h"
  shows "\<exists>sl < length els. probe P els h = Some sl \<and> els ! sl \<noteq> 0 \<and> P (els ! sl)"
proof -
  let ?n = "length els"
  obtain z where z: "z < ?n" "els ! z = 0" using ok zero_slot by (auto simp: table_ok_def)
  have h: "h < ?n" using home home_less [of ?n bl] z(1) by (metis gr_implies_not0 gr_zeroI)
  obtain sl where sl: "probe P els h = Some sl" "sl < ?n" "els ! sl = 0 \<or> P (els ! sl)"
    "\<forall>k < ?n. dist ?n h k < dist ?n h sl \<longrightarrow> els ! k \<noteq> 0 \<and> \<not> P (els ! k)"
    using probe_ends [OF z h] by blast
  have "\<not> dist ?n h q < dist ?n h sl" using sl(4) q by blast
  moreover have "els ! sl \<noteq> 0" if "dist ?n h sl < dist ?n h q"
    using reachable_butD [of bl els "{}" q sl] ok q sl(2) that home by (auto simp: table_ok_def)
  ultimately have "els ! sl \<noteq> 0"
    using dist_inj [OF h q(1) sl(2)] q(2) by (metis linorder_neqE_nat)
  with sl show ?thesis by blast
qed

subsection \<open>Removal keeps the invariant\<close>

lemma meets_zero_iff:
  assumes "z < n" "sl < n" "bp < n" "z \<noteq> sl"
  shows "meets_zero n z sl bp = Some (dist n bp z < dist n bp sl)"
  using assms(3)
proof (induction "dist n bp sl" arbitrary: bp)
  case 0
  then have "bp = sl" using assms(2) by simp
  then show ?case using assms(2,4) by (subst meets_zero.simps) simp
next
  case (Suc d)
  then have ne: "bp \<noteq> sl" by auto
  show ?case
  proof (cases "bp = z")
    case True
    then show ?thesis using assms by (subst meets_zero.simps) (auto simp: Suc.hyps(2) [symmetric])
  next
    case False
    have steps: "dist n (next_slot n bp) sl + 1 = dist n bp sl" "dist n (next_slot n bp) z + 1 = dist n bp z"
      using assms ne False Suc.prems by (intro dist_next; simp)+
    then have "meets_zero n z sl (next_slot n bp) = Some (dist n (next_slot n bp) z < dist n (next_slot n bp) sl)"
      using Suc by simp
    moreover have "dist n (next_slot n bp) z < dist n (next_slot n bp) sl \<longleftrightarrow> dist n bp z < dist n bp sl"
      using steps by linarith
    ultimately show ?thesis using ne False by (subst meets_zero.simps) simp
  qed
qed

text \<open>The gap at \<open>z\<close> is on no way to a slot between \<open>z\<close> and \<open>sl\<close>.\<close>

definition settled :: "block_checksum list \<Rightarrow> nat list \<Rightarrow> nat \<Rightarrow> nat \<Rightarrow> bool" where
  "settled bl els z sl \<longleftrightarrow>
     (\<forall>q < length els. 0 < dist (length els) z q \<longrightarrow> dist (length els) z q \<le> dist (length els) z sl \<longrightarrow>
        els ! q \<noteq> 0 \<and> \<not> dist (length els) (home bl (length els) (els ! q)) z < dist (length els) (home bl (length els) (els ! q)) q)"

lemma settled_next:
  assumes "settled bl els z sl" "sl' = next_slot (length els) sl" "z < length els" "sl < length els" "sl' \<noteq> z"
    "els ! sl' \<noteq> 0" "\<not> dist (length els) (home bl (length els) (els ! sl')) z < dist (length els) (home bl (length els) (els ! sl')) sl'"
  shows "settled bl els z sl'"
  unfolding settled_def
proof (intro allI impI)
  let ?n = "length els"
  fix q assume q: "q < ?n" "0 < dist ?n z q" "dist ?n z q \<le> dist ?n z sl'"
  have d: "dist ?n z sl' = dist ?n z sl + 1" using assms(2-5) by (simp add: dist_to_next)
  show "els ! q \<noteq> 0 \<and> \<not> dist ?n (home bl ?n (els ! q)) z < dist ?n (home bl ?n (els ! q)) q"
  proof (cases "q = sl'")
    case True
    with assms(6,7) show ?thesis by simp
  next
    case False
    then have "dist ?n z q \<noteq> dist ?n z sl'" using dist_inj [of z ?n q sl'] q(1) assms(2-4) by auto
    with q(3) d have "dist ?n z q \<le> dist ?n z sl" by simp
    with assms(1) q show ?thesis by (simp add: settled_def)
  qed
qed

lemma settled_at: "z < length els \<Longrightarrow> settled bl els z z"
  by (simp add: settled_def)

text \<open>The end of the shifting: no way leads over the gap.\<close>

lemma settled_end:
  assumes "reachable_but bl els {z}" "settled bl els z sl" "z < length els" "sl < length els" "els ! z = 0"
    "els ! next_slot (length els) sl = 0"
  shows "reachable_but bl els {}"
  unfolding reachable_but_def
proof (intro allI impI)
  let ?n = "length els" and ?o = "next_slot (length els) sl"
  fix q k
  let ?h = "home bl ?n (els ! q)"
  assume q: "q < ?n" "els ! q \<noteq> 0" and k: "k < ?n" "dist ?n ?h k < dist ?n ?h q"
  have "0 < ?n" using q(1) by linarith
  then have h: "?h < ?n" by (rule home_less)
  have "els ! k \<noteq> 0 \<or> k = z" using reachable_butD [OF assms(1) q k] by simp
  moreover have "k \<noteq> z"
  proof
    assume "k = z"
    with k have hz: "dist ?n ?h z < dist ?n ?h q" by simp
    have qz: "q \<noteq> z" using q(2) assms(5) by auto
    with q(1) assms(3) have pos: "0 < dist ?n z q" by simp
    have "\<not> dist ?n z q \<le> dist ?n z sl" using assms(2) q(1) pos hz by (auto simp: settled_def)
    moreover have "dist ?n z q < ?n" using q(1) assms(3) by (rule dist_less [rotated])
    moreover have "?o = z \<longrightarrow> dist ?n z sl + 1 = ?n" using assms(3,4) by (auto simp: next_slot_def dist_def)
    ultimately have oz: "?o \<noteq> z" by linarith
    then have "dist ?n z ?o \<le> dist ?n z q"
      using \<open>\<not> dist ?n z q \<le> _\<close> dist_to_next [OF assms(3,4)] by simp
    moreover have "?o \<noteq> q" using q(2) assms(6) by auto
    then have "dist ?n z ?o \<noteq> dist ?n z q" using dist_inj [of z ?n ?o q] assms(3,4) q(1) by auto
    ultimately have "dist ?n ?h ?o < dist ?n ?h q"
      using dist_from_later [OF h assms(3) _ q(1) hz] assms(4) by simp
    then have "els ! ?o \<noteq> 0 \<or> ?o \<in> {z}"
      by (intro reachable_butD [OF assms(1) q]) (simp_all add: assms(4))
    with oz assms(6) show False by simp
  qed
  ultimately show "els ! k \<noteq> 0 \<or> k \<in> {}" by simp
qed

text \<open>Moving a block into the gap.\<close>

lemma move_reachable:
  assumes "reachable_but bl els {z}" "z < length els" "sl < length els" "z \<noteq> sl" "els ! sl \<noteq> 0"
    "dist (length els) (home bl (length els) (els ! sl)) z < dist (length els) (home bl (length els) (els ! sl)) sl"
  shows "reachable_but bl (els[z := els ! sl, sl := 0]) {sl}"
  unfolding reachable_but_def
proof (intro allI impI)
  let ?n = "length els" and ?els = "els[z := els ! sl, sl := 0]"
  fix q k
  assume a: "q < length ?els" "?els ! q \<noteq> 0" "k < length ?els"
    "dist (length ?els) (home bl (length ?els) (?els ! q)) k < dist (length ?els) (home bl (length ?els) (?els ! q)) q"
  then have qk: "q < ?n" "k < ?n" "q \<noteq> sl" by (auto simp: nth_list_update split: if_splits)
  show "?els ! k \<noteq> 0 \<or> k \<in> {sl}"
  proof (cases "q = z")
    case True
    then have d: "dist ?n (home bl ?n (els ! sl)) k < dist ?n (home bl ?n (els ! sl)) z"
      using a(4) assms(2,3,4) by (simp add: nth_list_update)
    have "els ! k \<noteq> 0 \<or> k \<in> {z}" by (rule reachable_butD [OF assms(1,3,5) qk(2) less_trans [OF d assms(6)]])
    moreover have "k \<noteq> z" using d by auto
    ultimately show ?thesis using qk assms(2,3) by (auto simp: nth_list_update)
  next
    case False
    then have "els ! q \<noteq> 0" using a(2) qk assms(2,3) by (auto simp: nth_list_update split: if_splits)
    then have "els ! k \<noteq> 0 \<or> k \<in> {z}"
      using a(4) qk False assms(2,3) by (intro reachable_butD [OF assms(1)]) (auto simp: nth_list_update)
    with qk assms(2,3,4,5) show ?thesis by (auto simp: nth_list_update)
  qed
qed

lemma mset_move: "z < length els \<Longrightarrow> sl < length els \<Longrightarrow> z \<noteq> sl \<Longrightarrow> els ! z = 0 \<Longrightarrow> mset (els[z := els ! sl, sl := 0]) = mset els"
  using mset_swap [of sl els z] by simp

lemma shift_back_step:
  "shift_back bl els z sl =
     (let sl = next_slot (length els) sl; idx = els ! sl
      in if idx = 0 then Some els
         else if home bl (length els) idx \<noteq> sl
              then Option.bind (meets_zero (length els) z sl (home bl (length els) idx))
                     (\<lambda>meets. if meets then shift_back bl (els[z := idx, sl := 0]) sl sl else shift_back bl els z sl)
              else shift_back bl els z sl)"
  by (subst shift_back.simps) (simp only: home_def Let_def)

lemma shift_back_correct:
  assumes "reachable_but bl els {z}" "settled bl els z sl" "z < length els" "sl < length els" "els ! z = 0"
    "w < length els" "els ! w = 0" "w \<noteq> z" "sl \<noteq> w"
  shows "\<exists>els'. shift_back bl els z sl = Some els' \<and> length els' = length els \<and> mset els' = mset els \<and> reachable_but bl els' {}"
  using assms
proof (induction "dist (length els) sl w" arbitrary: els z sl rule: less_induct)
  case less
  let ?n = "length els" and ?o = "next_slot (length els) sl"
  have o: "?o < ?n" using less.prems by simp
  show ?case
  proof (cases "els ! ?o = 0")
    case True
    have "shift_back bl els z sl = Some els" using True by (subst shift_back.simps) (simp add: Let_def)
    with settled_end [OF less.prems(1-5) True] show ?thesis by blast
  next
    case False
    let ?bp = "home bl ?n (els ! ?o)"
    have ne: "?o \<noteq> z" "?o \<noteq> w" using False less.prems by auto
    have nearer: "dist ?n ?o w < dist ?n sl w" using dist_next [of sl ?n w] less.prems by simp
    have bp: "?bp < ?n" using less.prems(3) by (intro home_less) linarith
    have step: "shift_back bl els z sl =
        (if dist ?n ?bp z < dist ?n ?bp ?o then shift_back bl (els[z := els ! ?o, ?o := 0]) ?o ?o else shift_back bl els z ?o)"
      using False meets_zero_iff [OF less.prems(3) o bp] ne(1) by (subst shift_back_step) (simp add: Let_def)
    show ?thesis
    proof (cases "dist ?n ?bp z < dist ?n ?bp ?o")
      case False
      have "settled bl els z ?o"
        by (rule settled_next [OF less.prems(2) refl less.prems(3,4) ne(1) \<open>els ! ?o \<noteq> 0\<close> False])
      from less.hyps [OF nearer less.prems(1) this less.prems(3) o less.prems(5-8) ne(2)] False
      show ?thesis by (simp add: step)
    next
      case True
      let ?els = "els[z := els ! ?o, ?o := 0]"
      have "reachable_but bl ?els {?o}"
        using move_reachable [OF less.prems(1,3) o _ False True] ne(1) by simp
      moreover have "settled bl ?els ?o ?o" using o by (intro settled_at) simp
      ultimately have "\<exists>els'. shift_back bl ?els ?o ?o = Some els' \<and> length els' = length ?els \<and> mset els' = mset ?els \<and> reachable_but bl els' {}"
      proof (intro less.hyps)
        show "dist (length ?els) ?o w < dist ?n sl w" using nearer by simp
        show "?els ! w = 0" "w \<noteq> ?o" "?o \<noteq> w" using less.prems(7,8) ne(2) by auto
      qed (use less.prems(6) o in simp_all)
      then show ?thesis using True mset_move [OF less.prems(3) o] ne(1) less.prems(5) by (simp add: step)
    qed
  qed
qed

lemma reachable_hole:
  assumes "reachable_but bl els {}" "sl < length els"
  shows "reachable_but bl (els[sl := 0]) {sl}"
  unfolding reachable_but_def
proof (intro allI impI)
  fix q k
  let ?els = "els[sl := 0]" and ?n = "length els"
  assume a: "q < length ?els" "?els ! q \<noteq> 0" "k < length ?els"
    "dist (length ?els) (home bl (length ?els) (?els ! q)) k < dist (length ?els) (home bl (length ?els) (?els ! q)) q"
  then have q: "q \<noteq> sl" "q < ?n" "k < ?n" using assms(2) by auto
  then have "els ! k \<noteq> 0 \<or> k \<in> {}"
    using a(2,4) by (intro reachable_butD [OF assms(1)]) simp_all
  then show "?els ! k \<noteq> 0 \<or> k \<in> {sl}" using q by (cases "k = sl") simp_all
qed

lemma remove_at_correct:
  assumes "table_ok bl els" "sl < length els" "els ! sl \<noteq> 0"
  shows "\<exists>els'. shift_back bl (els[sl := 0]) sl sl = Some els' \<and> length els' = length els \<and>
    mset els' = add_mset 0 (mset els - {#els ! sl#}) \<and> table_ok bl els'"
proof -
  obtain w where w: "w < length els" "els ! w = 0" using assms(1) zero_slot by (auto simp: table_ok_def)
  then have "w \<noteq> sl" using assms(3) by auto
  then have "\<exists>els'. shift_back bl (els[sl := 0]) sl sl = Some els' \<and> length els' = length (els[sl := 0]) \<and>
      mset els' = mset (els[sl := 0]) \<and> reachable_but bl els' {}"
    using assms w by (intro shift_back_correct) (auto simp: reachable_hole settled_at table_ok_def)
  then obtain els' where els': "shift_back bl (els[sl := 0]) sl sl = Some els'" "length els' = length els"
    "mset els' = add_mset 0 (mset els - {#els ! sl#})" "reachable_but bl els' {}"
    using assms(2) by (auto simp: mset_update)
  have "set els' = set_mset (add_mset 0 (mset els - {#els ! sl#}))" using els'(3) by (metis set_mset_mset)
  then have "0 \<in> set els'" "set els' \<subseteq> insert 0 (set els)" by (auto dest: in_diffD)
  with els' assms(1) show ?thesis by (auto simp: table_ok_def)
qed

lemma in_slots: "x \<in> set els \<Longrightarrow> \<exists>q < length els. els ! q = x"
  by (meson in_set_conv_nth)

text \<open>All searches by a key that determines the home slot end, and find a block with the key if the table holds one.\<close>

lemma probe_correct:
  assumes "table_ok bl els" "\<And>idx. P idx \<Longrightarrow> home bl (length els) idx = h" "h < length els"
  shows "\<exists>sl < length els. probe P els h = Some sl \<and>
    (if \<exists>idx \<in> set els. idx \<noteq> 0 \<and> P idx then els ! sl \<noteq> 0 \<and> P (els ! sl) else els ! sl = 0)"
proof (cases "\<exists>idx \<in> set els. idx \<noteq> 0 \<and> P idx")
  case True
  then obtain idx where "idx \<in> set els" "idx \<noteq> 0" "P idx" by blast
  moreover from this(1) obtain q where "q < length els" "els ! q = idx" using in_slots by metis
  ultimately have q: "q < length els" "els ! q \<noteq> 0" "P (els ! q)" by simp_all
  from probe_finds [where P = P, OF assms(1) q assms(2) [OF q(3)]] obtain sl where
    "sl < length els" "probe P els h = Some sl" "els ! sl \<noteq> 0" "P (els ! sl)" by blast
  with True show ?thesis by (intro exI [of _ sl]) simp
next
  case False
  obtain z where z: "z < length els" "els ! z = 0" using assms(1) zero_slot by (auto simp: table_ok_def)
  from probe_ends [OF z assms(3), of P] obtain sl where sl: "probe P els h = Some sl" "sl < length els" "els ! sl = 0 \<or> P (els ! sl)"
    by blast
  with False have "els ! sl = 0" using nth_mem by blast
  with sl False show ?thesis by auto
qed

lemma table_ok_size: "table_ok bl els \<Longrightarrow> 0 < length els"
  by (auto simp: table_ok_def)

lemma probe_key:
  assumes "table_ok bl els"
  shows "\<exists>sl < length els. probe (has_key bl a sha) els (unat a mod length els) = Some sl \<and>
    (if \<exists>idx \<in> set els. idx \<noteq> 0 \<and> has_key bl a sha idx then els ! sl \<noteq> 0 \<and> has_key bl a sha (els ! sl) else els ! sl = 0)"
  by (rule probe_correct [OF assms]) (use table_ok_size [OF assms] in \<open>auto simp: has_key_def home_def\<close>)

lemma hash_remove_correct:
  assumes "table_ok bl els"
  shows "\<exists>els'. psync_net_hash_remove els bl a sha = Some els' \<and> table_ok bl els' \<and> length els' = length els \<and>
    (if \<exists>idx \<in> set els. idx \<noteq> 0 \<and> has_key bl a sha idx
     then \<exists>idx \<in> set els. idx \<noteq> 0 \<and> has_key bl a sha idx \<and> mset els' = add_mset 0 (mset els - {#idx#})
     else els' = els)"
proof -
  let ?P = "has_key bl a sha"
  from probe_key [OF assms, of a sha] obtain sl where sl: "sl < length els"
    "probe ?P els (unat a mod length els) = Some sl"
    "if \<exists>idx \<in> set els. idx \<noteq> 0 \<and> ?P idx then els ! sl \<noteq> 0 \<and> ?P (els ! sl) else els ! sl = 0" by blast
  show ?thesis
  proof (cases "\<exists>idx \<in> set els. idx \<noteq> 0 \<and> ?P idx")
    case True
    with sl have "els ! sl \<noteq> 0" "?P (els ! sl)" "els ! sl \<in> set els" by auto
    moreover from remove_at_correct [OF assms sl(1) this(1)] obtain els' where
      "shift_back bl (els[sl := 0]) sl sl = Some els'" "length els' = length els"
      "mset els' = add_mset 0 (mset els - {#els ! sl#})" "table_ok bl els'" by blast
    ultimately show ?thesis using True sl(2) by (auto simp: psync_net_hash_remove_def)
  next
    case False
    with sl assms show ?thesis by (auto simp: psync_net_hash_remove_def)
  qed
qed

lemma has_adler_correct:
  "table_ok bl els \<Longrightarrow> psync_net_hash_has_adler els bl a = Some (\<exists>idx \<in> set els. idx \<noteq> 0 \<and> adler (bl ! (idx - 1)) = a)"
proof -
  assume ok: "table_ok bl els"
  have "\<exists>sl < length els. probe (has_adler bl a) els (unat a mod length els) = Some sl \<and>
    (if \<exists>idx \<in> set els. idx \<noteq> 0 \<and> has_adler bl a idx then els ! sl \<noteq> 0 \<and> has_adler bl a (els ! sl) else els ! sl = 0)"
    by (rule probe_correct [OF ok]) (use table_ok_size [OF ok] in \<open>auto simp: has_adler_def home_def\<close>)
  then show ?thesis unfolding psync_net_hash_has_adler_def has_adler_def by (auto split: if_splits)
qed

lemma has_adler_and_sha1_correct:
  assumes "table_ok bl els"
  shows "\<exists>idx. psync_net_hash_has_adler_and_sha1 els bl a sha = Some idx \<and>
    (if \<exists>idx \<in> set els. idx \<noteq> 0 \<and> has_key bl a sha idx then idx \<in> set els \<and> idx \<noteq> 0 \<and> has_key bl a sha idx else idx = 0)"
proof -
  let ?P = "has_key bl a sha"
  from probe_key [OF assms, of a sha] obtain sl where sl: "sl < length els"
    "probe ?P els (unat a mod length els) = Some sl"
    "if \<exists>idx \<in> set els. idx \<noteq> 0 \<and> ?P idx then els ! sl \<noteq> 0 \<and> ?P (els ! sl) else els ! sl = 0" by blast
  then show ?thesis by (intro exI [of _ "els ! sl"]) (simp add: psync_net_hash_has_adler_and_sha1_def split: if_splits)
qed

subsection \<open>Creation establishes the invariant\<close>

text \<open>The links between equal blocks lead to earlier blocks with the same digest.\<close>

definition links_ok :: "block_checksum list \<Rightarrow> nat list \<Rightarrow> bool" where
  "links_ok bl nxt \<longleftrightarrow> length nxt = length bl \<and>
     (\<forall>i < length bl. nxt ! i \<le> i \<and> (nxt ! i \<noteq> 0 \<longrightarrow> sha1 (bl ! (nxt ! i - 1)) = sha1 (bl ! i)))"

text \<open>After the blocks before \<open>i\<close>: at most \<open>i\<close> slots are in use.\<close>

definition filled :: "block_checksum list \<Rightarrow> nat \<Rightarrow> nat list \<times> nat list \<Rightarrow> bool" where
  "filled bl i = (\<lambda>(els, nxt). (\<forall>idx \<in> set els. idx \<le> i) \<and> length (filter (\<lambda>x. x \<noteq> 0) els) \<le> i \<and> reachable_but bl els {} \<and> links_ok bl nxt)"

lemma insert_probe_correct:
  assumes z: "z < length els" "els ! z = 0" and "h < length els" "sl < length els" "els ! sl \<noteq> 0" "col \<le> MAX_ADLER_COLL"
    "\<forall>k < length els. dist (length els) h k < dist (length els) h sl \<longrightarrow> els ! k \<noteq> 0"
    "insert_probe els bl i sl col = (sl', col', same)"
  shows "sl' < length els \<and> (\<forall>k < length els. dist (length els) h k < dist (length els) h sl' \<longrightarrow> els ! k \<noteq> 0) \<and>
    (same \<longrightarrow> els ! sl' \<noteq> 0 \<and> sha1 (bl ! (els ! sl' - 1)) = sha1 (bl ! i))"
  using assms(4-)
proof (induction "MAX_ADLER_COLL - col" arbitrary: sl col rule: less_induct)
  case less
  let ?n = "length els" and ?o = "next_slot (length els) sl"
  show ?case
  proof (cases "sha1 (bl ! i) = sha1 (bl ! (els ! sl - 1))")
    case True
    with less.prems show ?thesis by (subst (asm) insert_probe.simps) auto
  next
    case False
    have "?o \<noteq> h"
    proof
      assume "?o = h"
      then have "dist ?n h sl + 1 = ?n" using less.prems(1) assms(3) by (auto simp: next_slot_def dist_def split: if_splits)
      then have "dist ?n h z \<le> dist ?n h sl" using dist_less [OF assms(3) z(1)] by linarith
      moreover have "z \<noteq> sl" using z(2) less.prems(2) by auto
      ultimately have "dist ?n h z < dist ?n h sl" using dist_inj [OF assms(3) z(1) less.prems(1)] by linarith
      with less.prems(4) z show False by blast
    qed
    then have d: "dist ?n h ?o = dist ?n h sl + 1" using less.prems(1) assms(3) by (simp add: dist_to_next)
    have path: "\<forall>k < ?n. dist ?n h k < dist ?n h ?o \<longrightarrow> els ! k \<noteq> 0"
    proof (intro allI impI)
      fix k assume k: "k < ?n" "dist ?n h k < dist ?n h ?o"
      show "els ! k \<noteq> 0"
      proof (cases "k = sl")
        case True
        with less.prems(2) show ?thesis by simp
      next
        case False
        then have "dist ?n h k < dist ?n h sl" using d k dist_inj [OF assms(3) k(1) less.prems(1)] by linarith
        with less.prems(4) k(1) show ?thesis by blast
      qed
    qed
    have o: "?o < ?n" using less.prems(1) by simp
    show ?thesis
    proof (cases "col + 1 \<le> MAX_ADLER_COLL \<and> els ! ?o \<noteq> 0")
      case True
      then have "insert_probe els bl i ?o (col + 1) = (sl', col', same)"
        using less.prems(5) False by (subst (asm) insert_probe.simps) (simp add: Let_def)
      moreover have "MAX_ADLER_COLL - (col + 1) < MAX_ADLER_COLL - col" using True by linarith
      ultimately show ?thesis using True by (intro less.hyps [OF _ o _ _ path]) blast+
    next
      case over: False
      then have "sl' = ?o" "\<not> same"
        using less.prems(5) False by (subst (asm) insert_probe.simps, auto simp: Let_def split: if_splits)+
      with path o show ?thesis by simp
    qed
  qed
qed

lemma reachable_insert:
  assumes "reachable_but bl els {}" "sl < length els" "home bl (length els) v = h"
    "\<forall>k < length els. dist (length els) h k < dist (length els) h sl \<longrightarrow> els ! k \<noteq> 0" "v \<noteq> 0"
  shows "reachable_but bl (els[sl := v]) {}"
  unfolding reachable_but_def
proof (intro allI impI)
  fix q k
  let ?els = "els[sl := v]" and ?n = "length els"
  assume a: "q < length ?els" "?els ! q \<noteq> 0" "k < length ?els"
    "dist (length ?els) (home bl (length ?els) (?els ! q)) k < dist (length ?els) (home bl (length ?els) (?els ! q)) q"
  have "els ! k \<noteq> 0" if "k \<noteq> sl"
  proof (cases "q = sl")
    case True
    with a assms(2,3,4) show ?thesis by simp
  next
    case False
    with a have "els ! k \<noteq> 0 \<or> k \<in> {}" by (intro reachable_butD [OF assms(1)]) simp_all
    then show ?thesis by simp
  qed
  then show "?els ! k \<noteq> 0 \<or> k \<in> {}" using a(3) assms(5) by (cases "k = sl") simp_all
qed

lemma filter_update_length:
  "sl < length els \<Longrightarrow> length (filter P (els[sl := v])) \<le> length (filter P els) + 1"
proof (induction els arbitrary: sl)
  case (Cons x els)
  then show ?case by (cases sl) (auto intro: le_SucI)
qed simp

lemma few_used_zero: "length (filter (\<lambda>x. x \<noteq> 0) els) < length els \<Longrightarrow> \<exists>z < length els. els ! z = (0 :: nat)"
proof (rule ccontr)
  assume "length (filter (\<lambda>x. x \<noteq> 0) els) < length els" "\<not> (\<exists>z < length els. els ! z = 0)"
  moreover from this(2) have "\<forall>x \<in> set els. x \<noteq> 0" by (metis in_set_conv_nth)
  ultimately show False by simp
qed

lemma update_slot_ok:
  assumes "filled bl i (els, nxt)" "i < length bl" "sl < length els" "home bl (length els) (i + 1) = h"
    "\<forall>k < length els. dist (length els) h k < dist (length els) h sl \<longrightarrow> els ! k \<noteq> 0" "links_ok bl nxt'"
  shows "filled bl (i + 1) (els[sl := i + 1], nxt')"
proof -
  have "set (els[sl := i + 1]) \<subseteq> insert (i + 1) (set els)" by (rule set_update_subset_insert)
  moreover have "reachable_but bl (els[sl := i + 1]) {}"
    using assms by (intro reachable_insert [where h = h]) (auto simp: filled_def)
  moreover have "length (filter (\<lambda>x. x \<noteq> 0) (els[sl := i + 1])) \<le> i + 1"
    using filter_update_length [OF assms(3), of "\<lambda>x. x \<noteq> 0" "i + 1"] assms(1) by (simp add: filled_def)
  moreover have "\<forall>idx \<in> set els. idx \<le> i" using assms(1) by (simp add: filled_def)
  ultimately have "\<forall>idx \<in> set (els[sl := i + 1]). idx \<le> i + 1" by (metis insertE le_add1 le_trans order_refl subsetD)
  then show ?thesis using assms(6) \<open>reachable_but _ _ _\<close> \<open>length _ \<le> i + 1\<close> by (simp only: filled_def prod.case)
qed

lemma insert_block_correct:
  assumes ok: "filled bl i (els, nxt)" and i: "i < length bl" "length bl < length els"
  shows "filled bl (i + 1) (insert_block bl i (els, nxt)) \<and> length (fst (insert_block bl i (els, nxt))) = length els"
proof -
  let ?n = "length els" and ?h = "unat (adler (bl ! i)) mod length els"
  have h: "?h < ?n" using i by (intro mod_less_divisor) linarith
  have home: "home bl ?n (i + 1) = ?h" by (simp add: home_def)
  have links: "links_ok bl nxt" and small: "\<forall>idx \<in> set els. idx \<le> i" using ok by (simp_all add: filled_def)
  have weak: "filled bl (i + 1) (els, nxt')" if "links_ok bl nxt'" for nxt'
    using ok that by (auto simp: filled_def le_SucI)
  show ?thesis
  proof (cases "els ! ?h = 0")
    case True
    have "insert_block bl i (els, nxt) = (els[?h := i + 1], nxt)" using True by (simp add: insert_block_def Let_def)
    with update_slot_ok [OF ok i(1) h home _ links] show ?thesis by simp
  next
    case False
    obtain sl col same where ip: "insert_probe els bl i ?h 0 = (sl, col, same)" by (cases "insert_probe els bl i ?h 0")
    obtain z where "z < ?n" "els ! z = 0" using few_used_zero [of els] ok i by (auto simp: filled_def)
    from insert_probe_correct [OF this h h False _ _ ip] have sl: "sl < ?n"
      "\<forall>k < ?n. dist ?n ?h k < dist ?n ?h sl \<longrightarrow> els ! k \<noteq> 0"
      "same \<longrightarrow> els ! sl \<noteq> 0 \<and> sha1 (bl ! (els ! sl - 1)) = sha1 (bl ! i)" by auto
    let ?nxt = "if same then nxt[i := els ! sl] else nxt"
    have "els ! sl \<le> i" using small sl(1) by simp
    then have links': "links_ok bl ?nxt"
      using links sl(3) i(1) by (auto simp: links_ok_def nth_list_update)
    have "insert_block bl i (els, nxt) = (if col > MAX_ADLER_COLL then els else els[sl := i + 1], ?nxt)"
      using False ip by (simp add: insert_block_def Let_def)
    then show ?thesis using update_slot_ok [OF ok i(1) sl(1) home sl(2) links'] weak [OF links'] by simp
  qed
qed

lemma insert_blocks_correct:
  assumes "filled bl 0 (els, nxt)" "length bl < length els" "m \<le> length bl"
  shows "filled bl m (fold (insert_block bl) [0..<m] (els, nxt)) \<and> length (fst (fold (insert_block bl) [0..<m] (els, nxt))) = length els"
  using assms(3)
proof (induction m)
  case 0
  then show ?case using assms(1) by simp
next
  case (Suc m)
  obtain els' nxt' where f: "fold (insert_block bl) [0..<m] (els, nxt) = (els', nxt')" by fastforce
  with Suc have "filled bl m (els', nxt')" "length els' = length els" by auto
  from insert_block_correct [OF this(1)] this(2) Suc.prems assms(2) f show ?case by simp
qed

lemma create_hash_correct:
  assumes "blocks cs \<noteq> []"
  shows "\<exists>els nxt. psync_net_create_hash cs = Some (els, nxt) \<and> table_ok (blocks cs) els \<and> links_ok (blocks cs) nxt \<and>
    length els > 3 * length (blocks cs) \<and> divides_only_itself (length els)"
proof -
  let ?bl = "blocks cs"
  obtain cnt where cnt: "hash_elementcnt (length ?bl) = Some cnt" "3 * length ?bl < cnt" "divides_only_itself cnt"
    using hash_elementcnt_found [of "length ?bl"] assms by auto
  let ?st = "(replicate cnt 0, replicate (length ?bl) 0)"
  have "filled ?bl 0 ?st" by (simp add: filled_def reachable_but_def links_ok_def)
  moreover obtain els nxt where f: "fold (insert_block ?bl) [0..<length ?bl] ?st = (els, nxt)" by fastforce
  ultimately have "filled ?bl (length ?bl) (els, nxt)" "length els = cnt"
    using insert_blocks_correct [of ?bl "fst ?st" "snd ?st" "length ?bl"] cnt(2) by auto
  moreover from this have "0 \<in> set els" using few_used_zero [of els] cnt(2) by (auto simp: filled_def in_set_conv_nth)
  ultimately show ?thesis using cnt f
    by (auto simp: psync_net_create_hash_def table_ok_def filled_def)
qed

subsection \<open>A match marks a chain of equal blocks\<close>

definition copies :: "nat \<Rightarrow> nat \<Rightarrow> block_action" where
  "copies fileidx off = \<lparr>aoff = off, aidx = fileidx, atype = PSYNC_RANGE_COPY\<rparr>"

definition marked :: "block_checksum list \<Rightarrow> bytes \<Rightarrow> block_action \<Rightarrow> block_action list \<Rightarrow> block_action list \<Rightarrow> bool" where
  "marked bl sha act acts acts' \<longleftrightarrow> length acts' = length acts \<and>
     (\<forall>j < length acts. acts' ! j = acts ! j \<or> acts' ! j = act \<and> sha1 (bl ! j) = sha)"

lemma mark_chain_correct:
  assumes "links_ok bl nxt" "cidx < length bl" "length acts = length bl"
  shows "\<exists>acts'. mark_chain nxt fileidx off cidx acts = Some acts' \<and> marked bl (sha1 (bl ! cidx)) (copies fileidx off) acts acts' \<and>
    acts' ! cidx = copies fileidx off"
  using assms(2,3)
proof (induction cidx arbitrary: acts rule: less_induct)
  case (less cidx)
  let ?act = "copies fileidx off" and ?acts = "acts[cidx := copies fileidx off]"
  show ?case
  proof (cases "nxt ! cidx = 0")
    case True
    then show ?thesis using less.prems
      by (subst mark_chain.simps) (auto simp: Let_def marked_def copies_def nth_list_update)
  next
    case False
    let ?c = "nxt ! cidx - 1"
    have c: "?c < cidx" "sha1 (bl ! ?c) = sha1 (bl ! cidx)"
      using assms(1) less.prems False by (auto simp: links_ok_def)
    then obtain acts' where a: "mark_chain nxt fileidx off ?c ?acts = Some acts'" "marked bl (sha1 (bl ! ?c)) ?act ?acts acts'"
      using less.IH [of ?c ?acts] less.prems by auto
    have "acts' ! j = acts ! j \<or> acts' ! j = ?act \<and> sha1 (bl ! j) = sha1 (bl ! cidx)" if j: "j < length acts" for j
      using a(2) c(2) less.prems j by (cases "j = cidx") (auto simp: marked_def)
    then have "marked bl (sha1 (bl ! cidx)) ?act acts acts'" using a(2) by (simp add: marked_def)
    moreover have "acts' ! cidx = ?act" using a(2) less.prems by (auto simp: marked_def)
    moreover have "mark_chain nxt fileidx off cidx acts = Some acts'"
      using a(1) False by (subst mark_chain.simps) (simp add: Let_def copies_def)
    ultimately show ?thesis by blast
  qed
qed

text \<open>\<open>delta_ok\<close>: the table is sound and there is an action for every block.\<close>

definition delta_ok :: "block_checksum list \<Rightarrow> nat list \<Rightarrow> nat list \<times> block_action list \<Rightarrow> bool" where
  "delta_ok bl nxt = (\<lambda>(els, acts). table_ok bl els \<and> links_ok bl nxt \<and> length acts = length bl)"

lemma match_found_correct:
  assumes "delta_ok bl nxt (els, acts)" "idx \<in> set els" "idx \<noteq> 0"
  shows "\<exists>els' acts'. psync_net_block_match_found bl nxt idx fileidx off (els, acts) = Some (els', acts') \<and>
    delta_ok bl nxt (els', acts') \<and> marked bl (sha1 (bl ! (idx - 1))) (copies fileidx off) acts acts'"
proof -
  have ok: "table_ok bl els" "links_ok bl nxt" "length acts = length bl" "idx - 1 < length bl"
    using assms by (auto simp: delta_ok_def table_ok_def)
  show ?thesis
  proof (cases "atype (acts ! (idx - 1)) = PSYNC_RANGE_TRANSFER")
    case False
    then show ?thesis using assms(1) by (auto simp: psync_net_block_match_found_def Let_def marked_def)
  next
    case True
    obtain acts' where a: "mark_chain nxt fileidx off (idx - 1) acts = Some acts'"
      "marked bl (sha1 (bl ! (idx - 1))) (copies fileidx off) acts acts'"
      using mark_chain_correct [OF ok(2,4,3)] by blast
    obtain els' where e: "psync_net_hash_remove els bl (adler (bl ! (idx - 1))) (sha1 (bl ! (idx - 1))) = Some els'" "table_ok bl els'"
      using hash_remove_correct [OF ok(1)] by blast
    have "delta_ok bl nxt (els', acts')" using ok e(2) a(2) by (simp add: delta_ok_def marked_def)
    with True a e(1) show ?thesis by (simp add: psync_net_block_match_found_def Let_def)
  qed
qed

text \<open>
  C20. Creating the table, the removals of the scan and the look-ups always end; every block that the
  table holds is found by its checksum and digest after any removal, nothing else is found, and a removal takes out
  exactly one block with the key, although the following blocks are shifted.
\<close>

theorem block_table_correct:
  assumes "blocks cs \<noteq> []"
  shows "\<exists>els nxt. psync_net_create_hash cs = Some (els, nxt) \<and> table_ok (blocks cs) els \<and> links_ok (blocks cs) nxt \<and>
    (\<forall>els a sha. table_ok (blocks cs) els \<longrightarrow>
      (\<exists>idx. psync_net_hash_has_adler_and_sha1 els (blocks cs) a sha = Some idx \<and>
         (if \<exists>i \<in> set els. i \<noteq> 0 \<and> has_key (blocks cs) a sha i
          then idx \<in> set els \<and> idx \<noteq> 0 \<and> has_key (blocks cs) a sha idx else idx = 0)) \<and>
      (\<exists>els'. psync_net_hash_remove els (blocks cs) a sha = Some els' \<and> table_ok (blocks cs) els' \<and>
         (if \<exists>i \<in> set els. i \<noteq> 0 \<and> has_key (blocks cs) a sha i
          then \<exists>i \<in> set els. i \<noteq> 0 \<and> has_key (blocks cs) a sha i \<and> mset els' = add_mset 0 (mset els - {#i#})
          else els' = els)))"
proof -
  from create_hash_correct [OF assms] obtain els nxt where
    c: "psync_net_create_hash cs = Some (els, nxt)" "table_ok (blocks cs) els" "links_ok (blocks cs) nxt" by blast
  have "(\<exists>idx. psync_net_hash_has_adler_and_sha1 els (blocks cs) a sha = Some idx \<and>
         (if \<exists>i \<in> set els. i \<noteq> 0 \<and> has_key (blocks cs) a sha i
          then idx \<in> set els \<and> idx \<noteq> 0 \<and> has_key (blocks cs) a sha idx else idx = 0)) \<and>
      (\<exists>els'. psync_net_hash_remove els (blocks cs) a sha = Some els' \<and> table_ok (blocks cs) els' \<and>
         (if \<exists>i \<in> set els. i \<noteq> 0 \<and> has_key (blocks cs) a sha i
          then \<exists>i \<in> set els. i \<noteq> 0 \<and> has_key (blocks cs) a sha i \<and> mset els' = add_mset 0 (mset els - {#i#})
          else els' = els))" if "table_ok (blocks cs) els" for els a sha
    using has_adler_and_sha1_correct [OF that, of a sha] hash_remove_correct [OF that, of a sha] by blast
  with c show ?thesis by blast
qed

text \<open>Two blocks with the same checksum in a table of seven slots.\<close>

definition two_blocks_cs :: file_checksums where
  "two_blocks_cs = \<lparr>filesize = 4, blocksize = 2, blocks = [\<lparr>sha1 = [1], adler = 9\<rparr>, \<lparr>sha1 = [2], adler = 9\<rparr>]\<rparr>"

theorem block_table_correct_witness:
  "\<exists>els nxt. psync_net_create_hash two_blocks_cs = Some (els, nxt) \<and> table_ok (blocks two_blocks_cs) els"
  using block_table_correct [of two_blocks_cs] by (auto simp: two_blocks_cs_def)

end
