(* ===== verification/PDelta.thy ===== *)
theory PDelta
  imports PAdler PBlockHash
begin

text \<open>
  The delta download of \<open>pclsync/pnetlibs.c\<close>: \<open>psync_net_check_file_for_blocks\<close> slides a window over a
  local file through a ring buffer of two halves and records where the blocks of the file on the server are
  found; \<open>psync_net_download_ranges\<close> turns the result into ranges to transfer or to copy. SHA-1 is a
  parameter. A local file is its content; a read returns what is left of it, up to the size that was asked for.
  \<open>mem\<close> is the uninitialised content of the buffer.
\<close>

definition PSYNC_COPY_BUFFER_SIZE :: nat where "PSYNC_COPY_BUFFER_SIZE = 256 * 1024"

subsection \<open>Scanning a file\<close>

record scan =
  buff :: bytes
  buffoff :: nat
  inbyteoff :: nat
  outbyteoff :: nat
  bufferlen :: nat
  fpos :: nat
  adl :: u32

definition pfile_read :: "bytes \<Rightarrow> nat \<Rightarrow> nat \<Rightarrow> bytes" where
  "pfile_read content pos n = take n (drop pos content)"

text \<open>Writing bytes into the buffer.\<close>

definition put :: "nat \<Rightarrow> bytes \<Rightarrow> bytes \<Rightarrow> bytes" where
  "put off bs b = take off b @ bs @ drop (off + length bs) b"

definition round_up :: "nat \<Rightarrow> nat \<Rightarrow> nat" where
  "round_up n bs = (n + bs - 1) div bs * bs"

definition buffer_size :: "nat \<Rightarrow> nat" where
  "buffer_size bs = (if bs * 2 > PSYNC_COPY_BUFFER_SIZE then bs * 2 else PSYNC_COPY_BUFFER_SIZE)"

text \<open>The first read: \<open>None\<close> when the file is shorter than a block.\<close>

definition scan_start :: "bytes \<Rightarrow> bytes \<Rightarrow> nat \<Rightarrow> scan option" where
  "scan_start mem content bs =
     (let buffersize = buffer_size bs; hbuffersize = buffersize div 2;
          rd = pfile_read content 0 hbuffersize;
          b = put 0 rd mem
      in if length rd < hbuffersize \<and> length rd < bs then None
         else let (b, blen) = (if length rd < hbuffersize
                               then (put (length rd) (replicate (round_up (length rd) bs - length rd) 0) b, round_up (length rd) bs)
                               else (b, buffersize))
              in Some \<lparr>buff = b, buffoff = 0, inbyteoff = bs, outbyteoff = 0, bufferlen = blen, fpos = length rd,
                       adl = adler32 ADLER32_INITIAL (take bs b)\<rparr>)"

text \<open>The block in the window: in one piece, or around the end of the buffer.\<close>

definition window_of :: "nat \<Rightarrow> scan \<Rightarrow> bytes" where
  "window_of bs s =
     (if outbyteoff s < inbyteoff s then take bs (drop (outbyteoff s) (buff s))
      else drop (outbyteoff s) (buff s) @ take (inbyteoff s) (buff s))"

definition try_match ::
  "(bytes \<Rightarrow> bytes) \<Rightarrow> block_checksum list \<Rightarrow> nat list \<Rightarrow> nat \<Rightarrow> u32 \<Rightarrow> bytes \<Rightarrow> nat \<Rightarrow>
   nat list \<times> block_action list \<Rightarrow> (nat list \<times> block_action list) option" where
  "try_match psync_sha1 bl nxt fileidx a win off st =
     Option.bind (psync_net_hash_has_adler (fst st) bl a) (\<lambda>found.
       if found
       then Option.bind (psync_net_hash_has_adler_and_sha1 (fst st) bl a (psync_sha1 win)) (\<lambda>idx.
              if idx \<noteq> 0 then psync_net_block_match_found bl nxt idx fileidx off st else Some st)
       else Some st)"

text \<open>A read into the half of the buffer at \<open>base\<close>; \<open>None\<close> at the end of the file.\<close>

definition read_half :: "bytes \<Rightarrow> nat \<Rightarrow> nat \<Rightarrow> scan \<Rightarrow> scan option" where
  "read_half content bs base s =
     (let hbuffersize = length (buff s) div 2; rd = pfile_read content (fpos s) hbuffersize;
          s = s\<lparr>buff := put base rd (buff s), fpos := fpos s + length rd\<rparr>
      in if length rd \<noteq> hbuffersize
         then if rd = [] then None
              else Some (s\<lparr>bufferlen := round_up (length rd) bs + base,
                           buff := put (base + length rd) (replicate (round_up (length rd) bs - length rd) 0) (buff s)\<rparr>)
         else Some s)"

text \<open>What happens at a multiple of the block size; \<open>None\<close> leaves the loop.\<close>

definition checkpoint :: "bytes \<Rightarrow> nat \<Rightarrow> scan \<Rightarrow> scan option" where
  "checkpoint content bs s =
     (if inbyteoff s AND (bs - 1) = 0
      then let s = (if outbyteoff s \<ge> bufferlen s then s\<lparr>outbyteoff := 0, buffoff := buffoff s + length (buff s)\<rparr> else s)
           in if inbyteoff s = bufferlen s
              then if bufferlen s \<noteq> length (buff s) then None else read_half content bs 0 (s\<lparr>inbyteoff := 0\<rparr>)
              else if inbyteoff s = length (buff s) div 2 then read_half content bs (length (buff s) div 2) s
              else Some s
      else Some s)"

definition roll :: "nat \<Rightarrow> scan \<Rightarrow> scan" where
  "roll bs s = s\<lparr>outbyteoff := outbyteoff s + 1, inbyteoff := inbyteoff s + 1,
     adl := adler32_roll (adl s) (buff s ! outbyteoff s) (buff s ! inbyteoff s) (word_of_nat bs)\<rparr>"

partial_function (option) scan_loop ::
  "(bytes \<Rightarrow> bytes) \<Rightarrow> block_checksum list \<Rightarrow> nat list \<Rightarrow> nat \<Rightarrow> bytes \<Rightarrow> nat \<Rightarrow> scan \<Rightarrow>
   nat list \<times> block_action list \<Rightarrow> (nat list \<times> block_action list) option" where
  "scan_loop psync_sha1 bl nxt fileidx content bs s st =
     Option.bind (try_match psync_sha1 bl nxt fileidx (adl s) (window_of bs s) (buffoff s + outbyteoff s) st) (\<lambda>st.
       if checkpoint content bs s = None then Some st
       else scan_loop psync_sha1 bl nxt fileidx content bs (roll bs (the (checkpoint content bs s))) st)"

definition psync_net_check_file_for_blocks ::
  "(bytes \<Rightarrow> bytes) \<Rightarrow> bytes \<Rightarrow> file_checksums \<Rightarrow> nat list \<Rightarrow> nat \<Rightarrow> bytes \<Rightarrow>
   nat list \<times> block_action list \<Rightarrow> (nat list \<times> block_action list) option" where
  "psync_net_check_file_for_blocks psync_sha1 mem cs nxt fileidx content st =
     (case scan_start mem content (blocksize cs) of
        None \<Rightarrow> Some st
      | Some s \<Rightarrow> scan_loop psync_sha1 (blocks cs) nxt fileidx content (blocksize cs) s st)"

declare scan_loop.simps [code]

subsection \<open>The plain scan\<close>

text \<open>
  What the ring buffer implements: the windows of the file, padded with zeros to whole blocks, one after
  the other.
\<close>

definition padded :: "nat \<Rightarrow> bytes \<Rightarrow> bytes" where
  "padded bs content = content @ replicate (round_up (length content) bs - length content) 0"

definition win :: "nat \<Rightarrow> bytes \<Rightarrow> nat \<Rightarrow> bytes" where
  "win bs content p = take bs (drop p (padded bs content))"

fun match_windows ::
  "(bytes \<Rightarrow> bytes) \<Rightarrow> block_checksum list \<Rightarrow> nat list \<Rightarrow> nat \<Rightarrow> bytes \<Rightarrow> nat \<Rightarrow> nat list \<Rightarrow>
   nat list \<times> block_action list \<Rightarrow> (nat list \<times> block_action list) option" where
  "match_windows psync_sha1 bl nxt fileidx content bs [] st = Some st"
| "match_windows psync_sha1 bl nxt fileidx content bs (p # ps) st =
     Option.bind (try_match psync_sha1 bl nxt fileidx (adler32 ADLER32_INITIAL (win bs content p)) (win bs content p) p st)
       (match_windows psync_sha1 bl nxt fileidx content bs ps)"

subsection \<open>Rounding\<close>

lemma round_up_dvd [simp]: "bs dvd round_up n bs"
  by (simp add: round_up_def)

lemma round_up_le: "bs > 0 \<Longrightarrow> n \<le> round_up n bs"
  using div_mult_mod_eq [of "n + bs - 1" bs] mod_less_divisor [of bs "n + bs - 1"] unfolding round_up_def by linarith

lemma round_up_least:
  assumes "bs > 0" "bs dvd m" "n \<le> m"
  shows "round_up n bs \<le> m"
proof -
  obtain k where m: "m = bs * k" using assms(2) by (rule dvdE)
  have "(n + bs - 1) div bs < k + 1"
    using assms(1,3) by (simp add: div_less_iff_less_mult m algebra_simps)
  then have "(n + bs - 1) div bs \<le> k" by simp
  then have "(n + bs - 1) div bs * bs \<le> k * bs" by (rule mult_le_mono1)
  then show ?thesis by (simp add: round_up_def m mult.commute)
qed

lemma round_up_shift:
  assumes "bs > 0" "bs dvd m"
  shows "round_up (m + n) bs = m + round_up n bs"
proof -
  obtain k where m: "m = bs * k" using assms(2) by (rule dvdE)
  have "m + n + bs - 1 = bs * k + (n + bs - 1)" using assms(1) by (simp add: m)
  then have "(m + n + bs - 1) div bs = k + (n + bs - 1) div bs" using assms(1) by (simp only: div_mult_self4)
  then show ?thesis by (simp add: round_up_def m algebra_simps)
qed

lemma length_padded_file: "bs > 0 \<Longrightarrow> length (padded bs content) = round_up (length content) bs"
  using round_up_le by (simp add: padded_def)

lemma length_put [simp]: "off + length bs \<le> length b \<Longrightarrow> length (put off bs b) = length b"
  by (simp add: put_def)

lemma nth_put: "off + length bs \<le> length b \<Longrightarrow> i < length b \<Longrightarrow>
    put off bs b ! i = (if off \<le> i \<and> i < off + length bs then bs ! (i - off) else b ! i)"
  by (auto simp: put_def nth_append)

subsection \<open>The ring buffer\<close>

text \<open>\<open>boundary H e\<close>: the next multiple of the half from \<open>e\<close>, where a read is due.\<close>

definition boundary :: "nat \<Rightarrow> nat \<Rightarrow> nat" where
  "boundary H e = round_up e H"

text \<open>
  What is in the buffer while the bytes up to \<open>e\<close> are needed: all bytes of the padded file from \<open>p\<close> to the
  next boundary or the end; the end of the file is known when it lies before the boundary.
\<close>

definition ring_ok :: "bytes \<Rightarrow> nat \<Rightarrow> nat \<Rightarrow> nat \<Rightarrow> scan \<Rightarrow> bool" where
  "ring_ok content bs p e s \<longleftrightarrow>
     (let B = length (buff s); H = B div 2; N = round_up (length content) bs; b = boundary H e
      in B = 2 * H \<and> 0 < bs \<and> bs dvd H \<and> 0 < H \<and> p + bs \<le> e \<and> e \<le> p + bs + 1 \<and> e \<le> N \<and> adl s = adler32 ADLER32_INITIAL (win bs content p) \<and>
         (\<forall>a. p \<le> a \<longrightarrow> a < min N b \<longrightarrow> buff s ! (a mod B) = padded bs content ! a) \<and>
         (if length content < b then bufferlen s = (N - 1) mod B + 1 \<and> fpos s = length content
          else bufferlen s = B \<and> fpos s = b))"

text \<open>The offsets at the top of the loop, and behind the checkpoint.\<close>

definition at_top :: "nat \<Rightarrow> nat \<Rightarrow> scan \<Rightarrow> bool" where
  "at_top bs p s \<longleftrightarrow> (let B = length (buff s)
     in inbyteoff s = (p + bs - 1) mod B + 1 \<and> outbyteoff s = (if p = 0 then 0 else (p - 1) mod B + 1) \<and> buffoff s + outbyteoff s = p)"

definition at_roll :: "nat \<Rightarrow> nat \<Rightarrow> scan \<Rightarrow> bool" where
  "at_roll bs p s \<longleftrightarrow> (let B = length (buff s)
     in inbyteoff s = (p + bs) mod B \<and> outbyteoff s = p mod B \<and> buffoff s + outbyteoff s = p)"

lemma mod_pred_Suc:
  assumes "0 < (m :: nat)" "0 < n"
  shows "(m - 1) mod n + 1 = (if m mod n = 0 then n else m mod n)"
proof -
  obtain k where m: "m = Suc k" using assms(1) by (cases m) auto
  show ?thesis using mod_Suc [of k n] assms(2) mod_less_divisor [OF assms(2), of k] by (auto simp: m)
qed

lemma length_win: "p + bs \<le> round_up (length content) bs \<Longrightarrow> 0 < bs \<Longrightarrow> length (win bs content p) = bs"
  by (simp add: win_def length_padded_file)

lemma nth_win: "p + bs \<le> round_up (length content) bs \<Longrightarrow> 0 < bs \<Longrightarrow> i < bs \<Longrightarrow> win bs content p ! i = padded bs content ! (p + i)"
  by (simp add: win_def length_padded_file)

lemma boundary_ge: "0 < H \<Longrightarrow> e \<le> boundary H e"
  by (simp add: boundary_def round_up_le)

lemma at_topD:
  assumes "at_top bs p s" "0 < bs" "0 < length (buff s)"
  shows "outbyteoff s = (if p = 0 then 0 else if p mod length (buff s) = 0 then length (buff s) else p mod length (buff s))"
    and "inbyteoff s = (if (p + bs) mod length (buff s) = 0 then length (buff s) else (p + bs) mod length (buff s))"
    and "buffoff s + outbyteoff s = p"
proof -
  note top = assms(1) [unfolded at_top_def Let_def]
  show "buffoff s + outbyteoff s = p" using top by blast
  have "outbyteoff s = (if p = 0 then 0 else (p - 1) mod length (buff s) + 1)" using top by blast
  then show "outbyteoff s = (if p = 0 then 0 else if p mod length (buff s) = 0 then length (buff s) else p mod length (buff s))"
    using mod_pred_Suc [of p "length (buff s)"] assms(3) by (cases "p = 0") simp_all
  have "inbyteoff s = (p + bs - 1) mod length (buff s) + 1" using top by blast
  then show "inbyteoff s = (if (p + bs) mod length (buff s) = 0 then length (buff s) else (p + bs) mod length (buff s))"
    using mod_pred_Suc [of "p + bs" "length (buff s)"] assms(2,3) by simp
qed

text \<open>The window read around the ring is the window of the padded file.\<close>

lemma window_ring:
  assumes "ring_ok content bs p (p + bs) s" "at_top bs p s"
  shows "window_of bs s = win bs content p"
proof -
  let ?B = "length (buff s)" and ?H = "length (buff s) div 2" and ?N = "round_up (length content) bs"
  have ring: "?B = 2 * ?H" "0 < bs" "bs dvd ?H" "0 < ?H" "p + bs \<le> ?N"
    "\<forall>a. p \<le> a \<longrightarrow> a < min ?N (boundary ?H (p + bs)) \<longrightarrow> buff s ! (a mod ?B) = padded bs content ! a"
    using assms(1) by (simp_all add: ring_ok_def Let_def)
  have bsH: "bs \<le> ?H" using ring(3,4) by (intro dvd_imp_le)
  have data: "buff s ! ((p + i) mod ?B) = padded bs content ! (p + i)" if "i < bs" for i
    using ring(5,6) boundary_ge [OF ring(4), of "p + bs"] that by auto
  have lw: "length (win bs content p) = bs" using ring by (intro length_win)
  define r where "r = p mod ?B"
  have B0: "0 < ?B" using ring(1,4) by linarith
  then have rB: "r < ?B" unfolding r_def by (rule mod_less_divisor)
  have r0: "p = 0 \<Longrightarrow> r = 0" by (simp add: r_def)
  have idx: "(p + i) mod ?B = (if r + i < ?B then r + i else r + i - ?B)" if "i < bs" for i
  proof -
    have "(p + i) mod ?B = (r + i) mod ?B" by (simp add: r_def mod_simps)
    moreover have "r + i < 2 * ?B" using rB that bsH by linarith
    ultimately show ?thesis by (auto simp: le_mod_geq)
  qed
  have out: "outbyteoff s = (if p = 0 then 0 else if r = 0 then ?B else r)"
    using at_topD(1) [OF assms(2) ring(2) B0] by (simp add: r_def)
  have in_: "inbyteoff s = (if r + bs \<le> ?B then r + bs else r + bs - ?B)"
  proof -
    have "(p + bs) mod ?B = (r + bs) mod ?B" by (simp add: r_def mod_simps)
    also have "\<dots> = (if r + bs < ?B then r + bs else r + bs - ?B)"
      using rB bsH by (auto simp: le_mod_geq)
    finally show ?thesis using at_topD(2) [OF assms(2) ring(2) B0] ring(2) by (auto split: if_splits)
  qed
  show ?thesis
  proof (rule nth_equalityI)
    show "length (window_of bs s) = length (win bs content p)"
      using rB bsH ring(1,2,4) lw by (auto simp: window_of_def out in_ split: if_splits)
    fix i assume "i < length (window_of bs s)"
    then have i: "i < bs" using rB bsH ring(1,2,4) by (auto simp: window_of_def out in_ split: if_splits)
    have "window_of bs s ! i = buff s ! ((p + i) mod ?B)"
      unfolding idx [OF i] using rB bsH ring(1,2,4) i
      by (auto simp: window_of_def out in_ nth_append add.commute [of i r] r0 split: if_splits)
    with data [OF i] show "window_of bs s ! i = win bs content p ! i" using nth_win [OF ring(5,2) i] by simp
  qed
qed

lemma and_mod: "bs = 2 ^ k \<Longrightarrow> (x :: nat) AND (bs - 1) = x mod bs"
  by (simp only: mask_eq_exp_minus_1 [symmetric] take_bit_eq_mask [symmetric] take_bit_eq_mod)

lemma boundary_dvd: "0 < H \<Longrightarrow> H dvd e \<Longrightarrow> boundary H e = e"
  unfolding boundary_def by (rule antisym [OF round_up_least round_up_le]) simp_all

lemma boundary_least: "0 < H \<Longrightarrow> H dvd m \<Longrightarrow> e \<le> m \<Longrightarrow> boundary H e \<le> m"
  unfolding boundary_def by (rule round_up_least)

lemma boundary_is_dvd: "H dvd boundary H e"
  by (simp add: boundary_def)

lemma boundary_upper: "boundary H e \<le> e + H"
  using div_times_less_eq_dividend [of "e + H - 1" H] unfolding boundary_def round_up_def by linarith

lemma boundary_next:
  assumes "0 < H"
  shows "boundary H (e + 1) = (if H dvd e then e + H else boundary H e)"
proof (cases "H dvd e")
  case True
  have "round_up 1 H = H" using assms by (simp add: round_up_def)
  with True round_up_shift [OF assms True, of 1] show ?thesis by (simp add: boundary_def)
next
  case False
  have "boundary H e \<noteq> e" using boundary_is_dvd [of H e] False by metis
  with boundary_ge [OF assms, of e] have "e + 1 \<le> boundary H e" by simp
  then have "boundary H (e + 1) \<le> boundary H e" by (intro boundary_least assms boundary_is_dvd)
  moreover have "boundary H e \<le> boundary H (e + 1)"
    using boundary_ge [OF assms, of "e + 1"] by (intro boundary_least assms boundary_is_dvd) simp
  ultimately show ?thesis using False by simp
qed

text \<open>A read into one half: the padded bytes from \<open>e\<close> on.\<close>

lemma read_half_correct:
  assumes "length (buff s) = 2 * H" "0 < H" "0 < bs" "bs dvd H" "bs dvd e" "fpos s = e" "e < length content" "base + H \<le> length (buff s)"
  shows "\<exists>b. read_half content bs base s = Some (s\<lparr>buff := b, fpos := min (length content) (e + H),
      bufferlen := if length content < e + H then round_up (length content) bs - e + base else bufferlen s\<rparr>) \<and>
    length b = length (buff s) \<and>
    (\<forall>i < H. e + i < round_up (length content) bs \<longrightarrow> b ! (base + i) = padded bs content ! (e + i)) \<and>
    (\<forall>j < length b. j < base \<or> base + H \<le> j \<longrightarrow> b ! j = buff s ! j)"
proof -
  let ?rd = "pfile_read content e H" and ?N = "round_up (length content) bs"
  have half: "length (buff s) div 2 = H" using assms(1) by simp
  have lrd: "length ?rd = min H (length content - e)" by (simp add: pfile_read_def min.commute)
  have N: "length content \<le> ?N" by (rule round_up_le [OF assms(3)])
  have N2: "?N = e + round_up (length content - e) bs"
    using round_up_shift [OF assms(3,5), of "length content - e"] assms(7) by simp
  have rdi: "?rd ! i = padded bs content ! (e + i)" if "i < length ?rd" for i
    using that lrd by (auto simp: pfile_read_def padded_def nth_append)
  show ?thesis
  proof (cases "length content < e + H")
    case False
    let ?b = "put base ?rd (buff s)"
    have "length ?rd = H" using False lrd by simp
    moreover from this have "read_half content bs base s = Some (s\<lparr>buff := ?b, fpos := e + H\<rparr>)"
      using half assms(6) by (simp add: read_half_def Let_def)
    ultimately show ?thesis using False assms(8) rdi
      by (intro exI [of _ ?b]) (auto simp: nth_put min_absorb2)
  next
    case True
    let ?z = "replicate (round_up (length ?rd) bs - length ?rd) 0" and ?b1 = "put base ?rd (buff s)"
    let ?b = "put (base + length ?rd) ?z ?b1"
    have l: "length ?rd = length content - e" "length ?rd \<noteq> H" "?rd \<noteq> []"
      using True lrd assms(7) by (auto simp: pfile_read_def)
    have up: "length ?rd \<le> round_up (length ?rd) bs" "round_up (length ?rd) bs \<le> H"
      using True l(1) assms(3,4) by (auto intro!: round_up_le round_up_least)
    have len: "length ?b1 = length (buff s)" "length ?b = length (buff s)"
      using l(1) up assms(8) by auto
    have "read_half content bs base s = Some (s\<lparr>buff := ?b, fpos := length content, bufferlen := round_up (length ?rd) bs + base\<rparr>)"
      using l half assms(6,7) by (simp add: read_half_def Let_def)
    moreover have "?b ! (base + i) = padded bs content ! (e + i)" if i: "i < H" "e + i < ?N" for i
    proof (cases "i < length ?rd")
      case True
      with rdi i up len assms(8) show ?thesis by (simp add: nth_put)
    next
      case False
      moreover have "i - length ?rd < round_up (length ?rd) bs - length ?rd" using False i(2) N2 l(1) by simp
      ultimately have "?b ! (base + i) = 0" using i up len assms(8) N2 l(1) by (simp add: nth_put)
      moreover have "\<not> e + i < length content" using False l(1) by linarith
      then have "padded bs content ! (e + i) = 0" using i(2) N by (simp add: padded_def nth_append)
      ultimately show ?thesis by simp
    qed
    moreover have "?b ! j = buff s ! j" if "j < length ?b" "j < base \<or> base + H \<le> j" for j
      using that len up assms(8) by (auto simp: nth_put)
    ultimately show ?thesis using True N2 l(1) len assms(7)
      by (intro exI [of _ ?b]) (simp add: min_absorb1)
  qed
qed

text \<open>The file position and the fill level agree with what \<open>ring_ok\<close> says.\<close>

lemma last_mod:
  assumes "0 < B" "base < N" "N \<le> base + B" "B dvd base"
  shows "(N - 1) mod B + 1 = N - (base :: nat)"
proof -
  obtain k where k: "base = B * k" using assms(4) by (rule dvdE)
  have "N - 1 = (N - base - 1) + B * k" using assms(2) by (simp add: k)
  then have "(N - 1) mod B = N - base - 1" using assms(1-3) by (simp only: mod_mult_self2) simp
  then show ?thesis using assms(2) by simp
qed

lemma checkpoint_between:
  assumes ring: "ring_ok content bs p (p + bs) s" and top: "at_top bs p s" and bs: "bs = 2 ^ k" and no: "\<not> bs dvd p"
  shows "checkpoint content bs s = Some s \<and> ring_ok content bs p (p + bs + 1) s \<and> at_roll bs p s"
proof -
  let ?B = "length (buff s)" and ?H = "length (buff s) div 2" and ?N = "round_up (length content) bs"
  have r: "?B = 2 * ?H" "0 < bs" "bs dvd ?H" "0 < ?H" "p + bs \<le> ?N"
    using ring by (simp_all add: ring_ok_def Let_def)
  have B0: "0 < ?B" using r(1,4) by linarith
  have bsB: "bs dvd ?B" using r(1,3) by (metis dvd_mult)
  have ndvd: "\<not> bs dvd p + bs" using no by (metis dvd_add_left_iff dvd_refl)
  have nB: "(p + bs) mod ?B \<noteq> 0" "p mod ?B \<noteq> 0" "\<not> ?H dvd p + bs"
    using no ndvd bsB r(3) by (metis mod_eq_0_iff_dvd dvd_trans)+
  have "p \<noteq> 0" using no by (metis dvd_0_right)
  note in_ = at_topD(2) [OF top r(2) B0, unfolded if_not_P [OF nB(1)]]
  note out = at_topD(1) [OF top r(2) B0, unfolded if_not_P [OF nB(2)] if_not_P [OF \<open>p \<noteq> 0\<close>]]
  have "(p + bs) mod ?B mod bs = (p + bs) mod bs" using bsB by (rule mod_mod_cancel)
  then have "inbyteoff s AND (bs - 1) \<noteq> 0"
    using ndvd by (simp only: and_mod [OF bs] in_) (simp add: mod_eq_0_iff_dvd)
  then have "checkpoint content bs s = Some s" by (simp add: checkpoint_def)
  moreover have "p + bs \<noteq> ?N" using ndvd by (metis round_up_dvd)
  then have "ring_ok content bs p (p + bs + 1) s"
    using ring boundary_next [OF r(4), of "p + bs"] nB(3) by (auto simp: ring_ok_def Let_def)
  moreover have "at_roll bs p s" using in_ out at_topD(3) [OF top r(2) B0] by (simp add: at_roll_def Let_def)
  ultimately show ?thesis by blast
qed

lemma dvd_step: "bs dvd x \<Longrightarrow> bs dvd y \<Longrightarrow> x < y \<Longrightarrow> x + bs \<le> (y :: nat)"
  using dvd_imp_le [OF dvd_diff_nat [of bs y x]] by simp

lemma read_half_eof: "length content \<le> fpos s \<Longrightarrow> 0 < length (buff s) div 2 \<Longrightarrow> read_half content bs base s = None"
  by (simp add: read_half_def pfile_read_def Let_def)

lemma mod_half: "H dvd e \<Longrightarrow> 0 < H \<Longrightarrow> e mod (2 * H) = 0 \<or> e mod (2 * H) = (H :: nat)"
  by (elim dvdE) (simp add: mult.commute [of 2] mult_mod_right [symmetric] mod2_eq_if split: if_splits)

definition reset_out :: "scan \<Rightarrow> scan" where
  "reset_out s = (if outbyteoff s \<ge> bufferlen s then s\<lparr>outbyteoff := 0, buffoff := buffoff s + length (buff s)\<rparr> else s)"

lemma reset_out_simps [simp]:
  "buff (reset_out s) = buff s" "inbyteoff (reset_out s) = inbyteoff s" "bufferlen (reset_out s) = bufferlen s"
  "fpos (reset_out s) = fpos s" "adl (reset_out s) = adl s"
  by (simp_all add: reset_out_def)

text \<open>The facts at an aligned position.\<close>

lemma aligned_facts:
  assumes ring: "ring_ok content bs p (p + bs) s" and top: "at_top bs p s" and bs: "bs = 2 ^ k" and al: "bs dvd p"
  defines "B \<equiv> length (buff s)" and "H \<equiv> length (buff s) div 2" and "N \<equiv> round_up (length content) bs" and "e \<equiv> p + bs"
  shows "B = 2 * H" "0 < H" "0 < bs" "bs dvd H" "bs dvd e" "e \<le> N"
    "inbyteoff s = (if e mod B = 0 then B else e mod B)"
    "length content < boundary H e \<Longrightarrow> bufferlen s = (N - 1) mod B + 1 \<and> fpos s = length content"
    "\<not> length content < boundary H e \<Longrightarrow> bufferlen s = B \<and> fpos s = boundary H e"
    "checkpoint content bs s =
       (if inbyteoff s = bufferlen s
        then if bufferlen s \<noteq> B then None else read_half content bs 0 (reset_out s\<lparr>inbyteoff := 0\<rparr>)
        else if inbyteoff s = H then read_half content bs H (reset_out s) else Some (reset_out s))"
proof -
  show r: "B = 2 * H" "0 < H" "0 < bs" "bs dvd H" "e \<le> N"
    "length content < boundary H e \<Longrightarrow> bufferlen s = (N - 1) mod B + 1 \<and> fpos s = length content"
    "\<not> length content < boundary H e \<Longrightarrow> bufferlen s = B \<and> fpos s = boundary H e"
    using ring by (simp_all add: ring_ok_def Let_def B_def H_def N_def e_def)
  show e: "bs dvd e" using al by (simp add: e_def)
  have bsB: "bs dvd B" using r(1,4) by (metis dvd_mult)
  have "0 < length (buff s)" using r(1,2) by (simp add: B_def)
  from at_topD(2) [OF top r(3) this] show in_: "inbyteoff s = (if e mod B = 0 then B else e mod B)"
    by (simp add: e_def B_def)
  have "bs dvd e mod B" using e bsB by (simp add: dvd_mod)
  then have "bs dvd inbyteoff s" using bsB in_ by simp
  then have "inbyteoff s AND (bs - 1) = 0" by (simp only: and_mod [OF bs] mod_eq_0_iff_dvd)
  then show "checkpoint content bs s =
       (if inbyteoff s = bufferlen s
        then if bufferlen s \<noteq> B then None else read_half content bs 0 (reset_out s\<lparr>inbyteoff := 0\<rparr>)
        else if inbyteoff s = H then read_half content bs H (reset_out s) else Some (reset_out s))"
    by (simp add: checkpoint_def Let_def reset_out_def B_def H_def)
qed

lemma checkpoint_end:
  assumes "ring_ok content bs p (p + bs) s" "at_top bs p s" "bs = 2 ^ k" "bs dvd p" "p + bs = round_up (length content) bs"
  shows "checkpoint content bs s = None"
proof -
  let ?B = "length (buff s)" and ?H = "length (buff s) div 2" and ?N = "round_up (length content) bs" and ?e = "p + bs"
  note f = aligned_facts [OF assms(1-4)]
  have B0: "0 < ?B" using f(1,2) by linarith
  show ?thesis
  proof (cases "length content < boundary ?H ?e")
    case True
    have "inbyteoff s = bufferlen s"
      using f(8) [OF True] assms(2,5) by (simp add: at_top_def Let_def)
    moreover have "read_half content bs 0 (reset_out s\<lparr>inbyteoff := 0\<rparr>) = None"
      using f(2) f(8) [OF True] by (intro read_half_eof) simp_all
    ultimately show ?thesis by (simp add: f(10))
  next
    case False
    have "length content \<le> ?e" using assms(5) f(3) round_up_le by metis
    with False boundary_ge [OF f(2), of ?e] have eq: "boundary ?H ?e = ?e" "length content = ?e" by linarith+
    then have "?H dvd ?e" by (metis boundary_is_dvd)
    then have "?e mod ?B = 0 \<or> ?e mod ?B = ?H" using mod_half [OF _ f(2)] f(1) by metis
    moreover have "read_half content bs base s' = None" if "fpos s' = fpos s" "buff s' = buff s" for base s'
      using f(2) f(9) [OF False] eq that by (intro read_half_eof) simp_all
    ultimately show ?thesis using f(2) f(9) [OF False] by (auto simp: f(7,10))
  qed
qed

lemma reset_out_roll:
  assumes "ring_ok content bs p (p + bs) s" "at_top bs p s" "bs = 2 ^ k" "bs dvd p" "p + bs < round_up (length content) bs"
  shows "outbyteoff (reset_out s) = p mod length (buff s) \<and> buffoff (reset_out s) + outbyteoff (reset_out s) = p"
proof -
  let ?B = "length (buff s)" and ?H = "length (buff s) div 2" and ?N = "round_up (length content) bs" and ?e = "p + bs"
  note f = aligned_facts [OF assms(1-4)]
  have B0: "0 < ?B" using f(1,2) by linarith
  note t = at_topD [OF assms(2) f(3) B0]
  have len: "bufferlen s \<le> ?B" "0 < bufferlen s"
    using conjunct1 [OF f(8)] conjunct1 [OF f(9)] B0 mod_less_divisor [OF B0, of "?N - 1"] by linarith+
  consider "p = 0" | "p \<noteq> 0" "p mod ?B = 0" | "p \<noteq> 0" "p mod ?B \<noteq> 0" by blast
  then show ?thesis
  proof cases
    case 1
    with t len show ?thesis by (simp add: reset_out_def)
  next
    case 2
    with t len show ?thesis by (simp add: reset_out_def)
  next
    case 3
    define base where "base = p - p mod ?B"
    have base: "?B dvd base" "p = base + p mod ?B" by (simp_all add: base_def dvd_minus_mod)
    have "p mod ?B < ?B" using B0 by simp
    then have p: "p < base + ?B" using base(2) by linarith
    have "bs dvd ?B" using f(1,4) by (metis dvd_mult)
    then have e: "?e \<le> base + ?B" using p base(1) by (intro dvd_step assms(4)) (auto intro: dvd_trans)
    have "p mod ?B < bufferlen s"
    proof (cases "length content < boundary ?H ?e")
      case False
      then show ?thesis using f(9) [OF False] \<open>p mod ?B < ?B\<close> by simp
    next
      case True
      have "?H dvd base + ?B" using base(1) f(1) by (metis dvd_add dvd_mult_right dvd_refl dvd_trans dvd_triv_right)
      then have "boundary ?H ?e \<le> base + ?B" using e by (intro boundary_least f(2))
      moreover have "?N \<le> boundary ?H ?e"
        using True f(4) boundary_is_dvd [of ?H ?e] by (intro round_up_least f(3)) (auto intro: dvd_trans)
      ultimately have "bufferlen s = ?N - base"
        using f(8) [OF True] last_mod [OF B0 _ _ base(1), of ?N] base(2) assms(5) by simp
      then show ?thesis using base(2) assms(5) by linarith
    qed
    with 3 t show ?thesis by (simp add: reset_out_def)
  qed
qed

lemma ring_okI:
  assumes "length (buff s) = 2 * H" "0 < bs" "bs dvd H" "0 < H" "p + bs \<le> e" "e \<le> p + bs + 1" "e \<le> round_up (length content) bs"
    "adl s = adler32 ADLER32_INITIAL (win bs content p)"
    "\<And>a. p \<le> a \<Longrightarrow> a < round_up (length content) bs \<Longrightarrow> a < boundary H e \<Longrightarrow> buff s ! (a mod (2 * H)) = padded bs content ! a"
    "length content < boundary H e \<Longrightarrow> bufferlen s = (round_up (length content) bs - 1) mod (2 * H) + 1 \<and> fpos s = length content"
    "\<not> length content < boundary H e \<Longrightarrow> bufferlen s = 2 * H \<and> fpos s = boundary H e"
  shows "ring_ok content bs p e s"
  using assms by (simp add: ring_ok_def Let_def)

lemma ring_data:
  assumes "ring_ok content bs p e s" "p \<le> a" "a < round_up (length content) bs" "a < boundary (length (buff s) div 2) e"
  shows "buff s ! (a mod length (buff s)) = padded bs content ! a"
  using assms by (simp add: ring_ok_def Let_def)

lemma ring_adl: "ring_ok content bs p e s \<Longrightarrow> adl s = adler32 ADLER32_INITIAL (win bs content p)"
  by (simp add: ring_ok_def Let_def)

text \<open>No read is due.\<close>

lemma checkpoint_quiet:
  assumes ring: "ring_ok content bs p (p + bs) s" and top: "at_top bs p s" and "bs = 2 ^ k" "bs dvd p"
    and lt: "p + bs < round_up (length content) bs" and no: "\<not> length (buff s) div 2 dvd p + bs"
  shows "checkpoint content bs s = Some (reset_out s) \<and> ring_ok content bs p (p + bs + 1) (reset_out s) \<and> at_roll bs p (reset_out s)"
proof -
  let ?B = "length (buff s)" and ?H = "length (buff s) div 2" and ?N = "round_up (length content) bs" and ?e = "p + bs"
  note f = aligned_facts [OF ring top assms(3,4)]
  have B0: "0 < ?B" using f(1,2) by linarith
  have nB: "?e mod ?B \<noteq> 0" "?e mod ?B \<noteq> ?H"
  proof -
    show "?e mod ?B \<noteq> 0" using no f(1) by (metis dvd_trans dvd_triv_right mod_eq_0_iff_dvd)
    show "?e mod ?B \<noteq> ?H" using no f(1) by (metis dvd_mod_iff dvd_refl dvd_triv_right)
  qed
  note in_ = f(7) [unfolded if_not_P [OF nB(1)]]
  have bnext: "boundary ?H (?e + 1) = boundary ?H ?e" using no boundary_next [OF f(2), of ?e] by simp
  have "inbyteoff s \<noteq> bufferlen s"
  proof (cases "length content < boundary ?H ?e")
    case False
    then show ?thesis using f(9) [OF False] in_ mod_less_divisor [OF B0, of ?e] by linarith
  next
    case True
    have "?N \<le> boundary ?H ?e" using True f(4) boundary_is_dvd [of ?H ?e] by (intro round_up_least f(3)) (auto intro: dvd_trans)
    also have "\<dots> \<le> ?e + ?H" by (rule boundary_upper)
    finally have "?N < ?e + ?B" using f(1,2) by linarith
    show ?thesis
    proof
      assume "inbyteoff s = bufferlen s"
      then have "(?N - 1) mod ?B = (?e - 1) mod ?B" using f(8) [OF True] top by (simp add: at_top_def Let_def)
      then have "?B dvd (?N - 1) - (?e - 1)" using lt by (simp add: mod_eq_dvd_iff_nat)
      moreover have "0 < (?N - 1) - (?e - 1)" "(?N - 1) - (?e - 1) < ?B" using lt \<open>?N < ?e + ?B\<close> f(3) by linarith+
      ultimately show False using dvd_imp_le by fastforce
    qed
  qed
  moreover have "inbyteoff s \<noteq> ?H" using in_ nB(2) by simp
  ultimately have "checkpoint content bs s = Some (reset_out s)" by (simp add: f(10))
  moreover have "ring_ok content bs p (?e + 1) (reset_out s)"
    using ring bnext lt by (simp add: ring_ok_def Let_def)
  moreover have "at_roll bs p (reset_out s)"
    using reset_out_roll [OF ring top assms(3,4) lt] in_ by (simp add: at_roll_def Let_def)
  ultimately show ?thesis by blast
qed

text \<open>A read is due: the half that is not needed any more is filled.\<close>

lemma mod_known: "a = m * k + d \<Longrightarrow> d < m \<Longrightarrow> a mod m = (d :: nat)"
  by simp

lemma mod_in_half:
  assumes "H dvd e" "0 < (H :: nat)" "base = e mod (2 * H)" "a < e" "e \<le> a + H"
  shows "a mod (2 * H) < base \<or> base + H \<le> a mod (2 * H)"
proof -
  have "base = 0 \<or> base = H" using mod_half [OF assms(1,2)] assms(3) by simp
  define k where "k = e div (2 * H)"
  have e: "e = 2 * H * k + base" using assms(3) by (simp add: k_def)
  show ?thesis
  proof (cases "base = 0")
    case True
    then have "k > 0" using e assms(4) by (cases k) auto
    then obtain j where k: "k = Suc j" by (cases k) auto
    have "a = 2 * H * j + (a - 2 * H * j)" "a - 2 * H * j < 2 * H" "H \<le> a - 2 * H * j"
      using assms(4,5) e True k by (simp_all add: algebra_simps)
    then have "a mod (2 * H) = a - 2 * H * j" by (intro mod_known [where k = j])
    with \<open>H \<le> a - 2 * H * j\<close> True show ?thesis by simp
  next
    case False
    then have b: "base = H" using \<open>base = 0 \<or> base = H\<close> by simp
    have "a = 2 * H * k + (a - 2 * H * k)" "a - 2 * H * k < H" using assms(4,5) e b by linarith+
    then have "a mod (2 * H) = a - 2 * H * k" by (intro mod_known [where k = k]) linarith+
    with \<open>a - 2 * H * k < H\<close> b show ?thesis by simp
  qed
qed

lemma checkpoint_read:
  assumes ring: "ring_ok content bs p (p + bs) s" and top: "at_top bs p s" and "bs = 2 ^ k" "bs dvd p"
    and lt: "p + bs < round_up (length content) bs" and due: "length (buff s) div 2 dvd p + bs"
  shows "\<exists>s'. checkpoint content bs s = Some s' \<and> ring_ok content bs p (p + bs + 1) s' \<and> at_roll bs p s'"
proof -
  define H where "H = length (buff s) div 2"
  define N where "N = round_up (length content) bs"
  define e where "e = p + bs"
  define base where "base = e mod (2 * H)"
  note f = aligned_facts [OF ring top assms(3,4), folded H_def N_def e_def]
  have He: "H dvd e" using due unfolding H_def e_def .
  have eN: "e < N" using lt by (simp add: e_def N_def)
  have be: "boundary H e = e" by (rule boundary_dvd [OF f(2) He])
  have long: "e < length content"
  proof (rule ccontr)
    assume "\<not> e < length content"
    then have "N \<le> e" unfolding N_def by (intro round_up_least f(3,5)) simp
    with eN show False by simp
  qed
  then have "\<not> length content < boundary H e" using be by simp
  from f(9) [OF this] have fill: "bufferlen s = 2 * H" "fpos s = e" unfolding be f(1) by simp_all
  have base01: "base = 0 \<or> base = H" unfolding base_def by (rule mod_half [OF He f(2)])
  let ?s = "reset_out s\<lparr>inbyteoff := base\<rparr>"
  have cp: "checkpoint content bs s = read_half content bs base ?s"
  proof (cases "base = 0")
    case True
    then have "inbyteoff s = 2 * H" using f(7) by (simp add: base_def f(1))
    with True fill show ?thesis by (simp add: f(1,10))
  next
    case False
    then have b: "base = H" "inbyteoff s = H" using base01 f(2,7) by (auto simp: base_def f(1))
    then have eq: "reset_out s\<lparr>inbyteoff := H\<rparr> = reset_out s" by (simp add: reset_out_def)
    from b fill f(2) show ?thesis by (simp add: f(1,10) eq)
  qed
  have bH: "base + H \<le> 2 * H" using base01 by auto
  have pre: "length (buff ?s) = 2 * H" "fpos ?s = e" "base + H \<le> length (buff ?s)" "bufferlen ?s = 2 * H" "buff ?s = buff s"
    using f(1) fill bH by simp_all
  from read_half_correct [OF pre(1) f(2,3,4,5) pre(2) long pre(3)]
  obtain b where "read_half content bs base ?s = Some (?s\<lparr>buff := b, fpos := min (length content) (e + H),
      bufferlen := if length content < e + H then round_up (length content) bs - e + base else bufferlen ?s\<rparr>) \<and>
    length b = length (buff ?s) \<and>
    (\<forall>i < H. e + i < round_up (length content) bs \<longrightarrow> b ! (base + i) = padded bs content ! (e + i)) \<and>
    (\<forall>j < length b. j < base \<or> base + H \<le> j \<longrightarrow> b ! j = buff ?s ! j)" ..
  then have b: "read_half content bs base ?s = Some (?s\<lparr>buff := b, fpos := min (length content) (e + H),
      bufferlen := if length content < e + H then N - e + base else 2 * H\<rparr>)" "length b = 2 * H"
    "\<And>i. i < H \<Longrightarrow> e + i < N \<Longrightarrow> b ! (base + i) = padded bs content ! (e + i)"
    "\<And>j. j < 2 * H \<Longrightarrow> j < base \<or> base + H \<le> j \<Longrightarrow> b ! j = buff s ! j"
    unfolding pre(1,4,5) f(1) N_def by auto
  let ?t = "?s\<lparr>buff := b, fpos := min (length content) (e + H),
      bufferlen := if length content < e + H then N - e + base else 2 * H\<rparr>"
  have bn: "boundary H (e + 1) = e + H" using boundary_next [OF f(2), of e] He by simp
  have "ring_ok content bs p (e + 1) ?t"
  proof (rule ring_okI [where H = H])
    show "adl ?t = adler32 ADLER32_INITIAL (win bs content p)" using ring_adl [OF ring] by simp
    show "e + 1 \<le> round_up (length content) bs" using eN by (simp add: N_def)
    fix a assume a: "p \<le> a" "a < round_up (length content) bs" "a < boundary H (e + 1)"
    show "buff ?t ! (a mod (2 * H)) = padded bs content ! a"
    proof (cases "a < e")
      case True
      have "bs \<le> H" using f(2,4) by (intro dvd_imp_le)
      then have "a mod (2 * H) < base \<or> base + H \<le> a mod (2 * H)"
        using mod_in_half [OF He f(2) base_def True] a(1) by (simp add: e_def)
      moreover have "a mod (2 * H) < 2 * H" using f(2) by (intro mod_less_divisor) simp
      moreover have "buff s ! (a mod length (buff s)) = padded bs content ! a"
        by (rule ring_data [OF ring a(1,2)]) (use True be in \<open>simp only: H_def e_def\<close>)
      ultimately show ?thesis using b(4) f(1) by simp
    next
      case False
      define i where "i = a - e"
      have i: "a = e + i" "i < H" using False a(3) bn by (simp_all add: i_def)
      have "a mod (2 * H) = base + i"
        unfolding i(1) base_def using bH i(2) by (subst mod_add_left_eq [symmetric]) (simp add: base_def)
      then show ?thesis using b(3) [of i] i a(2) by (simp add: N_def)
    qed
  next
    assume "length content < boundary H (e + 1)"
    then have short: "length content < e + H" using bn by simp
    have "N \<le> e + H" using short He f(4,5) unfolding N_def by (intro round_up_least f(3)) auto
    moreover have "2 * H dvd e - base" unfolding base_def by (rule dvd_minus_mod)
    moreover have "base \<le> e" unfolding base_def by simp
    ultimately have "(N - 1) mod (2 * H) + 1 = N - (e - base)"
      using eN bH f(2) by (intro last_mod) simp_all
    then show "bufferlen ?t = (round_up (length content) bs - 1) mod (2 * H) + 1 \<and> fpos ?t = length content"
      using short eN \<open>base \<le> e\<close> by (simp add: N_def)
  qed (use f b(2) bn e_def in simp_all)
  moreover have "at_roll bs p ?t"
    using reset_out_roll [OF ring top assms(3,4) lt] f(1) b(2) by (simp add: at_roll_def Let_def base_def e_def)
  ultimately show ?thesis using cp b(1) by (simp add: e_def)
qed

lemma checkpoint_correct:
  assumes "ring_ok content bs p (p + bs) s" "at_top bs p s" "bs = 2 ^ k"
  shows "if p + bs = round_up (length content) bs then checkpoint content bs s = None
    else \<exists>s'. checkpoint content bs s = Some s' \<and> ring_ok content bs p (p + bs + 1) s' \<and> at_roll bs p s'"
proof -
  have le: "p + bs \<le> round_up (length content) bs" using assms(1) by (simp add: ring_ok_def Let_def)
  have "bs dvd p" if "p + bs = round_up (length content) bs"
    using round_up_dvd [of bs "length content"] that by (metis dvd_add_left_iff dvd_refl)
  then consider "p + bs = round_up (length content) bs" "bs dvd p" | "p + bs < round_up (length content) bs" "bs dvd p"
    | "p + bs < round_up (length content) bs" "\<not> bs dvd p" using le by linarith
  then show ?thesis
  proof cases
    case 1
    with checkpoint_end [OF assms 1(2)] show ?thesis by simp
  next
    case 2
    with checkpoint_quiet [OF assms 2(2)] checkpoint_read [OF assms 2(2)] show ?thesis by (metis less_irrefl)
  next
    case 3
    with checkpoint_between [OF assms] show ?thesis by auto
  qed
qed

lemma roll_correct:
  assumes ring: "ring_ok content bs p (p + bs + 1) s" and top: "at_roll bs p s" and bs: "bs \<le> 2 ^ 24"
  shows "ring_ok content bs (p + 1) (p + 1 + bs) (roll bs s) \<and> at_top bs (p + 1) (roll bs s)"
proof -
  let ?B = "length (buff s)" and ?N = "round_up (length content) bs"
  have r: "0 < bs" "p + bs + 1 \<le> ?N" "?B = 2 * (?B div 2)" "0 < ?B div 2"
    using ring by (simp_all add: ring_ok_def Let_def)
  have io: "inbyteoff s = (p + bs) mod ?B" "outbyteoff s = p mod ?B" "buffoff s + outbyteoff s = p"
    using top by (simp_all add: at_roll_def Let_def)
  have b: "p + bs + 1 \<le> boundary (?B div 2) (p + bs + 1)" by (rule boundary_ge [OF r(4)])
  have bytes: "buff s ! outbyteoff s = padded bs content ! p" "buff s ! inbyteoff s = padded bs content ! (p + bs)"
    unfolding io(1,2) using r b by (auto intro!: ring_data [OF ring])
  have lw: "length (win bs content p) = bs" "length (win bs content (p + 1)) = bs"
    using r by (auto intro!: length_win)
  define ws where "ws = take (bs - 1) (drop (p + 1) (padded bs content))"
  have lp: "p + bs < length (padded bs content)" using r length_padded_file [OF r(1)] by simp
  have w0: "win bs content p = padded bs content ! p # ws"
    using lp r(1) by (simp add: win_def ws_def Cons_nth_drop_Suc [symmetric] take_Cons')
  have w1: "win bs content (p + 1) = ws @ [padded bs content ! (p + bs)]"
    using lp r(1) by (cases bs) (simp_all add: win_def ws_def take_Suc_conv_app_nth)
  have len: "unat (word_of_nat bs :: u32) = bs" using bs by (intro of_nat_unat_small) simp
  have "unat (padded bs content ! p) \<le> 255" by (rule unat_byte)
  then have "bs * unat (padded bs content ! p) \<le> 2 ^ 24 * 255" using bs by (rule mult_le_mono [rotated])
  then have "adler32_roll (adl s) (buff s ! outbyteoff s) (buff s ! inbyteoff s) (word_of_nat bs) =
      adler32 ADLER32_INITIAL (win bs content (p + 1))"
    unfolding ring_adl [OF ring] bytes w0 w1
    by (intro adler_roll_window) (use lw(1) w0 in \<open>simp_all add: len\<close>)
  then have "ring_ok content bs (p + 1) (p + 1 + bs) (roll bs s)"
    using ring by (simp add: ring_ok_def Let_def roll_def)
  moreover have "at_top bs (p + 1) (roll bs s)"
    using io by (simp add: at_top_def at_roll_def roll_def Let_def)
  ultimately show ?thesis by blast
qed

lemma buffer_size_facts:
  assumes "bs = 2 ^ k"
  shows "buffer_size bs = 2 * (buffer_size bs div 2)" "bs dvd buffer_size bs div 2" "0 < buffer_size bs div 2"
proof -
  have C: "PSYNC_COPY_BUFFER_SIZE = 2 * 2 ^ 17" by (simp add: PSYNC_COPY_BUFFER_SIZE_def)
  have pos: "0 < bs" by (simp add: assms)
  show "buffer_size bs = 2 * (buffer_size bs div 2)" by (simp add: buffer_size_def C)
  show "bs dvd buffer_size bs div 2"
  proof (cases "bs * 2 > PSYNC_COPY_BUFFER_SIZE")
    case False
    then have "(2 :: nat) ^ k \<le> 2 ^ 17" by (simp add: assms C)
    then have "k \<le> 17" by (simp only: power_increasing_iff)
    then have "bs dvd 2 ^ 17" unfolding assms by (rule le_imp_power_dvd)
    with False show ?thesis by (simp add: buffer_size_def C)
  qed (simp add: buffer_size_def)
  show "0 < buffer_size bs div 2" using pos by (simp add: buffer_size_def C)
qed

text \<open>The first read fills the first half in the same way.\<close>

lemma start_correct:
  assumes mem: "length mem = buffer_size bs" and bs: "bs = 2 ^ k"
  shows "if length content < bs then scan_start mem content bs = None
    else \<exists>s. scan_start mem content bs = Some s \<and> ring_ok content bs 0 bs s \<and> at_top bs 0 s"
proof (cases "length content < bs")
  case True
  have "bs \<le> buffer_size bs div 2" using buffer_size_facts [OF bs] by (intro dvd_imp_le)
  with True show ?thesis by (simp add: scan_start_def pfile_read_def Let_def)
next
  case False
  define H where "H = buffer_size bs div 2"
  note H = buffer_size_facts [OF bs, folded H_def]
  have bs0: "0 < bs" and bsH: "bs \<le> H" using bs H by (auto intro: dvd_imp_le)
  have long: "0 < length content" using False bs0 by linarith
  let ?N = "round_up (length content) bs"
  let ?s0 = "\<lparr>buff = mem, buffoff = 0, inbyteoff = bs, outbyteoff = 0, bufferlen = 2 * H, fpos = 0, adl = 0\<rparr> :: scan"
  from read_half_correct [of ?s0 H bs 0 content 0] obtain b where
    r: "read_half content bs 0 ?s0 = Some (?s0\<lparr>buff := b, fpos := min (length content) H,
      bufferlen := if length content < H then ?N else 2 * H\<rparr>)" "length b = 2 * H"
    "\<And>i. i < H \<Longrightarrow> i < ?N \<Longrightarrow> b ! i = padded bs content ! i"
    using mem H bs0 long by auto
  have N: "length content \<le> ?N" by (rule round_up_le [OF bs0])
  have lb: "bs < Suc (length (padded bs content))" using N False length_padded_file [OF bs0] by simp
  have wb: "take bs b = win bs content 0"
    using lb r(2,3) bsH False N by (intro nth_equalityI) (auto simp: win_def)
  have "scan_start mem content bs = Some (?s0\<lparr>buff := b, fpos := min (length content) H,
      bufferlen := if length content < H then ?N else 2 * H, adl := adler32 ADLER32_INITIAL (take bs b)\<rparr>)" (is "_ = Some ?s")
    using r(1) False H mem long
    by (auto simp: scan_start_def read_half_def Let_def H_def [symmetric] pfile_read_def split: if_splits)
  moreover have bd: "boundary H bs = H"
    using bsH bs0 H boundary_is_dvd [of H bs] boundary_ge [of H bs] boundary_least [of H H bs] dvd_imp_le [of H "boundary H bs"]
    by simp
  have "ring_ok content bs 0 bs ?s"
  proof (rule ring_okI [where H = H])
    show "bs \<le> ?N" using N False by linarith
    assume "length content < boundary H bs"
    then have "length content < H" by (simp add: bd)
    moreover from this have "?N \<le> H" using H by (intro round_up_least bs0) simp_all
    moreover have "?N - 1 + 1 = ?N" using N long by linarith
    ultimately show "bufferlen ?s = (?N - 1) mod (2 * H) + 1 \<and> fpos ?s = length content" using H(3) by simp
  qed (use r(2,3) H bs0 bd wb in \<open>auto simp: min_absorb2\<close>)
  moreover have "at_top bs 0 ?s" using bs0 bsH r(2) by (simp add: at_top_def Let_def)
  ultimately show ?thesis using False by auto
qed

text \<open>The loop does what the plain scan does.\<close>

lemma match_windows_Nil: "match_windows psync_sha1 bl nxt fileidx content bs [] = Some"
  by (rule ext) simp

lemma scan_loop_correct:
  assumes "ring_ok content bs p (p + bs) s" "at_top bs p s" "bs = 2 ^ k" "bs \<le> 2 ^ 24"
  shows "scan_loop psync_sha1 bl nxt fileidx content bs s st =
    match_windows psync_sha1 bl nxt fileidx content bs [p..<round_up (length content) bs - bs + 1] st"
  using assms(1,2)
proof (induction "round_up (length content) bs - (p + bs)" arbitrary: p s st)
  case (0 p)
  let ?N = "round_up (length content) bs"
  have "p + bs \<le> ?N" using 0(2) by (simp add: ring_ok_def Let_def)
  with 0(1) have e: "p + bs = ?N" by simp
  then have "?N - bs + 1 = Suc p" by simp
  then have "[p..<?N - bs + 1] = [p]" by simp
  moreover have "checkpoint content bs s = None" using checkpoint_correct [OF 0(2,3) assms(3)] e by simp
  moreover have "buffoff s + outbyteoff s = p" using 0(3) by (simp add: at_top_def Let_def)
  ultimately show ?case
    using window_ring [OF 0(2,3)] ring_adl [OF 0(2)] \<open>buffoff s + _ = p\<close>
    by (subst scan_loop.simps) (simp add: match_windows_Nil del: upt_Suc)
next
  case (Suc d p)
  let ?N = "round_up (length content) bs"
  have lt: "p + bs < ?N" using Suc.hyps(2) by simp
  then obtain s' where s': "checkpoint content bs s = Some s'" "ring_ok content bs p (p + bs + 1) s'" "at_roll bs p s'"
    using checkpoint_correct [OF Suc.prems assms(3)] by auto
  have "p < ?N - bs + 1" using lt by simp
  then have "[p..<?N - bs + 1] = p # [p + 1..<?N - bs + 1]" unfolding Suc_eq_plus1 [symmetric, of p] by (rule upt_conv_Cons)
  moreover have "scan_loop psync_sha1 bl nxt fileidx content bs (roll bs s') st' =
      match_windows psync_sha1 bl nxt fileidx content bs [p + 1..<?N - bs + 1] st'" for st'
    using roll_correct [OF s'(2,3) assms(4)] Suc.hyps(2) by (intro Suc.hyps(1)) simp_all
  moreover have "buffoff s + outbyteoff s = p" using Suc.prems(2) by (simp add: at_top_def Let_def)
  ultimately show ?case
    using window_ring [OF Suc.prems] ring_adl [OF Suc.prems(1)] s'(1)
    by (subst scan_loop.simps) (simp del: upt_Suc)
qed

text \<open>
  C19. For a block size that is a power of two, up to \<open>2\<^sup>2\<^sup>4\<close>: a local file that is shorter than a block is not looked at.
  Any other file is read through two halves of a ring buffer, and the window slides over them with a rolling checksum;
  this does the same as looking at every window of the file, continued with zeros to a multiple of the block size,
  one after the other. It depends on no byte of the buffer that an earlier part of the file or the allocator left there.
\<close>

theorem check_file_is_plain_scan:
  assumes "length mem = buffer_size (blocksize cs)" "blocksize cs = 2 ^ k" "blocksize cs \<le> 2 ^ 24"
  shows "psync_net_check_file_for_blocks psync_sha1 mem cs nxt fileidx content st =
    match_windows psync_sha1 (blocks cs) nxt fileidx content (blocksize cs)
      (if length content < blocksize cs then [] else [0..<round_up (length content) (blocksize cs) - blocksize cs + 1]) st"
proof (cases "length content < blocksize cs")
  case True
  with start_correct [OF assms(1,2), of content] show ?thesis by (simp add: psync_net_check_file_for_blocks_def)
next
  case False
  then obtain s where "scan_start mem content (blocksize cs) = Some s"
    "ring_ok content (blocksize cs) 0 (blocksize cs) s" "at_top (blocksize cs) 0 s"
    using start_correct [OF assms(1,2), of content] by auto
  with False scan_loop_correct [where p = 0 and bs = "blocksize cs", OF _ _ assms(2,3)] show ?thesis
    by (simp add: psync_net_check_file_for_blocks_def del: upt_Suc)
qed

subsection \<open>The matches are sound\<close>

definition act_ok :: "(bytes \<Rightarrow> bytes) \<Rightarrow> block_checksum list \<Rightarrow> nat \<Rightarrow> bytes list \<Rightarrow> nat \<Rightarrow> block_action \<Rightarrow> bool" where
  "act_ok psync_sha1 bl bs files j act \<longleftrightarrow> (atype act = PSYNC_RANGE_COPY \<longrightarrow>
     aidx act < length files \<and> aoff act + bs \<le> round_up (length (files ! aidx act)) bs \<and>
     sha1 (bl ! j) = psync_sha1 (win bs (files ! aidx act) (aoff act)))"

definition sound :: "(bytes \<Rightarrow> bytes) \<Rightarrow> block_checksum list \<Rightarrow> nat \<Rightarrow> bytes list \<Rightarrow> nat list \<Rightarrow> nat list \<times> block_action list \<Rightarrow> bool" where
  "sound psync_sha1 bl bs files nxt st \<longleftrightarrow> delta_ok bl nxt st \<and> (\<forall>j < length bl. act_ok psync_sha1 bl bs files j (snd st ! j))"

lemma try_match_sound:
  assumes "sound psync_sha1 bl bs files nxt st" "fileidx < length files" "p + bs \<le> round_up (length (files ! fileidx)) bs"
  shows "\<exists>st'. try_match psync_sha1 bl nxt fileidx a (win bs (files ! fileidx) p) p st = Some st' \<and> sound psync_sha1 bl bs files nxt st'"
proof -
  obtain els acts where st: "st = (els, acts)" by (cases st)
  have ok: "delta_ok bl nxt (els, acts)" "table_ok bl els" "length acts = length bl"
    "\<And>j. j < length bl \<Longrightarrow> act_ok psync_sha1 bl bs files j (acts ! j)"
    using assms(1) by (auto simp: sound_def st delta_ok_def)
  let ?w = "win bs (files ! fileidx) p"
  obtain idx where idx: "psync_net_hash_has_adler_and_sha1 els bl a (psync_sha1 ?w) = Some idx"
    "if \<exists>i \<in> set els. i \<noteq> 0 \<and> has_key bl a (psync_sha1 ?w) i then idx \<in> set els \<and> idx \<noteq> 0 \<and> has_key bl a (psync_sha1 ?w) idx else idx = 0"
    using has_adler_and_sha1_correct [OF ok(2)] by blast
  show ?thesis
  proof (cases "(\<exists>i \<in> set els. i \<noteq> 0 \<and> adler (bl ! (i - 1)) = a) \<and> idx \<noteq> 0")
    case False
    then have "try_match psync_sha1 bl nxt fileidx a ?w p st = Some st"
      using idx(1) has_adler_correct [OF ok(2), of a] by (auto simp: try_match_def st)
    with assms(1) show ?thesis by simp
  next
    case True
    then have key: "idx \<in> set els" "sha1 (bl ! (idx - 1)) = psync_sha1 ?w"
      using idx(2) by (auto simp: has_key_def split: if_splits)
    from match_found_correct [OF ok(1) key(1) conjunct2 [OF True], of fileidx p, unfolded key(2)] obtain els' acts' where
      m: "psync_net_block_match_found bl nxt idx fileidx p (els, acts) = Some (els', acts')" "delta_ok bl nxt (els', acts')"
      "marked bl (psync_sha1 ?w) (copies fileidx p) acts acts'" by blast
    have "act_ok psync_sha1 bl bs files j (acts' ! j)" if "j < length bl" for j
      using m(3) ok(3,4) that assms(2,3) by (auto simp: marked_def act_ok_def copies_def)
    moreover have "try_match psync_sha1 bl nxt fileidx a ?w p st = Some (els', acts')"
      using True idx(1) has_adler_correct [OF ok(2), of a] m(1) by (simp add: try_match_def st)
    ultimately show ?thesis using m(2) by (auto simp: sound_def)
  qed
qed

lemma match_windows_sound:
  assumes "sound psync_sha1 bl bs files nxt st" "fileidx < length files"
    "\<forall>p \<in> set ps. p + bs \<le> round_up (length (files ! fileidx)) bs"
  shows "\<exists>st'. match_windows psync_sha1 bl nxt fileidx (files ! fileidx) bs ps st = Some st' \<and> sound psync_sha1 bl bs files nxt st'"
  using assms(1,3)
proof (induction ps arbitrary: st)
  case (Cons p ps)
  then obtain st1 where "try_match psync_sha1 bl nxt fileidx (adler32 ADLER32_INITIAL (win bs (files ! fileidx) p))
      (win bs (files ! fileidx) p) p st = Some st1" "sound psync_sha1 bl bs files nxt st1"
    using try_match_sound [OF Cons.prems(1) assms(2)] by fastforce
  with Cons show ?case by simp
qed simp

subsection \<open>The ranges\<close>

record range_list =
  roff :: nat
  rlen :: nat
  rtype :: range_type
  rfile :: "nat option"

datatype checksums_result = PermFail | TempFail | Checksums "file_checksums option"

text \<open>The outcomes: the list of ranges, a temporary failure, and two accesses outside of memory.\<close>

datatype ranges_result = Ranges "range_list list" | TemporaryFailure | NullChecksums | NoBlocks

fun check_files ::
  "(bytes \<Rightarrow> bytes) \<Rightarrow> bytes \<Rightarrow> file_checksums \<Rightarrow> nat list \<Rightarrow> nat \<Rightarrow> bytes list \<Rightarrow>
   nat list \<times> block_action list \<Rightarrow> (nat list \<times> block_action list) option" where
  "check_files psync_sha1 mem cs nxt i [] st = Some st"
| "check_files psync_sha1 mem cs nxt i (content # files) st =
     Option.bind (psync_net_check_file_for_blocks psync_sha1 mem cs nxt i content st)
       (check_files psync_sha1 mem cs nxt (i + 1) files)"

definition start_range :: "nat \<Rightarrow> nat \<Rightarrow> nat \<Rightarrow> block_action \<Rightarrow> range_list" where
  "start_range bs i len act =
     (if atype act = PSYNC_RANGE_COPY
      then \<lparr>roff = aoff act, rlen = len, rtype = PSYNC_RANGE_COPY, rfile = Some (aidx act)\<rparr>
      else \<lparr>roff = i * bs, rlen = len, rtype = atype act, rfile = None\<rparr>)"

definition block_len :: "file_checksums \<Rightarrow> nat \<Rightarrow> nat" where
  "block_len cs i =
     (if i = length (blocks cs) - 1
      then (let bs = filesize cs mod blocksize cs in if bs = 0 then blocksize cs else bs)
      else blocksize cs)"

definition range_step :: "file_checksums \<Rightarrow> block_action list \<Rightarrow> nat \<Rightarrow> range_list list \<times> range_list \<Rightarrow> range_list list \<times> range_list" where
  "range_step cs acts i = (\<lambda>(ranges, cur).
     let act = acts ! i; bs = block_len cs i
     in if atype act \<noteq> rtype cur \<or>
           rtype cur = PSYNC_RANGE_COPY \<and> (rfile cur \<noteq> Some (aidx act) \<or> roff cur + rlen cur \<noteq> aoff act)
        then (ranges @ [cur], start_range (blocksize cs) i bs act)
        else (ranges, cur\<lparr>rlen := rlen cur + bs\<rparr>))"

definition build_ranges :: "file_checksums \<Rightarrow> block_action list \<Rightarrow> range_list list" where
  "build_ranges cs acts =
     (let (ranges, cur) = fold (range_step cs acts) [1..<length (blocks cs)]
            ([], start_range (blocksize cs) 0 (blocksize cs) (acts ! 0))
      in ranges @ [cur])"

definition full_download :: "nat \<Rightarrow> range_list list" where
  "full_download fsize = [\<lparr>roff = 0, rlen = fsize, rtype = PSYNC_RANGE_TRANSFER, rfile = None\<rparr>]"

definition psync_net_download_ranges ::
  "(bytes \<Rightarrow> bytes) \<Rightarrow> bytes \<Rightarrow> checksums_result \<Rightarrow> nat \<Rightarrow> bytes list \<Rightarrow> ranges_result option" where
  "psync_net_download_ranges psync_sha1 mem checksums fsize files =
     (if files = [] then Some (Ranges (full_download fsize))
      else case checksums of
        PermFail \<Rightarrow> Some (Ranges (full_download fsize))
      | TempFail \<Rightarrow> Some TemporaryFailure
      | Checksums None \<Rightarrow> Some NullChecksums
      | Checksums (Some cs) \<Rightarrow>
          if filesize cs \<noteq> fsize then Some TemporaryFailure
          else if blocks cs = [] then Some NoBlocks
          else Option.bind (psync_net_create_hash cs) (\<lambda>(els, nxt).
                 Option.bind (check_files psync_sha1 mem cs nxt 0 files
                   (els, replicate (length (blocks cs)) \<lparr>aoff = 0, aidx = 0, atype = PSYNC_RANGE_TRANSFER\<rparr>))
                   (\<lambda>(els, acts). Some (Ranges (build_ranges cs acts)))))"

subsection \<open>Using the ranges\<close>

text \<open>
  The loop of \<open>task_download_file\<close> over the ranges, when nobody stops the download and all writes succeed: a range to
  transfer is requested from the server, which has \<open>server\<close>; of a range to copy the local file is read until the range
  is complete, and a read that yields nothing is an error (\<open>None\<close>).
\<close>

function copy_bytes :: "bytes \<Rightarrow> nat \<Rightarrow> nat \<Rightarrow> bytes option" where
  "copy_bytes content pos result =
     (if result = 0 then Some []
      else let rd = pfile_read content pos (if result > PSYNC_COPY_BUFFER_SIZE then PSYNC_COPY_BUFFER_SIZE else result)
           in if rd = [] then None
              else map_option ((@) rd) (copy_bytes content (pos + length rd) (result - length rd)))"
  by pat_completeness auto
termination by (relation "measure (\<lambda>(content, pos, result). result)") (auto simp: pfile_read_def)

declare copy_bytes.simps [simp del]

definition get_range :: "bytes \<Rightarrow> bytes list \<Rightarrow> range_list \<Rightarrow> bytes option" where
  "get_range server files r =
     (if rlen r = 0 then Some []
      else if rtype r = PSYNC_RANGE_TRANSFER then Some (take (rlen r) (drop (roff r) server))
      else copy_bytes (files ! the (rfile r)) (roff r) (rlen r))"

fun get_ranges :: "bytes \<Rightarrow> bytes list \<Rightarrow> range_list list \<Rightarrow> bytes option" where
  "get_ranges server files [] = Some []"
| "get_ranges server files (r # ranges) =
     Option.bind (get_range server files r) (\<lambda>out. map_option ((@) out) (get_ranges server files ranges))"

lemma copy_bytes_eq:
  "copy_bytes content pos n = (if n = 0 \<or> pos + n \<le> length content then Some (take n (drop pos content)) else None)"
proof (induction content pos n rule: copy_bytes.induct)
  case (1 content pos n)
  define m where "m = (if n > PSYNC_COPY_BUFFER_SIZE then PSYNC_COPY_BUFFER_SIZE else n)"
  define rd where "rd = take m (drop pos content)"
  have m: "m \<le> n" "0 < n \<Longrightarrow> 0 < m" by (auto simp: m_def PSYNC_COPY_BUFFER_SIZE_def)
  consider "n = 0" | "0 < n" "rd = []" | "0 < n" "rd \<noteq> []" by auto
  then show ?case
  proof cases
    case 1
    then show ?thesis by (subst copy_bytes.simps) simp
  next
    case 2
    then have "length content \<le> pos" using m by (simp add: rd_def)
    with 2 show ?thesis
      by (subst copy_bytes.simps) (simp add: Let_def pfile_read_def m_def [symmetric] rd_def [symmetric])
  next
    case 3
    have e: "copy_bytes content pos n = map_option ((@) rd) (copy_bytes content (pos + length rd) (n - length rd))"
      using 3 by (subst copy_bytes.simps) (simp add: Let_def pfile_read_def m_def [symmetric] rd_def [symmetric])
    have IH: "copy_bytes content (pos + length rd) (n - length rd) =
        (if n - length rd = 0 \<or> pos + length rd + (n - length rd) \<le> length content
         then Some (take (n - length rd) (drop (pos + length rd) content)) else None)"
      by (rule "1.IH") (use 3 in \<open>simp_all add: pfile_read_def m_def [symmetric] rd_def\<close>)
    have len: "length rd = min m (length content - pos)" by (simp add: rd_def min.commute)
    show ?thesis
    proof (cases "pos + n \<le> length content")
      case True
      then have "length rd = m" "pos + length rd + (n - length rd) \<le> length content" using len m by simp_all
      moreover have "take n (drop pos content) = take m (drop pos content) @ take (n - m) (drop (pos + m) content)"
        using m(1) take_add [of m "n - m" "drop pos content"] by (simp add: add.commute)
      ultimately show ?thesis using True unfolding e IH by (simp add: rd_def)
    next
      case False
      then have "length content - pos < n" using 3(1) by simp
      then have "length rd < n" unfolding len by (rule min.strict_coboundedI2)
      moreover from this False have "\<not> pos + length rd + (n - length rd) \<le> length content" by simp
      ultimately show ?thesis using False 3(1) unfolding e IH by simp
    qed
  qed
qed

subsection \<open>The ranges rebuild the file\<close>

text \<open>What the server promises about the checksums of the file \<open>target\<close>.\<close>

definition describes :: "(bytes \<Rightarrow> bytes) \<Rightarrow> bytes \<Rightarrow> file_checksums \<Rightarrow> bool" where
  "describes psync_sha1 target cs \<longleftrightarrow> filesize cs = length target \<and>
     length (blocks cs) * blocksize cs = round_up (length target) (blocksize cs) \<and>
     (\<forall>i < length (blocks cs). sha1 (blocks cs ! i) = psync_sha1 (win (blocksize cs) target (i * blocksize cs)))"

text \<open>Different blocks of the target and of the local files have different digests.\<close>

definition no_collision :: "(bytes \<Rightarrow> bytes) \<Rightarrow> bytes \<Rightarrow> nat \<Rightarrow> bytes list \<Rightarrow> bool" where
  "no_collision psync_sha1 target bs files \<longleftrightarrow>
     (\<forall>content \<in> set files. \<forall>p q. p + bs \<le> round_up (length content) bs \<longrightarrow> q + bs \<le> round_up (length target) bs \<longrightarrow>
        psync_sha1 (win bs content p) = psync_sha1 (win bs target q) \<longrightarrow> win bs content p = win bs target q)"

text \<open>The bytes that a range stands for; \<open>read\<close> gives the bytes of a local file.\<close>

definition fetch :: "(bytes \<Rightarrow> bytes) \<Rightarrow> bytes \<Rightarrow> bytes list \<Rightarrow> range_list \<Rightarrow> bytes" where
  "fetch read_file target files r =
     (case rfile r of None \<Rightarrow> take (rlen r) (drop (roff r) target)
                    | Some i \<Rightarrow> take (rlen r) (drop (roff r) (read_file (files ! i))))"

definition in_file :: "bytes list \<Rightarrow> range_list \<Rightarrow> bool" where
  "in_file files r \<longleftrightarrow> (case rfile r of None \<Rightarrow> True | Some i \<Rightarrow> rlen r = 0 \<or> roff r + rlen r \<le> length (files ! i))"

text \<open>A range to copy has a file, and only such a range.\<close>

definition range_typed :: "range_list \<Rightarrow> bool" where
  "range_typed r \<longleftrightarrow> (rtype r = PSYNC_RANGE_COPY \<longleftrightarrow> rfile r \<noteq> None)"

lemma build_ranges_typed: "r \<in> set (build_ranges cs acts) \<Longrightarrow> range_typed r"
proof -
  have start: "range_typed (start_range bs i len act)" for bs i len act by (simp add: start_range_def range_typed_def)
  have "(\<forall>r \<in> set (fst st). range_typed r) \<and> range_typed (snd st) \<Longrightarrow>
      (\<forall>r \<in> set (fst (fold (range_step cs acts) is st)). range_typed r) \<and> range_typed (snd (fold (range_step cs acts) is st))" for "is" st
  proof (induction "is" arbitrary: st)
    case (Cons i "is")
    have "(\<forall>r \<in> set (fst (range_step cs acts i st)). range_typed r) \<and> range_typed (snd (range_step cs acts i st))"
      using Cons.prems start by (cases st) (auto simp: range_step_def Let_def range_typed_def)
    from Cons.IH [OF this] show ?case by simp
  qed simp
  from this [of "([], start_range (blocksize cs) 0 (blocksize cs) (acts ! 0))" "[1..<length (blocks cs)]"] start
  show "r \<in> set (build_ranges cs acts) \<Longrightarrow> range_typed r" by (auto simp: build_ranges_def case_prod_unfold Let_def)
qed

lemma get_range_eq:
  assumes "range_typed r"
  shows "get_range target files r = (if in_file files r then Some (fetch (\<lambda>f. f) target files r) else None)"
  using assms
  by (cases "rtype r")
    (auto simp: get_range_def range_typed_def in_file_def fetch_def copy_bytes_eq split: option.splits)

lemma get_ranges_eq:
  "\<forall>r \<in> set rs. range_typed r \<Longrightarrow>
   get_ranges target files rs = (if \<forall>r \<in> set rs. in_file files r then Some (concat (map (fetch (\<lambda>f. f) target files) rs)) else None)"
  by (induction rs) (simp_all add: get_range_eq)

lemma fetch_in_file: "in_file files r \<Longrightarrow> fetch (\<lambda>f. f) target files r = fetch (padded bs) target files r"
  by (auto simp: in_file_def fetch_def padded_def split: option.splits)

text \<open>The loop: the finished ranges and the current one stand for the blocks so far.\<close>

definition built :: "bytes \<Rightarrow> bytes list \<Rightarrow> nat \<Rightarrow> nat \<Rightarrow> range_list list \<times> range_list \<Rightarrow> bool" where
  "built target files bs i = (\<lambda>(ranges, cur).
     concat (map (fetch (padded bs) target files) ranges) @ fetch (padded bs) target files cur = take i target \<and>
     (rtype cur = PSYNC_RANGE_COPY \<longleftrightarrow> rfile cur \<noteq> None) \<and> (rfile cur = None \<longrightarrow> roff cur + rlen cur = i))"

lemma take_win:
  assumes "q + bs \<le> round_up (length content) bs" "0 < bs" "len \<le> bs"
  shows "take len (win bs content q) = take len (drop q (padded bs content))"
  using assms by (simp add: win_def)

lemma block_bytes:
  assumes "describes psync_sha1 target cs" "no_collision psync_sha1 target (blocksize cs) files"
    "act_ok psync_sha1 (blocks cs) (blocksize cs) files i act" "i < length (blocks cs)" "0 < blocksize cs"
    "len \<le> blocksize cs" "i * blocksize cs + len \<le> length target"
  shows "fetch (padded (blocksize cs)) target files (start_range (blocksize cs) i len act) = take len (drop (i * blocksize cs) target)"
proof (cases "atype act = PSYNC_RANGE_COPY")
  case False
  then show ?thesis by (simp add: fetch_def start_range_def)
next
  case True
  let ?bs = "blocksize cs" and ?f = "files ! aidx act"
  have a: "aidx act < length files" "aoff act + ?bs \<le> round_up (length ?f) ?bs"
    "psync_sha1 (win ?bs ?f (aoff act)) = psync_sha1 (win ?bs target (i * ?bs))"
    using assms(1,3,4) True by (simp_all add: act_ok_def describes_def)
  have q: "i * ?bs + ?bs \<le> round_up (length target) ?bs"
    using assms(1,4) by (metis describes_def Suc_leI mult_Suc mult_le_mono1 add.commute)
  have "win ?bs ?f (aoff act) = win ?bs target (i * ?bs)"
    using assms(2) a q nth_mem by (auto simp: no_collision_def)
  then have "take len (drop (aoff act) (padded ?bs ?f)) = take len (drop (i * ?bs) (padded ?bs target))"
    using take_win [OF a(2) assms(5,6)] take_win [OF q assms(5,6)] by simp
  also have "\<dots> = take len (drop (i * ?bs) target)" using assms(7) by (simp add: padded_def)
  finally show ?thesis using True by (simp add: fetch_def start_range_def)
qed

lemma take_drop_add: "take (a + b) (drop k xs) = take a (drop k xs) @ take b (drop (k + a) xs)"
  by (simp add: take_add add.commute)

lemma built_step:
  assumes "built target files bs (i * bs) st" "bs = blocksize cs" "len = block_len cs i"
    "fetch (padded bs) target files (start_range bs i len (acts ! i)) = take len (drop (i * bs) target)"
  shows "built target files bs (i * bs + len) (range_step cs acts i st)"
proof -
  obtain ranges cur where st: "st = (ranges, cur)" by (cases st)
  let ?act = "acts ! i" and ?fetch = "fetch (padded bs) target files"
  have b: "concat (map ?fetch ranges) @ ?fetch cur = take (i * bs) target"
    "rtype cur = PSYNC_RANGE_COPY \<longleftrightarrow> rfile cur \<noteq> None" "rfile cur = None \<Longrightarrow> roff cur + rlen cur = i * bs"
    using assms(1) by (auto simp: built_def st)
  have next_: "take (i * bs + len) target = take (i * bs) target @ take len (drop (i * bs) target)" by (rule take_add)
  show ?thesis
  proof (cases "atype ?act \<noteq> rtype cur \<or>
      rtype cur = PSYNC_RANGE_COPY \<and> (rfile cur \<noteq> Some (aidx ?act) \<or> roff cur + rlen cur \<noteq> aoff ?act)")
    case True
    then have "range_step cs acts i st = (ranges @ [cur], start_range bs i len ?act)"
      by (simp add: range_step_def st Let_def assms(2,3))
    then show ?thesis using b assms(4) next_ by (auto simp: built_def start_range_def)
  next
    case False
    then have step: "range_step cs acts i st = (ranges, cur\<lparr>rlen := rlen cur + len\<rparr>)"
      by (auto simp: range_step_def st Let_def assms(3))
    have "?fetch (cur\<lparr>rlen := rlen cur + len\<rparr>) = ?fetch cur @ ?fetch (start_range bs i len ?act)"
      using False b(2,3) by (cases "rfile cur") (auto simp: fetch_def start_range_def take_drop_add)
    then show ?thesis using b assms(4) next_ step by (auto simp: built_def)
  qed
qed

text \<open>The end of block \<open>i\<close> in the target.\<close>

lemma block_end:
  assumes "describes psync_sha1 target cs" "0 < blocksize cs" "i < length (blocks cs)" "blocks cs \<noteq> []"
  shows "block_len cs i \<le> blocksize cs \<and> i * blocksize cs + block_len cs i = min ((i + 1) * blocksize cs) (length target)"
proof -
  let ?bs = "blocksize cs" and ?n = "length (blocks cs)" and ?t = "length target"
  have n: "?n * ?bs = round_up ?t ?bs" "filesize cs = ?t" using assms(1) by (simp_all add: describes_def)
  have up: "?t \<le> ?n * ?bs" using round_up_le [OF assms(2)] by (simp add: n)
  have low: "?n * ?bs < ?t + ?bs"
    using div_times_less_eq_dividend [of "?t + ?bs - 1" ?bs] assms(2) unfolding n(1) round_up_def by linarith
  show ?thesis
  proof (cases "i = ?n - 1")
    case False
    then have "(i + 1) * ?bs + ?bs \<le> ?n * ?bs"
      using assms(3) mult_le_mono1 [of "i + 2" ?n ?bs] by (simp add: algebra_simps)
    with low False show ?thesis by (simp add: block_len_def)
  next
    case True
    then have "i + 1 = ?n" using assms(3) by simp
    then have i: "(i + 1) * ?bs = ?n * ?bs" by simp
    then have i2: "i * ?bs + ?bs = ?n * ?bs" by (simp only: add_mult_distrib mult_1)
    define r where "r = ?t - i * ?bs"
    have r: "?t = r + i * ?bs" "0 < r" "r \<le> ?bs" using up low i2 by (simp_all add: r_def)
    have "?t mod ?bs = r mod ?bs" by (simp add: r(1))
    then have "block_len cs i = r" using True r(2,3) by (auto simp: block_len_def n(2) Let_def le_less split: if_splits)
    with r i up show ?thesis by (simp add: add.commute)
  qed
qed

lemma build_ranges_correct:
  assumes d: "describes psync_sha1 target cs" and nc: "no_collision psync_sha1 target (blocksize cs) files"
    and ok: "\<forall>j < length (blocks cs). act_ok psync_sha1 (blocks cs) (blocksize cs) files j (acts ! j)"
    and bs: "0 < blocksize cs" "blocksize cs \<le> length target"
  shows "concat (map (fetch (padded (blocksize cs)) target files) (build_ranges cs acts)) = target"
proof -
  let ?bs = "blocksize cs" and ?n = "length (blocks cs)" and ?t = "length target"
  let ?st = "([], start_range ?bs 0 ?bs (acts ! 0))"
  have n: "?n * ?bs = round_up ?t ?bs" using d by (simp add: describes_def)
  then have up: "?t \<le> ?n * ?bs" using round_up_le [OF bs(1)] by simp
  with bs have ne: "blocks cs \<noteq> []" by (cases "blocks cs") auto
  have "built target files ?bs (min (m * ?bs) ?t) (fold (range_step cs acts) [1..<m] ?st)" if "1 \<le> m" "m \<le> ?n" for m
    using that
  proof (induction m rule: dec_induct)
    case base
    have "fetch (padded ?bs) target files (start_range ?bs 0 ?bs (acts ! 0)) = take ?bs (drop (0 * ?bs) target)"
      using ok ne bs by (intro block_bytes [OF d nc]) auto
    then show ?case using bs by (auto simp: built_def start_range_def min_absorb1)
  next
    case (step m)
    then have m: "m < ?n" by simp
    then have full: "min (m * ?bs) ?t = m * ?bs"
    proof -
      have "(m + 1) * ?bs \<le> ?n * ?bs" using m by (intro mult_le_mono1) simp
      moreover have "?n * ?bs < ?t + ?bs"
        using div_times_less_eq_dividend [of "?t + ?bs - 1" ?bs] bs(1) unfolding n round_up_def by linarith
      ultimately show ?thesis by simp
    qed
    note e = block_end [OF d bs(1) m ne]
    have "fetch (padded ?bs) target files (start_range ?bs m (block_len cs m) (acts ! m)) = take (block_len cs m) (drop (m * ?bs) target)"
      using ok m bs(1) e by (intro block_bytes [OF d nc]) auto
    from built_step [OF _ refl refl this] step m full
    have "built target files ?bs (m * ?bs + block_len cs m) (range_step cs acts m (fold (range_step cs acts) [1..<m] ?st))" by simp
    then show ?case using e step.hyps(1) by (simp add: upt_Suc)
  qed
  from this [of ?n] have "built target files ?bs ?t (fold (range_step cs acts) [1..<?n] ?st)"
    using ne up by (simp add: min_absorb2 Suc_le_eq)
  then show ?thesis by (auto simp: build_ranges_def built_def Let_def split: prod.splits)
qed

lemma check_files_sound:
  assumes "length mem = buffer_size (blocksize cs)" "blocksize cs = 2 ^ k" "blocksize cs \<le> 2 ^ 24"
    "sound psync_sha1 (blocks cs) (blocksize cs) (pre @ files) nxt st"
  shows "\<exists>st'. check_files psync_sha1 mem cs nxt (length pre) files st = Some st' \<and>
    sound psync_sha1 (blocks cs) (blocksize cs) (pre @ files) nxt st'"
  using assms(4)
proof (induction files arbitrary: pre st)
  case (Cons content files)
  let ?bs = "blocksize cs" and ?fs = "pre @ content # files"
  let ?ps = "if length content < ?bs then [] else [0..<round_up (length content) ?bs - ?bs + 1]"
  have bs: "0 < ?bs" by (simp add: assms(2))
  have c: "?fs ! length pre = content" by simp
  have "\<forall>p \<in> set ?ps. p + ?bs \<le> round_up (length (?fs ! length pre)) ?bs"
    using round_up_le [OF bs, of "length content"] by (auto simp del: upt_Suc)
  from match_windows_sound [OF Cons.prems _ this] obtain st1 where
    "match_windows psync_sha1 (blocks cs) nxt (length pre) content ?bs ?ps st = Some st1"
    "sound psync_sha1 (blocks cs) ?bs ?fs nxt st1" unfolding c by auto
  moreover have "?fs = (pre @ [content]) @ files" "length pre + 1 = length (pre @ [content])" by simp_all
  ultimately obtain st' where "check_files psync_sha1 mem cs nxt (length pre + 1) files st1 = Some st'"
    "sound psync_sha1 (blocks cs) ?bs ?fs nxt st'"
    using Cons.IH [of "pre @ [content]" st1] by metis
  moreover have "psync_net_check_file_for_blocks psync_sha1 mem cs nxt (length pre) content st = Some st1"
    unfolding check_file_is_plain_scan [OF assms(1-3)] by fact
  ultimately show ?case by simp
qed simp

text \<open>
  C17. The delta download rebuilds the file: for checksums that describe the file on the server, with a block size that is
  a power of two, at most \<open>2\<^sup>2\<^sup>4\<close> and at most the length of the file, when the digests of different blocks and windows differ,
  the table, the scans of all local files and the joining of blocks end, and the loop that transfers and copies the
  ranges writes exactly the file on the server; except when a range to copy ends behind the end of its local file (whose
  zeros the scan has added): then, and only then, the loop stops with an error.
\<close>

theorem download_ranges_rebuild:
  assumes "describes psync_sha1 target cs" "no_collision psync_sha1 target (blocksize cs) files"
    "blocksize cs = 2 ^ k" "blocksize cs \<le> 2 ^ 24" "blocksize cs \<le> length target" "length mem = buffer_size (blocksize cs)"
    "files \<noteq> []"
  shows "\<exists>rs. psync_net_download_ranges psync_sha1 mem (Checksums (Some cs)) (length target) files = Some (Ranges rs) \<and>
    get_ranges target files rs = (if \<forall>r \<in> set rs. in_file files r then Some target else None)"
proof -
  have bs: "0 < blocksize cs" by (simp add: assms(3))
  have "length (blocks cs) * blocksize cs \<ge> length target"
    using assms(1) round_up_le [OF bs] by (simp add: describes_def)
  with assms(5) bs have ne: "blocks cs \<noteq> []" by auto
  let ?acts = "replicate (length (blocks cs)) \<lparr>aoff = 0, aidx = 0, atype = PSYNC_RANGE_TRANSFER\<rparr>"
  obtain els nxt where h: "psync_net_create_hash cs = Some (els, nxt)" "table_ok (blocks cs) els" "links_ok (blocks cs) nxt"
    using create_hash_correct [OF ne] by blast
  then have "sound psync_sha1 (blocks cs) (blocksize cs) ([] @ files) nxt (els, ?acts)"
    by (simp add: sound_def delta_ok_def act_ok_def)
  from check_files_sound [OF assms(6,3,4) this] obtain els' acts where
    c: "check_files psync_sha1 mem cs nxt 0 files (els, ?acts) = Some (els', acts)"
    "sound psync_sha1 (blocks cs) (blocksize cs) files nxt (els', acts)" by auto
  let ?rs = "build_ranges cs acts"
  have rs: "concat (map (fetch (padded (blocksize cs)) target files) ?rs) = target"
    using c(2) by (intro build_ranges_correct [OF assms(1,2) _ bs assms(5)]) (simp add: sound_def)
  have "concat (map (fetch (\<lambda>f. f) target files) ?rs) = target" if "\<forall>r \<in> set ?rs. in_file files r"
    using rs that by (simp add: fetch_in_file [of files _ target "blocksize cs"] cong: map_cong)
  then have "get_ranges target files ?rs = (if \<forall>r \<in> set ?rs. in_file files r then Some target else None)"
    using get_ranges_eq [of ?rs target files] build_ranges_typed by auto
  moreover have "psync_net_download_ranges psync_sha1 mem (Checksums (Some cs)) (length target) files = Some (Ranges ?rs)"
    using assms(1,7) ne h(1) c(1) by (simp add: psync_net_download_ranges_def describes_def)
  ultimately show ?thesis by blast
qed

text \<open>A file of four bytes in two blocks, and a local file of three bytes that holds the first block.\<close>

definition small_cs :: "bytes \<Rightarrow> file_checksums" where
  "small_cs target = \<lparr>filesize = 4, blocksize = 2, blocks =
     [\<lparr>sha1 = take 2 target, adler = adler32 ADLER32_INITIAL (take 2 target)\<rparr>,
      \<lparr>sha1 = drop 2 target, adler = adler32 ADLER32_INITIAL (drop 2 target)\<rparr>]\<rparr>"

lemma small_describes: "length target = 4 \<Longrightarrow> describes (\<lambda>bs. bs) target (small_cs target)"
  by (auto simp: describes_def small_cs_def win_def padded_def round_up_def less_Suc_eq)

theorem check_file_is_plain_scan_witness:
  "psync_net_check_file_for_blocks (\<lambda>bs. bs) (replicate (buffer_size 2) 7) (small_cs [1, 2, 3, 4]) [0, 0] 0 [9, 1, 2]
      ([], []) =
    match_windows (\<lambda>bs. bs) (blocks (small_cs [1, 2, 3, 4])) [0, 0] 0 [9, 1, 2] 2 [0..<3] ([], [])"
  by (subst check_file_is_plain_scan [where k = 1]) (simp_all add: small_cs_def round_up_def)

theorem download_ranges_rebuild_witness:
  "\<exists>rs. psync_net_download_ranges (\<lambda>bs. bs) (replicate (buffer_size 2) 0) (Checksums (Some (small_cs [1, 2, 3, 4]))) 4 [[9, 1, 2]] =
     Some (Ranges rs) \<and>
     get_ranges [1, 2, 3, 4] [[9, 1, 2]] rs = (if \<forall>r \<in> set rs. in_file [[9, 1, 2]] r then Some [1, 2, 3, 4] else None)"
proof -
  let ?t = "[1, 2, 3, 4] :: bytes" and ?fs = "[[9, 1, 2]] :: bytes list"
  have "describes (\<lambda>bs. bs) ?t (small_cs ?t)" by (rule small_describes) simp
  moreover have "no_collision (\<lambda>bs. bs) ?t (blocksize (small_cs ?t)) ?fs" by (simp add: no_collision_def)
  ultimately have "\<exists>rs. psync_net_download_ranges (\<lambda>bs. bs) (replicate (buffer_size 2) 0) (Checksums (Some (small_cs ?t)))
      (length ?t) ?fs = Some (Ranges rs) \<and>
      get_ranges ?t ?fs rs = (if \<forall>r \<in> set rs. in_file ?fs r then Some ?t else None)"
    by (rule download_ranges_rebuild [where k = 1]) (simp_all add: small_cs_def)
  moreover have "length ?t = 4" by simp
  ultimately show ?thesis by metis
qed

end
