(* ===== verification/PUpload.thy ===== *)
theory PUpload
  imports PDelta
begin

text \<open>
  The delta upload of \<open>pclsync/pnetlibs.c\<close>: the ranges of a file that are still to be sent are scanned for blocks
  that the server already has, in a file or in an earlier upload, and are cut into ranges to copy and ranges to
  send. The scan is the one of the download, but it stays in its range and skips a block when it has found it. \<open>fd off\<close>
  is the content of the local file from the offset on, or \<open>None\<close> when the file cannot be positioned there.
\<close>

subsection \<open>The code\<close>

text \<open>The type of a range with the member of the union that belongs to it.\<close>

datatype urange_type = PSYNC_URANGE_UPLOAD | PSYNC_URANGE_COPY_FILE u64 u64 | PSYNC_URANGE_COPY_UPLOAD u64 | PSYNC_URANGE_LAST

record upload_range =
  uploadoffset :: nat
  uoff :: nat
  ulen :: nat
  utype :: urange_type

definition upload_buffer_size :: "nat \<Rightarrow> nat \<Rightarrow> nat" where
  "upload_buffer_size bs len = (if bs * 2 > PSYNC_COPY_BUFFER_SIZE \<or> len < PSYNC_COPY_BUFFER_SIZE then bs * 2 else PSYNC_COPY_BUFFER_SIZE)"

text \<open>The first read: \<open>None\<close> when it does not fill a half of the buffer.\<close>

definition upload_start :: "bytes \<Rightarrow> bytes \<Rightarrow> nat \<Rightarrow> nat \<Rightarrow> scan option" where
  "upload_start mem content bs buffersize =
     (let hbuffersize = buffersize div 2; rd = pfile_read content 0 hbuffersize; b = put 0 rd mem
      in if length rd < hbuffersize then None
         else Some \<lparr>buff = b, buffoff = 0, inbyteoff = bs, outbyteoff = 0, bufferlen = buffersize, fpos = length rd,
                    adl = adler32 ADLER32_INITIAL (take bs b)\<rparr>)"

text \<open>The index of the block with the checksum and the digest of the window, or 0.\<close>

definition find_block :: "(bytes \<Rightarrow> bytes) \<Rightarrow> block_checksum list \<Rightarrow> nat list \<Rightarrow> u32 \<Rightarrow> bytes \<Rightarrow> nat option" where
  "find_block psync_sha1 bl els a w =
     Option.bind (psync_net_hash_has_adler els bl a) (\<lambda>found.
       if found then psync_net_hash_has_adler_and_sha1 els bl a (psync_sha1 w) else Some 0)"

text \<open>The new range, joined with the last one where both sides go on.\<close>

definition add_range :: "nat \<Rightarrow> nat \<Rightarrow> nat \<Rightarrow> upload_range list \<Rightarrow> upload_range list" where
  "add_range at blockoff blen nr =
     (if nr \<noteq> [] \<and> uoff (last nr) + ulen (last nr) = blockoff \<and> uploadoffset (last nr) + ulen (last nr) = at
      then butlast nr @ [(last nr)\<lparr>ulen := ulen (last nr) + blen\<rparr>]
      else nr @ [\<lparr>uploadoffset = at, uoff = blockoff, ulen = blen, utype = PSYNC_URANGE_UPLOAD\<rparr>])"

definition to_block_end :: "nat \<Rightarrow> scan \<Rightarrow> nat" where
  "to_block_end bs s = (let r = bs - (inbyteoff s AND (bs - 1)) in if r = bs then 0 else r)"

definition advance :: "nat \<Rightarrow> scan \<Rightarrow> scan" where
  "advance n s = s\<lparr>inbyteoff := inbyteoff s + n, outbyteoff := outbyteoff s + n\<rparr>"

definition upload_checkpoint :: "bytes \<Rightarrow> nat \<Rightarrow> scan \<Rightarrow> scan option" where
  "upload_checkpoint content bs s =
     (if inbyteoff s AND (bs - 1) = 0
      then let s = (if outbyteoff s \<ge> length (buff s)
                    then s\<lparr>outbyteoff := outbyteoff s - length (buff s), buffoff := buffoff s + length (buff s)\<rparr> else s)
           in if inbyteoff s = bufferlen s
              then if bufferlen s \<noteq> length (buff s) then None else read_half content bs 0 (s\<lparr>inbyteoff := 0\<rparr>)
              else if inbyteoff s = length (buff s) div 2 then read_half content bs (length (buff s) div 2) s
              else Some s
      else Some s)"

text \<open>Behind a block that was found: the rest of the skip, and the checksum of the new window.\<close>

definition jump :: "nat \<Rightarrow> nat \<Rightarrow> scan \<Rightarrow> scan" where
  "jump bs skipbytes s =
     (let s = advance skipbytes s
      in s\<lparr>adl := if outbyteoff s < inbyteoff s then adler32 ADLER32_INITIAL (take bs (drop (outbyteoff s) (buff s)))
                  else adler32 (adler32 ADLER32_INITIAL (drop (outbyteoff s) (buff s))) (take (inbyteoff s) (buff s))\<rparr>)"

text \<open>\<open>skip\<close> is \<open>skipbytes\<close>, with \<open>None\<close> for \<open>- 1\<close>.\<close>

partial_function (option) range_loop ::
  "(bytes \<Rightarrow> bytes) \<Rightarrow> block_checksum list \<Rightarrow> nat list \<Rightarrow> nat \<Rightarrow> nat \<Rightarrow> bytes \<Rightarrow> nat \<Rightarrow> scan \<Rightarrow> nat option \<Rightarrow> upload_range list \<Rightarrow>
   upload_range list option" where
  "range_loop psync_sha1 bl els off len content bs s skip nr =
     (if buffoff s + outbyteoff s < len
      then Option.bind (find_block psync_sha1 bl els (adl s) (window_of bs s)) (\<lambda>blockidx.
        let at = buffoff s + outbyteoff s; blen = (if at + bs \<le> len then bs else len - at);
            nr = (if blockidx \<noteq> 0 then add_range (off + at) ((blockidx - 1) * bs) blen nr else nr)
        in if blockidx \<noteq> 0 \<and> blen \<noteq> bs then Some nr
           else let r = to_block_end bs s; skip = (if blockidx \<noteq> 0 then Some (bs - r) else skip);
                    s = (if blockidx \<noteq> 0 then advance r s else s)
                in if upload_checkpoint content bs s = None then Some nr
                   else if inbyteoff s AND (bs - 1) = 0 \<and> skip \<noteq> None
                   then range_loop psync_sha1 bl els off len content bs (jump bs (the skip) (the (upload_checkpoint content bs s))) None nr
                   else range_loop psync_sha1 bl els off len content bs (roll bs (the (upload_checkpoint content bs s))) skip nr)
      else Some nr)"

declare range_loop.simps [code]

datatype range_check = Found "upload_range list" | SeekFailed

definition check_range_for_blocks ::
  "(bytes \<Rightarrow> bytes) \<Rightarrow> (nat \<Rightarrow> bytes) \<Rightarrow> file_checksums \<Rightarrow> nat list \<Rightarrow> nat \<Rightarrow> nat \<Rightarrow> (nat \<Rightarrow> bytes option) \<Rightarrow> range_check option" where
  "check_range_for_blocks psync_sha1 mem cs els off len fd =
     (case fd off of
        None \<Rightarrow> Some SeekFailed
      | Some content \<Rightarrow>
          let bs = blocksize cs; buffersize = upload_buffer_size bs len
          in (case upload_start (mem buffersize) content bs buffersize of
                None \<Rightarrow> Some (Found [])
              | Some s \<Rightarrow> map_option Found (range_loop psync_sha1 (blocks cs) els off len content bs s None [])))"

text \<open>
  Cutting the range \<open>le\<close> at the found ranges. A found range as long as \<open>le\<close> takes its place and \<open>le\<close> is freed: \<open>None\<close>,
  a use of freed memory, if more ranges follow.
\<close>

fun merge_list_to_element :: "upload_range \<Rightarrow> upload_range list \<Rightarrow> upload_range list option" where
  "merge_list_to_element le [] = Some [le]"
| "merge_list_to_element le (ur # rlist) =
     (if ulen ur = ulen le then (if rlist = [] then Some [ur] else None)
      else if uploadoffset ur = uploadoffset le
      then map_option ((#) ur)
             (merge_list_to_element (le\<lparr>uploadoffset := uploadoffset le + ulen ur, uoff := uoff le + ulen ur, ulen := ulen le - ulen ur\<rparr>) rlist)
      else if uploadoffset ur + ulen ur = uploadoffset le + ulen le
      then map_option (\<lambda>l. l @ [ur]) (merge_list_to_element (le\<lparr>ulen := ulen le - ulen ur\<rparr>) rlist)
      else let n = \<lparr>uploadoffset = uploadoffset ur + ulen ur, uoff = uploadoffset ur + ulen ur,
                    ulen = ulen le - (uploadoffset ur - uploadoffset le) - ulen ur, utype = PSYNC_URANGE_UPLOAD\<rparr>;
               le = le\<lparr>ulen := uploadoffset ur - uploadoffset le\<rparr>
           in map_option (\<lambda>l. le # ur # l) (merge_list_to_element n rlist))"

text \<open>The outcomes: the list of ranges with whether all were scanned, and the access through a missing checksum block.\<close>

datatype scan_result = Scanned "upload_range list" | ScanFailed "upload_range list" | NoChecksums

text \<open>The loop over the list of ranges; \<open>t\<close> is the type that found ranges get.\<close>

fun scan_list ::
  "(bytes \<Rightarrow> bytes) \<Rightarrow> (nat \<Rightarrow> bytes) \<Rightarrow> file_checksums \<Rightarrow> nat list \<Rightarrow> urange_type \<Rightarrow> (nat \<Rightarrow> bytes option) \<Rightarrow> upload_range list \<Rightarrow>
   upload_range list \<Rightarrow> scan_result option" where
  "scan_list psync_sha1 mem cs els t fd visited [] = Some (Scanned visited)"
| "scan_list psync_sha1 mem cs els t fd visited (ur # rlist) =
     (if ulen ur < blocksize cs \<or> utype ur \<noteq> PSYNC_URANGE_UPLOAD
      then scan_list psync_sha1 mem cs els t fd (visited @ [ur]) rlist
      else Option.bind (check_range_for_blocks psync_sha1 mem cs els (uoff ur) (ulen ur) fd) (\<lambda>rt.
        case rt of
          SeekFailed \<Rightarrow> Some (ScanFailed (visited @ ur # rlist))
        | Found nr \<Rightarrow>
            Option.bind (if nr \<noteq> [] then merge_list_to_element ur (map (\<lambda>le. le\<lparr>utype := t\<rparr>) nr) else Some [ur]) (\<lambda>l.
              scan_list psync_sha1 mem cs els t fd (visited @ l) rlist)))"

definition scan_for_blocks ::
  "(bytes \<Rightarrow> bytes) \<Rightarrow> (nat \<Rightarrow> bytes) \<Rightarrow> checksums_result \<Rightarrow> urange_type \<Rightarrow> (nat \<Rightarrow> bytes option) \<Rightarrow> upload_range list \<Rightarrow> scan_result option" where
  "scan_for_blocks psync_sha1 mem checksums t fd rlist =
     (case checksums of
        PermFail \<Rightarrow> Some (Scanned rlist)
      | TempFail \<Rightarrow> Some (ScanFailed rlist)
      | Checksums None \<Rightarrow> Some NoChecksums
      | Checksums (Some cs) \<Rightarrow>
          Option.bind (psync_net_create_hash cs) (\<lambda>(els, nxt). scan_list psync_sha1 mem cs els t fd [] rlist))"

definition psync_net_scan_file_for_blocks ::
  "(bytes \<Rightarrow> bytes) \<Rightarrow> (nat \<Rightarrow> bytes) \<Rightarrow> checksums_result \<Rightarrow> u64 \<Rightarrow> u64 \<Rightarrow> (nat \<Rightarrow> bytes option) \<Rightarrow> upload_range list \<Rightarrow> scan_result option" where
  "psync_net_scan_file_for_blocks psync_sha1 mem checksums fileid filehash fd rlist =
     scan_for_blocks psync_sha1 mem checksums (PSYNC_URANGE_COPY_FILE fileid filehash) fd rlist"

definition psync_net_scan_upload_for_blocks ::
  "(bytes \<Rightarrow> bytes) \<Rightarrow> (nat \<Rightarrow> bytes) \<Rightarrow> checksums_result \<Rightarrow> u64 \<Rightarrow> (nat \<Rightarrow> bytes option) \<Rightarrow> upload_range list \<Rightarrow> scan_result option" where
  "psync_net_scan_upload_for_blocks psync_sha1 mem checksums uploadid fd rlist =
     scan_for_blocks psync_sha1 mem checksums (PSYNC_URANGE_COPY_UPLOAD uploadid) fd rlist"

subsection \<open>The ring buffer\<close>

lemma adler32_append: "adler32 (adler32 ADLER32_INITIAL xs) ys = adler32 ADLER32_INITIAL (xs @ ys)"
proof -
  obtain a s where as: "adler_sums xs (1, 0) = (a, s)" by (cases "adler_sums xs (1, 0)")
  define d e where "d = a - a mod 65521" and "e = s - s mod 65521"
  have dm: "d mod 65521 = 0" "e mod 65521 = 0" by (simp_all add: d_def e_def mod_eq_0_iff_dvd)
  have "a = a mod 65521 + d" "s = s mod 65521 + e" by (simp_all add: d_def e_def)
  then have "adler_sums ys (a, s) = (fst (adler_sums ys (a mod 65521, s mod 65521)) + d, snd (adler_sums ys (a mod 65521, s mod 65521)) + e + length ys * d)"
    using adler_sums_shift [of ys "a mod 65521" d "s mod 65521" e] by simp
  moreover have "adler_value (x + d, y + e + length ys * d) = adler_value (x, y)" for x y
  proof (rule adler_value_cong)
    show "(x + d) mod 65521 = x mod 65521" using dm(1) by (metis add.right_neutral mod_add_right_eq)
    have "(e + length ys * d) mod 65521 = 0" using dm by (simp add: mod_eq_0_iff_dvd)
    then show "(y + e + length ys * d) mod 65521 = y mod 65521" by (metis add.assoc add.right_neutral mod_add_right_eq)
  qed
  ultimately have "adler_value (adler_sums ys (a, s)) = adler_value (adler_sums ys (a mod 65521, s mod 65521))" by simp
  then show ?thesis
    unfolding adler32_init adler32_sums [of "adler_value _"] adler_sums_append as unat_value by simp
qed

text \<open>The checksum plays no role in the reads.\<close>

lemma checkpoint_adl: "checkpoint content bs (s\<lparr>adl := x\<rparr>) = map_option (\<lambda>s. s\<lparr>adl := x\<rparr>) (checkpoint content bs s)"
  by (simp add: checkpoint_def read_half_def Let_def)

lemma boundary_same:
  assumes "bs dvd m" "bs dvd H" "m < e" "e \<le> m + bs" "0 < H"
  shows "boundary H e = boundary H (m + 1)"
proof (rule antisym)
  let ?b = "boundary H (m + 1)"
  have "bs dvd ?b" using assms(2) boundary_is_dvd dvd_trans by blast
  moreover have "m < ?b" using boundary_ge [OF assms(5), of "m + 1"] by simp
  ultimately have "m + bs \<le> ?b" by (rule dvd_step [OF assms(1)])
  then show "boundary H e \<le> ?b" using assms by (intro boundary_least boundary_is_dvd) simp_all
  show "?b \<le> boundary H e" using assms boundary_ge [OF assms(5), of e] by (intro boundary_least boundary_is_dvd) simp_all
qed

lemma ring_basic:
  assumes "ring_ok content bs p e s"
  shows "length (buff s) = 2 * (length (buff s) div 2)" "0 < bs" "bs dvd length (buff s) div 2" "0 < length (buff s) div 2" "p + bs \<le> e"
    "e \<le> round_up (length content) bs" "bs dvd length (buff s)" "0 < length (buff s)"
proof -
  show f: "length (buff s) = 2 * (length (buff s) div 2)" "0 < bs" "bs dvd length (buff s) div 2" "0 < length (buff s) div 2" "p + bs \<le> e"
    "e \<le> round_up (length content) bs" using assms by (simp_all add: ring_ok_def Let_def)
  show "bs dvd length (buff s)" using f(1,3) by (metis dvd_mult)
  show "0 < length (buff s)" using f(1,4) by linarith
qed

text \<open>Both checkpoints do the same.\<close>

lemma upload_checkpoint_eq:
  assumes ring: "ring_ok content bs p (p + bs) s" and top: "at_top bs p s" and bs: "bs = 2 ^ k"
  shows "upload_checkpoint content bs s = checkpoint content bs s"
proof (cases "inbyteoff s AND (bs - 1) = 0")
  case False
  then show ?thesis by (simp add: upload_checkpoint_def checkpoint_def)
next
  case True
  let ?B = "length (buff s)" and ?H = "length (buff s) div 2" and ?N = "round_up (length content) bs"
  note r = ring_basic [OF ring]
  note t = at_topD [OF top r(2,8)]
  have "bs dvd inbyteoff s" using True by (simp only: and_mod [OF bs] mod_eq_0_iff_dvd)
  have "bs dvd p + bs"
  proof (cases "(p + bs) mod ?B = 0")
    case True
    then have "?B dvd p + bs" by (simp only: mod_eq_0_iff_dvd)
    with r(7) show ?thesis by (rule dvd_trans)
  next
    case False
    then have "bs dvd (p + bs) mod ?B" using t(2) \<open>bs dvd inbyteoff s\<close> by simp
    then show ?thesis by (simp only: dvd_mod_iff [OF r(7)])
  qed
  then have al: "bs dvd p" by simp
  have out: "outbyteoff s \<le> ?B" using t(1) r(8) mod_less_divisor [OF r(8), of p] by (auto simp: less_imp_le)
  have eq: "outbyteoff s \<ge> ?B \<longleftrightarrow> outbyteoff s \<ge> bufferlen s"
  proof (cases "length content < boundary ?H (p + bs)")
    case False
    then have "bufferlen s = ?B" using ring by (simp add: ring_ok_def Let_def)
    then show ?thesis by simp
  next
    case True
    then have b: "bufferlen s = (?N - 1) mod ?B + 1" using ring by (simp add: ring_ok_def Let_def)
    show ?thesis
    proof (cases "outbyteoff s = ?B")
      case True
      have "bufferlen s \<le> ?B" using b mod_less_divisor [OF r(8), of "?N - 1"] by linarith
      with True show ?thesis by simp
    next
      case out': False
      then have o: "outbyteoff s = p mod ?B" using t(1) r(8) by (auto split: if_splits)
      have "?N \<le> boundary ?H (p + bs)" using True boundary_is_dvd [of ?H "p + bs"] r(3)
        by (intro round_up_least r(2)) (auto intro: dvd_trans)
      moreover have "boundary ?H (p + bs) = boundary ?H (p + 1)" using boundary_same [OF al r(3) _ _ r(4), of "p + bs"] r(2) by simp
      ultimately have N: "p + bs \<le> ?N" "?N \<le> boundary ?H (p + 1)" using r(6) by simp_all
      have "bs dvd p mod ?B" using al r(7) by (simp add: dvd_mod)
      then have "p mod ?B + bs \<le> ?B" using dvd_step [of bs "p mod ?B" ?B] r(7) mod_less_divisor [OF r(8), of p] by blast
      have "boundary ?H (p + 1) \<le> p - p mod ?B + ?B"
      proof (rule boundary_least [OF r(4)])
        have "?H dvd ?B" using r(1) by (metis dvd_triv_right)
        then show "?H dvd p - p mod ?B + ?B" by (simp add: minus_mod_eq_mult_div)
        show "p + 1 \<le> p - p mod ?B + ?B" using mod_less_divisor [OF r(8), of p] by (simp add: less_eq_Suc_le minus_mod_eq_mult_div [symmetric])
      qed
      then have up: "?N - 1 < p - p mod ?B + ?B" using N r(2) by linarith
      have lo: "p - p mod ?B + (p mod ?B + bs - 1) \<le> ?N - 1" using N(1) r(2) mod_less_eq_dividend [of p ?B] by linarith
      define j where "j = ?N - 1 - (p - p mod ?B)"
      have j: "?N - 1 = ?B * (p div ?B) + j" "j < ?B" "p mod ?B + bs - 1 \<le> j"
        using up lo by (simp_all add: j_def minus_mod_eq_mult_div)
      then have "(?N - 1) mod ?B = j" by (simp only: mod_mult_self4 mod_less)
      then have "bufferlen s > p mod ?B" using j(3) b r(2) by linarith
      then show ?thesis using o mod_less_divisor [OF r(8), of p] by linarith
    qed
  qed
  show ?thesis
  proof (cases "outbyteoff s \<ge> ?B")
    case True
    then have "outbyteoff s = ?B" using out by simp
    then show ?thesis using eq by (simp add: upload_checkpoint_def checkpoint_def)
  next
    case False
    then show ?thesis using eq by (simp add: upload_checkpoint_def checkpoint_def)
  qed
qed

text \<open>A block was found at \<open>p\<close>: first to the end of the block of the file, at \<open>p1\<close>, then on to \<open>p + bs\<close>.\<close>

lemma to_block_end:
  assumes ring: "ring_ok content bs p (p + bs) s" and top: "at_top bs p s" and bs: "bs = 2 ^ k"
  defines "r \<equiv> to_block_end bs s"
  shows "r < bs" "bs dvd p + r" "inbyteoff (advance r s) AND (bs - 1) = 0"
proof -
  let ?B = "length (buff s)"
  note b = ring_basic [OF ring]
  note t = at_topD [OF top b(2,8)]
  have m: "inbyteoff s mod bs = p mod bs"
  proof -
    have "(p + bs) mod ?B mod bs = p mod bs" using b(7) by (simp add: mod_mod_cancel)
    moreover have "?B mod bs = 0" using b(7) by simp
    ultimately show ?thesis using t(2) mod_mod_cancel [OF b(7), of "p + bs"] by (auto split: if_splits)
  qed
  have r: "r = (if p mod bs = 0 then 0 else bs - p mod bs)"
  proof -
    have "bs - p mod bs = bs \<longleftrightarrow> p mod bs = 0" using b(2) mod_less_divisor [OF b(2), of p] by linarith
    then show ?thesis unfolding r_def to_block_end_def Let_def and_mod [OF bs] m by simp
  qed
  then show "r < bs" using b(2) by auto
  have "p = p div bs * bs + p mod bs" by simp
  moreover have "p mod bs \<le> bs" using b(2) by (simp add: less_imp_le)
  ultimately have "p + r = p div bs * bs + (if p mod bs = 0 then 0 else bs)" unfolding r by (split if_split)+ linarith
  then show al: "bs dvd p + r" by simp
  have "(inbyteoff s + r) mod bs = (p + r) mod bs" using m by (metis mod_add_left_eq)
  then show "inbyteoff (advance r s) AND (bs - 1) = 0"
    using al by (simp only: advance_def and_mod [OF bs] mod_eq_0_iff_dvd [symmetric] scan.simps) simp
qed

lemma advance_to_block:
  assumes ring: "ring_ok content bs p (p + bs) s" and top: "at_top bs p s" and bs: "bs = 2 ^ k"
    and r: "r < bs" "bs dvd p + r"
  shows "ring_ok content bs (p + r) (p + r + bs) (advance r s\<lparr>adl := adler32 ADLER32_INITIAL (win bs content (p + r))\<rparr>)"
    "at_top bs (p + r) (advance r s)"
proof -
  let ?B = "length (buff s)" and ?H = "length (buff s) div 2" and ?N = "round_up (length content) bs"
  note b = ring_basic [OF ring]
  note t = top [unfolded at_top_def Let_def]
  have N: "p + r + bs \<le> ?N"
  proof (cases "p + bs = ?N")
    case True
    then have "bs dvd p + bs" by simp
    then have "bs dvd r" using r(2) by (metis dvd_add_right_iff dvd_add_triv_right_iff)
    then show ?thesis using r(1) b(6) dvd_imp_le [of bs r] by (cases "r = 0") auto
  next
    case False
    have "bs dvd ?N - bs" by simp
    show ?thesis
    proof (rule ccontr)
      assume "\<not> p + r + bs \<le> ?N"
      then have "?N < p + r + bs" by simp
      then have "?N + bs \<le> p + r + bs" using r(2) by (intro dvd_step) simp_all
      then show False using b(6) r(1) by linarith
    qed
  qed
  have same: "boundary ?H (p + r + bs) = boundary ?H (p + bs)"
    using boundary_same [OF r(2) b(3) _ _ b(4), of "p + r + bs"] boundary_same [OF r(2) b(3) _ _ b(4), of "p + bs"] r(1) b(2) by simp
  show "ring_ok content bs (p + r) (p + r + bs) (advance r s\<lparr>adl := adler32 ADLER32_INITIAL (win bs content (p + r))\<rparr>)"
    using ring N by (simp add: ring_ok_def Let_def advance_def same)
  have step: "(x + r) mod ?B = x mod ?B + r" if "bs dvd x + r + 1" for x
  proof -
    have "?B dvd x - x mod ?B" by simp
    then have d: "bs dvd x - x mod ?B" using b(7) by (rule dvd_trans [rotated])
    have "bs dvd (x + r + 1) - (x - x mod ?B)" by (rule dvd_diff_nat [OF that d])
    moreover have "(x + r + 1) - (x - x mod ?B) = x mod ?B + r + 1" using mod_less_eq_dividend [of x ?B] by linarith
    ultimately have "bs dvd x mod ?B + r + 1" by (simp only:)
    moreover have "x mod ?B + r + 1 < ?B + bs" using mod_less_divisor [OF b(8), of x] r(1) by linarith
    ultimately have "x mod ?B + r + 1 \<le> ?B" using dvd_step [of bs ?B "x mod ?B + r + 1"] b(7) by (meson leD leI)
    then have "x mod ?B + r < ?B" by simp
    then show ?thesis by (metis mod_add_left_eq mod_less)
  qed
  have "inbyteoff (advance r s) = (p + r + bs - 1) mod ?B + 1"
    using t step [of "p + bs - 1"] r(2) b(2) by (simp add: advance_def algebra_simps)
  moreover have "outbyteoff (advance r s) = (if p + r = 0 then 0 else (p + r - 1) mod ?B + 1)"
  proof (cases "p = 0")
    case True
    then have "r = 0" using r dvd_imp_le [of bs r] by auto
    then show ?thesis using t by (simp add: advance_def)
  next
    case False
    then show ?thesis using t step [of "p - 1"] r(2) by (simp add: advance_def)
  qed
  ultimately show "at_top bs (p + r) (advance r s)" using t by (simp add: at_top_def advance_def Let_def)
qed

lemma jump_correct:
  assumes ring: "ring_ok content bs p (p + bs + 1) s" and roll: "at_roll bs p s" and "bs dvd p" and n: "0 < n" "n \<le> bs"
  shows "ring_ok content bs (p + n) (p + n + bs) (jump bs n s)" "at_top bs (p + n) (jump bs n s)"
proof -
  let ?B = "length (buff s)" and ?H = "length (buff s) div 2" and ?N = "round_up (length content) bs"
  note b = ring_basic [OF ring]
  note t = roll [unfolded at_roll_def Let_def]
  let ?s = "advance n s\<lparr>adl := adler32 ADLER32_INITIAL (win bs content (p + n))\<rparr>"
  have e: "bs dvd p + bs" using assms(3) by simp
  have N: "p + n + bs \<le> ?N" using dvd_step [OF e round_up_dvd, of "length content"] b(6) n by simp
  have same: "boundary ?H (p + n + bs) = boundary ?H (p + bs + 1)"
    using boundary_same [OF e b(3) _ _ b(4), of "p + n + bs"] n by simp
  have r: "ring_ok content bs (p + n) (p + n + bs) ?s"
    using ring N b(2) by (simp add: ring_ok_def Let_def advance_def same)
  have step: "(x + n - 1) mod ?B + 1 = x mod ?B + n" if "bs dvd x" for x
  proof -
    have "bs dvd x mod ?B" using that b(7) by (simp add: dvd_mod)
    then have "x mod ?B + bs \<le> ?B" using dvd_step [of bs "x mod ?B" ?B] b(7) mod_less_divisor [OF b(8), of x] by blast
    then have "x mod ?B + (n - 1) < ?B" using n by linarith
    then have "(x + (n - 1)) mod ?B = x mod ?B + (n - 1)" by (metis mod_add_left_eq mod_less)
    then show ?thesis using n by simp
  qed
  have top: "at_top bs (p + n) (advance n s)"
    using t step [OF e] step [OF assms(3)] n by (simp add: at_top_def advance_def Let_def algebra_simps)
  then have top': "at_top bs (p + n) ?s" by (simp add: at_top_def)
  have "window_of bs ?s = win bs content (p + n)" by (rule window_ring [OF r top'])
  then have "jump bs n s = ?s"
    by (simp add: jump_def Let_def window_of_def adler32_append split: if_splits)
  then show "ring_ok content bs (p + n) (p + n + bs) (jump bs n s)" "at_top bs (p + n) (jump bs n s)" using r top' by simp_all
qed

subsection \<open>The found ranges\<close>

text \<open>The ranges lie between \<open>a\<close> and \<open>b\<close>, one behind the other.\<close>

fun spaced :: "nat \<Rightarrow> upload_range list \<Rightarrow> nat \<Rightarrow> bool" where
  "spaced a [] b \<longleftrightarrow> a \<le> b"
| "spaced a (r # rs) b \<longleftrightarrow> a \<le> uploadoffset r \<and> 0 < ulen r \<and> spaced (uploadoffset r + ulen r) rs b"

lemma spaced_snoc: "spaced a (rs @ [r]) b \<longleftrightarrow> spaced a rs (uploadoffset r) \<and> 0 < ulen r \<and> uploadoffset r + ulen r \<le> b"
  by (induction rs arbitrary: a) auto

lemma spaced_mono: "spaced a rs b \<Longrightarrow> b \<le> c \<Longrightarrow> spaced a rs c"
  by (induction rs arbitrary: a) auto

lemma spaced_le: "spaced a rs b \<Longrightarrow> a \<le> b"
proof (induction rs arbitrary: a)
  case (Cons r rs)
  then have "uploadoffset r + ulen r \<le> b" by simp
  with Cons.prems show ?case by simp
qed simp

text \<open>The bytes that the block range stands for on the server are those of the file.\<close>

definition copied_ok :: "bytes \<Rightarrow> bytes \<Rightarrow> upload_range \<Rightarrow> bool" where
  "copied_ok content remote r \<longleftrightarrow> take (ulen r) (drop (uoff r) remote) = take (ulen r) (drop (uploadoffset r) content)"

lemma add_range_correct:
  assumes "spaced a nr at" "\<forall>r \<in> set nr. copied_ok content remote r" "0 < blen"
    "take blen (drop blockoff remote) = take blen (drop at content)"
  shows "spaced a (add_range at blockoff blen nr) (at + blen)" "\<forall>r \<in> set (add_range at blockoff blen nr). copied_ok content remote r"
proof -
  have "spaced a (add_range at blockoff blen nr) (at + blen) \<and> (\<forall>r \<in> set (add_range at blockoff blen nr). copied_ok content remote r)"
  proof (cases "nr \<noteq> [] \<and> uoff (last nr) + ulen (last nr) = blockoff \<and> uploadoffset (last nr) + ulen (last nr) = at")
    case False
    then show ?thesis using assms by (auto simp: add_range_def spaced_snoc copied_ok_def)
  next
    case True
    let ?l = "last nr"
    have nr: "nr = butlast nr @ [?l]" using True by simp
    have l: "copied_ok content remote ?l" using assms(2) True by simp
    have "spaced a (butlast nr @ [?l]) at" using assms(1) nr by simp
    then have "spaced a (butlast nr) (uploadoffset ?l)" "0 < ulen ?l" unfolding spaced_snoc by blast+
    then have "spaced a (butlast nr @ [?l\<lparr>ulen := ulen ?l + blen\<rparr>]) (at + blen)" using True unfolding spaced_snoc by simp
    moreover have "copied_ok content remote (?l\<lparr>ulen := ulen ?l + blen\<rparr>)"
      using l assms(4) True unfolding copied_ok_def by (simp add: take_drop_add)
    moreover have "\<forall>r \<in> set (butlast nr). copied_ok content remote r" using assms(2) by (auto dest: in_set_butlastD)
    ultimately show ?thesis using True by (auto simp: add_range_def)
  qed
  then show "spaced a (add_range at blockoff blen nr) (at + blen)" "\<forall>r \<in> set (add_range at blockoff blen nr). copied_ok content remote r" by blast+
qed

lemma find_block_correct:
  assumes "table_ok bl els"
  shows "\<exists>idx. find_block psync_sha1 bl els a w = Some idx \<and> (idx \<noteq> 0 \<longrightarrow> idx - 1 < length bl \<and> sha1 (bl ! (idx - 1)) = psync_sha1 w)"
proof -
  obtain idx where idx: "psync_net_hash_has_adler_and_sha1 els bl a (psync_sha1 w) = Some idx"
    "if \<exists>i \<in> set els. i \<noteq> 0 \<and> has_key bl a (psync_sha1 w) i then idx \<in> set els \<and> idx \<noteq> 0 \<and> has_key bl a (psync_sha1 w) idx else idx = 0"
    using has_adler_and_sha1_correct [OF assms] by blast
  have in_bl: "i - 1 < length bl" if "i \<in> set els" "i \<noteq> 0" for i
    using assms that by (force simp: table_ok_def)
  then have "idx \<noteq> 0 \<longrightarrow> idx - 1 < length bl \<and> sha1 (bl ! (idx - 1)) = psync_sha1 w"
    using idx(2) by (auto simp: has_key_def split: if_splits)
  then show ?thesis using has_adler_correct [OF assms, of a] idx(1) by (auto simp: find_block_def)
qed

text \<open>The loop ends, and every range it has found is right.\<close>

lemma range_loop_correct:
  assumes "ring_ok content bs p (p + bs) s" "at_top bs p s" "bs = 2 ^ k" "bs \<le> 2 ^ 24" "table_ok bl els"
    and cs: "describes psync_sha1 target cs" "bl = blocks cs" "bs = blocksize cs"
    and nc: "no_collision psync_sha1 target bs [content]"
    and whole: "content = drop off file" "off + len \<le> length file"
    and "spaced off nr (off + p)" "\<forall>r \<in> set nr. copied_ok file (padded bs target) r" "p \<le> len"
  shows "\<exists>nr'. range_loop psync_sha1 bl els off len content bs s None nr = Some nr' \<and> spaced off nr' (off + len) \<and>
    (\<forall>r \<in> set nr'. copied_ok file (padded bs target) r)"
  using assms(1,2,12-)
proof (induction "round_up (length content) bs - p" arbitrary: p s nr rule: less_induct)
  case less
  let ?N = "round_up (length content) bs" and ?w = "win bs content p" and ?remote = "padded bs target"
  note b = ring_basic [OF less.prems(1)]
  have at: "buffoff s + outbyteoff s = p" using less.prems(2) by (simp add: at_top_def Let_def)
  show ?case
  proof (cases "p < len")
    case False
    then show ?thesis using less.prems at by (subst range_loop.simps) simp
  next
    case True
    obtain idx where idx: "find_block psync_sha1 bl els (adl s) ?w = Some idx" "idx \<noteq> 0 \<longrightarrow> idx - 1 < length bl \<and> sha1 (bl ! (idx - 1)) = psync_sha1 ?w"
      using find_block_correct [OF assms(5)] by blast
    have w: "window_of bs s = ?w" by (rule window_ring [OF less.prems(1,2)])
    show ?thesis
    proof (cases "idx = 0")
      case 0: True
      note cp = checkpoint_correct [OF less.prems(1,2) assms(3)] upload_checkpoint_eq [OF less.prems(1,2) assms(3)]
      show ?thesis
      proof (cases "p + bs = ?N")
        case True
        then have "range_loop psync_sha1 bl els off len content bs s None nr = Some nr"
          using idx(1) 0 cp at \<open>p < len\<close> by (subst range_loop.simps) (simp add: w Let_def)
        then show ?thesis using less.prems(3,4,5) by (auto intro: spaced_mono)
      next
        case False
        then obtain s' where s': "checkpoint content bs s = Some s'" "ring_ok content bs p (p + bs + 1) s'" "at_roll bs p s'"
          using cp(1) by auto
        have "range_loop psync_sha1 bl els off len content bs s None nr = range_loop psync_sha1 bl els off len content bs (roll bs s') None nr"
          using idx(1) 0 cp(2) s'(1) at \<open>p < len\<close> by (subst range_loop.simps) (simp add: w Let_def)
        moreover have "\<exists>nr'. range_loop psync_sha1 bl els off len content bs (roll bs s') None nr = Some nr' \<and> spaced off nr' (off + len) \<and>
            (\<forall>r \<in> set nr'. copied_ok file ?remote r)"
          using roll_correct [OF s'(2,3) assms(4)] less.prems(3,4) \<open>p < len\<close> b
          by (intro less.hyps [of "p + 1"]) (auto intro: spaced_mono)
        ultimately show ?thesis by simp
      qed
    next
      case found: False
      let ?q = "(idx - 1) * bs" and ?blen = "if p + bs \<le> len then bs else len - p"
      let ?nr = "add_range (off + p) ?q ?blen nr"
      have blen: "0 < ?blen" "?blen \<le> bs" "p + ?blen \<le> len" using b(2) True by auto
      have q: "?q + bs \<le> round_up (length target) bs"
      proof -
        have "idx - 1 < length bl" using idx(2) found by blast
        then have "(idx - 1 + 1) * bs \<le> length bl * bs" by (intro mult_le_mono1) linarith
        then show ?thesis using cs by (simp add: describes_def)
      qed
      have "\<forall>i < length bl. sha1 (bl ! i) = psync_sha1 (win bs target (i * bs))" using cs by (simp add: describes_def)
      then have "psync_sha1 ?w = psync_sha1 (win bs target ?q)" using idx(2) found by metis
      then have "?w = win bs target ?q" using nc b(5,6) q by (auto simp: no_collision_def)
      then have "take ?blen (drop p (padded bs content)) = take ?blen (drop ?q ?remote)"
        using take_win [of p bs content ?blen] take_win [OF q b(2) blen(2)] b(2,5,6) blen(2) by simp
      moreover have "take ?blen (drop p (padded bs content)) = take ?blen (drop (off + p) file)"
        using blen whole by (simp add: padded_def add.commute)
      ultimately have bytes: "take ?blen (drop ?q ?remote) = take ?blen (drop (off + p) file)" by simp
      note nr = add_range_correct [OF less.prems(3,4) blen(1) bytes]
      show ?thesis
      proof (cases "p + bs \<le> len")
        case False
        then have "len - p \<noteq> bs" using \<open>p < len\<close> by linarith
        with False have "range_loop psync_sha1 bl els off len content bs s None nr = Some ?nr"
          using idx(1) found at \<open>p < len\<close> by (subst range_loop.simps) (simp add: w Let_def)
        then show ?thesis using nr blen by (auto intro: spaced_mono)
      next
        case whole_block: True
        define r where "r = to_block_end bs s"
        note r = to_block_end [OF less.prems(1,2) assms(3), folded r_def]
        let ?s = "advance r s"
        note a = advance_to_block [OF less.prems(1,2) assms(3) r(1,2)]
        let ?s1 = "?s\<lparr>adl := adler32 ADLER32_INITIAL (win bs content (p + r))\<rparr>"
        have top: "at_top bs (p + r) ?s1" using a(2) by (simp add: at_top_def)
        have cp: "upload_checkpoint content bs ?s = map_option (\<lambda>t. t\<lparr>adl := adl s\<rparr>) (checkpoint content bs ?s1)"
        proof -
          have "upload_checkpoint content bs ?s1 = checkpoint content bs ?s1" by (rule upload_checkpoint_eq [OF a(1) top assms(3)])
          moreover have "upload_checkpoint content bs (?s1\<lparr>adl := adl s\<rparr>) = map_option (\<lambda>t. t\<lparr>adl := adl s\<rparr>) (upload_checkpoint content bs ?s1)"
            by (simp add: upload_checkpoint_def read_half_def Let_def)
          moreover have "?s1\<lparr>adl := adl s\<rparr> = ?s" by (simp add: advance_def)
          ultimately show ?thesis by simp
        qed
        note cc = checkpoint_correct [OF a(1) top assms(3)]
        show ?thesis
        proof (cases "p + r + bs = ?N")
          case True
          then have "range_loop psync_sha1 bl els off len content bs s None nr = Some ?nr"
            using idx(1) found at \<open>p < len\<close> cp cc whole_block by (subst range_loop.simps) (simp add: w Let_def r_def [symmetric])
          then show ?thesis using nr blen by (auto intro: spaced_mono)
        next
          case False
          then obtain t where t: "checkpoint content bs ?s1 = Some t" "ring_ok content bs (p + r) (p + r + bs + 1) t" "at_roll bs (p + r) t"
            using cc by auto
          let ?t = "jump bs (bs - r) (t\<lparr>adl := adl s\<rparr>)"
          have j: "?t = jump bs (bs - r) t" by (simp add: jump_def advance_def Let_def)
          have e: "p + r + (bs - r) = p + bs" using r(1) by simp
          note jc = jump_correct [OF t(2,3) r(2), of "bs - r", unfolded e]
          have jc': "ring_ok content bs (p + bs) (p + bs + bs) ?t" "at_top bs (p + bs) ?t" using jc r(1) unfolding j by simp_all
          have "range_loop psync_sha1 bl els off len content bs s None nr = range_loop psync_sha1 bl els off len content bs ?t None ?nr"
            using idx(1) found at \<open>p < len\<close> cp t(1) whole_block r(3)
            by (subst range_loop.simps) (simp add: w Let_def r_def [symmetric])
          moreover have "\<exists>nr'. range_loop psync_sha1 bl els off len content bs ?t None ?nr = Some nr' \<and> spaced off nr' (off + len) \<and>
              (\<forall>r \<in> set nr'. copied_ok file ?remote r)"
            using jc' nr whole_block b ring_basic(5,6) [OF jc'(1)]
            by (intro less.hyps [of "p + bs"]) (simp_all add: add.assoc)
          ultimately show ?thesis by simp
        qed
      qed
    qed
  qed
qed

subsection \<open>Cutting a range\<close>

text \<open>The ranges follow each other without a gap from \<open>a\<close> to \<open>b\<close>.\<close>

fun tiles :: "nat \<Rightarrow> upload_range list \<Rightarrow> nat \<Rightarrow> bool" where
  "tiles a [] b \<longleftrightarrow> a = b"
| "tiles a (r # rs) b \<longleftrightarrow> uploadoffset r = a \<and> tiles (a + ulen r) rs b"

lemma tiles_append: "tiles a (rs @ qs) b \<longleftrightarrow> (\<exists>c. tiles a rs c \<and> tiles c qs b)"
  by (induction rs arbitrary: a) auto

text \<open>\<open>source\<close>: the bytes that the server has for a range to copy. Ranges to send start at the same offset on both sides.\<close>

definition sent :: "bytes \<Rightarrow> (urange_type \<Rightarrow> bytes) \<Rightarrow> upload_range \<Rightarrow> bytes" where
  "sent file source r = take (ulen r) (drop (uoff r) (if utype r = PSYNC_URANGE_UPLOAD then file else source (utype r)))"

definition range_ok :: "bytes \<Rightarrow> (urange_type \<Rightarrow> bytes) \<Rightarrow> upload_range \<Rightarrow> bool" where
  "range_ok file source r \<longleftrightarrow> sent file source r = take (ulen r) (drop (uploadoffset r) file) \<and>
     (utype r = PSYNC_URANGE_UPLOAD \<longrightarrow> uoff r = uploadoffset r)"

lemma merge_correct:
  assumes "spaced (uploadoffset le) nr (uploadoffset le + ulen le)" "\<forall>r \<in> set nr. range_ok file source r"
    "utype le = PSYNC_URANGE_UPLOAD" "uoff le = uploadoffset le"
  shows "\<exists>l. merge_list_to_element le nr = Some l \<and> tiles (uploadoffset le) l (uploadoffset le + ulen le) \<and> (\<forall>r \<in> set l. range_ok file source r)"
  using assms
proof (induction nr arbitrary: le)
  case Nil
  then show ?case by (simp add: range_ok_def sent_def)
next
  case (Cons ur rlist)
  let ?a = "uploadoffset le" and ?b = "uploadoffset le + ulen le"
  have u: "?a \<le> uploadoffset ur" "0 < ulen ur" "spaced (uploadoffset ur + ulen ur) rlist ?b" "range_ok file source ur"
    using Cons.prems(1,2) by simp_all
  then have ub: "uploadoffset ur + ulen ur \<le> ?b" by (blast dest: spaced_le)
  have end_: "rlist = []" if "uploadoffset ur + ulen ur = ?b"
  proof (cases rlist)
    case (Cons r rs)
    then have "?b \<le> uploadoffset r" "0 < ulen r" "uploadoffset r + ulen r \<le> ?b" using u(3) that by (auto dest: spaced_le)
    then show ?thesis by linarith
  qed
  consider "ulen ur = ulen le" | "ulen ur \<noteq> ulen le" "uploadoffset ur = ?a"
    | "ulen ur \<noteq> ulen le" "uploadoffset ur \<noteq> ?a" "uploadoffset ur + ulen ur = ?b"
    | "ulen ur \<noteq> ulen le" "uploadoffset ur \<noteq> ?a" "uploadoffset ur + ulen ur \<noteq> ?b" by blast
  then show ?case
  proof cases
    case 1
    then have "uploadoffset ur = ?a" using u(1) ub by simp
    with 1 end_ u(4) show ?thesis by simp
  next
    case 2
    let ?le = "le\<lparr>uploadoffset := ?a + ulen ur, uoff := uoff le + ulen ur, ulen := ulen le - ulen ur\<rparr>"
    have "uploadoffset ?le + ulen ?le = ?b" using 2 ub by simp
    with Cons.IH [of ?le] Cons.prems 2 u show ?thesis by auto
  next
    case 3
    have "range_ok file source (le\<lparr>ulen := ulen le - ulen ur\<rparr>)" using Cons.prems(3,4) by (simp add: range_ok_def sent_def)
    with 3 end_ u show ?thesis by auto
  next
    case 4
    let ?n = "\<lparr>uploadoffset = uploadoffset ur + ulen ur, uoff = uploadoffset ur + ulen ur,
      ulen = ulen le - (uploadoffset ur - ?a) - ulen ur, utype = PSYNC_URANGE_UPLOAD\<rparr>"
    have "uploadoffset ?n + ulen ?n = ?b" using u(1) ub by simp
    moreover have "range_ok file source (le\<lparr>ulen := uploadoffset ur - ?a\<rparr>)" using Cons.prems(3,4) by (simp add: range_ok_def sent_def)
    ultimately show ?thesis using Cons.IH [of ?n] Cons.prems(2) 4 u by auto
  qed
qed

lemma upload_start_correct:
  assumes mem: "length mem = B" and B: "B = 2 * H" "bs dvd H" "0 < H" and bs: "0 < bs" and long: "\<not> length content < H"
  shows "\<exists>s. upload_start mem content bs B = Some s \<and> ring_ok content bs 0 bs s \<and> at_top bs 0 s"
proof -
  have bsH: "bs \<le> H" using B by (intro dvd_imp_le)
  let ?N = "round_up (length content) bs"
  have N: "length content \<le> ?N" by (rule round_up_le [OF bs])
  let ?b = "put 0 (take H content) mem"
  let ?s = "\<lparr>buff = ?b, buffoff = 0, inbyteoff = bs, outbyteoff = 0, bufferlen = B, fpos = H, adl = adler32 ADLER32_INITIAL (take bs ?b)\<rparr>"
  have s: "upload_start mem content bs B = Some ?s" using B long by (simp add: upload_start_def pfile_read_def min_absorb2 Let_def)
  have lb: "length ?b = 2 * H" using mem B long by simp
  have data: "?b ! i = padded bs content ! i" if "i < H" for i
    using that long mem B by (simp add: nth_put padded_def nth_append)
  have wb: "take bs ?b = win bs content 0"
    using lb data bsH long length_padded_file [OF bs, of content] N by (intro nth_equalityI) (auto simp: win_def)
  have bd: "boundary H bs = H"
    using bsH bs B boundary_is_dvd [of H bs] boundary_ge [of H bs] boundary_least [of H H bs] dvd_imp_le [of H "boundary H bs"] by simp
  have "ring_ok content bs 0 bs ?s"
    by (rule ring_okI [where H = H]) (use lb data B bs bd wb long N bsH in \<open>auto\<close>)
  moreover have "at_top bs 0 ?s" using bs bsH lb by (simp add: at_top_def Let_def)
  ultimately show ?thesis using s by blast
qed

lemma upload_buffer_size_facts:
  assumes "bs = 2 ^ k"
  shows "upload_buffer_size bs len = 2 * (upload_buffer_size bs len div 2)" "bs dvd upload_buffer_size bs len div 2" "0 < upload_buffer_size bs len div 2"
  using buffer_size_facts [OF assms] assms unfolding upload_buffer_size_def buffer_size_def by (auto split: if_splits)

subsection \<open>The whole scan\<close>

text \<open>A plan to upload \<open>file\<close>: its ranges cover the file, and each stands for the bytes of its place.\<close>

definition plan_ok :: "bytes \<Rightarrow> (urange_type \<Rightarrow> bytes) \<Rightarrow> upload_range list \<Rightarrow> bool" where
  "plan_ok file source rs \<longleftrightarrow> tiles 0 rs (length file) \<and> (\<forall>r \<in> set rs. range_ok file source r)"

lemma tiles_le: "tiles a rs b \<Longrightarrow> a \<le> b"
proof (induction rs arbitrary: a)
  case (Cons r rs)
  then have "a + ulen r \<le> b" by simp
  then show ?case by simp
qed simp

lemma tiles_sent:
  "tiles a rs b \<Longrightarrow> \<forall>r \<in> set rs. range_ok file source r \<Longrightarrow> concat (map (sent file source) rs) = take (b - a) (drop a file)"
proof (induction rs arbitrary: a)
  case (Cons r rs)
  have "a + ulen r \<le> b" using Cons.prems(1) tiles_le by simp blast
  then have "take (b - a) (drop a file) = take (ulen r + (b - (a + ulen r))) (drop a file)" by simp
  also have "\<dots> = take (ulen r) (drop a file) @ take (b - (a + ulen r)) (drop (a + ulen r) file)" by (rule take_drop_add)
  finally show ?case using Cons by (simp add: range_ok_def)
qed simp

lemma plan_sent: "plan_ok file source rs \<Longrightarrow> concat (map (sent file source) rs) = file"
  using tiles_sent [where a = 0 and rs = rs and b = "length file" and source = source] by (simp add: plan_ok_def)

text \<open>What is known about the blocks, the file and the buffer.\<close>

definition upload_setting ::
  "(bytes \<Rightarrow> bytes) \<Rightarrow> bytes \<Rightarrow> file_checksums \<Rightarrow> bytes \<Rightarrow> (nat \<Rightarrow> bytes) \<Rightarrow> (nat \<Rightarrow> bytes option) \<Rightarrow> bool" where
  "upload_setting psync_sha1 target cs file mem fd \<longleftrightarrow>
     describes psync_sha1 target cs \<and> blocks cs \<noteq> [] \<and> (\<exists>k. blocksize cs = 2 ^ k) \<and> blocksize cs \<le> 2 ^ 24 \<and>
     no_collision psync_sha1 target (blocksize cs) (map (\<lambda>k. drop k file) [0..<length file]) \<and>
     (\<forall>n. length (mem n) = n) \<and> (\<forall>off. fd off = None \<or> fd off = Some (drop off file))"

lemma check_range_correct:
  assumes set: "upload_setting psync_sha1 target cs file mem fd" and "table_ok (blocks cs) els" "off + len \<le> length file" "blocksize cs \<le> len"
  shows "check_range_for_blocks psync_sha1 mem cs els off len fd = Some SeekFailed \<or>
    (\<exists>nr. check_range_for_blocks psync_sha1 mem cs els off len fd = Some (Found nr) \<and> spaced off nr (off + len) \<and>
       (\<forall>r \<in> set nr. copied_ok file (padded (blocksize cs) target) r))"
proof (cases "fd off")
  case None
  then show ?thesis by (simp add: check_range_for_blocks_def)
next
  case (Some content)
  let ?bs = "blocksize cs" and ?B = "upload_buffer_size (blocksize cs) len"
  from set obtain k where k: "?bs = 2 ^ k" by (auto simp: upload_setting_def)
  have u: "describes psync_sha1 target cs" "?bs \<le> 2 ^ 24" "length (mem ?B) = ?B" "content = drop off file"
    using set Some unfolding upload_setting_def by (blast, blast, blast, metis option.distinct(1) option.inject)
  have bs: "0 < ?bs" by (simp add: k)
  have "content \<in> set (map (\<lambda>k. drop k file) [0..<length file])" using u(4) assms(3,4) bs by auto
  moreover have "no_collision psync_sha1 target ?bs (map (\<lambda>k. drop k file) [0..<length file])" using set by (simp add: upload_setting_def)
  ultimately have nc: "no_collision psync_sha1 target ?bs [content]" unfolding no_collision_def by (metis empty_iff insert_iff list.set)
  note B = upload_buffer_size_facts [OF k, of len]
  show ?thesis
  proof (cases "length content < ?B div 2")
    case True
    then have "upload_start (mem ?B) content ?bs ?B = None" by (simp add: upload_start_def pfile_read_def Let_def)
    then show ?thesis using Some by (simp add: check_range_for_blocks_def Let_def)
  next
    case False
    from upload_start_correct [OF u(3) B bs False] obtain s where
      s: "upload_start (mem ?B) content ?bs ?B = Some s" "ring_ok content ?bs 0 (0 + ?bs) s" "at_top ?bs 0 s" by auto
    from range_loop_correct [OF s(2,3) k u(2) assms(2) u(1) refl refl nc u(4) assms(3), of "[]"] obtain nr where
      "range_loop psync_sha1 (blocks cs) els off len content ?bs s None [] = Some nr" "spaced off nr (off + len)"
      "\<forall>r \<in> set nr. copied_ok file (padded ?bs target) r" by auto
    then show ?thesis using Some s(1) by (simp add: check_range_for_blocks_def Let_def)
  qed
qed

lemma scan_list_correct:
  assumes set: "upload_setting psync_sha1 target cs file mem fd" and tab: "table_ok (blocks cs) els"
    and t: "t \<noteq> PSYNC_URANGE_UPLOAD" "source t = padded (blocksize cs) target"
    and "tiles a rlist (length file)" "\<forall>r \<in> set rlist. range_ok file source r"
  shows "\<exists>res l. scan_list psync_sha1 mem cs els t fd visited rlist = Some res \<and> res \<in> {Scanned (visited @ l), ScanFailed (visited @ l)} \<and>
    tiles a l (length file) \<and> (\<forall>r \<in> set l. range_ok file source r)"
  using assms(5-)
proof (induction rlist arbitrary: a visited)
  case (Cons ur rlist)
  have ur: "uploadoffset ur = a" "tiles (a + ulen ur) rlist (length file)" "range_ok file source ur" "\<forall>r \<in> set rlist. range_ok file source r"
    using Cons.prems by simp_all
  have step: ?case if "scan_list psync_sha1 mem cs els t fd visited (ur # rlist) = scan_list psync_sha1 mem cs els t fd (visited @ l) rlist"
    "tiles a l (a + ulen ur)" "\<forall>r \<in> set l. range_ok file source r" for l
  proof -
    from Cons.IH [OF ur(2,4), of "visited @ l"] obtain res l' where
      "scan_list psync_sha1 mem cs els t fd (visited @ l) rlist = Some res" "res \<in> {Scanned ((visited @ l) @ l'), ScanFailed ((visited @ l) @ l')}"
      "tiles (a + ulen ur) l' (length file)" "\<forall>r \<in> set l'. range_ok file source r" by blast
    then have "scan_list psync_sha1 mem cs els t fd visited (ur # rlist) = Some res \<and> res \<in> {Scanned (visited @ l @ l'), ScanFailed (visited @ l @ l')} \<and>
        tiles a (l @ l') (length file) \<and> (\<forall>r \<in> set (l @ l'). range_ok file source r)"
      using that by (auto simp: tiles_append)
    then show ?thesis by blast
  qed
  show ?case
  proof (cases "ulen ur < blocksize cs \<or> utype ur \<noteq> PSYNC_URANGE_UPLOAD")
    case True
    then show ?thesis using ur by (intro step [of "[ur]"]) simp_all
  next
    case False
    then have up: "utype ur = PSYNC_URANGE_UPLOAD" "uoff ur = uploadoffset ur" "blocksize cs \<le> ulen ur" using ur(3) by (auto simp: range_ok_def)
    have "a + ulen ur \<le> length file" using ur(2) by (rule tiles_le)
    from check_range_correct [OF set tab this up(3)] consider
      "check_range_for_blocks psync_sha1 mem cs els a (ulen ur) fd = Some SeekFailed"
      | nr where "check_range_for_blocks psync_sha1 mem cs els a (ulen ur) fd = Some (Found nr)" "spaced a nr (a + ulen ur)"
        "\<forall>r \<in> set nr. copied_ok file (padded (blocksize cs) target) r" by blast
    then show ?thesis
    proof cases
      case 1
      then have "scan_list psync_sha1 mem cs els t fd visited (ur # rlist) = Some (ScanFailed (visited @ ur # rlist))"
        using False up(2) ur(1) by simp
      then show ?thesis using Cons.prems by blast
    next
      case (2 nr)
      let ?nr = "map (\<lambda>le. le\<lparr>utype := t\<rparr>) nr"
      have sp: "spaced b ?nr c \<longleftrightarrow> spaced b nr c" for b c by (induction nr arbitrary: b) auto
      have ok: "\<forall>r \<in> set ?nr. range_ok file source r" using 2(3) t by (auto simp: range_ok_def sent_def copied_ok_def)
      have sp': "spaced (uploadoffset ur) ?nr (uploadoffset ur + ulen ur)" using 2(2) sp ur(1) by simp
      obtain l where l: "(if nr \<noteq> [] then merge_list_to_element ur ?nr else Some [ur]) = Some l" "tiles a l (a + ulen ur)" "\<forall>r \<in> set l. range_ok file source r"
        using merge_correct [OF sp' ok up(1,2)] ur(1,3) by (cases "nr = []") auto
      have "scan_list psync_sha1 mem cs els t fd visited (ur # rlist) = scan_list psync_sha1 mem cs els t fd (visited @ l) rlist"
        using False up(2) ur(1) 2(1) l(1) by simp
      from step [OF this l(2,3)] show ?thesis .
    qed
  qed
qed simp

text \<open>
  The server continues a file that it copies from with zeros: with this assumption the plan is right. The property
  below does without it.
\<close>

lemma upload_plan_padded:
  assumes "upload_setting psync_sha1 target cs file mem fd" "source (PSYNC_URANGE_COPY_FILE fileid filehash) = padded (blocksize cs) target"
    "plan_ok file source rlist"
  shows "\<exists>l. psync_net_scan_file_for_blocks psync_sha1 mem (Checksums (Some cs)) fileid filehash fd rlist \<in> {Some (Scanned l), Some (ScanFailed l)} \<and>
    plan_ok file source l"
proof -
  have "blocks cs \<noteq> []" using assms(1) by (simp add: upload_setting_def)
  then obtain els nxt where h: "psync_net_create_hash cs = Some (els, nxt)" "table_ok (blocks cs) els"
    using create_hash_correct by blast
  have "\<exists>res l. scan_list psync_sha1 mem cs els (PSYNC_URANGE_COPY_FILE fileid filehash) fd [] rlist = Some res \<and> res \<in> {Scanned ([] @ l), ScanFailed ([] @ l)} \<and>
      tiles 0 l (length file) \<and> (\<forall>r \<in> set l. range_ok file source r)"
    by (rule scan_list_correct [OF assms(1) h(2)]) (use assms(2,3) in \<open>simp_all add: plan_ok_def\<close>)
  then obtain res l where l: "scan_list psync_sha1 mem cs els (PSYNC_URANGE_COPY_FILE fileid filehash) fd [] rlist = Some res"
    "res \<in> {Scanned l, ScanFailed l}" "plan_ok file source l" by (auto simp: plan_ok_def)
  then show ?thesis
    using h(1) by (auto simp: psync_net_scan_file_for_blocks_def scan_for_blocks_def)
qed

text \<open>The bytes of a range are there: in the local file, or in the file or the upload to copy from.\<close>

definition in_source :: "(urange_type \<Rightarrow> bytes) \<Rightarrow> upload_range \<Rightarrow> bool" where
  "in_source source r \<longleftrightarrow> utype r = PSYNC_URANGE_UPLOAD \<or> ulen r = 0 \<or> uoff r + ulen r \<le> length (source (utype r))"

lemma tiles_in_file: "tiles a rs b \<Longrightarrow> r \<in> set rs \<Longrightarrow> uploadoffset r + ulen r \<le> b"
proof (induction rs arbitrary: a)
  case (Cons q rs)
  then show ?case using tiles_le [of "a + ulen q" rs b] by auto
qed simp

text \<open>A range that brings its part of the file is there.\<close>

lemma range_ok_in_source:
  assumes "range_ok file source r" "uploadoffset r + ulen r \<le> length file"
  shows "in_source source r"
proof (cases "utype r = PSYNC_URANGE_UPLOAD \<or> ulen r = 0")
  case False
  then have "length (sent file source r) = ulen r" using assms by (simp add: range_ok_def)
  with False show ?thesis by (auto simp: in_source_def sent_def min_def split: if_splits)
qed (auto simp: in_source_def)

text \<open>For a range that is there it makes no difference how a source goes on behind its end.\<close>

lemma range_ok_longer:
  assumes "in_source source r" "source' = source (c := source c @ extra)"
  shows "range_ok file source' r \<longleftrightarrow> range_ok file source r"
  using assms by (auto simp: range_ok_def sent_def in_source_def)

text \<open>
  C18. The delta upload sends the file: for checksums that describe a file \<open>target\<close> on the server, with a block size that is a
  power of two, at most \<open>2\<^sup>2\<^sup>4\<close>, when the digests of different blocks and windows of the local file differ, any plan that
  brings the local file is turned into a plan whose ranges cover it without gap or overlap, also when a seek fails on the
  way; nothing is freed too early and every loop ends. If every range to copy is within the end of what it is copied from,
  the bytes that the server puts together are exactly the local file. A range that is not can only be one that is copied
  from \<open>target\<close>, and only because the last block of \<open>target\<close> is shorter than the others: the local file has zeros there. What
  the server does with such a request the source does not say.
\<close>

theorem upload_ranges_rebuild:
  assumes "upload_setting psync_sha1 target cs file mem fd" "source (PSYNC_URANGE_COPY_FILE fileid filehash) = target"
    "plan_ok file source rlist"
  shows "\<exists>l. psync_net_scan_file_for_blocks psync_sha1 mem (Checksums (Some cs)) fileid filehash fd rlist \<in> {Some (Scanned l), Some (ScanFailed l)} \<and>
    tiles 0 l (length file) \<and> ((\<forall>r \<in> set l. in_source source r) \<longrightarrow> concat (map (sent file source) l) = file) \<and>
    (\<forall>r \<in> set l. \<not> in_source source r \<longrightarrow> utype r = PSYNC_URANGE_COPY_FILE fileid filehash \<and>
       take (ulen r) (drop (uoff r) (padded (blocksize cs) target)) = take (ulen r) (drop (uploadoffset r) file))"
proof -
  let ?c = "PSYNC_URANGE_COPY_FILE fileid filehash"
  define source' where "source' = source (?c := padded (blocksize cs) target)"
  have longer: "source' = source (?c := source ?c @ replicate (round_up (length target) (blocksize cs) - length target) 0)"
    by (simp add: source'_def assms(2) padded_def)
  have "plan_ok file source' rlist" unfolding plan_ok_def
  proof (intro conjI ballI)
    show "tiles 0 rlist (length file)" using assms(3) by (simp add: plan_ok_def)
    fix r assume r: "r \<in> set rlist"
    with assms(3) have "range_ok file source r" "uploadoffset r + ulen r \<le> length file"
      using tiles_in_file by (auto simp: plan_ok_def)
    with range_ok_in_source range_ok_longer [OF _ longer] show "range_ok file source' r" by blast
  qed
  moreover have "source' ?c = padded (blocksize cs) target" by (simp add: source'_def)
  ultimately obtain l where
    l: "psync_net_scan_file_for_blocks psync_sha1 mem (Checksums (Some cs)) fileid filehash fd rlist \<in> {Some (Scanned l), Some (ScanFailed l)}"
    "plan_ok file source' l"
    using upload_plan_padded [OF assms(1)] by blast
  have "concat (map (sent file source) l) = file" if "\<forall>r \<in> set l. in_source source r"
    using that l(2) range_ok_longer [OF _ longer] by (intro plan_sent) (auto simp: plan_ok_def)
  moreover have "utype r = ?c \<and> take (ulen r) (drop (uoff r) (padded (blocksize cs) target)) = take (ulen r) (drop (uploadoffset r) file)"
    if r: "r \<in> set l" "\<not> in_source source r" for r
  proof -
    have ok: "range_ok file source' r" "uploadoffset r + ulen r \<le> length file"
      using l(2) r(1) tiles_in_file by (auto simp: plan_ok_def)
    then have "in_source source' r" by (rule range_ok_in_source)
    with r(2) have "utype r = ?c" by (auto simp: in_source_def source'_def split: if_splits)
    with ok(1) show ?thesis by (simp add: range_ok_def sent_def source'_def)
  qed
  ultimately show ?thesis using l by (auto simp: plan_ok_def)
qed

text \<open>A file of four bytes, of which the server has the first block, which is to be sent whole.\<close>

theorem upload_ranges_rebuild_witness:
  "\<exists>l. psync_net_scan_file_for_blocks (\<lambda>bs. bs) (\<lambda>n. replicate n 0) (Checksums (Some (small_cs [1, 2, 9, 9]))) 5 6 (\<lambda>off. Some (drop off [1, 2, 3, 4]))
      [\<lparr>uploadoffset = 0, uoff = 0, ulen = 4, utype = PSYNC_URANGE_UPLOAD\<rparr>] \<in> {Some (Scanned l), Some (ScanFailed l)} \<and>
    tiles 0 l 4 \<and> ((\<forall>r \<in> set l. in_source (\<lambda>_. [1, 2, 9, 9]) r) \<longrightarrow> concat (map (sent [1, 2, 3, 4] (\<lambda>_. [1, 2, 9, 9])) l) = [1, 2, 3, 4])"
proof -
  let ?t = "[1, 2, 9, 9] :: bytes" and ?f = "[1, 2, 3, 4] :: bytes"
  let ?r = "[\<lparr>uploadoffset = 0, uoff = 0, ulen = 4, utype = PSYNC_URANGE_UPLOAD\<rparr>]"
  have "describes (\<lambda>bs. bs) ?t (small_cs ?t)" by (rule small_describes) simp
  moreover have "\<exists>k. blocksize (small_cs ?t) = 2 ^ k" by (rule exI [of _ 1]) (simp add: small_cs_def)
  ultimately have "upload_setting (\<lambda>bs. bs) ?t (small_cs ?t) ?f (\<lambda>n. replicate n 0) (\<lambda>off. Some (drop off ?f))"
    by (simp add: upload_setting_def no_collision_def) (simp add: small_cs_def)
  moreover have "plan_ok ?f (\<lambda>_. ?t) ?r" by (simp add: plan_ok_def range_ok_def sent_def)
  moreover have "length ?f = 4" by simp
  ultimately show ?thesis using upload_ranges_rebuild [of "\<lambda>bs. bs" ?t "small_cs ?t" ?f "\<lambda>n. replicate n 0" "\<lambda>off. Some (drop off ?f)" "\<lambda>_. ?t" 5 6 ?r]
    by metis
qed

end
