(* ===== verification/PCryptoLayout.thy ===== *)
theory PCryptoLayout
  imports Prelude
begin

text \<open>
  The layout of an encrypted file in \<open>pclsync/pfscrypto.c\<close>: sectors of 4096 bytes, and behind every 128
  sectors (or authentication sectors of one level) an authentication sector of the next level with 128 tags of 32
  bytes. The authentication sectors that are not complete follow the last data sector, one per level. The functions
  compute offsets and sizes in words; \<open>None\<close> stands for a store behind the arrays of the result or a failed
  assertion.
\<close>

subsection \<open>The code\<close>

definition PSYNC_CRYPTO_SECTOR_SIZE :: "'a::len word" where "PSYNC_CRYPTO_SECTOR_SIZE = 4096"
definition PSYNC_CRYPTO_AUTH_SIZE :: "'a::len word" where "PSYNC_CRYPTO_AUTH_SIZE = 32"
definition PSYNC_CRYPTO_HASH_TREE_SECTORS :: "'a::len word" where "PSYNC_CRYPTO_HASH_TREE_SECTORS = 128"
definition PSYNC_CRYPTO_MAX_HASH_TREE_LEVEL :: nat where "PSYNC_CRYPTO_MAX_HASH_TREE_LEVEL = 6"

definition max_level_size :: "u64 list" where
  "max_level_size = [0x1000, 0x81000, 0x4081000, 0x204081000, 0x10204081000, 0x810204081000, 0x40810204081000]"

record crypto_offsets =
  masterauthoff :: u64
  plainsize :: u64
  lastauthsectoroff :: "u64 list"
  lastauthsectorlen :: "u16 list"
  treelevels :: nat
  needmasterauth :: bool

lemma unat_div_128_less: "128 \<le> (w :: u32) \<Longrightarrow> unat (w div 128) < unat w"
  by (simp add: unat_div word_le_nat_alt)

function sector_id_loop :: "u32 \<Rightarrow> u32 \<Rightarrow> u32" where
  "sector_id_loop sectorid sect =
     (if sectorid \<ge> PSYNC_CRYPTO_HASH_TREE_SECTORS
      then let sectorid = sectorid div PSYNC_CRYPTO_HASH_TREE_SECTORS in sector_id_loop sectorid (sect + sectorid)
      else sect)"
  by pat_completeness auto
termination
  by (relation "measure (\<lambda>(sectorid, sect). unat sectorid)") (auto simp: PSYNC_CRYPTO_HASH_TREE_SECTORS_def unat_div_128_less)

definition pfscrypto_sector_id :: "u32 \<Rightarrow> u32" where
  "pfscrypto_sector_id sectorid = sector_id_loop sectorid sectorid"

function data_offset_loop :: "u32 \<Rightarrow> u64 \<Rightarrow> u64" where
  "data_offset_loop sectorid off =
     (if sectorid \<ge> PSYNC_CRYPTO_HASH_TREE_SECTORS
      then let sectorid = sectorid div PSYNC_CRYPTO_HASH_TREE_SECTORS
           in data_offset_loop sectorid (off + ucast sectorid * PSYNC_CRYPTO_SECTOR_SIZE)
      else off)"
  by pat_completeness auto
termination
  by (relation "measure (\<lambda>(sectorid, off). unat sectorid)") (auto simp: PSYNC_CRYPTO_HASH_TREE_SECTORS_def unat_div_128_less)

definition psync_fs_crypto_data_offset_by_sectorid :: "u32 \<Rightarrow> u64" where
  "psync_fs_crypto_data_offset_by_sectorid sectorid =
     data_offset_loop sectorid (ucast sectorid * PSYNC_CRYPTO_SECTOR_SIZE)"

text \<open>Here the product of the loop is computed in 32 bits.\<close>

function auth_offset_loop :: "u32 \<Rightarrow> u64 \<Rightarrow> u64" where
  "auth_offset_loop ident ret =
     (if ident \<ge> PSYNC_CRYPTO_HASH_TREE_SECTORS
      then let ident = ident div PSYNC_CRYPTO_HASH_TREE_SECTORS
           in auth_offset_loop ident (ret + ucast (ident * PSYNC_CRYPTO_SECTOR_SIZE))
      else ret)"
  by pat_completeness auto
termination
  by (relation "measure (\<lambda>(ident, ret). unat ident)") (auto simp: PSYNC_CRYPTO_HASH_TREE_SECTORS_def unat_div_128_less)

declare sector_id_loop.simps [simp del] data_offset_loop.simps [simp del] auth_offset_loop.simps [simp del]

definition psync_fs_crypto_auth_offset :: "nat \<Rightarrow> u32 \<Rightarrow> u64" where
  "psync_fs_crypto_auth_offset level ident =
     auth_offset_loop ident (max_level_size ! (level + 1) * ucast (ident + 1) - PSYNC_CRYPTO_SECTOR_SIZE)"

definition no_offsets :: crypto_offsets where
  "no_offsets = \<lparr>masterauthoff = 0, plainsize = 0, lastauthsectoroff = replicate PSYNC_CRYPTO_MAX_HASH_TREE_LEVEL 0,
     lastauthsectorlen = replicate PSYNC_CRYPTO_MAX_HASH_TREE_LEVEL 0, treelevels = 0, needmasterauth = False\<rparr>"

definition set_level :: "nat \<Rightarrow> u64 \<Rightarrow> u16 \<Rightarrow> crypto_offsets \<Rightarrow> crypto_offsets option" where
  "set_level level off len offsets =
     (if level < PSYNC_CRYPTO_MAX_HASH_TREE_LEVEL
      then Some (offsets\<lparr>lastauthsectoroff := (lastauthsectoroff offsets)[level := off],
                         lastauthsectorlen := (lastauthsectorlen offsets)[level := len]\<rparr>)
      else None)"

text \<open>The loop over the levels: the offset, the level and the offsets behind it.\<close>

function size_levels :: "u64 \<Rightarrow> u64 \<Rightarrow> nat \<Rightarrow> crypto_offsets \<Rightarrow> (u64 \<times> nat \<times> crypto_offsets) option" where
  "size_levels sz off level offsets =
     (let n = ucast (sz mod PSYNC_CRYPTO_HASH_TREE_SECTORS) :: u32;
          sz = (sz + PSYNC_CRYPTO_HASH_TREE_SECTORS - 1) div PSYNC_CRYPTO_HASH_TREE_SECTORS;
          n = (if n = 0 then PSYNC_CRYPTO_HASH_TREE_SECTORS else n) * PSYNC_CRYPTO_AUTH_SIZE
      in case set_level level off (ucast n) offsets of
           None \<Rightarrow> None
         | Some offsets \<Rightarrow> if sz > 1 then size_levels sz (off + ucast n) (level + 1) offsets
                           else Some (off + ucast n, level + 1, offsets))"
  by pat_completeness auto
termination
  by (relation "measure (\<lambda>(sz, off, level, offsets). PSYNC_CRYPTO_MAX_HASH_TREE_LEVEL - level)")
    (auto simp: set_level_def split: if_splits)

declare size_levels.simps [simp del]

definition pfscrypto_offset_by_size :: "u64 \<Rightarrow> crypto_offsets option" where
  "pfscrypto_offset_by_size sz =
     (let offsets = no_offsets\<lparr>plainsize := sz, needmasterauth := sz > PSYNC_CRYPTO_SECTOR_SIZE\<rparr>
      in if sz = 0 then Some offsets
         else let lastsectorid = ucast (sz div PSYNC_CRYPTO_SECTOR_SIZE) :: u32;
                  lastsectorsize = ucast (sz mod PSYNC_CRYPTO_SECTOR_SIZE) :: u32;
                  (lastsectorid, lastsectorsize) = (if lastsectorsize = 0 then (lastsectorid - 1, PSYNC_CRYPTO_SECTOR_SIZE)
                                                    else (lastsectorid, lastsectorsize));
                  off = psync_fs_crypto_data_offset_by_sectorid lastsectorid + ucast lastsectorsize
              in case size_levels ((sz + PSYNC_CRYPTO_SECTOR_SIZE - 1) div PSYNC_CRYPTO_SECTOR_SIZE) off 0 offsets of
                   None \<Rightarrow> None
                 | Some (off, level, offsets) \<Rightarrow>
                     map_option (\<lambda>offsets. offsets\<lparr>masterauthoff := off, treelevels := level\<rparr>)
                       (set_level level off PSYNC_CRYPTO_AUTH_SIZE offsets))"

text \<open>The loop down the levels below \<open>level\<close>: what is left of the size.\<close>

fun cryptosize_levels :: "nat \<Rightarrow> u64 \<Rightarrow> u64 \<Rightarrow> crypto_offsets \<Rightarrow> (u64 \<times> crypto_offsets) option" where
  "cryptosize_levels 0 sz off offsets = Some (sz, offsets)"
| "cryptosize_levels (Suc level) sz off offsets =
     (let n = (sz + max_level_size ! level + PSYNC_CRYPTO_AUTH_SIZE - 1) div (max_level_size ! level + PSYNC_CRYPTO_AUTH_SIZE);
          sz = sz - n * PSYNC_CRYPTO_AUTH_SIZE;
          n = n mod PSYNC_CRYPTO_HASH_TREE_SECTORS;
          n = (if n = 0 then PSYNC_CRYPTO_HASH_TREE_SECTORS else n);
          off = off - n * PSYNC_CRYPTO_AUTH_SIZE
      in case set_level level off (ucast (n * PSYNC_CRYPTO_AUTH_SIZE)) offsets of
           None \<Rightarrow> None
         | Some offsets \<Rightarrow> cryptosize_levels level sz off offsets)"

definition psync_fs_crypto_offsets_by_cryptosize :: "u64 \<Rightarrow> crypto_offsets option" where
  "psync_fs_crypto_offsets_by_cryptosize sz =
     (if sz \<le> PSYNC_CRYPTO_AUTH_SIZE then Some no_offsets
      else let need = sz > PSYNC_CRYPTO_SECTOR_SIZE + PSYNC_CRYPTO_AUTH_SIZE;
               sz = (if need then sz - PSYNC_CRYPTO_AUTH_SIZE else sz);
               offsets = no_offsets\<lparr>needmasterauth := need, masterauthoff := sz\<rparr>
           in case List.find (\<lambda>level. sz \<le> max_level_size ! level) [1..<PSYNC_CRYPTO_MAX_HASH_TREE_LEVEL + 1] of
                None \<Rightarrow> None
              | Some level \<Rightarrow>
                  (case set_level level sz PSYNC_CRYPTO_AUTH_SIZE (offsets\<lparr>treelevels := level\<rparr>) of
                     None \<Rightarrow> None
                   | Some offsets \<Rightarrow>
                       map_option (\<lambda>(sz, offsets). offsets\<lparr>plainsize := sz\<rparr>) (cryptosize_levels level sz sz offsets)))"

definition get_last_sectorid_by_size :: "u64 \<Rightarrow> u32" where
  "get_last_sectorid_by_size sz = (if sz = 0 then 0 else ucast ((sz - 1) div PSYNC_CRYPTO_SECTOR_SIZE))"

definition pfscrypto_plain_size :: "u64 \<Rightarrow> u64 option" where
  "pfscrypto_plain_size cryptosize = map_option plainsize (psync_fs_crypto_offsets_by_cryptosize cryptosize)"

definition pfscrypto_crypto_size :: "u64 \<Rightarrow> u64 option" where
  "pfscrypto_crypto_size psize = map_option
     (\<lambda>offsets. masterauthoff offsets + (if needmasterauth offsets then PSYNC_CRYPTO_AUTH_SIZE else 0))
     (pfscrypto_offset_by_size psize)"

text \<open>The ids on the way up: the authentication sector of the level, the last one of it, and the place in the parent.\<close>

fun climb :: "nat \<Rightarrow> u32 \<times> u32 \<times> u32 \<Rightarrow> u32 \<times> u32 \<times> u32" where
  "climb 0 st = st"
| "climb (Suc n) (sizesecd, secd, aid) =
     climb n (sizesecd div PSYNC_CRYPTO_HASH_TREE_SECTORS, secd div PSYNC_CRYPTO_HASH_TREE_SECTORS,
              secd mod PSYNC_CRYPTO_HASH_TREE_SECTORS)"

text \<open>The offset and the size of an authentication sector, and the place in it; \<open>None\<close> is the failed assertion.\<close>

definition pfscrypto_get_auth_off :: "u32 \<Rightarrow> nat \<Rightarrow> crypto_offsets \<Rightarrow> (u64 \<times> u32 \<times> u32) option" where
  "pfscrypto_get_auth_off sectorid level offsets =
     (let (sizesecd, secd, aid) = climb level (get_last_sectorid_by_size (plainsize offsets) div PSYNC_CRYPTO_HASH_TREE_SECTORS,
            sectorid div PSYNC_CRYPTO_HASH_TREE_SECTORS, sectorid mod PSYNC_CRYPTO_HASH_TREE_SECTORS)
      in if secd = sizesecd then Some (lastauthsectoroff offsets ! level, ucast (lastauthsectorlen offsets ! level), aid)
         else if secd < sizesecd then Some (psync_fs_crypto_auth_offset level secd, PSYNC_CRYPTO_SECTOR_SIZE, aid)
         else None)"

subsection \<open>The order of the sectors\<close>

text \<open>
  The sectors in the file are the nodes of a tree in postorder. \<open>leaf t\<close> is the place of the data sector
  \<open>t\<close>, in sectors; \<open>node m i\<close> is the place of the sector \<open>i\<close> of height \<open>m\<close>: data at height 0,
  authentication sectors of level \<open>m - 1\<close> above.
\<close>

fun leaf :: "nat \<Rightarrow> nat" where
  "leaf t = (if t < 128 then t else t + leaf (t div 128))"

declare leaf.simps [simp del]

definition node :: "nat \<Rightarrow> nat \<Rightarrow> nat" where
  "node m i = leaf ((i + 1) * 128 ^ m - 1) + m"

lemma leaf_unfold: "leaf t = t + leaf (t div 128)"
  by (cases "t < 128") (simp_all add: leaf.simps [of t] leaf.simps [of 0])

lemma leaf_mono: "a \<le> b \<Longrightarrow> leaf a \<le> leaf b"
proof (induction b arbitrary: a rule: less_induct)
  case (less b)
  show ?case
  proof (cases "b < 128")
    case True with less.prems show ?thesis by (simp add: leaf.simps [of a] leaf.simps [of b])
  next
    case False
    then have "leaf (a div 128) \<le> leaf (b div 128)" using less.prems by (intro less.IH div_le_mono) auto
    with less.prems show ?thesis unfolding leaf_unfold [of a] leaf_unfold [of b] by simp
  qed
qed

lemma leaf_less: "a < b \<Longrightarrow> leaf a < leaf b"
  using leaf_mono [of "a div 128" "b div 128"] unfolding leaf_unfold [of a] leaf_unfold [of b] by (simp add: div_le_mono)

lemma div_128_step: "128 ^ Suc m dvd t + 1 \<Longrightarrow> (t + 1 :: nat) div 128 = t div 128 + 1 \<and> 128 ^ m dvd t div 128 + 1"
proof -
  assume "128 ^ Suc m dvd t + 1"
  then obtain q where q: "t + 1 = 128 * (128 ^ m * q)" by (auto elim!: dvdE)
  then have "0 < 128 ^ m * q" by (cases "128 ^ m * q = 0") auto
  then obtain p where "128 ^ m * q = p + 1" by (metis Suc_eq_plus1 gr0_implies_Suc)
  with q show ?thesis by auto (metis dvd_triv_left)
qed

text \<open>The authentication sectors that become complete with sector \<open>t\<close> lie between it and the next one, without a gap.\<close>

lemma leaf_gap: "128 ^ m dvd t + 1 \<Longrightarrow> leaf t + m < leaf (t + 1)"
proof (induction m arbitrary: t)
  case 0 then show ?case using leaf_less [of t "t + 1"] by simp
next
  case (Suc m)
  then have "leaf (t div 128) + m < leaf ((t + 1) div 128)" using div_128_step [OF Suc.prems] by simp
  then show ?case unfolding leaf_unfold [of t] leaf_unfold [of "t + 1"] by simp
qed

lemma leaf_tight: "\<not> 128 ^ m dvd t + 1 \<Longrightarrow> leaf (t + 1) \<le> leaf t + m"
proof (induction m arbitrary: t)
  case (Suc m)
  show ?case
  proof (cases "128 dvd t + 1")
    case False
    then have "(t + 1) div 128 = t div 128" by (simp add: div_Suc dvd_eq_mod_eq_0)
    then show ?thesis unfolding leaf_unfold [of t] leaf_unfold [of "t + 1"] by simp
  next
    case True
    then have s: "(t + 1) div 128 = t div 128 + 1" using div_128_step [of 0 t] by simp
    have "\<not> 128 ^ m dvd t div 128 + 1"
    proof
      assume "128 ^ m dvd t div 128 + 1"
      then have "128 * 128 ^ m dvd 128 * ((t + 1) div 128)" unfolding s by (intro mult_dvd_mono) simp_all
      with True Suc.prems show False by simp
    qed
    from Suc.IH [OF this] s show ?thesis unfolding leaf_unfold [of t] leaf_unfold [of "t + 1"] by simp
  qed
qed simp

lemma node_unique:
  assumes "node m i = node m' i'"
  shows "m = m' \<and> i = i'"
proof -
  let ?t = "(i + 1) * 128 ^ m - 1" and ?t' = "(i' + 1) * 128 ^ m' - 1"
  have d: "128 ^ m dvd ?t + 1" "128 ^ m' dvd ?t' + 1" by simp_all
  note g = leaf_gap [OF d(1)] leaf_gap [OF d(2)]
  have "?t = ?t'"
  proof (rule linorder_cases)
    assume "?t < ?t'"
    then have "leaf (?t + 1) \<le> leaf ?t'" by (intro leaf_mono) simp
    with g assms show ?thesis by (simp add: node_def)
  next
    assume "?t' < ?t"
    then have "leaf (?t' + 1) \<le> leaf ?t" by (intro leaf_mono) simp
    with g assms show ?thesis by (simp add: node_def)
  qed
  moreover from this have m: "m = m'" using assms by (simp add: node_def)
  moreover have "(i + 1) * 128 ^ m = ?t + 1" "(i' + 1) * 128 ^ m' = ?t' + 1" by simp_all
  ultimately show ?thesis by (metis add_right_cancel mult_right_cancel power_not_zero zero_neq_numeral)
qed

lemma node_everywhere: "\<exists>m i. p = node m i"
proof -
  define t where "t = (GREATEST t. leaf t \<le> p)"
  have bound: "t \<le> p" if "leaf t \<le> p" for t using that leaf_unfold [of t] by simp
  have "leaf 0 \<le> p" by (simp add: leaf.simps)
  then have t: "leaf t \<le> p" unfolding t_def by (rule GreatestI_nat [where P = "\<lambda>t. leaf t \<le> p", OF _ bound])
  moreover have "p < leaf (t + 1)"
  proof (rule ccontr)
    assume "\<not> p < leaf (t + 1)"
    then have "t + 1 \<le> t" unfolding t_def by (intro Greatest_le_nat [OF _ bound]) simp
    then show False by simp
  qed
  ultimately have t: "leaf t \<le> p" "p < leaf (t + 1)" by simp_all
  define m where "m = p - leaf t"
  have "128 ^ m dvd t + 1" using leaf_tight [of m t] t by (auto simp: m_def)
  then obtain q where q: "t + 1 = q * 128 ^ m" by (auto elim!: dvdE simp: mult.commute)
  then have "q = (q - 1) + 1" by (cases q) auto
  then have "p = node m (q - 1)" using q t(1) by (metis add_diff_cancel_right' m_def node_def le_add_diff_inverse)
  then show ?thesis by blast
qed

subsection \<open>The sizes\<close>

text \<open>
  For a file whose last sector is \<open>last\<close>: \<open>tags\<close> is the number of tags of a level, \<open>rest\<close> how many of them
  are in its last sector, \<open>levels\<close> the height of the tree; \<open>full k\<close> is the size of a complete subtree over
  \<open>128 ^ k\<close> data sectors.
\<close>

definition lastid :: "nat \<Rightarrow> nat" where "lastid n = (n - 1) div 4096"
definition tags :: "nat \<Rightarrow> nat \<Rightarrow> nat" where "tags n k = lastid n div 128 ^ k + 1"
definition rest :: "nat \<Rightarrow> nat \<Rightarrow> nat" where "rest n k = (lastid n div 128 ^ k) mod 128 + 1"

fun levels :: "nat \<Rightarrow> nat" where
  "levels lst = (if lst < 128 then 1 else levels (lst div 128) + 1)"

declare levels.simps [simp del]

fun full :: "nat \<Rightarrow> nat" where
  "full 0 = 4096"
| "full (Suc k) = 128 * (full k + 32)"

definition data_end :: "nat \<Rightarrow> nat" where
  "data_end n = 4096 * leaf (lastid n) + (n - 1) mod 4096 + 1"

definition tagoff :: "nat \<Rightarrow> nat \<Rightarrow> nat" where
  "tagoff n k = data_end n + 32 * (\<Sum>j<k. rest n j)"

text \<open>The bytes of the data and of the tags of the levels below \<open>k\<close>.\<close>

definition bytes_upto :: "nat \<Rightarrow> nat \<Rightarrow> nat" where
  "bytes_upto n k = n + 32 * (\<Sum>j<k. tags n j)"

lemma levels_pos: "1 \<le> levels lst"
  by (simp add: levels.simps [of lst])

lemma div_128_Suc: "a div 128 ^ Suc k = a div 128 div (128 ^ k :: nat)" "a div 128 ^ Suc k = a div 128 ^ k div (128 :: nat)"
  by (simp only: power_Suc div_mult2_eq) (simp only: power_Suc2 div_mult2_eq)

lemma levels_zero: "lst div 128 ^ levels lst = 0"
proof (induction lst rule: levels.induct)
  case (1 lst)
  then show ?case
    by (cases "lst < 128") (simp_all add: levels.simps [of lst] div_128_Suc(1) del: power_Suc)
qed

lemma levels_least: "1 \<le> k \<Longrightarrow> k < levels lst \<Longrightarrow> 1 \<le> lst div 128 ^ k"
proof (induction lst arbitrary: k rule: levels.induct)
  case (1 lst)
  show ?case
  proof (cases "lst < 128")
    case False
    show ?thesis
    proof (cases "k = 1")
      case True with False show ?thesis by simp
    next
      case k: False
      obtain j where j: "k = Suc j" "1 \<le> j" using 1(2) k by (cases k) auto
      moreover from this have "j < levels (lst div 128)" using 1(3) False by (simp add: levels.simps [of lst])
      ultimately show ?thesis using 1(1) [OF False] by (simp add: div_128_Suc(1) del: power_Suc)
    qed
  qed (use 1(2,3) in \<open>simp add: levels.simps [of lst]\<close>)
qed

lemma leaf_sum: "leaf t = (\<Sum>j<k. t div 128 ^ j) + leaf (t div 128 ^ k)"
proof (induction k)
  case (Suc k)
  have "leaf (t div 128 ^ k) = t div 128 ^ k + leaf (t div 128 ^ Suc k)"
    using leaf_unfold [of "t div 128 ^ k"] by (simp add: div_128_Suc(2) del: power_Suc)
  with Suc show ?case by simp
qed simp

lemma tags_rest: "tags n k = 128 * (lastid n div 128 ^ Suc k) + rest n k"
  unfolding tags_def rest_def div_128_Suc(2) by simp

lemma size_split: "0 < n \<Longrightarrow> n = 4096 * lastid n + (n - 1) mod 4096 + 1"
  by (simp add: lastid_def)

text \<open>Counted by levels or by places, the file has the same size.\<close>

lemma sizes_agree:
  assumes "0 < n" "lastid n div 128 ^ k = 0"
  shows "tagoff n k = bytes_upto n k"
proof -
  let ?l = "lastid n"
  have "(\<Sum>j<k. ?l div 128 ^ j) + ?l div 128 ^ k = ?l div 128 ^ 0 + (\<Sum>j<k. ?l div 128 ^ Suc j)"
    using sum.lessThan_Suc_shift [of "\<lambda>j. ?l div 128 ^ j" k] by (simp del: power_Suc)
  then have "leaf ?l = ?l + (\<Sum>j<k. ?l div 128 ^ Suc j)"
    using leaf_sum [of ?l k] assms(2) by (simp add: leaf.simps [of 0] del: power_Suc)
  moreover have "(\<Sum>j<k. tags n j) = 128 * (\<Sum>j<k. ?l div 128 ^ Suc j) + (\<Sum>j<k. rest n j)"
    by (simp add: tags_rest sum.distrib sum_distrib_left del: power_Suc)
  ultimately show ?thesis
    using size_split [OF assms(1)] by (simp add: tagoff_def bytes_upto_def data_end_def)
qed

lemma bytes_upto_bounds:
  assumes "0 < n"
  shows "(lastid n div 128 ^ k) * (full k + 32) + 32 < bytes_upto n (Suc k) \<and>
    bytes_upto n (Suc k) \<le> (lastid n div 128 ^ k + 1) * (full k + 32)"
proof (induction k)
  case 0
  have "(n - 1) mod 4096 < 4096" by simp
  with size_split [OF assms] show ?case by (simp add: bytes_upto_def tags_def)
next
  case (Suc k)
  define q where "q = lastid n div 128 ^ k"
  define p where "p = lastid n div 128 ^ Suc k"
  define r where "r = q mod 128"
  have "q = 128 * p + r" by (simp add: p_def q_def r_def div_128_Suc(2) del: power_Suc)
  moreover have "r < 128" by (simp add: r_def)
  ultimately have q2: "128 * p \<le> q" "q + 1 \<le> 128 * (p + 1)" by simp_all
  define f where "f = full k + 32"
  have "128 * p * f \<le> q * f" "(q + 1) * f \<le> 128 * (p + 1) * f" by (rule mult_le_mono1, rule q2)+
  then have le: "128 * (p * f) \<le> q * f" "q * f + f \<le> 128 * (p * f) + 128 * f" by (simp_all add: algebra_simps)
  have b: "q * f + 32 < bytes_upto n (Suc k)" "bytes_upto n (Suc k) \<le> q * f + f"
    using Suc unfolding q_def [symmetric] f_def [symmetric] by simp_all
  have t: "bytes_upto n (Suc (Suc k)) = bytes_upto n (Suc k) + 32 * (p + 1)"
    by (simp add: bytes_upto_def tags_def p_def del: power_Suc)
  have g: "p * (full (Suc k) + 32) = 128 * (p * f) + 32 * p" "(p + 1) * (full (Suc k) + 32) = 128 * (p * f) + 128 * f + 32 * p + 32"
    by (simp_all add: f_def algebra_simps)
  have "128 * P + 32 * p + 32 < B + 32 * (p + 1) \<and> B + 32 * (p + 1) \<le> 128 * P + 128 * f + 32 * p + 32"
    if "128 * P \<le> Q" "Q + f \<le> 128 * P + 128 * f" "Q + 32 < B" "B \<le> Q + f" for P Q B :: nat
    using that by simp
  from this [OF le b] show ?case unfolding p_def [symmetric] g t .
qed

lemma tags_from_size:
  assumes "0 < n"
  shows "(bytes_upto n (Suc k) + full k + 32 - 1) div (full k + 32) = tags n k"
proof -
  let ?f = "full k + 32" and ?q = "lastid n div 128 ^ k"
  note b = bytes_upto_bounds [OF assms, of k]
  obtain d where d: "bytes_upto n (Suc k) = ?q * ?f + d + 1"
    using b by (metis add.assoc less_imp_Suc_add Suc_eq_plus1 add_lessD1)
  then have "d < ?f" using b by simp
  have "bytes_upto n (Suc k) + full k + 32 - 1 = d + (?q + 1) * ?f" using d by simp
  moreover have "(d + (?q + 1) * ?f) div ?f = ?q + 1" using \<open>d < ?f\<close> by (subst div_mult_self1) simp_all
  ultimately show ?thesis by (simp only: tags_def)
qed

lemma full_mono: "a \<le> b \<Longrightarrow> full a \<le> full b"
  by (induction b rule: dec_induct) (auto intro: order_trans)

lemma height_from_size:
  assumes "0 < n" "1 \<le> k"
  shows "bytes_upto n (levels (lastid n)) \<le> full k \<longleftrightarrow> levels (lastid n) \<le> k"
proof -
  let ?T = "levels (lastid n)"
  obtain T where T: "?T = Suc T" using levels_pos [of "lastid n"] by (cases ?T) auto
  have "lastid n div 128 ^ T + 1 \<le> 128"
    using levels_zero [of "lastid n"] unfolding T div_128_Suc(2) by (simp add: div_eq_0_iff)
  then have "(lastid n div 128 ^ T + 1) * (full T + 32) \<le> full ?T" unfolding T full.simps by (rule mult_le_mono1)
  then have up: "bytes_upto n ?T \<le> full ?T" using bytes_upto_bounds [OF assms(1), of T] T by simp
  show ?thesis
  proof
    assume "?T \<le> k" then show "bytes_upto n ?T \<le> full k" using up full_mono by (meson order_trans)
  next
    assume le: "bytes_upto n ?T \<le> full k"
    show "?T \<le> k"
    proof (rule ccontr)
      assume "\<not> ?T \<le> k"
      then have k: "1 \<le> lastid n div 128 ^ k" "Suc k \<le> ?T" using levels_least [OF assms(2)] by simp_all
      have "{..<Suc k} \<subseteq> {..<?T}" using k(2) by auto
      then have "(\<Sum>j<Suc k. tags n j) \<le> (\<Sum>j<?T. tags n j)" by (intro sum_mono2) auto
      then have "bytes_upto n (Suc k) \<le> bytes_upto n ?T" by (simp add: bytes_upto_def del: sum.lessThan_Suc)
      moreover have "full k + 32 \<le> (lastid n div 128 ^ k) * (full k + 32)" using k(1) by simp
      ultimately show False using bytes_upto_bounds [OF assms(1), of k] le by linarith
    qed
  qed
qed

subsection \<open>The words of the code\<close>

lemma word_div_of_nat:
  "a < 2 ^ LENGTH('a) \<Longrightarrow> b < 2 ^ LENGTH('a) \<Longrightarrow> (word_of_nat a :: 'a::len word) div word_of_nat b = word_of_nat (a div b)"
  using le_less_trans [OF div_le_dividend, of a "2 ^ LENGTH('a)" b]
  by (simp add: word_unat_eq_iff unat_div unsigned_of_nat take_bit_nat_eq_self)

lemma word_mod_of_nat:
  "a < 2 ^ LENGTH('a) \<Longrightarrow> b < 2 ^ LENGTH('a) \<Longrightarrow> (word_of_nat a :: 'a::len word) mod word_of_nat b = word_of_nat (a mod b)"
  using le_less_trans [OF mod_less_eq_dividend, of a "2 ^ LENGTH('a)" b]
  by (simp add: word_unat_eq_iff unat_mod unsigned_of_nat take_bit_nat_eq_self)

lemma u32_of_nat:
  assumes "a < 2 ^ 32"
  shows "(word_of_nat a :: u32) div 128 = word_of_nat (a div 128)" "(word_of_nat a :: u32) mod 128 = word_of_nat (a mod 128)"
    "(128 :: u32) \<le> word_of_nat a \<longleftrightarrow> 128 \<le> a" "(ucast (word_of_nat a :: u32) :: u64) = word_of_nat a" "unat (word_of_nat a :: u32) = a"
proof -
  show "(word_of_nat a :: u32) div 128 = word_of_nat (a div 128)" "(word_of_nat a :: u32) mod 128 = word_of_nat (a mod 128)"
    using word_div_of_nat [where 'a = 32, of a 128] word_mod_of_nat [where 'a = 32, of a 128] assms by simp_all
  show u: "unat (word_of_nat a :: u32) = a" using assms by (simp add: unsigned_of_nat take_bit_nat_eq_self)
  then show "(128 :: u32) \<le> word_of_nat a \<longleftrightarrow> 128 \<le> a" by (simp add: word_le_nat_alt)
  show "(ucast (word_of_nat a :: u32) :: u64) = word_of_nat a" using assms by (simp add: unsigned_of_nat take_bit_nat_eq_self)
qed

lemma u64_of_nat:
  assumes "a < 2 ^ 64"
  shows "(word_of_nat a :: u64) div 4096 = word_of_nat (a div 4096)" "(word_of_nat a :: u64) mod 4096 = word_of_nat (a mod 4096)"
    "(word_of_nat a :: u64) div 128 = word_of_nat (a div 128)" "(word_of_nat a :: u64) mod 128 = word_of_nat (a mod 128)"
    "unat (word_of_nat a :: u64) = a" "(ucast (word_of_nat a :: u64) :: u32) = word_of_nat a" "(ucast (word_of_nat a :: u64) :: u16) = word_of_nat a"
  using word_div_of_nat [where 'a = 64, of a 4096] word_mod_of_nat [where 'a = 64, of a 4096]
    word_div_of_nat [where 'a = 64, of a 128] word_mod_of_nat [where 'a = 64, of a 128] assms
  by (simp_all add: unsigned_of_nat take_bit_nat_eq_self)

lemma u64_div: "a < 2 ^ 64 \<Longrightarrow> b < 2 ^ 64 \<Longrightarrow> (word_of_nat a :: u64) div word_of_nat b = word_of_nat (a div b)"
  using word_div_of_nat [where 'a = 64, of a b] by simp

lemma u64_le: "a < 2 ^ 64 \<Longrightarrow> b < 2 ^ 64 \<Longrightarrow> (word_of_nat a :: u64) \<le> word_of_nat b \<longleftrightarrow> a \<le> b"
  by (simp add: word_le_nat_alt u64_of_nat(5))

lemma data_offset_loop_nat:
  "s < 2 ^ 32 \<Longrightarrow> data_offset_loop (word_of_nat s) off = off + word_of_nat (4096 * leaf (s div 128))"
proof (induction s arbitrary: off rule: less_induct)
  case (less s)
  show ?case
  proof (cases "s < 128")
    case True
    with less.prems show ?thesis
      by (subst data_offset_loop.simps) (simp add: PSYNC_CRYPTO_HASH_TREE_SECTORS_def u32_of_nat leaf.simps [of 0])
  next
    case False
    have "data_offset_loop (word_of_nat s) off = data_offset_loop (word_of_nat (s div 128)) (off + word_of_nat (s div 128) * 4096)"
      using False less.prems
      by (subst data_offset_loop.simps) (simp add: PSYNC_CRYPTO_HASH_TREE_SECTORS_def PSYNC_CRYPTO_SECTOR_SIZE_def u32_of_nat)
    also have "\<dots> = off + word_of_nat (s div 128) * 4096 + word_of_nat (4096 * leaf (s div 128 div 128))"
      using False less.prems by (intro less.IH) simp_all
    also have "\<dots> = off + word_of_nat (4096 * leaf (s div 128))"
      by (subst leaf_unfold [of "s div 128"]) (simp add: algebra_simps)
    finally show ?thesis .
  qed
qed

lemma data_offset_nat: "s < 2 ^ 32 \<Longrightarrow> psync_fs_crypto_data_offset_by_sectorid (word_of_nat s) = word_of_nat (4096 * leaf s)"
  by (subst leaf_unfold)
    (simp add: psync_fs_crypto_data_offset_by_sectorid_def data_offset_loop_nat u32_of_nat PSYNC_CRYPTO_SECTOR_SIZE_def algebra_simps)

lemma sector_id_loop_nat:
  "s < 2 ^ 32 \<Longrightarrow> sector_id_loop (word_of_nat s) sect = sect + word_of_nat (leaf (s div 128))"
proof (induction s arbitrary: sect rule: less_induct)
  case (less s)
  show ?case
  proof (cases "s < 128")
    case True
    with less.prems show ?thesis
      by (subst sector_id_loop.simps) (simp add: PSYNC_CRYPTO_HASH_TREE_SECTORS_def u32_of_nat leaf.simps [of 0])
  next
    case False
    have "sector_id_loop (word_of_nat s) sect = sector_id_loop (word_of_nat (s div 128)) (sect + word_of_nat (s div 128))"
      using False less.prems by (subst sector_id_loop.simps) (simp add: PSYNC_CRYPTO_HASH_TREE_SECTORS_def u32_of_nat Let_def)
    also have "\<dots> = sect + word_of_nat (s div 128) + word_of_nat (leaf (s div 128 div 128))"
      using False less.prems by (intro less.IH) simp_all
    also have "\<dots> = sect + word_of_nat (leaf (s div 128))"
      by (subst leaf_unfold [of "s div 128"]) simp
    finally show ?thesis .
  qed
qed

text \<open>
  C40. The sector id is the data offset in sectors, but it is computed in 32 bits: the ids of the last sectors of
  a file of more than about 15.8 TB wrap around, although \<open>PSYNC_CRYPTO_MAX_SECTORID\<close> admits them.
\<close>

theorem sector_id_wraps:
  "ucast (pfscrypto_sector_id sectorid) * PSYNC_CRYPTO_SECTOR_SIZE = psync_fs_crypto_data_offset_by_sectorid sectorid \<longleftrightarrow>
   leaf (unat sectorid) < 2 ^ 32"
proof -
  define s where "s = unat sectorid"
  have s: "sectorid = word_of_nat s" "s < 2 ^ 32" using unsigned_less [of sectorid] by (simp_all add: s_def)
  have id: "pfscrypto_sector_id sectorid = word_of_nat (leaf s)"
    by (subst leaf_unfold) (simp add: pfscrypto_sector_id_def s(1) sector_id_loop_nat [OF s(2)])
  have le: "leaf s \<le> 2 * s"
  proof (induction s rule: less_induct)
    case (less s)
    show ?case
    proof (cases "s = 0")
      case False
      then have "leaf (s div 128) \<le> 2 * (s div 128)" by (intro less) simp
      then show ?thesis unfolding leaf_unfold [of s] by linarith
    qed (simp add: leaf.simps [of 0])
  qed
  have v: "ucast (pfscrypto_sector_id sectorid) * PSYNC_CRYPTO_SECTOR_SIZE = (word_of_nat (4096 * (leaf s mod 2 ^ 32)) :: u64)"
    by (simp add: id PSYNC_CRYPTO_SECTOR_SIZE_def unsigned_of_nat take_bit_nat_def)
  have b: "4096 * (leaf s mod 2 ^ 32) < 2 ^ 64" "4096 * leaf s < 2 ^ 64"
    using le s(2) mod_less_eq_dividend [of "leaf s" "2 ^ 32"] by (simp_all add: less_le_trans [of _ _ "4096 * 2 ^ 33"])
  have "(word_of_nat (4096 * (leaf s mod 2 ^ 32)) :: u64) = word_of_nat (4096 * leaf s) \<longleftrightarrow> leaf s mod 2 ^ 32 = leaf s"
    using u64_of_nat(5) [OF b(1)] u64_of_nat(5) [OF b(2)] by (metis mult_left_cancel zero_neq_numeral)
  moreover have "leaf s mod 2 ^ 32 = leaf s \<longleftrightarrow> leaf s < 2 ^ 32" by (simp add: mod_eq_self_iff_div_eq_0 div_eq_0_iff)
  moreover have "psync_fs_crypto_data_offset_by_sectorid sectorid = word_of_nat (4096 * leaf s)"
    by (simp only: s(1) data_offset_nat [OF s(2)])
  ultimately show ?thesis unfolding v by (simp only: s_def [symmetric])
qed

lemma auth_offset_loop_nat:
  "i < 2 ^ 27 \<Longrightarrow> auth_offset_loop (word_of_nat i) ret = ret + word_of_nat (4096 * leaf (i div 128))"
proof (induction i arbitrary: ret rule: less_induct)
  case (less i)
  show ?case
  proof (cases "i < 128")
    case True
    with less.prems show ?thesis
      by (subst auth_offset_loop.simps) (simp add: PSYNC_CRYPTO_HASH_TREE_SECTORS_def u32_of_nat leaf.simps [of 0])
  next
    case False
    have p: "(word_of_nat (i div 128) * 4096 :: u32) = word_of_nat (i div 128 * 4096)" by simp
    have "auth_offset_loop (word_of_nat i) ret = auth_offset_loop (word_of_nat (i div 128)) (ret + word_of_nat (i div 128 * 4096))"
      using False less.prems unfolding auth_offset_loop.simps [of "word_of_nat i"] PSYNC_CRYPTO_HASH_TREE_SECTORS_def PSYNC_CRYPTO_SECTOR_SIZE_def
      by (simp add: u32_of_nat p Let_def del: of_nat_mult)
    also have "\<dots> = ret + word_of_nat (i div 128 * 4096) + word_of_nat (4096 * leaf (i div 128 div 128))"
      using False less.prems by (intro less.IH) simp_all
    also have "\<dots> = ret + word_of_nat (4096 * leaf (i div 128))"
      by (subst leaf_unfold [of "i div 128"]) (simp add: algebra_simps)
    finally show ?thesis .
  qed
qed

lemma node_closed: "4096 * (node m i + 1) = full m * (i + 1) + 4096 * leaf (i div 128)"
proof (induction m)
  case 0
  show ?case by (subst (1) node_def, subst leaf_unfold) (simp add: algebra_simps)
next
  case (Suc m)
  have "0 < (i + 1) * 128 ^ m" by simp
  then obtain t where t: "(i + 1) * 128 ^ m = Suc t" by (metis gr0_implies_Suc)
  then have s: "(i + 1) * 128 ^ Suc m = Suc (128 * t + 127)" by (simp add: algebra_simps)
  have "node m i = leaf t + m" "node (Suc m) i = leaf (128 * t + 127) + Suc m" by (simp_all only: node_def t s diff_Suc_1)
  then have "node (Suc m) i = 128 * t + 127 + node m i + 1"
    using leaf_unfold [of "128 * t + 127"] by simp
  moreover have "128 * t + 128 = 128 ^ Suc m * (i + 1)" using s by (simp add: algebra_simps)
  moreover have "full (Suc m) = full m + 4096 * 128 ^ Suc m" by (induction m) simp_all
  ultimately show ?case using Suc by (simp add: algebra_simps del: full.simps power_Suc)
qed

lemma full_numeral: "full (numeral k) = 128 * (full (pred_numeral k) + 32)"
  by (subst numeral_eq_Suc) (rule full.simps(2))

lemma max_level_size_nat: "k \<le> 6 \<Longrightarrow> max_level_size ! k = word_of_nat (full k)"
proof -
  assume "k \<le> 6"
  then have "k \<in> {0, 1, 2, 3, 4, 5, 6}" by auto
  then show ?thesis by (auto simp: max_level_size_def full_numeral)
qed

lemma auth_offset_nat:
  assumes "i < 2 ^ 27" "l \<le> 5"
  shows "psync_fs_crypto_auth_offset l (word_of_nat i) = word_of_nat (4096 * node (l + 1) i)"
proof -
  have "(word_of_nat i :: u32) + 1 = word_of_nat (i + 1)" by simp
  then have c: "ucast ((word_of_nat i :: u32) + 1) = (word_of_nat (i + 1) :: u64)" using u32_of_nat(4) [of "i + 1"] assms(1)
    by (simp only: of_nat_add of_nat_1) simp
  have "word_of_nat (4096 * (node (l + 1) i + 1)) = (word_of_nat (full (l + 1) * (i + 1) + 4096 * leaf (i div 128)) :: u64)"
    by (simp only: node_closed)
  then have "word_of_nat (4096 * node (l + 1) i) = (word_of_nat (full (l + 1)) * word_of_nat (i + 1) - 4096 + word_of_nat (4096 * leaf (i div 128)) :: u64)"
    by (simp add: algebra_simps)
  then show ?thesis
    unfolding psync_fs_crypto_auth_offset_def c auth_offset_loop_nat [OF assms(1)] PSYNC_CRYPTO_SECTOR_SIZE_def
    using assms(2) by (simp only: max_level_size_nat)
qed

subsection \<open>The offsets of a file\<close>

text \<open>The arrays, filled from \<open>a\<close> up to before \<open>b\<close>.\<close>

definition filled_at :: "nat \<Rightarrow> nat \<Rightarrow> (nat \<Rightarrow> nat) \<Rightarrow> 'a::len word list" where
  "filled_at a b F = map (\<lambda>j. if a \<le> j \<and> j < b then word_of_nat (F j) else 0) [0..<PSYNC_CRYPTO_MAX_HASH_TREE_LEVEL]"

definition arrays :: "nat \<Rightarrow> nat \<Rightarrow> nat \<Rightarrow> crypto_offsets \<Rightarrow> crypto_offsets" where
  "arrays n a b offsets = offsets\<lparr>lastauthsectoroff := filled_at a b (tagoff n), lastauthsectorlen := filled_at a b (\<lambda>j. 32 * rest n j)\<rparr>"

lemma filled_at_upd:
  "(filled_at a b F)[b := word_of_nat (F b)] = filled_at a (Suc b) F" if "a \<le> b"
  using that by (auto simp: filled_at_def less_Suc_eq nth_list_update intro!: nth_equalityI)

lemma filled_at_upd_low:
  "(filled_at (Suc a) b F)[a := word_of_nat (F a)] = filled_at a b F" if "a < b"
  using that by (auto simp: filled_at_def less_Suc_eq Suc_le_eq nth_list_update intro!: nth_equalityI)

lemma filled_at_empty: "filled_at a a F = replicate PSYNC_CRYPTO_MAX_HASH_TREE_LEVEL 0"
  by (auto simp: filled_at_def intro!: nth_equalityI)

lemma arrays_empty: "arrays n a a no_offsets = no_offsets"
  by (simp add: arrays_def no_offsets_def filled_at_empty)

lemma set_level_up:
  "a \<le> b \<Longrightarrow> b < 6 \<Longrightarrow> set_level b (word_of_nat (tagoff n b)) (word_of_nat (32 * rest n b)) (arrays n a b offsets) =
     Some (arrays n a (Suc b) offsets)"
  by (simp add: set_level_def arrays_def filled_at_upd PSYNC_CRYPTO_MAX_HASH_TREE_LEVEL_def filled_at_upd [where F = "\<lambda>j. 32 * rest n j", simplified])

lemma set_level_down:
  "a < b \<Longrightarrow> a < 6 \<Longrightarrow> set_level a (word_of_nat (tagoff n a)) (word_of_nat (32 * rest n a)) (arrays n (Suc a) b offsets) =
     Some (arrays n a b offsets)"
  by (simp add: set_level_def arrays_def filled_at_upd_low PSYNC_CRYPTO_MAX_HASH_TREE_LEVEL_def filled_at_upd_low [where F = "\<lambda>j. 32 * rest n j", simplified])

lemma arrays_more:
  "arrays n a b (offsets\<lparr>masterauthoff := x\<rparr>) = (arrays n a b offsets)\<lparr>masterauthoff := x\<rparr>"
  "arrays n a b (offsets\<lparr>treelevels := t\<rparr>) = (arrays n a b offsets)\<lparr>treelevels := t\<rparr>"
  "arrays n a b (offsets\<lparr>plainsize := y\<rparr>) = (arrays n a b offsets)\<lparr>plainsize := y\<rparr>"
  "arrays n a b (offsets\<lparr>needmasterauth := z\<rparr>) = (arrays n a b offsets)\<lparr>needmasterauth := z\<rparr>"
  by (simp_all add: arrays_def)

text \<open>The sizes in question are far from the end of the words.\<close>

lemma lastid_bound: "n \<le> 2 ^ 44 \<Longrightarrow> lastid n < 2 ^ 32"
proof -
  assume "n \<le> 2 ^ 44"
  then have "n - 1 \<le> 2 ^ 44 - 1" by simp
  then have "lastid n \<le> (2 ^ 44 - 1) div 4096" unfolding lastid_def by (rule div_le_mono)
  then show ?thesis by simp
qed

lemma levels_bound: "n \<le> 2 ^ 44 \<Longrightarrow> levels (lastid n) \<le> 5"
  using levels_least [of 5 "lastid n"] lastid_bound [of n] by (rule_tac ccontr) (simp add: div_greater_zero_iff)

lemma rest_bounds: "1 \<le> rest n k" "rest n k \<le> 128"
  by (simp_all add: rest_def less_Suc_eq_le [symmetric])

lemma bytes_upto_mono: "a \<le> b \<Longrightarrow> bytes_upto n a \<le> bytes_upto n b"
  by (simp add: bytes_upto_def sum_mono2)

lemma bytes_upto_bound:
  assumes "0 < n" "n \<le> 2 ^ 44" "k \<le> levels (lastid n)"
  shows "bytes_upto n k \<le> full 5"
proof -
  have "bytes_upto n (levels (lastid n)) \<le> full 5"
    using height_from_size [OF assms(1), of 5] levels_bound [OF assms(2)] by simp
  with bytes_upto_mono [OF assms(3), of n] show ?thesis by simp
qed

lemma full_bound: "k \<le> 6 \<Longrightarrow> full k < 2 ^ 63"
proof -
  assume "k \<le> 6"
  then have "full k \<le> full 6" by (rule full_mono)
  then show ?thesis by (simp add: full_numeral)
qed

lemma tags_bound: "n \<le> 2 ^ 44 \<Longrightarrow> tags n k \<le> 2 ^ 32"
proof -
  assume "n \<le> 2 ^ 44"
  then have "lastid n < 2 ^ 32" by (rule lastid_bound)
  then have "lastid n div 128 ^ k < 2 ^ 32" by (rule le_less_trans [OF div_le_dividend])
  then show ?thesis by (simp add: tags_def)
qed

lemma tags_up: "(tags n k + 127) div 128 = tags n (Suc k)"
proof -
  have "tags n k + 127 = rest n k + 127 + 128 * (lastid n div 128 ^ Suc k)" using tags_rest [of n k] by simp
  also have "\<dots> div 128 = (rest n k + 127) div 128 + lastid n div 128 ^ Suc k" by simp
  also have "(rest n k + 127) div 128 = 1" using rest_bounds [of n k] by (simp add: div_nat_eqI)
  finally show ?thesis by (simp only: tags_def add.commute)
qed

lemma tags_mod: "(if tags n k mod 128 = 0 then 128 else tags n k mod 128) = rest n k"
proof -
  have "tags n k mod 128 = rest n k mod 128" using tags_rest [of n k] by simp
  then show ?thesis using rest_bounds [of n k] by (cases "rest n k = 128") auto
qed

lemma tagoff_Suc: "tagoff n (Suc k) = tagoff n k + 32 * rest n k"
  by (simp add: tagoff_def)

lemma bytes_upto_Suc: "bytes_upto n (Suc k) = bytes_upto n k + 32 * tags n k"
  by (simp add: bytes_upto_def)

lemma size_levels_nat:
  assumes "n \<le> 2 ^ 44" "k < levels (lastid n)"
  shows "size_levels (word_of_nat (tags n k)) (word_of_nat (tagoff n k)) k (arrays n 0 k offsets) =
    Some (word_of_nat (tagoff n (levels (lastid n))), levels (lastid n), arrays n 0 (levels (lastid n)) offsets)"
  using assms(2)
proof (induction "levels (lastid n) - k" arbitrary: k)
  case (Suc d)
  let ?T = "levels (lastid n)"
  have t: "tags n k + 127 < 2 ^ 64" using tags_bound [OF assms(1), of k] by simp
  have r: "32 * rest n k < 2 ^ 16" using rest_bounds [of n k] by simp
  have m: "tags n k mod 128 < 2 ^ 32" by (rule less_trans [of _ 128]) simp_all
  have n0: "(ucast ((word_of_nat (tags n k) :: u64) mod 128) :: u32) = word_of_nat (tags n k mod 128)"
    using t m by (simp add: u64_of_nat)
  have n1: "((if (word_of_nat (tags n k mod 128) :: u32) = 0 then 128 else word_of_nat (tags n k mod 128)) * 32 :: u32) = word_of_nat (32 * rest n k)"
  proof -
    have "(word_of_nat (tags n k mod 128) :: u32) = 0 \<longleftrightarrow> tags n k mod 128 = 0"
      using u32_of_nat(5) [OF m] by (metis unat_0 unat_eq_0)
    then show ?thesis using tags_mod [of n k] by (cases "tags n k mod 128 = 0") simp_all
  qed
  have s: "((word_of_nat (tags n k) + 128 - 1) div 128 :: u64) = word_of_nat (tags n (Suc k))"
  proof -
    have "(word_of_nat (tags n k) + 128 - 1 :: u64) = word_of_nat (tags n k + 127)" by simp
    then show ?thesis by (simp only: u64_of_nat(3) [OF t] tags_up)
  qed
  have c: "(ucast (word_of_nat (32 * rest n k) :: u32) :: u64) = word_of_nat (32 * rest n k)"
    "(ucast (word_of_nat (32 * rest n k) :: u32) :: u16) = word_of_nat (32 * rest n k)"
    using r by (simp_all add: unsigned_of_nat take_bit_nat_eq_self del: of_nat_mult)
  have o: "(word_of_nat (tagoff n k) + word_of_nat (32 * rest n k) :: u64) = word_of_nat (tagoff n (Suc k))" by (simp add: tagoff_Suc)
  have k: "k < 6" using Suc.prems levels_bound [OF assms(1)] by simp
  have g: "(1 :: u64) < word_of_nat (tags n (Suc k)) \<longleftrightarrow> 1 < tags n (Suc k)"
    using u64_le [of "tags n (Suc k)" 1] tags_bound [OF assms(1), of "Suc k"] by (simp add: not_le [symmetric])
  have step: "size_levels (word_of_nat (tags n k)) (word_of_nat (tagoff n k)) k (arrays n 0 k offsets) =
      (if 1 < tags n (Suc k) then size_levels (word_of_nat (tags n (Suc k))) (word_of_nat (tagoff n (Suc k))) (Suc k) (arrays n 0 (Suc k) offsets)
       else Some (word_of_nat (tagoff n (Suc k)), Suc k, arrays n 0 (Suc k) offsets))"
    by (subst size_levels.simps)
      (simp only: Let_def PSYNC_CRYPTO_HASH_TREE_SECTORS_def PSYNC_CRYPTO_AUTH_SIZE_def n0 n1 s c o set_level_up [OF le0 k] option.case g [unfolded Suc_eq_plus1] Suc_eq_plus1)
  show ?case
  proof (cases "Suc k < ?T")
    case True
    then have "1 < tags n (Suc k)" using levels_least [of "Suc k" "lastid n"] by (simp add: tags_def del: power_Suc)
    then show ?thesis using Suc.hyps(1) [of "Suc k"] Suc.hyps(2) True step by simp
  next
    case False
    then have "?T = Suc k" using Suc.prems by simp
    moreover from this have "\<not> 1 < tags n (Suc k)" using levels_zero [of "lastid n"] by (simp add: tags_def del: power_Suc)
    ultimately show ?thesis using step by simp
  qed
qed simp

text \<open>All the fields for a file of \<open>n\<close> bytes.\<close>

definition offsets_of :: "nat \<Rightarrow> crypto_offsets" where
  "offsets_of n = (let T = levels (lastid n) in
     arrays n 0 (Suc T) \<lparr>masterauthoff = word_of_nat (tagoff n T), plainsize = word_of_nat n, lastauthsectoroff = [],
       lastauthsectorlen = [], treelevels = T, needmasterauth = n > 4096\<rparr>)"

lemma rest_top: "rest n (levels (lastid n)) = 1"
  by (simp add: rest_def levels_zero)

lemma last_sector_words:
  assumes "0 < n" "n \<le> 2 ^ 44"
  shows "(let i = ucast ((word_of_nat n :: u64) div 4096) :: u32; sz = ucast ((word_of_nat n :: u64) mod 4096) :: u32
    in if sz = 0 then (i - 1, 4096) else (i, sz)) = (word_of_nat (lastid n), word_of_nat ((n - 1) mod 4096 + 1))"
proof -
  have n: "n < 2 ^ 64" "n div 4096 < 2 ^ 64" "n mod 4096 < 2 ^ 64"
    using assms(2) le_less_trans [OF div_le_dividend, of n "2 ^ 64" 4096] by (auto intro: less_trans [of _ 4096])
  have m: "n mod 4096 < 2 ^ 32" by (rule less_trans [of _ 4096]) simp_all
  then have z: "(word_of_nat (n mod 4096) :: u32) = 0 \<longleftrightarrow> n mod 4096 = 0"
    using u32_of_nat(5) [OF m] by (metis unat_0 unat_eq_0)
  obtain p where p: "n = Suc p" using assms(1) by (cases n) auto
  have l: "lastid n = p div 4096" "(n - Suc 0) mod 4096 = p mod 4096" by (simp_all add: lastid_def p)
  show ?thesis
  proof (cases "n mod 4096 = 0")
    case True
    then have d: "n div 4096 = Suc (p div 4096)" "p mod 4096 = 4095" using p by (simp_all add: div_Suc mod_Suc split: if_splits)
    have "(word_of_nat (n div 4096) :: u32) - 1 = word_of_nat (p div 4096)" unfolding d by simp
    then show ?thesis using True z n d(2) by (simp add: u64_of_nat l Let_def)
  next
    case False
    then have "n div 4096 = p div 4096" "n mod 4096 = Suc (p mod 4096)" using p by (simp_all add: div_Suc mod_Suc split: if_splits)
    then have q: "(n - 1) mod 4096 + 1 = n mod 4096" "lastid n = n div 4096" by (simp_all add: l)
    show ?thesis using False z n unfolding q by (simp add: u64_of_nat Let_def)
  qed
qed

lemma offset_by_size_unfold:
  "sz \<noteq> 0 \<Longrightarrow> pfscrypto_offset_by_size sz =
    (case (let i = ucast (sz div 4096) :: u32; r = ucast (sz mod 4096) :: u32 in if r = 0 then (i - 1, 4096) else (i, r)) of (i, r) \<Rightarrow>
      (case size_levels ((sz + 4096 - 1) div 4096) (psync_fs_crypto_data_offset_by_sectorid i + ucast r) 0
              (no_offsets\<lparr>plainsize := sz, needmasterauth := sz > 4096\<rparr>) of
         None \<Rightarrow> None
       | Some (off, level, offsets) \<Rightarrow>
           map_option (\<lambda>offsets. offsets\<lparr>masterauthoff := off, treelevels := level\<rparr>) (set_level level off 32 offsets)))"
  unfolding pfscrypto_offset_by_size_def PSYNC_CRYPTO_SECTOR_SIZE_def PSYNC_CRYPTO_AUTH_SIZE_def Let_def by simp

lemma offset_by_size_nat:
  assumes "0 < n" "n \<le> 2 ^ 44"
  shows "pfscrypto_offset_by_size (word_of_nat n) = Some (offsets_of n)"
proof -
  let ?T = "levels (lastid n)"
  have n: "n < 2 ^ 64" "n + 4095 < 2 ^ 64" using assms(2) by simp_all
  have nz: "(word_of_nat n :: u64) \<noteq> 0" using u64_of_nat(5) [OF n(1)] assms(1) by (metis unat_0 not_gr_zero)
  have need: "(4096 :: u64) < word_of_nat n \<longleftrightarrow> 4096 < n" using u64_le [OF n(1), of 4096] by (simp add: not_le [symmetric])
  have e: "(word_of_nat n :: u64) + 4096 - 1 = word_of_nat (n + 4095)" by simp
  have "n + 4095 = (n - 1) + 1 * 4096" using assms(1) by simp
  then have "(n + 4095) div 4096 = (n - 1) div 4096 + 1" by (simp only: div_mult_self1)
  then have c: "((word_of_nat n :: u64) + 4096 - 1) div 4096 = word_of_nat (tags n 0)"
    unfolding e u64_of_nat(1) [OF n(2)] by (simp add: tags_def lastid_def)
  have r: "(n - 1) mod 4096 + 1 < 2 ^ 32" by (rule le_less_trans [of _ 4096]) (simp_all add: Suc_le_eq)
  have off: "psync_fs_crypto_data_offset_by_sectorid (word_of_nat (lastid n)) + ucast (word_of_nat ((n - 1) mod 4096 + 1) :: u32) =
      word_of_nat (tagoff n 0)"
    unfolding data_offset_nat [OF lastid_bound [OF assms(2)]] u32_of_nat(4) [OF r] by (simp add: tagoff_def data_end_def)
  have lv: "0 < ?T" "?T < 6" using levels_pos [of "lastid n"] levels_bound [OF assms(2)] by simp_all
  let ?o = "no_offsets\<lparr>plainsize := word_of_nat n, needmasterauth := 4096 < n\<rparr>"
  have "?o = arrays n 0 0 ?o" by (simp add: arrays_more arrays_empty)
  then have sl: "size_levels (word_of_nat (tags n 0)) (word_of_nat (tagoff n 0)) 0 ?o =
      Some (word_of_nat (tagoff n ?T), ?T, arrays n 0 ?T ?o)"
    using size_levels_nat [OF assms(2) lv(1), of ?o] by (simp only:)
  have top: "set_level ?T (word_of_nat (tagoff n ?T)) 32 (arrays n 0 ?T ?o) = Some (arrays n 0 (Suc ?T) ?o)"
    using set_level_up [of 0 ?T n ?o] lv(2) by (simp add: rest_top)
  show ?thesis
    unfolding offset_by_size_unfold [OF nz] last_sector_words [OF assms] prod.case off c need sl option.case top option.map
    by (simp add: offsets_of_def arrays_def Let_def no_offsets_def)
qed

lemma cryptosize_levels_nat:
  assumes "0 < n" "n \<le> 2 ^ 44"
  shows "k \<le> levels (lastid n) \<Longrightarrow> k < b \<Longrightarrow>
    cryptosize_levels k (word_of_nat (bytes_upto n k)) (word_of_nat (tagoff n k)) (arrays n k b offsets) =
      Some (word_of_nat n, arrays n 0 b offsets)"
proof (induction k)
  case 0
  then show ?case by (simp add: bytes_upto_def)
next
  case (Suc k)
  let ?B = "bytes_upto n (Suc k)"
  have k: "k \<le> 4" using Suc.prems(1) levels_bound [OF assms(2)] by simp
  have "?B \<le> 0x810204081000" "full k \<le> 0x810204081000"
    using bytes_upto_bound [OF assms Suc.prems(1)] full_mono [of k 5] k by (simp_all add: full_numeral)
  then have small: "?B + full k + 32 - 1 < 2 ^ 64" "full k + 32 < 2 ^ 64" by simp_all
  have e: "(word_of_nat ?B + word_of_nat (full k) + 32 - 1 :: u64) = word_of_nat (?B + full k + 32 - 1)" by (simp add: of_nat_diff)
  have f: "(word_of_nat (full k) + 32 :: u64) = word_of_nat (full k + 32)" by simp
  have d: "(word_of_nat ?B + word_of_nat (full k) + 32 - 1) div (word_of_nat (full k) + 32) = (word_of_nat (tags n k) :: u64)"
    unfolding e f u64_div [OF small] tags_from_size [OF assms(1)] ..
  have t: "(word_of_nat ?B - word_of_nat (tags n k) * 32 :: u64) = word_of_nat (bytes_upto n k)" by (simp add: bytes_upto_Suc)
  have n: "tags n k < 2 ^ 64" using tags_bound [OF assms(2), of k] by simp
  have r: "rest n k < 2 ^ 64" "32 * rest n k < 2 ^ 64" using rest_bounds [of n k] by simp_all
  have m: "tags n k mod 128 < 2 ^ 64" by (rule less_trans [of _ 128]) simp_all
  have z: "(word_of_nat (tags n k mod 128) :: u64) = 0 \<longleftrightarrow> tags n k mod 128 = 0"
    using u64_of_nat(5) [OF m] by (metis unat_0 unat_eq_0)
  have w: "(if (word_of_nat (tags n k) mod 128 :: u64) = 0 then 128 else word_of_nat (tags n k) mod 128) = (word_of_nat (rest n k) :: u64)"
    unfolding u64_of_nat(4) [OF n] z using tags_mod [of n k] by (cases "tags n k mod 128 = 0") simp_all
  have o: "(word_of_nat (tagoff n (Suc k)) - word_of_nat (rest n k) * 32 :: u64) = word_of_nat (tagoff n k)" by (simp add: tagoff_Suc)
  have u: "(ucast (word_of_nat (rest n k) * 32 :: u64) :: u16) = word_of_nat (32 * rest n k)"
    using u64_of_nat(7) [OF r(2)] by (simp add: mult.commute)
  show ?case
    using Suc k unfolding cryptosize_levels.simps Let_def PSYNC_CRYPTO_HASH_TREE_SECTORS_def PSYNC_CRYPTO_AUTH_SIZE_def
    by (simp only: max_level_size_nat d t w o u set_level_down option.case)
qed

lemma find_first: "1 \<le> T \<Longrightarrow> T \<le> 6 \<Longrightarrow> List.find (\<lambda>k. T \<le> k) [1..<7] = Some T"
  by (auto simp: find_Some_iff intro!: exI [of _ "T - 1"])

lemma offsets_by_cryptosize_nat:
  assumes "0 < n" "n \<le> 2 ^ 44"
  shows "psync_fs_crypto_offsets_by_cryptosize (word_of_nat (tagoff n (levels (lastid n)) + (if 4096 < n then 32 else 0))) = Some (offsets_of n)"
proof -
  define T where "T = levels (lastid n)"
  define M where "M = tagoff n T"
  have T: "1 \<le> T" "T < 6" using levels_pos [of "lastid n"] levels_bound [OF assms(2)] by (simp_all add: T_def)
  have M: "M = bytes_upto n T" using sizes_agree [OF assms(1) levels_zero] by (simp add: M_def T_def)
  have lo: "n + 32 \<le> M" using bytes_upto_mono [OF T(1), of n] by (simp add: M bytes_upto_def tags_def)
  have hi: "M \<le> 0x810204081000" using bytes_upto_bound [OF assms, of T] by (simp add: M T_def full_numeral)
  have small: "M \<le> 4128" if "n \<le> 4096"
  proof -
    have "lastid n = 0" using that assms(1) by (simp add: lastid_def)
    then have "T = 1" by (simp add: T_def levels.simps [of 0])
    then show ?thesis using that \<open>lastid n = 0\<close> by (simp add: M bytes_upto_def tags_def)
  qed
  define c where "c = M + (if 4096 < n then 32 else 0)"
  have c: "32 < c" "c < 2 ^ 64" "4128 < c \<longleftrightarrow> 4096 < n" using lo hi small assms(1) by (auto simp: c_def not_less)
  have w: "\<not> (word_of_nat c \<le> (32 :: u64))" "(4128 :: u64) < word_of_nat c \<longleftrightarrow> 4096 < n"
    using u64_le [OF c(2), of 32] u64_le [OF c(2), of 4128] c(1,3) by (simp_all add: not_le [symmetric])
  have s: "(if 4096 < n then word_of_nat c - 32 else word_of_nat c :: u64) = word_of_nat M" by (simp add: c_def)
  have "word_of_nat M \<le> max_level_size ! k \<longleftrightarrow> T \<le> k" if "k \<in> set [1..<7]" for k
    using that max_level_size_nat [of k] u64_le [of M "full k"] hi full_bound [of k] height_from_size [OF assms(1), of k]
    by (simp add: M T_def)
  then have f: "List.find (\<lambda>k. word_of_nat M \<le> max_level_size ! k) [1..<7] = Some T"
    using find_first [of T] T by (metis (mono_tags, lifting) find_cong less_imp_le)
  let ?o = "no_offsets\<lparr>needmasterauth := 4096 < n, masterauthoff := word_of_nat M, treelevels := T\<rparr>"
  have start: "?o = arrays n (Suc T) (Suc T) ?o" by (simp add: arrays_more arrays_empty)
  have top: "set_level T (word_of_nat M) 32 ?o = Some (arrays n T (Suc T) ?o)"
    using set_level_down [of T "Suc T" n ?o] T(2) rest_top [of n] start by (simp add: M_def T_def)
  have loop: "cryptosize_levels T (word_of_nat M) (word_of_nat M) (arrays n T (Suc T) ?o) = Some (word_of_nat n, arrays n 0 (Suc T) ?o)"
    using cryptosize_levels_nat [OF assms, of T "Suc T" ?o] M by (simp add: M_def T_def)
  have up: "[1..<PSYNC_CRYPTO_MAX_HASH_TREE_LEVEL + 1] = [1..<7]" by (simp add: PSYNC_CRYPTO_MAX_HASH_TREE_LEVEL_def)
  have "psync_fs_crypto_offsets_by_cryptosize (word_of_nat c) = Some ((arrays n 0 (Suc T) ?o)\<lparr>plainsize := word_of_nat n\<rparr>)"
    unfolding psync_fs_crypto_offsets_by_cryptosize_def PSYNC_CRYPTO_AUTH_SIZE_def PSYNC_CRYPTO_SECTOR_SIZE_def Let_def up
    using w s f top loop by simp
  then show ?thesis by (simp add: c_def M_def T_def offsets_of_def arrays_def Let_def no_offsets_def)
qed

text \<open>
  C8. The two computations of the layout agree: for every size up to \<open>2 ^ 44\<close> bytes, which is what sector numbers of 32
  bits reach, the offsets computed from the size of the encrypted file are exactly those computed from the size of
  the plain file; so the plain size is recovered from the encrypted size, and up to this size no store of either
  function leaves its arrays.
\<close>

theorem layout_roundtrip:
  assumes "n \<le> 2 ^ 44"
  shows "\<exists>offsets csize. pfscrypto_offset_by_size n = Some offsets \<and> pfscrypto_crypto_size n = Some csize \<and>
    psync_fs_crypto_offsets_by_cryptosize csize = Some offsets \<and> pfscrypto_plain_size csize = Some n"
proof (cases "n = 0")
  case True
  have "pfscrypto_offset_by_size 0 = Some no_offsets"
    by (simp add: pfscrypto_offset_by_size_def no_offsets_def PSYNC_CRYPTO_SECTOR_SIZE_def)
  then show ?thesis unfolding True
    by (simp add: pfscrypto_crypto_size_def psync_fs_crypto_offsets_by_cryptosize_def pfscrypto_plain_size_def) (simp add: no_offsets_def)
next
  case False
  define m where "m = unat n"
  have n: "n = word_of_nat m" by (simp add: m_def)
  have m: "0 < m" "m \<le> 2 ^ 44" using assms False by (simp_all add: m_def unat_gt_0 word_le_nat_alt)
  let ?c = "word_of_nat (tagoff m (levels (lastid m)) + (if 4096 < m then 32 else 0)) :: u64"
  have "pfscrypto_offset_by_size n = Some (offsets_of m)" unfolding n by (rule offset_by_size_nat [OF m])
  moreover have "psync_fs_crypto_offsets_by_cryptosize ?c = Some (offsets_of m)" by (rule offsets_by_cryptosize_nat [OF m])
  moreover have "masterauthoff (offsets_of m) + (if needmasterauth (offsets_of m) then PSYNC_CRYPTO_AUTH_SIZE else 0) = ?c" "plainsize (offsets_of m) = n"
    by (simp_all add: offsets_of_def arrays_def Let_def PSYNC_CRYPTO_AUTH_SIZE_def n)
  ultimately show ?thesis by (auto simp: pfscrypto_crypto_size_def pfscrypto_plain_size_def)
qed

theorem layout_roundtrip_witness:
  "\<exists>offsets csize. pfscrypto_offset_by_size 1000000 = Some offsets \<and> pfscrypto_crypto_size 1000000 = Some csize \<and>
    psync_fs_crypto_offsets_by_cryptosize csize = Some offsets \<and> pfscrypto_plain_size csize = Some 1000000"
  by (rule layout_roundtrip) simp

subsection \<open>The places in the file\<close>

text \<open>A data sector, or an authentication sector of a level; where the code puts it, and its length.\<close>

datatype place = Data nat | Auth nat nat

definition is_place :: "crypto_offsets \<Rightarrow> place \<Rightarrow> bool" where
  "is_place offsets x \<longleftrightarrow> (case x of
     Data s \<Rightarrow> s * 4096 < unat (plainsize offsets)
   | Auth l i \<Rightarrow> l < treelevels offsets \<and> i * 128 ^ (l + 1) * 4096 < unat (plainsize offsets))"

definition place_start :: "crypto_offsets \<Rightarrow> place \<Rightarrow> nat" where
  "place_start offsets x = (case x of
     Data s \<Rightarrow> unat (psync_fs_crypto_data_offset_by_sectorid (word_of_nat s))
   | Auth l i \<Rightarrow> unat (fst (the (pfscrypto_get_auth_off (word_of_nat (i * 128 ^ (l + 1))) l offsets))))"

definition place_len :: "crypto_offsets \<Rightarrow> place \<Rightarrow> nat" where
  "place_len offsets x = (case x of
     Data s \<Rightarrow> min 4096 (unat (plainsize offsets) - s * 4096)
   | Auth l i \<Rightarrow> unat (fst (snd (the (pfscrypto_get_auth_off (word_of_nat (i * 128 ^ (l + 1))) l offsets)))))"

text \<open>The same in numbers: the places that are full, and the last ones.\<close>

definition height :: "place \<Rightarrow> nat" where "height x = (case x of Data s \<Rightarrow> 0 | Auth l i \<Rightarrow> l + 1)"
definition index :: "place \<Rightarrow> nat" where "index x = (case x of Data s \<Rightarrow> s | Auth l i \<Rightarrow> i)"

definition has_place :: "nat \<Rightarrow> place \<Rightarrow> bool" where
  "has_place n x \<longleftrightarrow> height x \<le> levels (lastid n) \<and> index x \<le> lastid n div 128 ^ height x"

definition last_place :: "nat \<Rightarrow> place \<Rightarrow> bool" where
  "last_place n x \<longleftrightarrow> index x = lastid n div 128 ^ height x"

definition begin_at :: "nat \<Rightarrow> place \<Rightarrow> nat" where
  "begin_at n x = (if last_place n x then (case x of Data s \<Rightarrow> 4096 * leaf s | Auth l i \<Rightarrow> tagoff n l) else 4096 * node (height x) (index x))"

definition end_at :: "nat \<Rightarrow> place \<Rightarrow> nat" where
  "end_at n x = (if last_place n x then (case x of Data s \<Rightarrow> tagoff n 0 | Auth l i \<Rightarrow> tagoff n (l + 1)) else 4096 * node (height x) (index x) + 4096)"

lemma place_eqI: "height x = height y \<Longrightarrow> index x = index y \<Longrightarrow> x = y"
  by (cases x; cases y) (auto simp: height_def index_def)

lemma node_before:
  assumes "i < lst div 128 ^ m"
  shows "node m i < leaf lst"
proof -
  have "(i + 1) * 128 ^ m \<le> lst" using assms by (simp add: less_eq_div_iff_mult_less_eq Suc_le_eq [symmetric])
  moreover have "0 < (i + 1) * 128 ^ m" by simp
  ultimately have "leaf ((i + 1) * 128 ^ m - 1 + 1) \<le> leaf lst" by (intro leaf_mono) simp
  then show ?thesis using leaf_gap [of m "(i + 1) * 128 ^ m - 1"] by (simp add: node_def)
qed

lemma node_before_conv:
  assumes "node m i < leaf lst"
  shows "i < lst div 128 ^ m" "m \<le> levels lst"
proof -
  have "leaf ((i + 1) * 128 ^ m - 1) < leaf lst" using assms by (simp add: node_def)
  then have "(i + 1) * 128 ^ m - 1 < lst" using leaf_mono by (meson not_le)
  then have "(i + 1) * 128 ^ m \<le> lst" by linarith
  then show i: "i < lst div 128 ^ m" by (simp add: less_eq_div_iff_mult_less_eq Suc_le_eq [symmetric])
  show "m \<le> levels lst"
  proof (rule ccontr)
    assume "\<not> m \<le> levels lst"
    then have "lst div 128 ^ m = lst div 128 ^ levels lst div 128 ^ (m - levels lst)"
      by (simp add: div_mult2_eq [symmetric] power_add [symmetric])
    then show False using i by (simp add: levels_zero)
  qed
qed

lemma tagoff_mono: "a \<le> b \<Longrightarrow> tagoff n a \<le> tagoff n b"
  by (simp add: tagoff_def sum_mono2)

lemma tagoff_find:
  "tagoff n 0 \<le> p \<Longrightarrow> p < tagoff n T \<Longrightarrow> \<exists>l<T. tagoff n l \<le> p \<and> p < tagoff n (l + 1)"
proof (induction T)
  case (Suc T)
  then show ?case by (cases "p < tagoff n T") (auto simp: less_Suc_eq not_less)
qed simp

lemma data_end_above: "4096 * leaf (lastid n) < tagoff n 0"
  by (simp add: tagoff_def data_end_def)

lemma last_data: "last_place n x \<Longrightarrow> height x = 0 \<Longrightarrow> x = Data (lastid n)"
  by (cases x) (auto simp: last_place_def height_def index_def)

text \<open>Where a byte can be.\<close>

lemma covers_cases:
  assumes "has_place n x" "begin_at n x \<le> p" "p < end_at n x"
  shows "\<not> last_place n x \<and> p div 4096 = node (height x) (index x) \<and> p < 4096 * leaf (lastid n) \<or>
    x = Data (lastid n) \<and> 4096 * leaf (lastid n) \<le> p \<and> p < tagoff n 0 \<or>
    (\<exists>l. x = Auth l (lastid n div 128 ^ (l + 1)) \<and> tagoff n l \<le> p \<and> p < tagoff n (l + 1))"
proof (cases "last_place n x")
  case False
  then have "node (height x) (index x) < leaf (lastid n)"
    using assms(1) by (intro node_before) (simp add: has_place_def last_place_def)
  then show ?thesis using assms(2,3) False by (auto simp: begin_at_def end_at_def intro!: div_nat_eqI)
next
  case True
  then show ?thesis using assms(2,3)
    by (cases x) (auto simp: begin_at_def end_at_def last_place_def height_def index_def)
qed

lemma one_place:
  assumes "p < tagoff n (levels (lastid n))"
  shows "\<exists>!x. has_place n x \<and> begin_at n x \<le> p \<and> p < end_at n x"
proof -
  let ?T = "levels (lastid n)"
  have ex: "\<exists>x. has_place n x \<and> begin_at n x \<le> p \<and> p < end_at n x"
  proof (cases "p < tagoff n 0")
    case True
    show ?thesis
    proof (cases "p < 4096 * leaf (lastid n)")
      case low: True
      obtain m i where mi: "p div 4096 = node m i" using node_everywhere by blast
      then have lt: "node m i < leaf (lastid n)" using low by (simp add: mi [symmetric] div_less_iff_less_mult mult.commute)
      define x where "x = (if m = 0 then Data i else Auth (m - 1) i)"
      have x: "height x = m" "index x = i" by (simp_all add: x_def height_def index_def)
      have "has_place n x" "\<not> last_place n x" using node_before_conv [OF lt] by (simp_all add: has_place_def last_place_def x)
      moreover have "4096 * (p div 4096) \<le> p" "p < 4096 * (p div 4096) + 4096" by (simp_all add: dividend_less_times_div)
      ultimately show ?thesis by (intro exI [of _ x]) (simp add: begin_at_def end_at_def x mi [symmetric])
    next
      case False
      then show ?thesis using True
        by (intro exI [of _ "Data (lastid n)"]) (simp add: has_place_def begin_at_def end_at_def last_place_def height_def index_def)
    qed
  next
    case False
    then obtain l where "l < ?T" "tagoff n l \<le> p" "p < tagoff n (l + 1)" using tagoff_find [of n p ?T] assms by auto
    then show ?thesis
      by (intro exI [of _ "Auth l (lastid n div 128 ^ (l + 1))"])
        (simp add: has_place_def begin_at_def end_at_def last_place_def height_def index_def)
  qed
  moreover have "x = y"
    if x: "has_place n x" "begin_at n x \<le> p" "p < end_at n x" and y: "has_place n y" "begin_at n y \<le> p" "p < end_at n y" for x y
  proof -
    have t: "tagoff n 0 \<le> tagoff n l" for l by (rule tagoff_mono) simp
    have l: "l = l'" if "tagoff n l \<le> p" "p < tagoff n (l + 1)" "tagoff n l' \<le> p" "p < tagoff n (l' + 1)" for l l'
      using that tagoff_mono [of "l + 1" l' n] tagoff_mono [of "l' + 1" l n] by (cases l l' rule: linorder_cases) auto
    from covers_cases [OF x] covers_cases [OF y] show ?thesis
    proof (elim disjE conjE exE)
      assume "p div 4096 = node (height x) (index x)" "p div 4096 = node (height y) (index y)"
      then show ?thesis using node_unique place_eqI by metis
    next
      fix l l' assume "x = Auth l (lastid n div 128 ^ (l + 1))" "y = Auth l' (lastid n div 128 ^ (l' + 1))"
        "tagoff n l \<le> p" "p < tagoff n (l + 1)" "tagoff n l' \<le> p" "p < tagoff n (l' + 1)"
      then show ?thesis using l [of l l'] by simp
    qed (use t data_end_above [of n] in \<open>fastforce dest: le_less_trans less_le_trans\<close>)+
  qed
  ultimately show ?thesis by blast
qed

lemma climb_nat:
  "a < 2 ^ 32 \<Longrightarrow> b < 2 ^ 32 \<Longrightarrow> climb l (word_of_nat (a div 128), word_of_nat (b div 128), word_of_nat (b mod 128)) =
     (word_of_nat (a div 128 ^ (l + 1)), word_of_nat (b div 128 ^ (l + 1)), word_of_nat (b div 128 ^ l mod 128))"
proof (induction l arbitrary: a b)
  case (Suc l)
  have s: "a div 128 < 2 ^ 32" "b div 128 < 2 ^ 32" using Suc.prems by (auto intro: le_less_trans [OF div_le_dividend])
  have "climb (Suc l) (word_of_nat (a div 128), word_of_nat (b div 128), word_of_nat (b mod 128)) =
      climb l (word_of_nat (a div 128 div 128), word_of_nat (b div 128 div 128), word_of_nat (b div 128 mod 128))"
    using s by (simp add: PSYNC_CRYPTO_HASH_TREE_SECTORS_def u32_of_nat)
  also have "\<dots> = (word_of_nat (a div 128 ^ (Suc l + 1)), word_of_nat (b div 128 ^ (Suc l + 1)), word_of_nat (b div 128 ^ Suc l mod 128))"
    using Suc.IH [OF s] by (simp only: div_128_Suc(1) add_Suc)
  finally show ?case .
qed simp

lemma last_sector_nat: "0 < n \<Longrightarrow> n \<le> 2 ^ 44 \<Longrightarrow> get_last_sectorid_by_size (word_of_nat n) = word_of_nat (lastid n)"
proof -
  assume n: "0 < n" "n \<le> 2 ^ 44"
  then have "n - 1 < 2 ^ 64" "(n - 1) div 4096 < 2 ^ 64" using le_less_trans [OF div_le_dividend, of "n - 1" "2 ^ 64" 4096] by simp_all
  moreover have "n < 2 ^ 64" using n(2) by simp
  then have "(word_of_nat n :: u64) \<noteq> 0" using u64_of_nat(5) [of n] n(1) by (metis unat_0 not_gr_zero)
  moreover have "(word_of_nat n - 1 :: u64) = word_of_nat (n - 1)" using n(1) by (simp add: of_nat_diff)
  ultimately show ?thesis by (simp add: get_last_sectorid_by_size_def PSYNC_CRYPTO_SECTOR_SIZE_def u64_of_nat lastid_def)
qed

lemma get_auth_off_nat:
  assumes "0 < n" "n \<le> 2 ^ 44" "s \<le> lastid n" "l \<le> levels (lastid n)"
  shows "pfscrypto_get_auth_off (word_of_nat s) l (offsets_of n) =
    (let i = s div 128 ^ (l + 1) in
     if i = lastid n div 128 ^ (l + 1) then Some (word_of_nat (tagoff n l), word_of_nat (32 * rest n l), word_of_nat (s div 128 ^ l mod 128))
     else Some (word_of_nat (4096 * node (l + 1) i), 4096, word_of_nat (s div 128 ^ l mod 128)))"
proof -
  let ?i = "s div 128 ^ (l + 1)" and ?j = "lastid n div 128 ^ (l + 1)"
  have l: "l \<le> 5" using levels_bound [OF assms(2)] assms(4) by simp
  have b: "lastid n < 2 ^ 32" "s < 2 ^ 32" using lastid_bound [OF assms(2)] assms(3) by simp_all
  have le: "?i \<le> ?j" by (rule div_le_mono [OF assms(3)])
  have small: "?j < 2 ^ 27"
  proof -
    have "?j \<le> lastid n div 128 ^ 1" by (intro div_le_mono2) simp_all
    also have "\<dots> < 2 ^ 27" using b(1) by (simp add: div_less_iff_less_mult)
    finally show ?thesis .
  qed
  have a: "lastoff ! l = word_of_nat (tagoff n l)" if "lastoff = lastauthsectoroff (offsets_of n)" for lastoff
    using that l assms(4) by (simp add: offsets_of_def arrays_def Let_def filled_at_def PSYNC_CRYPTO_MAX_HASH_TREE_LEVEL_def)
  have ln: "lastauthsectorlen (offsets_of n) ! l = word_of_nat (32 * rest n l)"
    using l assms(4) by (simp add: offsets_of_def arrays_def Let_def filled_at_def PSYNC_CRYPTO_MAX_HASH_TREE_LEVEL_def)
  have r: "32 * rest n l < 2 ^ 16" using rest_bounds [of n l] by simp
  have c: "(ucast (word_of_nat (32 * rest n l) :: u16) :: u32) = word_of_nat (32 * rest n l)"
    using r by (simp add: unsigned_of_nat take_bit_nat_eq_self del: of_nat_mult)
  have p: "plainsize (offsets_of n) = word_of_nat n" by (simp add: offsets_of_def arrays_def Let_def)
  have ij: "?i < 2 ^ 32" "?j < 2 ^ 32" using small le by simp_all
  have eq: "(word_of_nat ?i :: u32) = word_of_nat ?j \<longleftrightarrow> ?i = ?j"
    using u32_of_nat(5) [OF ij(1)] u32_of_nat(5) [OF ij(2)] by metis
  have lt: "(word_of_nat ?i :: u32) < word_of_nat ?j" if "?i \<noteq> ?j"
    unfolding word_less_nat_alt u32_of_nat(5) [OF ij(1)] u32_of_nat(5) [OF ij(2)] using that le by simp
  have d: "(word_of_nat (lastid n) :: u32) div 128 = word_of_nat (lastid n div 128)" "(word_of_nat s :: u32) div 128 = word_of_nat (s div 128)"
    "(word_of_nat s :: u32) mod 128 = word_of_nat (s mod 128)" using b by (simp_all add: u32_of_nat)
  have st: "climb l (get_last_sectorid_by_size (plainsize (offsets_of n)) div 128, word_of_nat s div 128, word_of_nat s mod 128) =
      (word_of_nat ?j, word_of_nat ?i, word_of_nat (s div 128 ^ l mod 128))"
    unfolding p last_sector_nat [OF assms(1,2)] d by (rule climb_nat [OF b])
  show ?thesis
  proof (cases "?i = ?j")
    case True
    then show ?thesis unfolding pfscrypto_get_auth_off_def PSYNC_CRYPTO_HASH_TREE_SECTORS_def st Let_def prod.case ln c
      by (simp add: a)
  next
    case False
    moreover have "psync_fs_crypto_auth_offset l (word_of_nat ?i) = word_of_nat (4096 * node (l + 1) ?i)"
      using le small l by (intro auth_offset_nat) simp_all
    ultimately show ?thesis
      unfolding pfscrypto_get_auth_off_def PSYNC_CRYPTO_HASH_TREE_SECTORS_def PSYNC_CRYPTO_SECTOR_SIZE_def st Let_def prod.case eq
      using lt by (simp del: of_nat_mult)
  qed
qed

lemma mult_less_lastid: "0 < n \<Longrightarrow> s * 4096 < n \<longleftrightarrow> s \<le> lastid n"
proof -
  assume n: "0 < n"
  have "s \<le> lastid n \<longleftrightarrow> s * 4096 \<le> n - 1" unfolding lastid_def by (simp add: less_eq_div_iff_mult_less_eq)
  with n show ?thesis by linarith
qed

lemma leaf_bound:
  assumes "0 < n" "n \<le> 2 ^ 44" "v \<le> leaf (lastid n)"
  shows "4096 * v < 2 ^ 64"
proof -
  have "4096 * v < tagoff n 0" using data_end_above [of n] assms(3) by simp
  also have "\<dots> \<le> tagoff n (levels (lastid n))" by (rule tagoff_mono) simp
  also have "\<dots> \<le> full 5" using bytes_upto_bound [OF assms(1,2), of "levels (lastid n)"] sizes_agree [OF assms(1) levels_zero] by simp
  finally show ?thesis by (simp add: full_numeral)
qed

lemma tagoff_bound: "0 < n \<Longrightarrow> n \<le> 2 ^ 44 \<Longrightarrow> k \<le> levels (lastid n) \<Longrightarrow> tagoff n k < 2 ^ 64"
proof -
  assume n: "0 < n" "n \<le> 2 ^ 44" "k \<le> levels (lastid n)"
  have "tagoff n k \<le> tagoff n (levels (lastid n))" using n(3) by (rule tagoff_mono)
  also have "\<dots> \<le> full 5" using bytes_upto_bound [OF n(1,2), of "levels (lastid n)"] sizes_agree [OF n(1) levels_zero] by simp
  finally show ?thesis by (simp add: full_numeral)
qed

text \<open>The places of the code are those counted above.\<close>

lemma is_place_nat:
  assumes "0 < n" "n \<le> 2 ^ 44"
  shows "is_place (offsets_of n) x \<longleftrightarrow> has_place n x"
proof -
  have f: "unat (plainsize (offsets_of n)) = n" "treelevels (offsets_of n) = levels (lastid n)"
    using u64_of_nat(5) [of n] assms(2) by (simp_all add: offsets_of_def arrays_def Let_def)
  show ?thesis
  proof (cases x)
    case (Data s)
    then show ?thesis using mult_less_lastid [OF assms(1), of s] by (simp add: is_place_def has_place_def height_def index_def f)
  next
    case (Auth l i)
    have "i * 128 ^ (l + 1) * 4096 < n \<longleftrightarrow> i \<le> lastid n div 128 ^ (l + 1)"
      unfolding mult_less_lastid [OF assms(1)] by (simp add: less_eq_div_iff_mult_less_eq)
    then show ?thesis unfolding Auth is_place_def has_place_def height_def index_def place.case f by (simp only: Suc_eq_plus1 [symmetric] Suc_le_eq)
  qed
qed

lemma place_nat:
  assumes "0 < n" "n \<le> 2 ^ 44" "has_place n x"
  shows "place_start (offsets_of n) x = begin_at n x \<and> place_start (offsets_of n) x + place_len (offsets_of n) x = end_at n x"
proof (cases x)
  case (Data s)
  have s: "s \<le> lastid n" using assms(3) by (simp add: Data has_place_def height_def index_def)
  then have "unat (psync_fs_crypto_data_offset_by_sectorid (word_of_nat s)) = 4096 * leaf s"
    using data_offset_nat [of s] lastid_bound [OF assms(2)] u64_of_nat(5) [OF leaf_bound [OF assms(1,2) leaf_mono [OF s]]] by simp
  moreover have "unat (plainsize (offsets_of n)) = n" using assms(2) by (simp add: offsets_of_def arrays_def Let_def u64_of_nat(5))
  moreover have "min 4096 (n - s * 4096) = (if s = lastid n then (n - 1) mod 4096 + 1 else 4096)"
  proof (cases "s = lastid n")
    case True
    have "(n - 1) mod 4096 < 4096" by simp
    then show ?thesis using True size_split [OF assms(1)] by (simp add: Suc_le_eq)
  next
    case False
    then have "(s + 1) * 4096 < n" using s mult_less_lastid [OF assms(1), of "s + 1"] by simp
    then show ?thesis using False by simp
  qed
  moreover have "node 0 s = leaf s" by (simp add: node_def)
  ultimately show ?thesis
    by (simp add: Data place_start_def place_len_def begin_at_def end_at_def last_place_def height_def index_def tagoff_def data_end_def)
next
  case (Auth l i)
  have l: "l + 1 \<le> levels (lastid n)" and i: "i \<le> lastid n div 128 ^ (l + 1)"
    using assms(3) by (simp_all add: Auth has_place_def height_def index_def)
  then have s: "i * 128 ^ (l + 1) \<le> lastid n" by (simp add: less_eq_div_iff_mult_less_eq)
  note g = get_auth_off_nat [OF assms(1,2) s, of l]
  show ?thesis
  proof (cases "i = lastid n div 128 ^ (l + 1)")
    case True
    have t: "tagoff n l < 2 ^ 64" "32 * rest n l < 2 ^ 32" using tagoff_bound [OF assms(1,2), of l] l rest_bounds [of n l] by simp_all
    have "begin_at n x = tagoff n l" "end_at n x = tagoff n (l + 1)"
      using True by (simp_all add: Auth begin_at_def end_at_def last_place_def height_def index_def)
    moreover have "pfscrypto_get_auth_off (word_of_nat (i * 128 ^ (l + 1))) l (offsets_of n) =
        Some (word_of_nat (tagoff n l), word_of_nat (32 * rest n l), word_of_nat (i * 128 ^ (l + 1) div 128 ^ l mod 128))"
      using g l True by (simp add: Let_def)
    ultimately show ?thesis
      unfolding Auth place_start_def place_len_def place.case option.sel fst_conv snd_conv u64_of_nat(5) [OF t(1)] u32_of_nat(5) [OF t(2)]
      by (simp add: tagoff_Suc place_start_def place_len_def u64_of_nat(5) [OF t(1)] u32_of_nat(5) [OF t(2)] del: of_nat_mult)
  next
    case False
    have nb: "node (l + 1) i \<le> leaf (lastid n)" using node_before [of i "lastid n" "l + 1"] i False by simp
    have "begin_at n x = 4096 * node (l + 1) i" "end_at n x = 4096 * node (l + 1) i + 4096"
      using False by (simp_all add: Auth begin_at_def end_at_def last_place_def height_def index_def)
    moreover have "pfscrypto_get_auth_off (word_of_nat (i * 128 ^ (l + 1))) l (offsets_of n) =
        Some (word_of_nat (4096 * node (l + 1) i), 4096, word_of_nat (i * 128 ^ (l + 1) div 128 ^ l mod 128))"
      using g l False by (simp add: Let_def)
    moreover have "unat (word_of_nat (4096 * node (l + 1) i) :: u64) = 4096 * node (l + 1) i"
      by (rule u64_of_nat(5) [OF leaf_bound [OF assms(1,2) nb]])
    ultimately show ?thesis
      unfolding Auth place_start_def place_len_def place.case by (simp only: option.sel fst_conv snd_conv) simp
  qed
qed

lemma place_nonempty:
  shows "begin_at n x < end_at n x"
proof (cases "last_place n x")
  case False
  then show ?thesis by (simp add: begin_at_def end_at_def)
next
  case True
  show ?thesis
  proof (cases x)
    case (Data s)
    then have "s = lastid n" using True by (simp add: last_place_def height_def index_def)
    then show ?thesis using True data_end_above [of n] by (simp add: Data begin_at_def end_at_def tagoff_def)
  next
    case (Auth l i)
    then show ?thesis using True rest_bounds [of n l] by (simp add: begin_at_def end_at_def tagoff_Suc)
  qed
qed

lemma masterauth_nat: "0 < n \<Longrightarrow> n \<le> 2 ^ 44 \<Longrightarrow> unat (masterauthoff (offsets_of n)) = tagoff n (levels (lastid n))"
  using tagoff_bound [of n "levels (lastid n)"] by (simp add: offsets_of_def arrays_def Let_def u64_of_nat(5))

text \<open>
  C7. The places are a partition: for a file of any size up to \<open>2 ^ 44\<close> bytes, every data sector and every authentication
  sector has at least one byte and ends at the master tag or before it, at the place and with the length that the
  code computes, and every byte before the master tag belongs to exactly one of them.
\<close>

theorem layout_partition:
  assumes "n \<noteq> 0" "n \<le> 2 ^ 44" "pfscrypto_offset_by_size n = Some offsets"
  shows "(\<forall>x. is_place offsets x \<longrightarrow>
      0 < place_len offsets x \<and> place_start offsets x + place_len offsets x \<le> unat (masterauthoff offsets)) \<and>
    (\<forall>p < unat (masterauthoff offsets).
      \<exists>!x. is_place offsets x \<and> place_start offsets x \<le> p \<and> p < place_start offsets x + place_len offsets x)"
proof -
  define m where "m = unat n"
  have n: "n = word_of_nat m" by (simp add: m_def)
  have m: "0 < m" "m \<le> 2 ^ 44" using assms(1,2) by (simp_all add: m_def unat_gt_0 word_le_nat_alt)
  have o: "offsets = offsets_of m" using assms(3) offset_by_size_nat [OF m] by (simp add: n)
  let ?T = "levels (lastid m)"
  have M: "unat (masterauthoff offsets) = tagoff m ?T" using masterauth_nat [OF m] o by simp
  have pl: "is_place offsets x \<longleftrightarrow> has_place m x" for x using is_place_nat [OF m, of x] by (simp add: o)
  have at: "place_start offsets x = begin_at m x \<and> place_start offsets x + place_len offsets x = end_at m x" if "has_place m x" for x
    using place_nat [OF m that] by (simp add: o)
  have before: "p < tagoff m ?T" if "has_place m x" "begin_at m x \<le> p" "p < end_at m x" for x p
    using covers_cases [OF that] that(1) tagoff_mono [of 0 ?T m] data_end_above [of m]
  proof (elim disjE conjE exE)
    fix l assume "x = Auth l (lastid m div 128 ^ (l + 1))" "p < tagoff m (l + 1)"
    moreover from this that(1) have "tagoff m (l + 1) \<le> tagoff m ?T" by (intro tagoff_mono) (simp add: has_place_def height_def)
    ultimately show ?thesis by simp
  qed simp_all
  have "0 < place_len offsets x \<and> place_start offsets x + place_len offsets x \<le> unat (masterauthoff offsets)"
    if "is_place offsets x" for x
  proof -
    have x: "has_place m x" using that pl by blast
    note l = place_nonempty [of m x]
    then have "end_at m x - 1 < tagoff m ?T" using before [OF x, of "end_at m x - 1"] by simp
    then show ?thesis using l at [OF x] M by linarith
  qed
  moreover have "\<exists>!x. is_place offsets x \<and> place_start offsets x \<le> p \<and> p < place_start offsets x + place_len offsets x"
    if "p < unat (masterauthoff offsets)" for p
  proof -
    have "(is_place offsets x \<and> place_start offsets x \<le> p \<and> p < place_start offsets x + place_len offsets x) \<longleftrightarrow>
        (has_place m x \<and> begin_at m x \<le> p \<and> p < end_at m x)" for x
      using pl at [of x] by auto
    then show ?thesis using one_place [of p m] that M by simp
  qed
  ultimately show ?thesis by blast
qed

theorem layout_partition_witness:
  "\<exists>offsets x. pfscrypto_offset_by_size 1000000 = Some offsets \<and> is_place offsets x \<and>
     place_start offsets x \<le> 524288 \<and> 524288 < place_start offsets x + place_len offsets x"
proof -
  have o: "pfscrypto_offset_by_size 1000000 = Some (offsets_of 1000000)" using offset_by_size_nat [of 1000000] by simp
  have "lastid 1000000 = 244" by (simp add: lastid_def)
  then have "524288 < tagoff 1000000 0" using data_end_above [of 1000000] leaf_unfold [of 244] by simp
  then have "524288 < unat (masterauthoff (offsets_of 1000000))"
    using masterauth_nat [of 1000000] tagoff_mono [of 0 "levels (lastid 1000000)" 1000000] by simp
  with layout_partition [OF _ _ o] have "\<exists>x. is_place (offsets_of 1000000) x \<and>
      place_start (offsets_of 1000000) x \<le> 524288 \<and> 524288 < place_start (offsets_of 1000000) x + place_len (offsets_of 1000000) x"
    by auto
  with o show ?thesis by blast
qed

end
