(* ===== verification/PKeyIndex.thy ===== *)
theory PKeyIndex
  imports PTree
begin

text \<open>
  Trees ordered by a key of the nodes, as the throttled runner and the path status use them: their own descent to
  the node or to the empty link below which it belongs, followed by \<open>ptree_added_at\<close>. The address of a node is
  its key. The locale \<open>key_set\<close> is the interface: a set of keys.
\<close>

subsection \<open>The descent\<close>

text \<open>Whether the key was found, and the frames above the node or the empty link.\<close>

fun key_descend :: "'k::linorder \<Rightarrow> 'k ptree \<Rightarrow> 'k frame list \<Rightarrow> bool \<times> 'k frame list" where
  "key_descend k Null fs = (False, fs)"
| "key_descend k (Node l q h r) fs =
     (if k < q then (if l \<noteq> Null then key_descend k l (FL q h r # fs) else (False, FL q h r # fs))
      else if k > q then (if r \<noteq> Null then key_descend k r (FR l q h # fs) else (False, FR l q h # fs))
      else (True, fs))"

definition key_find :: "'k::linorder \<Rightarrow> 'k ptree \<Rightarrow> bool" where
  "key_find k t = fst (key_descend k t [])"

definition key_add :: "'k::linorder \<Rightarrow> 'k ptree \<Rightarrow> 'k ptree" where
  "key_add k t = (let (found, fs) = key_descend k t [] in if found then t else ptree_get_added_at fs k)"

definition keys_ok :: "'k::linorder ptree \<Rightarrow> bool" where
  "keys_ok t \<longleftrightarrow> avl t \<and> sorted_wrt (<) (inorder t)"

subsection \<open>The interface\<close>

locale key_set =
  fixes keys :: "'t \<Rightarrow> 'k set" and ok :: "'t \<Rightarrow> bool" and none :: 't
    and find_key :: "'k \<Rightarrow> 't \<Rightarrow> bool" and add :: "'k \<Rightarrow> 't \<Rightarrow> 't" and del :: "'t \<Rightarrow> 'k \<Rightarrow> 't"
  assumes none: "ok none" "keys none = {}"
    and find_key: "ok t \<Longrightarrow> find_key k t \<longleftrightarrow> k \<in> keys t"
    and add: "ok t \<Longrightarrow> ok (add k t) \<and> keys (add k t) = insert k (keys t)"
    and del: "ok t \<Longrightarrow> ok (del t k) \<and> keys (del t k) = keys t - {k}"
begin

lemma find_add: "ok t \<Longrightarrow> find_key k (add j t) \<longleftrightarrow> k = j \<or> find_key k t"
  using add find_key by auto

lemma find_del: "ok t \<Longrightarrow> find_key k (del t j) \<longleftrightarrow> k \<noteq> j \<and> find_key k t"
  using del find_key by auto

lemma find_none: "\<not> find_key k none"
  using none find_key by auto

end

subsection \<open>The tree provides it\<close>

lemma key_descend_correct:
  assumes "sorted_wrt (<) (before_path fs @ inorder t @ after_path fs)" "\<forall>x \<in> set (before_path fs). x < k" "\<forall>x \<in> set (after_path fs). k < x"
    "key_descend k t fs = (found, gs)"
  shows "(found \<longleftrightarrow> k \<in> set (inorder t)) \<and> (\<not> found \<longrightarrow> plug Null gs = plug t fs \<and>
    (\<forall>x \<in> set (before_path gs). x < k) \<and> (\<forall>x \<in> set (after_path gs). k < x))"
  using assms
proof (induction k t fs rule: key_descend.induct)
  case step: (2 k l q h r fs)
  have s: "\<forall>x \<in> set (inorder l). x < q" "\<forall>x \<in> set (inorder r). q < x" using step.prems(1) by (auto simp: sorted_wrt_append)
  consider "k < q" | "q < k" "\<not> k < q" | "k = q" by (rule linorder_cases [of k q]) auto
  then show ?case
  proof cases
    case 1
    then have a: "\<forall>x \<in> set (after_path (FL q h r # fs)). k < x" using s(2) step.prems(3) by auto
    from 1 s have n: "k \<noteq> q" "k \<notin> set (inorder r)" by auto
    show ?thesis
    proof (cases "l = Null")
      case True
      with 1 step.prems(2,4) a n show ?thesis by auto
    next
      case False
      with 1 step.IH(1) [OF 1 False _ _ a] step.prems(1,2,4) n show ?thesis by simp
    qed
  next
    case 2
    then have a: "\<forall>x \<in> set (before_path (FR l q h # fs)). x < k" using s(1) step.prems(2) by auto
    from 2 s have n: "k \<noteq> q" "k \<notin> set (inorder l)" by auto
    show ?thesis
    proof (cases "r = Null")
      case True
      with 2 step.prems(3,4) a n show ?thesis by auto
    next
      case False
      with 2 step.IH(2) [OF 2(2,1) False _ a] step.prems(1,3,4) n show ?thesis by simp
    qed
  next
    case 3
    with step.prems(4) show ?thesis by auto
  qed
qed simp

lemma inorder_added_at: "inorder (ptree_get_added_at fs k) = before_path fs @ k # after_path fs"
  by (cases fs) (simp_all add: ptree_get_added_at_def tree_simps)

lemma avl_added_at:
  assumes "avl (plug Null fs)"
  shows "avl (ptree_get_added_at fs k)"
proof (cases fs)
  case (Cons f fs')
  have p: "path_ok 0 fs" using avl_plug_iff [OF assms] by simp
  have "grown (fill (ptree_init_node k) f) \<and> path_ok (ptree_height (fill (ptree_init_node k) f)) fs'"
  proof (cases f)
    case (FL q h r)
    then show ?thesis using p avl_height_nonneg [of r] by (auto simp: Cons ptree_init_node_def)
  next
    case (FR l q h)
    then show ?thesis using p avl_height_nonneg [of l] by (auto simp: Cons ptree_init_node_def)
  qed
  then show ?thesis by (simp add: Cons ptree_get_added_at_def go_up_rebalance_add_avl)
qed (simp add: ptree_get_added_at_def)

lemma key_find_set: "keys_ok t \<Longrightarrow> key_find k t \<longleftrightarrow> k \<in> set (inorder t)"
  using key_descend_correct [of "[]" t k] by (cases "key_descend k t []") (auto simp: keys_ok_def key_find_def)

lemma key_add_ok:
  assumes "keys_ok t"
  shows "keys_ok (key_add k t) \<and> set (inorder (key_add k t)) = insert k (set (inorder t))"
proof -
  obtain found fs where d: "key_descend k t [] = (found, fs)" by (cases "key_descend k t []") auto
  have c: "(found \<longleftrightarrow> k \<in> set (inorder t)) \<and> (\<not> found \<longrightarrow> plug Null fs = t \<and>
    (\<forall>x \<in> set (before_path fs). x < k) \<and> (\<forall>x \<in> set (after_path fs). k < x))"
    using key_descend_correct [OF _ _ _ d] assms by (simp add: keys_ok_def)
  show ?thesis
  proof (cases found)
    case True
    with c d assms show ?thesis by (auto simp: key_add_def)
  next
    case False
    then have t: "inorder t = before_path fs @ after_path fs" "avl (plug Null fs)"
      using c assms inorder_plug [of Null fs] by (auto simp: keys_ok_def)
    have "keys_ok (ptree_get_added_at fs k)"
      using c False assms t avl_added_at [OF t(2)] by (auto simp: keys_ok_def inorder_added_at sorted_wrt_append)
    then show ?thesis using False d t by (auto simp: key_add_def inorder_added_at)
  qed
qed

lemma keys_ok_index: "keys_ok t \<Longrightarrow> index_ok t"
  by (auto simp: keys_ok_def index_ok_def strict_sorted_iff)

lemma key_del_ok:
  assumes "keys_ok t"
  shows "keys_ok (ptree_get_del t k) \<and> set (inorder (ptree_get_del t k)) = set (inorder t) - {k}"
proof (cases "k \<in> set (inorder t)")
  case True
  then obtain xs ys where t: "inorder t = xs @ k # ys" by (auto dest: split_list)
  from pt.nodes_del [OF keys_ok_index [OF assms] t] pt.set_del [OF keys_ok_index [OF assms] True] assms t
  show ?thesis by (auto simp: keys_ok_def avl_get_del sorted_wrt_append)
next
  case False
  then have "locate k t [] = None" using locate_None_iff by metis
  then show ?thesis using False assms by (simp add: ptree_get_del_def)
qed

interpretation kt: key_set "\<lambda>t. set (inorder t)" keys_ok Null key_find key_add ptree_get_del
  by unfold_locales (simp_all add: key_find_set key_add_ok key_del_ok, simp_all add: keys_ok_def)

end
