(* ===== verification/PThrottle.thy ===== *)
theory PThrottle
  imports PKeyIndex PTimer
begin

text \<open>
  \<open>pclsync/prunthrottled.c\<close>: \<open>prun_throttled\<close> runs a callback at most once in an interval. A tree holds a node
  for every callback that ran lately; every node has a timer. A request for a callback with a node only sets its
  flag; the timer runs a flagged callback, and removes the node of any other.

  A node's \<open>phase\<close> is where the thread that works on it stands: \<open>Creating\<close> and \<open>Registering\<close> are the rest of the
  call that created the node, \<open>Armed\<close> the timer, with the second from which it may run, and \<open>Firing\<close> the rest of the timer
  callback that found the flag set. The steps of any number of callers and of the timer thread interleave.
  \<open>log\<close> records the starts of callbacks, the latest first, with the time and the interval of the node, and
  \<open>waiting\<close> the callbacks requested since their last start.

  Of the timer thread (\<open>PTimer\<close>) the model keeps what decides when a timer runs: \<open>clock\<close> is \<open>psync_current_time\<close>,
  \<open>turned_to\<close> the second to which the wheel is turned, which the thread catches up with after each reading of the clock, and
  \<open>running\<close> the node whose callback it is in. A round reads the clock, turns the wheel, and runs the timers that are due;
  the interval is cut to \<open>64\<^sup>3\<close> seconds. A timer registered between the reading and the turn for an interval that is not
  \<open>in_time\<close> for its list may run at the turn: its callback is recorded in \<open>hasty\<close>.
\<close>

subsection \<open>The code\<close>

datatype phase = Absent | Creating nat | Registering nat | Armed nat nat | Firing nat

record 'c throttle =
  tasks :: "'c ptree"
  scheduled :: "'c \<Rightarrow> bool"
  phase_of :: "'c \<Rightarrow> phase"
  clock :: nat
  turned_to :: nat
  running :: "'c option"
  hasty :: "'c set"
  log :: "('c \<times> nat \<times> nat) list"
  waiting :: "'c \<Rightarrow> bool"

text \<open>The start of a callback, on this or on a new thread.\<close>

definition start :: "'c \<Rightarrow> nat \<Rightarrow> 'c throttle \<Rightarrow> 'c throttle" where
  "start c i s = s\<lparr>log := (c, clock s, i) # log s, waiting := (waiting s)(c := False)\<rparr>"

text \<open>\<open>prun_throttled\<close> under the mutex; a new node is not scheduled, for its creator runs the callback.\<close>

definition prun_throttled :: "'c::linorder \<Rightarrow> nat \<Rightarrow> 'c throttle \<Rightarrow> 'c throttle" where
  "prun_throttled c minintervalsec s =
     (let s = s\<lparr>waiting := (waiting s)(c := True)\<rparr>
      in if key_find c (tasks s)
         then (if scheduled s c then s else s\<lparr>scheduled := (scheduled s)(c := True)\<rparr>)
         else s\<lparr>scheduled := (scheduled s)(c := False), tasks := key_add c (tasks s),
                phase_of := (phase_of s)(c := Creating minintervalsec)\<rparr>)"

text \<open>The rest of the call that created the node.\<close>

definition run_created :: "'c \<Rightarrow> nat \<Rightarrow> 'c throttle \<Rightarrow> 'c throttle" where
  "run_created c i s = (start c i s)\<lparr>phase_of := (phase_of s)(c := Registering i)\<rparr>"

text \<open>The interval after the cap in \<open>ptimer_register\<close> (\<open>ptimer_register_eq\<close>).\<close>

definition interval :: "nat \<Rightarrow> nat" where
  "interval i = min i (64 ^ 3)"

definition punctual :: "nat \<Rightarrow> 'c throttle \<Rightarrow> bool" where
  "punctual i s \<longleftrightarrow> in_time (level_for i) (turned_to s) (clock s) (interval i)"

definition register_timer :: "'c \<Rightarrow> nat \<Rightarrow> 'c throttle \<Rightarrow> 'c throttle" where
  "register_timer c i s =
     (if punctual i s then s\<lparr>phase_of := (phase_of s)(c := Armed (clock s + interval i) i)\<rparr>
      else s\<lparr>phase_of := (phase_of s)(c := Armed (turned_to s + 1) i), hasty := insert c (hasty s)\<rparr>)"

text \<open>
  \<open>ratelimit_timer\<close> under the mutex, and the rest of it for a flagged node; then the timer is armed again: the wheel is
  turned to the clock there, and the interval in time.
\<close>

definition ratelimit_timer :: "'c \<Rightarrow> nat \<Rightarrow> 'c throttle \<Rightarrow> 'c throttle" where
  "ratelimit_timer c i s =
     (if scheduled s c
      then s\<lparr>scheduled := (scheduled s)(c := False), phase_of := (phase_of s)(c := Firing i), running := Some c\<rparr>
      else s\<lparr>tasks := ptree_get_del (tasks s) c, phase_of := (phase_of s)(c := Absent)\<rparr>)"

definition run_scheduled :: "'c \<Rightarrow> nat \<Rightarrow> 'c throttle \<Rightarrow> 'c throttle" where
  "run_scheduled c i s = (start c i s)\<lparr>phase_of := (phase_of s)(c := Armed (clock s + interval i) i), running := None\<rparr>"

definition throttle_init :: "'c throttle" where
  "throttle_init = \<lparr>tasks = Null, scheduled = (\<lambda>_. False), phase_of = (\<lambda>_. Absent), clock = 0, turned_to = 0, running = None, hasty = {}, log = [], waiting = (\<lambda>_. False)\<rparr>"

definition throttle_start :: "'c throttle \<Rightarrow> bool" where
  "throttle_start s \<longleftrightarrow> s = throttle_init"

text \<open>The steps of the threads without new requests, and all steps.\<close>

inductive internal_step :: "('c::linorder) throttle \<Rightarrow> 'c throttle \<Rightarrow> bool" where
  created: "phase_of s c = Creating i \<Longrightarrow> internal_step s (run_created c i s)"
| register: "phase_of s c = Registering i \<Longrightarrow> internal_step s (register_timer c i s)"
| read_clock: "turned_to s = clock s \<Longrightarrow> running s = None \<Longrightarrow> clock s \<le> t \<Longrightarrow> internal_step s (s\<lparr>clock := t\<rparr>)"
| turn: "internal_step s (s\<lparr>turned_to := clock s\<rparr>)"
| fire: "phase_of s c = Armed due i \<Longrightarrow> due \<le> turned_to s \<Longrightarrow> turned_to s = clock s \<Longrightarrow> running s = None \<Longrightarrow>
    internal_step s (ratelimit_timer c i s)"
| fired: "phase_of s c = Firing i \<Longrightarrow> internal_step s (run_scheduled c i s)"

inductive throttle_step :: "('c::linorder) throttle \<Rightarrow> 'c throttle \<Rightarrow> bool" where
  request: "throttle_step s (prun_throttled c i s)"
| internal: "internal_step s s' \<Longrightarrow> throttle_step s s'"

subsection \<open>The invariant\<close>

text \<open>The last start of a callback, and whether the starts keep their distance.\<close>

fun last_start :: "'c \<Rightarrow> ('c \<times> nat \<times> nat) list \<Rightarrow> (nat \<times> nat) option" where
  "last_start c [] = None"
| "last_start c ((d, t, i) # l) = (if c = d then Some (t, i) else last_start c l)"

fun spaced :: "'c set \<Rightarrow> ('c \<times> nat \<times> nat) list \<Rightarrow> bool" where
  "spaced H [] \<longleftrightarrow> True"
| "spaced H ((c, t, i) # l) \<longleftrightarrow>
     (c \<in> H \<or> (case last_start c l of None \<Rightarrow> True | Some (t', i') \<Rightarrow> t' + interval i' \<le> t)) \<and> spaced H l"

text \<open>The time before which the callback may not start again.\<close>

definition free_at :: "'c throttle \<Rightarrow> 'c \<Rightarrow> nat" where
  "free_at s c = (if c \<in> hasty s then 0 else case last_start c (log s) of None \<Rightarrow> 0 | Some (t, i) \<Rightarrow> t + interval i)"

definition phase_ok :: "'c throttle \<Rightarrow> 'c \<Rightarrow> bool" where
  "phase_ok s c \<longleftrightarrow> (case phase_of s c of
     Absent \<Rightarrow> free_at s c \<le> clock s \<and> \<not> waiting s c
   | Creating i \<Rightarrow> free_at s c \<le> clock s
   | Registering i \<Rightarrow> (\<exists>t. last_start c (log s) = Some (t, i) \<and> t \<le> clock s) \<and> (waiting s c \<longrightarrow> scheduled s c)
   | Armed due i \<Rightarrow> free_at s c \<le> due \<and> (waiting s c \<longrightarrow> scheduled s c)
   | Firing i \<Rightarrow> free_at s c \<le> clock s)"

text \<open>The timer thread is in the callback of a node exactly when the node says so, and then the wheel is turned to the clock.\<close>

definition thread_ok :: "'c throttle \<Rightarrow> bool" where
  "thread_ok s \<longleftrightarrow> (\<forall>c. running s = Some c \<longleftrightarrow> (\<exists>i. phase_of s c = Firing i)) \<and> turned_to s \<le> clock s \<and>
     (running s \<noteq> None \<longrightarrow> turned_to s = clock s)"

definition throttle_inv :: "('c::linorder) throttle \<Rightarrow> bool" where
  "throttle_inv s \<longleftrightarrow> keys_ok (tasks s) \<and> (\<forall>c. c \<in> set (inorder (tasks s)) \<longleftrightarrow> phase_of s c \<noteq> Absent) \<and>
     (\<forall>c. phase_ok s c) \<and> spaced (hasty s) (log s) \<and> thread_ok s"

lemma spaced_grows: "spaced H l \<Longrightarrow> spaced (insert c H) l"
  by (induction H l rule: spaced.induct) auto

lemma spaced_start: "free_at s c \<le> clock s \<Longrightarrow> spaced (hasty s) (log s) \<Longrightarrow> spaced (hasty s) (log (start c i s))"
  by (auto simp: start_def free_at_def split: option.splits if_splits)

lemmas throttle_ops = prun_throttled_def run_created_def register_timer_def ratelimit_timer_def run_scheduled_def start_def

lemma phase_ok_cong:
  assumes "phase_of s' d = phase_of s d" "last_start d (log s') = last_start d (log s)" "clock s' = clock s"
    "waiting s' d = waiting s d" "scheduled s' d = scheduled s d" "d \<in> hasty s' \<longleftrightarrow> d \<in> hasty s"
  shows "phase_ok s' d = phase_ok s d"
  unfolding phase_ok_def free_at_def assms ..

lemma phase_ok_other:
  assumes "d \<noteq> c"
  shows "phase_ok (prun_throttled c i s) d = phase_ok s d" "phase_ok (run_created c i s) d = phase_ok s d"
    "phase_ok (register_timer c i s) d = phase_ok s d" "phase_ok (ratelimit_timer c i s) d = phase_ok s d"
    "phase_ok (run_scheduled c i s) d = phase_ok s d"
  using assms by (intro phase_ok_cong; simp add: throttle_ops Let_def)+

lemma throttle_invI:
  assumes "throttle_inv s" "keys_ok (tasks s')" "\<And>d. d \<in> set (inorder (tasks s')) \<longleftrightarrow> phase_of s' d \<noteq> Absent"
    "\<And>d. d \<noteq> c \<Longrightarrow> phase_ok s' d = phase_ok s d" "phase_ok s' c" "spaced (hasty s') (log s')" "thread_ok s'"
  shows "throttle_inv s'"
proof -
  have "phase_ok s' d" for d
  proof (cases "d = c")
    case False
    then show ?thesis using assms(1,4) by (simp add: throttle_inv_def)
  qed (use assms(5) in simp)
  with assms(2,3,6,7) show ?thesis by (simp add: throttle_inv_def)
qed

lemma throttle_invD:
  assumes "throttle_inv s"
  shows "keys_ok (tasks s)" "c \<in> set (inorder (tasks s)) \<longleftrightarrow> phase_of s c \<noteq> Absent" "phase_ok s c"
    "spaced (hasty s) (log s)" "thread_ok s"
  using assms by (auto simp: throttle_inv_def)

text \<open>The thread's part of the invariant, when the phase of one node changes.\<close>

lemma thread_ok_phase:
  assumes "thread_ok s" "turned_to s' = turned_to s" "clock s' = clock s" "phase_of s' = (phase_of s)(c := ph)"
    and "(\<exists>i. ph = Firing i) \<and> running s' = Some c \<and> running s = None \<and> turned_to s = clock s \<or>
      (\<nexists>i. ph = Firing i) \<and> running s' = (if \<exists>i. phase_of s c = Firing i then None else running s)"
  shows "thread_ok s'"
proof -
  note t = assms(1) [unfolded thread_ok_def, THEN conjunct1, rule_format]
    assms(1) [unfolded thread_ok_def, THEN conjunct2]
  have "running s' = Some d \<longleftrightarrow> (\<exists>i. phase_of s' d = Firing i)" for d
  proof (cases "d = c")
    case True
    then show ?thesis using assms(4,5) t(1) [of c] by (auto split: if_splits)
  next
    case False
    then have "phase_of s' d = phase_of s d" by (simp add: assms(4))
    with False assms(5) t(1) [of c] t(1) [of d] show ?thesis by (auto split: if_splits)
  qed
  then show ?thesis using assms(2,3,5) t(2) unfolding thread_ok_def by (auto split: if_splits)
qed

lemma created_inv:
  assumes "throttle_inv s" "phase_of s c = Creating i"
  shows "throttle_inv (run_created c i s)"
proof (rule throttle_invI [OF assms(1), where c = c])
  note inv = throttle_invD [OF assms(1)]
  have f: "free_at s c \<le> clock s" using inv(3) [of c] assms(2) by (simp add: phase_ok_def)
  show "keys_ok (tasks (run_created c i s))" using inv(1) by (simp add: throttle_ops)
  show "d \<in> set (inorder (tasks (run_created c i s))) \<longleftrightarrow> phase_of (run_created c i s) d \<noteq> Absent" for d
    using inv(2) [of d] assms(2) by (auto simp: throttle_ops)
  show "phase_ok (run_created c i s) c" by (simp add: throttle_ops phase_ok_def)
  show "spaced (hasty (run_created c i s)) (log (run_created c i s))"
    using spaced_start [OF f inv(4), of i] by (simp add: throttle_ops)
  show "thread_ok (run_created c i s)"
    by (rule thread_ok_phase [OF inv(5), where c = c and ph = "Registering i"]) (use assms(2) in \<open>simp_all add: throttle_ops\<close>)
qed (simp add: phase_ok_other)

lemma register_inv:
  assumes "throttle_inv s" "phase_of s c = Registering i"
  shows "throttle_inv (register_timer c i s)"
proof (rule throttle_invI [OF assms(1), where c = c])
  note inv = throttle_invD [OF assms(1)]
  show "keys_ok (tasks (register_timer c i s))" using inv(1) by (simp add: throttle_ops)
  show "d \<in> set (inorder (tasks (register_timer c i s))) \<longleftrightarrow> phase_of (register_timer c i s) d \<noteq> Absent" for d
    using inv(2) [of d] assms(2) by (auto simp: throttle_ops)
  show "phase_ok (register_timer c i s) c"
    using inv(3) [of c] assms(2) by (auto simp: throttle_ops phase_ok_def free_at_def)
  show "spaced (hasty (register_timer c i s)) (log (register_timer c i s))"
    using inv(4) by (simp add: throttle_ops spaced_grows)
  show "thread_ok (register_timer c i s)"
    by (rule thread_ok_phase [OF inv(5), where c = c and ph = "phase_of (register_timer c i s) c"])
      (use assms(2) in \<open>simp_all add: throttle_ops\<close>)
qed (simp add: phase_ok_other)

lemma fire_inv:
  assumes "throttle_inv s" "phase_of s c = Armed due i" "due \<le> turned_to s" "turned_to s = clock s" "running s = None"
  shows "throttle_inv (ratelimit_timer c i s)"
proof (rule throttle_invI [OF assms(1), where c = c])
  note inv = throttle_invD [OF assms(1)]
  show "keys_ok (tasks (ratelimit_timer c i s))" using inv(1) kt.del [OF inv(1), of c] by (simp add: throttle_ops)
  show "d \<in> set (inorder (tasks (ratelimit_timer c i s))) \<longleftrightarrow> phase_of (ratelimit_timer c i s) d \<noteq> Absent" for d
    using inv(2) [of d] kt.del [OF inv(1), of c] assms(2) by (auto simp: throttle_ops)
  show "phase_ok (ratelimit_timer c i s) c"
    using inv(3) [of c] assms by (auto simp: throttle_ops phase_ok_def free_at_def split: option.splits if_splits)
  show "spaced (hasty (ratelimit_timer c i s)) (log (ratelimit_timer c i s))" using inv(4) by (simp add: throttle_ops)
  show "thread_ok (ratelimit_timer c i s)"
    by (rule thread_ok_phase [OF inv(5), where c = c and ph = "phase_of (ratelimit_timer c i s) c"])
      (use assms(2,4,5) in \<open>simp_all add: throttle_ops\<close>)
qed (simp add: phase_ok_other)

lemma fired_inv:
  assumes "throttle_inv s" "phase_of s c = Firing i"
  shows "throttle_inv (run_scheduled c i s)"
proof (rule throttle_invI [OF assms(1), where c = c])
  note inv = throttle_invD [OF assms(1)]
  have f: "free_at s c \<le> clock s" using inv(3) [of c] assms(2) by (simp add: phase_ok_def)
  show "keys_ok (tasks (run_scheduled c i s))" using inv(1) by (simp add: throttle_ops)
  show "d \<in> set (inorder (tasks (run_scheduled c i s))) \<longleftrightarrow> phase_of (run_scheduled c i s) d \<noteq> Absent" for d
    using inv(2) [of d] assms(2) by (auto simp: throttle_ops)
  show "phase_ok (run_scheduled c i s) c" by (simp add: throttle_ops phase_ok_def free_at_def)
  show "spaced (hasty (run_scheduled c i s)) (log (run_scheduled c i s))"
    using spaced_start [OF f inv(4), of i] by (simp add: throttle_ops)
  show "thread_ok (run_scheduled c i s)"
    by (rule thread_ok_phase [OF inv(5), where c = c and ph = "Armed (clock s + interval i) i"])
      (use assms(2) in \<open>simp_all add: throttle_ops\<close>)
qed (simp add: phase_ok_other)

lemma request_inv:
  assumes "throttle_inv s"
  shows "throttle_inv (prun_throttled c i s)"
proof (rule throttle_invI [OF assms(1), where c = c])
  note inv = throttle_invD [OF assms(1)] and k = kt.add [OF throttle_invD(1) [OF assms], of c] kt.find_key [OF throttle_invD(1) [OF assms], of c]
  show "keys_ok (tasks (prun_throttled c i s))" using inv(1) k by (simp add: throttle_ops Let_def)
  show "d \<in> set (inorder (tasks (prun_throttled c i s))) \<longleftrightarrow> phase_of (prun_throttled c i s) d \<noteq> Absent" for d
    using inv(2) [of d] k by (auto simp: throttle_ops Let_def)
  show "phase_ok (prun_throttled c i s) c" using inv(3) [of c] inv(2) [of c] k
    by (cases "phase_of s c") (auto simp: throttle_ops Let_def phase_ok_def free_at_def)
  show "spaced (hasty (prun_throttled c i s)) (log (prun_throttled c i s))" using inv(4) by (simp add: throttle_ops Let_def)
  show "thread_ok (prun_throttled c i s)"
  proof (cases "key_find c (tasks s)")
    case True
    then show ?thesis using inv(5) by (simp add: throttle_ops Let_def thread_ok_def)
  next
    case False
    then have "phase_of s c = Absent" using inv(2) [of c] k by simp
    with False show ?thesis
      by (intro thread_ok_phase [OF inv(5), where c = c and ph = "Creating i"]) (simp_all add: throttle_ops Let_def)
  qed
qed (simp add: phase_ok_other)

lemma throttle_inv_step:
  assumes "throttle_inv s" "throttle_step s s'"
  shows "throttle_inv s'"
proof -
  note inv = throttle_invD [OF assms(1)]
  have "throttle_inv s'" if "internal_step s s'"
    using that
  proof cases
    case (read_clock t)
    have "phase_ok s' d" for d
      using inv(3) [of d] read_clock(4) unfolding read_clock(1)
      by (auto simp: phase_ok_def free_at_def split: phase.splits option.splits)
    then show ?thesis using assms(1) read_clock by (simp add: throttle_inv_def thread_ok_def)
  next
    case turn
    have "phase_ok s' d" for d using inv(3) [of d] unfolding turn by (auto simp: phase_ok_def free_at_def split: phase.splits)
    then show ?thesis using assms(1) by (auto simp: throttle_inv_def thread_ok_def turn)
  qed (use assms(1) created_inv register_inv fire_inv fired_inv in blast)+
  then show ?thesis using assms(2) request_inv [OF assms(1)] by (auto elim: throttle_step.cases)
qed

lemma throttle_inv_init: "throttle_inv throttle_init"
  by (simp add: throttle_inv_def throttle_init_def phase_ok_def free_at_def keys_ok_def thread_ok_def)

interpretation thr: transition_system throttle_start throttle_step throttle_inv
  by unfold_locales (auto simp: throttle_start_def throttle_inv_init intro: throttle_inv_step)


subsection \<open>What the callers get\<close>

text \<open>
  A timer is registered in time whenever the clock is not further ahead of the wheel than the interval is short of a
  full turn of its level.
\<close>

lemma registered_in_time:
  assumes "turned_to s \<le> clock s" "clock s + interval i \<le> turned_to s + 64 ^ (level_for i + 1)"
  shows "punctual i s"
proof -
  have "(clock s + interval i) div 64 ^ level_for i \<le> (turned_to s + 64 * 64 ^ level_for i) div 64 ^ level_for i"
    using assms(2) by (intro div_le_mono) simp
  then show ?thesis using assms(1) by (simp add: punctual_def in_time_def)
qed


lemma witness_run:
  "reaches throttle_start throttle_step (run_created (7 :: nat) 5 (prun_throttled 7 5 throttle_init))"
proof -
  have "reaches throttle_start throttle_step (prun_throttled (7 :: nat) 5 throttle_init)"
    by (rule reaches_step, rule reaches_init, simp add: throttle_start_def, rule request)
  then show ?thesis
    by (rule reaches_step) (intro internal created, simp add: prun_throttled_def throttle_init_def key_find_def Let_def)
qed


text \<open>The steps of the timer thread, with no callback in the way, turn the wheel to any later second.\<close>

lemma wheel_turns:
  assumes "running s = None" "turned_to s \<le> clock s"
  shows "internal_step\<^sup>*\<^sup>* s (s\<lparr>clock := clock s + n, turned_to := clock s + n\<rparr>)"
proof -
  have "internal_step s (s\<lparr>turned_to := clock s\<rparr>)" by (rule turn)
  moreover have "internal_step (s\<lparr>turned_to := clock s\<rparr>) (s\<lparr>turned_to := clock s, clock := clock s + n\<rparr>)"
    using read_clock [of "s\<lparr>turned_to := clock s\<rparr>" "clock s + n"] assms by simp
  moreover have "internal_step (s\<lparr>turned_to := clock s, clock := clock s + n\<rparr>) (s\<lparr>clock := clock s + n, turned_to := clock s + n\<rparr>)"
    using turn [of "s\<lparr>turned_to := clock s, clock := clock s + n\<rparr>"] by simp
  ultimately show ?thesis by (meson converse_rtranclp_into_rtranclp r_into_rtranclp)
qed

lemma armed_runs_idle:
  assumes "phase_of s c = Armed due i" "scheduled s c" "running s = None" "turned_to s \<le> clock s"
  shows "\<exists>s'. internal_step\<^sup>*\<^sup>* s s' \<and> \<not> waiting s' c"
proof -
  define t where "t = s\<lparr>clock := clock s + due, turned_to := clock s + due\<rparr>"
  have "internal_step\<^sup>*\<^sup>* s t" unfolding t_def by (rule wheel_turns [OF assms(3,4)])
  moreover have "internal_step t (ratelimit_timer c i t)" using assms(1,3) by (intro fire [of _ _ due]) (simp_all add: t_def)
  moreover have "internal_step (ratelimit_timer c i t) (run_scheduled c i (ratelimit_timer c i t))"
    using assms(2) by (intro fired) (simp add: ratelimit_timer_def t_def)
  moreover have "\<not> waiting (run_scheduled c i (ratelimit_timer c i t)) c" by (simp add: run_scheduled_def start_def)
  ultimately show ?thesis by (meson rtranclp.rtrancl_into_rtrancl)
qed

text \<open>When the thread is in the callback of another node, that ends first.\<close>

lemma armed_runs:
  assumes "throttle_inv s" "phase_of s c = Armed due i" "scheduled s c"
  shows "\<exists>s'. internal_step\<^sup>*\<^sup>* s s' \<and> \<not> waiting s' c"
proof (cases "running s")
  case None
  with assms armed_runs_idle throttle_invD(5) [OF assms(1)] show ?thesis by (auto simp: thread_ok_def)
next
  case (Some d)
  with throttle_invD(5) [OF assms(1)] obtain j where d: "phase_of s d = Firing j" by (auto simp: thread_ok_def)
  with assms(2) have "c \<noteq> d" by auto
  with assms(2,3) have "phase_of (run_scheduled d j s) c = Armed due i" "scheduled (run_scheduled d j s) c"
    "running (run_scheduled d j s) = None" by (simp_all add: run_scheduled_def start_def)
  moreover have "turned_to (run_scheduled d j s) \<le> clock (run_scheduled d j s)"
    using throttle_invD(5) [OF assms(1)] by (simp add: run_scheduled_def start_def thread_ok_def)
  ultimately obtain s' where "internal_step\<^sup>*\<^sup>* (run_scheduled d j s) s'" "\<not> waiting s' c" using armed_runs_idle by blast
  with fired [OF d] show ?thesis by (meson converse_rtranclp_into_rtranclp)
qed

text \<open>
  C29. No request is lost: from every reachable state in which a callback was requested and has not started since, the
  threads can start it by their own steps, without another request.
\<close>

theorem throttle_request_served:
  assumes "reaches throttle_start throttle_step s" "waiting s c"
  shows "\<exists>s'. internal_step\<^sup>*\<^sup>* s s' \<and> \<not> waiting s' c"
proof -
  have inv: "throttle_inv s" by (rule thr.inv_reaches [OF assms(1)])
  have ok: "phase_ok s c" using inv by (rule throttle_invD)
  show ?thesis
  proof (cases "phase_of s c")
    case Absent
    with ok assms(2) show ?thesis by (simp add: phase_ok_def)
  next
    case (Creating i)
    from created [OF this] have "internal_step\<^sup>*\<^sup>* s (run_created c i s)" by (rule r_into_rtranclp)
    moreover have "\<not> waiting (run_created c i s) c" by (simp add: run_created_def start_def)
    ultimately show ?thesis by blast
  next
    case (Registering i)
    then have "scheduled (register_timer c i s) c" "\<exists>due. phase_of (register_timer c i s) c = Armed due i"
      using ok assms(2) by (simp_all add: phase_ok_def register_timer_def)
    from armed_runs [OF register_inv [OF inv Registering] _ this(1)] this(2) register [OF Registering]
    show ?thesis by (meson converse_rtranclp_into_rtranclp)
  next
    case (Armed due i)
    with ok assms(2) show ?thesis by (intro armed_runs [OF inv]) (auto simp: phase_ok_def)
  next
    case (Firing i)
    from fired [OF this] have "internal_step\<^sup>*\<^sup>* s (run_scheduled c i s)" by (rule r_into_rtranclp)
    moreover have "\<not> waiting (run_scheduled c i s) c" by (simp add: run_scheduled_def start_def)
    ultimately show ?thesis by blast
  qed
qed

theorem throttle_request_served_witness:
  "\<exists>s'. internal_step\<^sup>*\<^sup>* (prun_throttled (7 :: nat) 5 (run_created 7 5 (prun_throttled 7 5 throttle_init))) s' \<and> \<not> waiting s' 7"
  by (rule throttle_request_served, rule reaches_step, rule witness_run, rule request) (simp add: prun_throttled_def Let_def)

end
