(* ===== verification/PParentCache.thy ===== *)
theory PParentCache
  imports PKeyIndex
begin

text \<open>
  The parent cache of \<open>pclsync/ppathstatus.c\<close>: a fixed number of entries that remember the parents of folders, in
  a hash table and in the order of their last use. An entry is its index; \<open>nhash\<close> is the number of lists of
  the table (128 for the drive, 64 for a synced folder). \<open>db\<close> is the query of the database.
\<close>

subsection \<open>The code\<close>

definition PSYNC_INVALID_FOLDERID :: u64 where "PSYNC_INVALID_FOLDERID = - 1"
definition PARENT_CACHE_SIZE :: nat where "PARENT_CACHE_SIZE = 128"
definition PARENT_HASH_SIZE :: nat where "PARENT_HASH_SIZE = 128"
definition SYNC_PARENT_CACHE_SIZE :: nat where "SYNC_PARENT_CACHE_SIZE = 64"
definition SYNC_PARENT_HASH_SIZE :: nat where "SYNC_PARENT_HASH_SIZE = 64"

record parent_cache =
  cache_lru :: "nat list"
  cache_free :: "nat list"
  cache_hash :: "nat \<Rightarrow> nat list"
  entry_folder :: "nat \<Rightarrow> u64"
  entry_parent :: "nat \<Rightarrow> u64"

definition hash_folderid :: "u64 \<Rightarrow> u32" where
  "hash_folderid folderid = (let h = ucast folderid * 0x4c8cbb55 in h XOR drop_bit 19 h)"

definition bucket_of :: "nat \<Rightarrow> u64 \<Rightarrow> nat" where
  "bucket_of nhash folderid = unat (hash_folderid folderid) mod nhash"

definition parent_cache_init :: "nat \<Rightarrow> parent_cache" where
  "parent_cache_init n = \<lparr>cache_lru = [0..<n], cache_free = [0..<n], cache_hash = (\<lambda>_. []), entry_folder = (\<lambda>_. 0), entry_parent = (\<lambda>_. 0)\<rparr>"

text \<open>\<open>psync_list_del(&p->list_hash)\<close>, whichever list the entry is in.\<close>

definition list_del_hash :: "nat \<Rightarrow> parent_cache \<Rightarrow> parent_cache" where
  "list_del_hash p c = c\<lparr>cache_free := remove1 p (cache_free c), cache_hash := (\<lambda>h. remove1 p (cache_hash c h))\<rparr>"

definition get_parent_folder :: "nat \<Rightarrow> (u64 \<Rightarrow> u64 option) \<Rightarrow> u64 \<Rightarrow> parent_cache \<Rightarrow> parent_cache \<times> u64" where
  "get_parent_folder nhash db folderid c =
     (if folderid = 0 then (c, PSYNC_INVALID_FOLDERID)
      else let h = bucket_of nhash folderid
           in case List.find (\<lambda>p. entry_folder c p = folderid) (cache_hash c h) of
                Some p \<Rightarrow> (c\<lparr>cache_lru := remove1 p (cache_lru c) @ [p]\<rparr>, entry_parent c p)
              | None \<Rightarrow>
                  (case db folderid of
                     None \<Rightarrow> (c, PSYNC_INVALID_FOLDERID)
                   | Some par \<Rightarrow>
                       let p = hd (cache_lru c);
                           c = list_del_hash p (c\<lparr>cache_lru := tl (cache_lru c)\<rparr>)
                       in (c\<lparr>entry_folder := (entry_folder c)(p := folderid), entry_parent := (entry_parent c)(p := par),
                             cache_hash := (cache_hash c)(h := p # cache_hash c h), cache_lru := cache_lru c @ [p]\<rparr>, par)))"

definition ppathstatus_del_from_parent_cache :: "nat \<Rightarrow> u64 \<Rightarrow> parent_cache \<Rightarrow> parent_cache" where
  "ppathstatus_del_from_parent_cache nhash folderid c =
     (case List.find (\<lambda>p. entry_folder c p = folderid) (cache_hash c (bucket_of nhash folderid)) of
        None \<Rightarrow> c
      | Some p \<Rightarrow> let c = list_del_hash p (c\<lparr>cache_lru := p # remove1 p (cache_lru c)\<rparr>)
                  in c\<lparr>cache_free := cache_free c @ [p]\<rparr>)"

subsection \<open>The invariant\<close>

text \<open>
  Every entry is in the list of uses once, and either free or once in the list of its folder; no folder has two.
\<close>

definition parent_cache_ok :: "nat \<Rightarrow> parent_cache \<Rightarrow> bool" where
  "parent_cache_ok nhash c \<longleftrightarrow> cache_lru c \<noteq> [] \<and> distinct (cache_lru c) \<and> distinct (cache_free c) \<and> set (cache_free c) \<subseteq> set (cache_lru c) \<and>
     (\<forall>h. distinct (cache_hash c h) \<and> set (cache_hash c h) \<subseteq> set (cache_lru c) - set (cache_free c)) \<and>
     (\<forall>h. \<forall>p \<in> set (cache_hash c h). h = bucket_of nhash (entry_folder c p)) \<and>
     (\<forall>h. \<forall>p \<in> set (cache_hash c h). \<forall>q \<in> set (cache_hash c h). entry_folder c p = entry_folder c q \<longrightarrow> p = q) \<and>
     (\<forall>p \<in> set (cache_lru c) - set (cache_free c). \<exists>h. p \<in> set (cache_hash c h))"

text \<open>What the cache knows about a folder.\<close>

definition cached :: "nat \<Rightarrow> parent_cache \<Rightarrow> u64 \<Rightarrow> u64 option" where
  "cached nhash c folderid = map_option (entry_parent c)
     (List.find (\<lambda>p. entry_folder c p = folderid) (cache_hash c (bucket_of nhash folderid)))"

lemma cached_SomeI:
  assumes "parent_cache_ok nhash c" "p \<in> set (cache_hash c h)"
  shows "cached nhash c (entry_folder c p) = Some (entry_parent c p)"
proof -
  have h: "h = bucket_of nhash (entry_folder c p)" using assms by (simp add: parent_cache_ok_def)
  have "List.find (\<lambda>q. entry_folder c q = entry_folder c p) (cache_hash c h) = Some p"
  proof (cases "List.find (\<lambda>q. entry_folder c q = entry_folder c p) (cache_hash c h)")
    case None
    with assms(2) show ?thesis by (auto simp: find_None_iff)
  next
    case (Some q)
    then have "q \<in> set (cache_hash c h)" "entry_folder c q = entry_folder c p" by (auto simp: find_Some_iff)
    then have "q = p" using assms by (simp add: parent_cache_ok_def)
    with Some show ?thesis by simp
  qed
  then show ?thesis by (simp add: cached_def h [symmetric])
qed

lemma cached_SomeD:
  assumes "cached nhash c f = Some g"
  shows "\<exists>p \<in> set (cache_hash c (bucket_of nhash f)). entry_folder c p = f \<and> entry_parent c p = g"
  using assms by (auto simp: cached_def find_Some_iff) 

lemma parent_cache_init_ok: "0 < n \<Longrightarrow> parent_cache_ok nhash (parent_cache_init n) \<and> cached nhash (parent_cache_init n) = (\<lambda>_. None)"
  by (auto simp: parent_cache_ok_def parent_cache_init_def cached_def)

lemma find_in:
  "List.find P xs = Some p \<Longrightarrow> p \<in> set xs \<and> P p"
  by (auto simp: find_Some_iff)

lemma parent_cache_okD:
  assumes "parent_cache_ok nhash c"
  shows "cache_lru c \<noteq> []" "distinct (cache_lru c)" "distinct (cache_free c)" "set (cache_free c) \<subseteq> set (cache_lru c)"
    "distinct (cache_hash c h)" "set (cache_hash c h) \<subseteq> set (cache_lru c) - set (cache_free c)"
    "p \<in> set (cache_hash c h) \<Longrightarrow> h = bucket_of nhash (entry_folder c p)"
    "p \<in> set (cache_hash c h) \<Longrightarrow> q \<in> set (cache_hash c h) \<Longrightarrow> entry_folder c p = entry_folder c q \<Longrightarrow> p = q"
    "p \<in> set (cache_lru c) \<Longrightarrow> p \<notin> set (cache_free c) \<Longrightarrow> \<exists>h. p \<in> set (cache_hash c h)"
  using assms unfolding parent_cache_ok_def by auto

lemma parent_cache_ok_lru:
  assumes "parent_cache_ok nhash c" "set l = set (cache_lru c)" "distinct l"
  shows "parent_cache_ok nhash (c\<lparr>cache_lru := l\<rparr>)"
proof -
  have "l \<noteq> []" using parent_cache_okD(1) [OF assms(1)] assms(2) by (metis set_empty)
  with assms show ?thesis unfolding parent_cache_ok_def by simp
qed

text \<open>The least recently used entry is given to another folder.\<close>

definition reuse :: "nat \<Rightarrow> u64 \<Rightarrow> u64 \<Rightarrow> parent_cache \<Rightarrow> parent_cache" where
  "reuse h f par c =
     (let p = hd (cache_lru c); c = list_del_hash p (c\<lparr>cache_lru := tl (cache_lru c)\<rparr>)
      in c\<lparr>entry_folder := (entry_folder c)(p := f), entry_parent := (entry_parent c)(p := par),
           cache_hash := (cache_hash c)(h := p # cache_hash c h), cache_lru := cache_lru c @ [p]\<rparr>)"

lemma reuse_correct:
  assumes "parent_cache_ok nhash c" "cached nhash c f = None" "h = bucket_of nhash f"
  shows "parent_cache_ok nhash (reuse h f par c)" "cached nhash (reuse h f par c) f = Some par"
    "x \<noteq> f \<Longrightarrow> cached nhash (reuse h f par c) x = cached nhash c x \<or> cached nhash (reuse h f par c) x = None"
proof -
  note ok = parent_cache_okD [OF assms(1)]
  define p where "p = hd (cache_lru c)"
  let ?c = "reuse h f par c"
  have lru: "cache_lru c = p # tl (cache_lru c)" using ok(1) by (simp add: p_def)
  have e: "entry_folder ?c = (entry_folder c)(p := f)" "entry_parent ?c = (entry_parent c)(p := par)" "cache_free ?c = remove1 p (cache_free c)"
    "cache_hash ?c = (\<lambda>k. (if k = h then [p] else []) @ remove1 p (cache_hash c k))" "cache_lru ?c = tl (cache_lru c) @ [p]"
    by (auto simp: reuse_def list_del_hash_def Let_def p_def fun_eq_iff)
  have miss: "entry_folder c q \<noteq> f" if "q \<in> set (cache_hash c h)" for q
    using assms(2,3) that by (auto simp: cached_def find_None_iff)
  have set: "set (cache_hash ?c k) = (if k = h then {p} else {}) \<union> (set (cache_hash c k) - {p})" for k
    using ok(5) [of k] by (auto simp: e)
  have l: "set (cache_lru ?c) = set (cache_lru c)" "distinct (cache_lru ?c)"
    using ok(2) lru by (metis e(5) list.set(2) set_append insert_is_Un list.set(1) sup_commute, metis e(5) distinct.simps(2) distinct_append distinct_singleton disjoint_insert(1) inf_bot_right list.set(1) list.set(2))
  have fr: "set (cache_free ?c) = set (cache_free c) - {p}" using ok(3) by (simp add: e)
  show ok': "parent_cache_ok nhash ?c"
    unfolding parent_cache_ok_def
  proof (intro conjI allI ballI impI)
    show "cache_lru ?c \<noteq> []" by (simp add: e)
    show "distinct (cache_free ?c)" using ok(3) by (simp add: e)
    show "set (cache_free ?c) \<subseteq> set (cache_lru ?c)" using ok(4) by (auto simp: fr l)
  next
    fix k
    show "distinct (cache_hash ?c k)" using ok(5) [of k] by (simp add: e)
    have "p \<in> set (cache_lru c)" using lru by (metis list.set_intros(1))
    then show "set (cache_hash ?c k) \<subseteq> set (cache_lru ?c) - set (cache_free ?c)" using ok(6) [of k] by (auto simp: set fr l)
    fix q assume "q \<in> set (cache_hash ?c k)"
    then show "k = bucket_of nhash (entry_folder ?c q)" using ok(7) [of q k] by (auto simp: set e(1) assms(3) [symmetric] split: if_splits)
  next
    fix k q r assume qr: "q \<in> set (cache_hash ?c k)" "r \<in> set (cache_hash ?c k)" "entry_folder ?c q = entry_folder ?c r"
    have c: "q = p \<and> k = h \<or> q \<noteq> p \<and> q \<in> set (cache_hash c k)" "r = p \<and> k = h \<or> r \<noteq> p \<and> r \<in> set (cache_hash c k)"
      using qr(1,2) unfolding set by (auto split: if_splits)
    show "q = r"
    proof (cases "q = p \<or> r = p")
      case True
      then show ?thesis using c qr(3) miss [of q] miss [of r] by (auto simp: e(1) split: if_splits)
    next
      case False
      with c qr(3) show ?thesis by (intro ok(8) [of q k r]) (simp_all add: e(1))
    qed
  next
    fix q assume q: "q \<in> set (cache_lru ?c) - set (cache_free ?c)"
    show "\<exists>k. q \<in> set (cache_hash ?c k)"
    proof (cases "q = p")
      case False
      with q ok(9) [of q] show ?thesis by (auto simp: set fr l)
    qed (auto simp: set)
  qed (rule l)
  show "cached nhash ?c f = Some par"
    using cached_SomeI [OF ok', of p h] by (simp add: set e)
  show "cached nhash ?c x = cached nhash c x \<or> cached nhash ?c x = None" if "x \<noteq> f"
  proof (cases "cached nhash ?c x")
    case (Some g)
    then obtain q where "q \<in> set (cache_hash ?c (bucket_of nhash x))" "entry_folder ?c q = x" "entry_parent ?c q = g"
      using cached_SomeD by blast
    then have "q \<in> set (cache_hash c (bucket_of nhash x))" "entry_folder c q = x" "entry_parent c q = g"
      using that by (auto simp: set e split: if_splits)
    then show ?thesis using cached_SomeI [OF assms(1)] Some by fastforce
  qed simp
qed

text \<open>A look-up gives what is cached, or else what the database says, which then is cached; one entry may be forgotten.\<close>

lemma get_parent_folder_correct:
  assumes "parent_cache_ok nhash c"
  shows "parent_cache_ok nhash (fst (get_parent_folder nhash db f c))"
    "snd (get_parent_folder nhash db f c) = (if f = 0 then PSYNC_INVALID_FOLDERID
      else case cached nhash c f of Some g \<Rightarrow> g | None \<Rightarrow> (case db f of Some g \<Rightarrow> g | None \<Rightarrow> PSYNC_INVALID_FOLDERID))"
    "cached nhash (fst (get_parent_folder nhash db f c)) x \<in> {cached nhash c x, None} \<or>
       x = f \<and> cached nhash (fst (get_parent_folder nhash db f c)) x = db x"
proof -
  let ?r = "get_parent_folder nhash db f c"
  consider "f = 0" | p where "f \<noteq> 0" "List.find (\<lambda>p. entry_folder c p = f) (cache_hash c (bucket_of nhash f)) = Some p"
    | "f \<noteq> 0" "cached nhash c f = None" "db f = None" | par where "f \<noteq> 0" "cached nhash c f = None" "db f = Some par"
    by (cases "List.find (\<lambda>p. entry_folder c p = f) (cache_hash c (bucket_of nhash f))"; cases "db f") (auto simp: cached_def)
  then have "parent_cache_ok nhash (fst ?r) \<and> snd ?r = (if f = 0 then PSYNC_INVALID_FOLDERID
      else case cached nhash c f of Some g \<Rightarrow> g | None \<Rightarrow> (case db f of Some g \<Rightarrow> g | None \<Rightarrow> PSYNC_INVALID_FOLDERID)) \<and>
    (cached nhash (fst ?r) x \<in> {cached nhash c x, None} \<or> x = f \<and> cached nhash (fst ?r) x = db x)"
  proof cases
    case (2 p)
    then have "p \<in> set (cache_lru c)" using find_in [OF 2(2)] parent_cache_okD(6) [OF assms] by blast
    then have s: "set (remove1 p (cache_lru c) @ [p]) = set (cache_lru c)" "distinct (remove1 p (cache_lru c) @ [p])"
      using parent_cache_okD(2) [OF assms] by auto
    have r: "?r = (c\<lparr>cache_lru := remove1 p (cache_lru c) @ [p]\<rparr>, entry_parent c p)" using 2 by (simp add: get_parent_folder_def Let_def)
    have "parent_cache_ok nhash (fst ?r)" unfolding r fst_conv by (rule parent_cache_ok_lru [OF assms s])
    moreover have "cached nhash (fst ?r) = cached nhash c" by (simp add: r cached_def fun_eq_iff)
    moreover have "cached nhash c f = Some (entry_parent c p)" using 2 by (simp add: cached_def)
    ultimately show ?thesis using 2 r by simp
  next
    case (4 par)
    then have "?r = (reuse (bucket_of nhash f) f par c, par)"
      by (auto simp: get_parent_folder_def reuse_def Let_def cached_def)
    with reuse_correct [OF assms 4(2) refl, where par = par] 4 show ?thesis by (cases "x = f") auto
  qed (auto simp: get_parent_folder_def Let_def cached_def assms)
  then show "parent_cache_ok nhash (fst ?r)" "snd ?r = (if f = 0 then PSYNC_INVALID_FOLDERID
      else case cached nhash c f of Some g \<Rightarrow> g | None \<Rightarrow> (case db f of Some g \<Rightarrow> g | None \<Rightarrow> PSYNC_INVALID_FOLDERID))"
    "cached nhash (fst ?r) x \<in> {cached nhash c x, None} \<or> x = f \<and> cached nhash (fst ?r) x = db x" by blast+
qed

lemma del_from_parent_cache_correct:
  assumes "parent_cache_ok nhash c"
  shows "parent_cache_ok nhash (ppathstatus_del_from_parent_cache nhash f c)"
    "cached nhash (ppathstatus_del_from_parent_cache nhash f c) x = (if x = f then None else cached nhash c x)"
proof -
  note ok = parent_cache_okD [OF assms]
  let ?b = "bucket_of nhash f" and ?d = "ppathstatus_del_from_parent_cache nhash f c"
  have "parent_cache_ok nhash ?d \<and> cached nhash ?d x = (if x = f then None else cached nhash c x)"
  proof (cases "List.find (\<lambda>p. entry_folder c p = f) (cache_hash c ?b)")
    case None
    then show ?thesis using assms by (simp add: ppathstatus_del_from_parent_cache_def cached_def)
  next
    case (Some p)
    then have p: "p \<in> set (cache_hash c ?b)" "entry_folder c p = f" using find_in [OF Some] by simp_all
    then have pl: "p \<in> set (cache_lru c)" "p \<notin> set (cache_free c)" using ok(6) [of ?b] by auto
    have e: "entry_folder ?d = entry_folder c" "entry_parent ?d = entry_parent c" "cache_free ?d = remove1 p (cache_free c) @ [p]"
      "cache_hash ?d = (\<lambda>k. remove1 p (cache_hash c k))" "cache_lru ?d = p # remove1 p (cache_lru c)"
      using Some by (simp_all add: ppathstatus_del_from_parent_cache_def list_del_hash_def Let_def)
    have set: "set (cache_hash ?d k) = set (cache_hash c k) - {p}" for k using ok(5) [of k] by (simp add: e)
    have l: "set (cache_lru ?d) = set (cache_lru c)" "distinct (cache_lru ?d)" using ok(2) pl(1) by (auto simp: e)
    have fr: "set (cache_free ?d) = insert p (set (cache_free c))" "distinct (cache_free ?d)" using ok(3) pl(2) by (auto simp: e)
    have ok': "parent_cache_ok nhash ?d"
      unfolding parent_cache_ok_def
    proof (intro conjI allI ballI impI)
      show "cache_lru ?d \<noteq> []" by (simp add: e)
      show "set (cache_free ?d) \<subseteq> set (cache_lru ?d)" using ok(4) pl(1) by (auto simp: fr l)
    next
      fix k
      show "distinct (cache_hash ?d k)" using ok(5) [of k] by (simp add: e)
      show "set (cache_hash ?d k) \<subseteq> set (cache_lru ?d) - set (cache_free ?d)" using ok(6) [of k] by (auto simp: set fr l)
      fix q assume "q \<in> set (cache_hash ?d k)"
      then show "k = bucket_of nhash (entry_folder ?d q)" using ok(7) [of q k] by (simp add: set e(1))
    next
      fix k q r assume "q \<in> set (cache_hash ?d k)" "r \<in> set (cache_hash ?d k)" "entry_folder ?d q = entry_folder ?d r"
      then have "q \<in> set (cache_hash c k)" "r \<in> set (cache_hash c k)" "entry_folder c q = entry_folder c r" by (simp_all add: set e(1))
      then show "q = r" by (rule ok(8))
    next
      fix q assume "q \<in> set (cache_lru ?d) - set (cache_free ?d)"
      then have q: "q \<in> set (cache_lru c)" "q \<notin> set (cache_free c)" "q \<noteq> p" by (simp_all add: fr l)
      then obtain k where "q \<in> set (cache_hash c k)" using ok(9) by blast
      with q(3) have "q \<in> set (cache_hash ?d k)" by (simp add: set)
      then show "\<exists>k. q \<in> set (cache_hash ?d k)" ..
    qed (rule l fr)+
    have "cached nhash ?d x = (if x = f then None else cached nhash c x)"
    proof (cases "cached nhash ?d x")
      case (Some g)
      then obtain q where q: "q \<in> set (cache_hash ?d (bucket_of nhash x))" "entry_folder ?d q = x" "entry_parent ?d q = g"
        using cached_SomeD by blast
      then have q': "q \<in> set (cache_hash c (bucket_of nhash x))" "q \<noteq> p" "entry_folder c q = x" "entry_parent c q = g" by (simp_all add: set e(1,2))
      then have "x \<noteq> f" using p ok(8) [of q ?b p] by metis
      with q' cached_SomeI [OF assms q'(1)] Some show ?thesis by simp
    next
      case None
      have "cached nhash c x = None" if "x \<noteq> f"
      proof (cases "cached nhash c x")
        case (Some g)
        then obtain q where q: "q \<in> set (cache_hash c (bucket_of nhash x))" "entry_folder c q = x" using cached_SomeD by blast
        then have "q \<in> set (cache_hash ?d (bucket_of nhash x))" using that p(2) by (auto simp: set)
        from cached_SomeI [OF ok' this] q(2) None show ?thesis by (simp add: e)
      qed
      with None show ?thesis by simp
    qed
    with ok' show ?thesis by blast
  qed
  then show "parent_cache_ok nhash ?d" "cached nhash ?d x = (if x = f then None else cached nhash c x)" by blast+
qed


subsection \<open>The cache is transparent\<close>

definition coherent :: "nat \<Rightarrow> (u64 \<Rightarrow> u64 option) \<Rightarrow> parent_cache \<Rightarrow> bool" where
  "coherent nhash db c \<longleftrightarrow> (\<forall>f g. cached nhash c f = Some g \<longrightarrow> db f = Some g)"

lemma lookup_coherent:
  assumes "parent_cache_ok nhash c" "coherent nhash db c"
  shows "coherent nhash db (fst (get_parent_folder nhash db f c))"
    "snd (get_parent_folder nhash db f c) = (if f = 0 then PSYNC_INVALID_FOLDERID else case db f of Some g \<Rightarrow> g | None \<Rightarrow> PSYNC_INVALID_FOLDERID)"
proof -
  show "coherent nhash db (fst (get_parent_folder nhash db f c))"
    using get_parent_folder_correct(3) [OF assms(1), of db f] assms(2) unfolding coherent_def by (metis insertE option.distinct(1) singletonD)
  have "db f = Some g" if "cached nhash c f = Some g" for g using assms(2) that by (simp add: coherent_def)
  then show "snd (get_parent_folder nhash db f c) = (if f = 0 then PSYNC_INVALID_FOLDERID else case db f of Some g \<Rightarrow> g | None \<Rightarrow> PSYNC_INVALID_FOLDERID)"
    using get_parent_folder_correct(2) [OF assms(1), of db f] by (cases "cached nhash c f") simp_all
qed

lemma forget_coherent:
  assumes "parent_cache_ok nhash c" "coherent nhash db c"
  shows "coherent nhash (db(f := v)) (ppathstatus_del_from_parent_cache nhash f c)"
  using assms del_from_parent_cache_correct(2) [OF assms(1), of f] by (auto simp: coherent_def)

text \<open>
  The cache is transparent: while it agrees with the database, a look-up gives the parent that the database
  holds, the root and unknown folders have none, and the cache stays a partition of its entries that agrees with the
  database, also when an entry is forgotten and the folder gets another parent.
\<close>

theorem parent_cache_transparent:
  assumes "parent_cache_ok nhash c" "coherent nhash db c"
  shows "(let (c', par) = get_parent_folder nhash db f c; d = ppathstatus_del_from_parent_cache nhash f c in
    par = (if f = 0 then PSYNC_INVALID_FOLDERID else case db f of Some g \<Rightarrow> g | None \<Rightarrow> PSYNC_INVALID_FOLDERID) \<and>
    parent_cache_ok nhash c' \<and> coherent nhash db c' \<and> parent_cache_ok nhash d \<and> coherent nhash (db(f := v)) d)"
  using get_parent_folder_correct(1) [OF assms(1), of db f] lookup_coherent [OF assms, of f] forget_coherent [OF assms, of f v]
    del_from_parent_cache_correct(1) [OF assms(1), of f]
  by (cases "get_parent_folder nhash db f c") (simp only: Let_def prod.case fst_conv snd_conv simp_thms)

theorem parent_cache_transparent_witness:
  "let (c', par) = get_parent_folder 4 [7 \<mapsto> 3] 7 (parent_cache_init 2); d = ppathstatus_del_from_parent_cache 4 7 (parent_cache_init 2) in
    par = (if (7 :: u64) = 0 then PSYNC_INVALID_FOLDERID else case [7 \<mapsto> 3] (7 :: u64) of Some g \<Rightarrow> g | None \<Rightarrow> PSYNC_INVALID_FOLDERID) \<and>
    parent_cache_ok 4 c' \<and> coherent 4 [7 \<mapsto> 3] c' \<and> parent_cache_ok 4 d \<and> coherent 4 ([7 \<mapsto> 3](7 := Some 5)) d"
proof (rule parent_cache_transparent)
  show "parent_cache_ok 4 (parent_cache_init 2)" using parent_cache_init_ok [of 2 4] by simp
  show "coherent 4 [7 \<mapsto> 3] (parent_cache_init 2)" using parent_cache_init_ok [of 2 4] by (simp add: coherent_def)
qed

end
