(* ===== verification/PPathTasks.thy ===== *)
theory PPathTasks
  imports PParentCache PStatus
begin

text \<open>
  Which folders have work to do: the task trees of \<open>pclsync/ppathstatus.c\<close>. A folder is in the tree when it has
  tasks of its own or a subfolder that is in the tree; it counts those subfolders. Changes climb the parents, which
  come from the cache over the database. The same code serves the drive and every synced folder. \<open>None\<close> is a failed
  assertion.
\<close>

subsection \<open>The tree of folders with tasks\<close>

record path_tasks =
  task_tree :: "u64 ptree"
  child_task_cnt :: "u64 \<Rightarrow> u32"
  own_tasks :: "u64 \<Rightarrow> bool"
  parents :: parent_cache

text \<open>The tree after the call, and whether there is a node.\<close>

definition get_folder_tasks :: "u64 \<Rightarrow> bool \<Rightarrow> path_tasks \<Rightarrow> path_tasks \<times> bool" where
  "get_folder_tasks folderid create pt =
     (if key_find folderid (task_tree pt) then (pt, True)
      else if create
      then (pt\<lparr>task_tree := key_add folderid (task_tree pt), child_task_cnt := (child_task_cnt pt)(folderid := 0),
               own_tasks := (own_tasks pt)(folderid := False)\<rparr>, True)
      else (pt, False))"

definition free_folder_tasks :: "u64 \<Rightarrow> path_tasks \<Rightarrow> path_tasks" where
  "free_folder_tasks folderid pt = pt\<lparr>task_tree := ptree_get_del (task_tree pt) folderid\<rparr>"

definition count_child :: "u64 \<Rightarrow> path_tasks \<Rightarrow> path_tasks" where
  "count_child folderid pt = pt\<lparr>child_task_cnt := (child_task_cnt pt)(folderid := child_task_cnt pt folderid + 1)\<rparr>"

definition set_own :: "u64 \<Rightarrow> bool \<Rightarrow> path_tasks \<Rightarrow> path_tasks" where
  "set_own folderid b pt = pt\<lparr>own_tasks := (own_tasks pt)(folderid := b)\<rparr>"

text \<open>One subfolder less; the node must exist. The code of a completed task also asserts that the counter is not zero.\<close>

definition drop_child :: "bool \<Rightarrow> u64 \<Rightarrow> path_tasks \<Rightarrow> path_tasks option" where
  "drop_child asserted folderid pt =
     (if snd (get_folder_tasks folderid False pt) \<and> (asserted \<longrightarrow> child_task_cnt pt folderid \<noteq> 0)
      then Some (pt\<lparr>child_task_cnt := (child_task_cnt pt)(folderid := child_task_cnt pt folderid - 1)\<rparr>)
      else None)"

definition has_work :: "u64 \<Rightarrow> path_tasks \<Rightarrow> bool" where
  "has_work folderid pt \<longleftrightarrow> child_task_cnt pt folderid \<noteq> 0 \<or> own_tasks pt folderid"

type_synonym lookup = "u64 \<Rightarrow> parent_cache \<Rightarrow> parent_cache \<times> u64"

text \<open>
  The climb that counts a new node in its parent, creating the nodes of the parents as far as needed, and the climb
  that takes out a removed node, removing the parents that it leaves without work; the second also gives
  the last folder it looked at.
\<close>

partial_function (option) mark_parents :: "lookup \<Rightarrow> u64 \<Rightarrow> path_tasks \<Rightarrow> path_tasks option" where
  "mark_parents up folderid pt =
     (let (c, par) = up folderid (parents pt); pt = pt\<lparr>parents := c\<rparr>
      in if par = PSYNC_INVALID_FOLDERID then Some pt
         else let pt = count_child par (fst (get_folder_tasks par True pt))
              in if child_task_cnt pt par > 1 \<or> own_tasks pt par then Some pt else mark_parents up par pt)"

partial_function (option) clear_parents :: "lookup \<Rightarrow> bool \<Rightarrow> u64 \<Rightarrow> path_tasks \<Rightarrow> (path_tasks \<times> u64) option" where
  "clear_parents up asserted folderid pt =
     (let (c, par) = up folderid (parents pt); pt = pt\<lparr>parents := c\<rparr>
      in if par = PSYNC_INVALID_FOLDERID then Some (pt, par)
         else Option.bind (drop_child asserted par pt) (\<lambda>pt.
                if has_work par pt then Some (pt, par) else clear_parents up asserted par (free_folder_tasks par pt)))"

declare mark_parents.simps [code] clear_parents.simps [code]

subsection \<open>The folders of the drive\<close>

definition drive_up :: "(u64 \<Rightarrow> u64 option) \<Rightarrow> lookup" where
  "drive_up db = get_parent_folder PARENT_HASH_SIZE db"

text \<open>\<open>changed\<close>: whether the file system has new files or folders to upload in the folder.\<close>

definition ppathstatus_drive_fldr_changed :: "(u64 \<Rightarrow> u64 option) \<Rightarrow> u64 \<Rightarrow> bool \<Rightarrow> path_tasks \<Rightarrow> path_tasks option" where
  "ppathstatus_drive_fldr_changed db folderid changed pt =
     (let (pt, ft) = get_folder_tasks folderid changed pt
      in if \<not> changed \<and> (\<not> ft \<or> child_task_cnt pt folderid \<noteq> 0) \<or> changed \<and> has_work folderid pt
         then Some (if changed \<and> \<not> own_tasks pt folderid then set_own folderid True pt
                    else if \<not> changed \<and> ft \<and> own_tasks pt folderid then set_own folderid False pt
                    else pt)
         else if changed
         then mark_parents (drive_up db) folderid (set_own folderid True pt)
         else if \<not> own_tasks pt folderid then None
         else map_option fst (clear_parents (drive_up db) False folderid (free_folder_tasks folderid pt)))"

text \<open>A folder that has a node moves: the new parent counts it, then the old one drops it.\<close>

definition move_counts :: "lookup \<Rightarrow> u64 \<Rightarrow> path_tasks \<Rightarrow> path_tasks option" where
  "move_counts up new_parent_folderid pt =
     (let pt = count_child new_parent_folderid (fst (get_folder_tasks new_parent_folderid True pt))
      in if child_task_cnt pt new_parent_folderid = 1 \<and> \<not> own_tasks pt new_parent_folderid
         then mark_parents up new_parent_folderid pt else Some pt)"

definition drop_counts :: "lookup \<Rightarrow> u64 \<Rightarrow> path_tasks \<Rightarrow> path_tasks option" where
  "drop_counts up old_parent_folderid pt =
     Option.bind (drop_child False old_parent_folderid pt) (\<lambda>pt.
       if has_work old_parent_folderid pt then Some pt
       else map_option fst (clear_parents up False old_parent_folderid (free_folder_tasks old_parent_folderid pt)))"

definition folder_moved :: "(u64 \<Rightarrow> u64 option) \<Rightarrow> u64 \<Rightarrow> u64 \<Rightarrow> path_tasks \<Rightarrow> path_tasks option" where
  "folder_moved db old_parent_folderid new_parent_folderid pt =
     Option.bind (move_counts (drive_up db) new_parent_folderid pt) (drop_counts (drive_up db) old_parent_folderid)"

text \<open>The notice of the move; the second result says that \<open>folder_moved\<close> runs when the transaction commits.\<close>

definition ppathstatus_fldr_moved :: "u64 \<Rightarrow> u64 \<Rightarrow> u64 \<Rightarrow> path_tasks \<Rightarrow> path_tasks \<times> bool" where
  "ppathstatus_fldr_moved folderid old_parent_folderid new_parent_folderid pt =
     (if old_parent_folderid = new_parent_folderid then (pt, False)
      else let pt = pt\<lparr>parents := ppathstatus_del_from_parent_cache PARENT_HASH_SIZE folderid (parents pt)\<rparr>
           in (pt, snd (get_folder_tasks folderid False pt)))"

text \<open>After the climb \<open>folderid\<close> is no longer the deleted folder.\<close>

definition ppathstatus_fldr_deleted :: "(u64 \<Rightarrow> u64 option) \<Rightarrow> u64 \<Rightarrow> path_tasks \<Rightarrow> path_tasks option" where
  "ppathstatus_fldr_deleted db folderid pt =
     map_option (\<lambda>(pt, folderid). pt\<lparr>parents := ppathstatus_del_from_parent_cache PARENT_HASH_SIZE folderid (parents pt)\<rparr>)
       (if snd (get_folder_tasks folderid False pt)
        then clear_parents (drive_up db) False folderid (free_folder_tasks folderid pt)
        else Some (pt, folderid))"

subsection \<open>The folders of the syncs\<close>

text \<open>
  \<open>sync_data\<close>: the state of every sync that has had tasks. The tree of syncs is a map here; its search is the one
  of the folders.
\<close>

type_synonym sync_data = "u32 \<Rightarrow> path_tasks option"

definition sync_up :: "(u64 \<Rightarrow> u64 option) \<Rightarrow> lookup" where
  "sync_up db = get_parent_folder SYNC_PARENT_HASH_SIZE db"

definition get_sync_data :: "u32 \<Rightarrow> sync_data \<Rightarrow> path_tasks" where
  "get_sync_data syncid sd = (case sd syncid of Some pt \<Rightarrow> pt
     | None \<Rightarrow> \<lparr>task_tree = Null, child_task_cnt = (\<lambda>_. 0), own_tasks = (\<lambda>_. False), parents = parent_cache_init SYNC_PARENT_CACHE_SIZE\<rparr>)"

definition put_sync_data :: "u32 \<Rightarrow> sync_data \<Rightarrow> path_tasks option \<Rightarrow> sync_data option" where
  "put_sync_data syncid sd = map_option (\<lambda>pt. sd(syncid \<mapsto> pt))"

definition ppath_syncfldr_task_added_locked :: "(u64 \<Rightarrow> u64 option) \<Rightarrow> u32 \<Rightarrow> u64 \<Rightarrow> sync_data \<Rightarrow> sync_data option" where
  "ppath_syncfldr_task_added_locked db syncid localfolderid sd =
     (let pt = fst (get_folder_tasks localfolderid True (get_sync_data syncid sd)); pt' = set_own localfolderid True pt
      in put_sync_data syncid sd (if has_work localfolderid pt then Some pt' else mark_parents (sync_up db) localfolderid pt'))"

text \<open>\<open>busy\<close> is the answer of \<open>local_folder_has_tasks\<close>: the database still has a transfer of the folder.\<close>

definition ppathstatus_syncfldr_task_completed :: "(u64 \<Rightarrow> u64 option) \<Rightarrow> bool \<Rightarrow> u32 \<Rightarrow> u64 \<Rightarrow> sync_data \<Rightarrow> sync_data option" where
  "ppathstatus_syncfldr_task_completed db busy syncid localfolderid sd =
     (if busy then Some sd
      else case sd syncid of
             None \<Rightarrow> Some sd
           | Some pt \<Rightarrow>
               if \<not> snd (get_folder_tasks localfolderid False pt) then Some sd
               else let pt = set_own localfolderid False pt
                    in put_sync_data syncid sd
                         (if has_work localfolderid pt then Some pt
                          else map_option fst (clear_parents (sync_up db) True localfolderid (free_folder_tasks localfolderid pt))))"

definition ppathstatus_syncfldr_delete :: "u32 \<Rightarrow> sync_data \<Rightarrow> sync_data" where
  "ppathstatus_syncfldr_delete syncid sd = sd(syncid := None)"

definition sync_folder_moved :: "(u64 \<Rightarrow> u64 option) \<Rightarrow> u32 \<Rightarrow> u64 \<Rightarrow> u32 \<Rightarrow> u64 \<Rightarrow> sync_data \<Rightarrow> sync_data option" where
  "sync_folder_moved db old_syncid old_parent_folderid new_syncid new_parent_folderid sd =
     Option.bind (put_sync_data new_syncid sd (move_counts (sync_up db) new_parent_folderid (get_sync_data new_syncid sd))) (\<lambda>sd.
       case sd old_syncid of
         None \<Rightarrow> None
       | Some pt \<Rightarrow> put_sync_data old_syncid sd (drop_counts (sync_up db) old_parent_folderid pt))"

definition ppathstatus_syncfldr_deleted :: "(u64 \<Rightarrow> u64 option) \<Rightarrow> u32 \<Rightarrow> u64 \<Rightarrow> sync_data \<Rightarrow> sync_data option" where
  "ppathstatus_syncfldr_deleted db syncid folderid sd =
     (case sd syncid of
        None \<Rightarrow> Some sd
      | Some pt \<Rightarrow>
          put_sync_data syncid sd
            (map_option (\<lambda>(pt, folderid). pt\<lparr>parents := ppathstatus_del_from_parent_cache SYNC_PARENT_HASH_SIZE folderid (parents pt)\<rparr>)
              (if snd (get_folder_tasks folderid False pt)
               then clear_parents (sync_up db) False folderid (free_folder_tasks folderid pt)
               else Some (pt, folderid))))"

subsection \<open>The status of a folder\<close>

definition PSYNC_PATH_STATUS_IN_SYNC :: nat where "PSYNC_PATH_STATUS_IN_SYNC = 0"
definition PSYNC_PATH_STATUS_IN_PROG :: nat where "PSYNC_PATH_STATUS_IN_PROG = 1"
definition PSYNC_PATH_STATUS_PAUSED :: nat where "PSYNC_PATH_STATUS_PAUSED = 2"

text \<open>\<open>sts\<close>: the status variables of the client.\<close>

definition rdunlock_return_in_prog :: "u32 list \<Rightarrow> nat" where
  "rdunlock_return_in_prog sts =
     (if pstatus_ok_status_arr sts
           [PSTATUS_COMBINE PSTATUS_TYPE_RUN PSTATUS_RUN_RUN,
            PSTATUS_COMBINE PSTATUS_TYPE_ONLINE (PSTATUS_ONLINE_CONNECTING OR PSTATUS_ONLINE_SCANNING OR PSTATUS_ONLINE_ONLINE),
            PSTATUS_COMBINE PSTATUS_TYPE_ACCFULL PSTATUS_ACCFULL_QUOTAOK,
            PSTATUS_COMBINE PSTATUS_TYPE_DISKFULL PSTATUS_DISKFULL_OK]
      then PSYNC_PATH_STATUS_IN_PROG else PSYNC_PATH_STATUS_PAUSED)"

definition psync_path_status_drive_folder_locked :: "u32 list \<Rightarrow> u64 \<Rightarrow> path_tasks \<Rightarrow> nat" where
  "psync_path_status_drive_folder_locked sts folderid pt =
     (if snd (get_folder_tasks folderid False pt) then rdunlock_return_in_prog sts else PSYNC_PATH_STATUS_IN_SYNC)"

definition psync_path_status_sync_folder_locked :: "u32 list \<Rightarrow> u32 \<Rightarrow> u64 \<Rightarrow> sync_data \<Rightarrow> nat" where
  "psync_path_status_sync_folder_locked sts syncid folderid sd =
     (case sd syncid of
        Some pt \<Rightarrow> if snd (get_folder_tasks folderid False pt) then rdunlock_return_in_prog sts else PSYNC_PATH_STATUS_IN_SYNC
      | None \<Rightarrow> PSYNC_PATH_STATUS_IN_SYNC)"

subsection \<open>What the counters mean\<close>

definition keys :: "path_tasks \<Rightarrow> u64 set" where
  "keys pt = set (inorder (task_tree pt))"

text \<open>No folder has so many subfolders that a counter wraps.\<close>

definition few :: "(u64 \<times> u64) set \<Rightarrow> bool" where
  "few R \<longleftrightarrow> finite R \<and> (\<forall>g. card {c. (c, g) \<in> R} < 2 ^ 32)"

text \<open>The tree counts the pairs \<open>R\<close> of folder and parent, for the set \<open>Own\<close> of folders with tasks of their own.\<close>

definition counted :: "u64 set \<Rightarrow> (u64 \<times> u64) set \<Rightarrow> path_tasks \<Rightarrow> bool" where
  "counted Own R pt \<longleftrightarrow> keys_ok (task_tree pt) \<and> few R \<and>
     (\<forall>g \<in> keys pt. unat (child_task_cnt pt g) = card {c. (c, g) \<in> R} \<and> (own_tasks pt g \<longleftrightarrow> g \<in> Own)) \<and>
     (\<forall>c g. (c, g) \<in> R \<longrightarrow> g \<in> keys pt) \<and> (\<forall>g \<in> keys pt. g \<in> Own \<or> (\<exists>c. (c, g) \<in> R)) \<and> Own \<subseteq> keys pt"

definition edges :: "(u64 \<times> u64) set \<Rightarrow> u64 set \<Rightarrow> (u64 \<times> u64) set" where
  "edges Q E = {(c, g). (c, g) \<in> Q \<and> c \<in> E}"

lemma keys_get [simp]:
  "keys_ok (task_tree pt) \<Longrightarrow> keys (fst (get_folder_tasks f True pt)) = insert f (keys pt)"
  using kt.add [of "task_tree pt" f] kt.find_key [of "task_tree pt" f] by (auto simp: get_folder_tasks_def keys_def)

lemma found_key: "keys_ok (task_tree pt) \<Longrightarrow> snd (get_folder_tasks f False pt) \<longleftrightarrow> f \<in> keys pt"
  using kt.find_key [of "task_tree pt" f] by (simp add: get_folder_tasks_def keys_def)

lemma keys_free [simp]: "keys_ok (task_tree pt) \<Longrightarrow> keys (free_folder_tasks f pt) = keys pt - {f}"
  using kt.del [of "task_tree pt" f] by (simp add: free_folder_tasks_def keys_def)

lemma finite_children: "finite R \<Longrightarrow> finite {c. (c, g) \<in> R}"
  by (rule finite_subset [of _ "fst ` R"]) (auto intro: image_eqI [of _ fst "(_, g)"])

lemma card_insert_pair: "finite R \<Longrightarrow> (f, g) \<notin> R \<Longrightarrow> card {c. (c, g) \<in> insert (f, g) R} = card {c. (c, g) \<in> R} + 1"
proof -
  assume R: "finite R" "(f, g) \<notin> R"
  have "{c. (c, g) \<in> insert (f, g) R} = insert f {c. (c, g) \<in> R}" by auto
  then show ?thesis using R finite_children [OF R(1)] by simp
qed

lemma few_subset: "few R \<Longrightarrow> S \<subseteq> R \<Longrightarrow> few S"
proof -
  assume R: "few R" "S \<subseteq> R"
  have "card {c. (c, g) \<in> S} \<le> card {c. (c, g) \<in> R}" for g
    using R by (intro card_mono finite_children) (auto simp: few_def)
  then show ?thesis using R finite_subset [OF R(2)] unfolding few_def by (meson le_less_trans)
qed

lemma countedD:
  assumes "counted Own R pt"
  shows "keys_ok (task_tree pt)" "few R" "finite R" "g \<in> keys pt \<Longrightarrow> unat (child_task_cnt pt g) = card {c. (c, g) \<in> R}"
    "g \<in> keys pt \<Longrightarrow> own_tasks pt g \<longleftrightarrow> g \<in> Own" "(c, g) \<in> R \<Longrightarrow> g \<in> keys pt"
    "g \<in> keys pt \<Longrightarrow> g \<in> Own \<or> (\<exists>c. (c, g) \<in> R)" "g \<in> Own \<Longrightarrow> g \<in> keys pt"
  using assms unfolding counted_def few_def by blast+

lemma unat_zero_iff: "(w :: u32) = 0 \<longleftrightarrow> unat w = 0"
  by (simp add: unat_eq_0)

lemma get_known [simp]: "f \<in> keys pt \<Longrightarrow> keys_ok (task_tree pt) \<Longrightarrow> get_folder_tasks f b pt = (pt, True)"
  using kt.find_key [of "task_tree pt" f] by (simp add: get_folder_tasks_def keys_def)

lemma counted_work:
  assumes "counted Own R pt" "g \<in> keys pt"
  shows "child_task_cnt pt g = 0 \<longleftrightarrow> (\<forall>c. (c, g) \<notin> R)" "has_work g pt" 
proof -
  show z: "child_task_cnt pt g = 0 \<longleftrightarrow> (\<forall>c. (c, g) \<notin> R)"
    using countedD(4) [OF assms] finite_children [OF countedD(3) [OF assms(1)], of g] by (simp add: unat_zero_iff)
  then show "has_work g pt" using countedD(5,7) [OF assms(1)] assms(2) by (auto simp: has_work_def)
qed

lemma counted_get:
  assumes "counted Own R pt" "f \<notin> keys pt"
  defines "pt' \<equiv> fst (get_folder_tasks f True pt)"
  shows "keys pt' = insert f (keys pt)" "keys_ok (task_tree pt')" "parents pt' = parents pt"
    "x \<in> insert f (keys pt) \<Longrightarrow> unat (child_task_cnt pt' x) = card {c. (c, x) \<in> R} \<and> (own_tasks pt' x \<longleftrightarrow> x \<in> Own)"
proof -
  note c = countedD [OF assms(1)]
  have e: "pt' = pt\<lparr>task_tree := key_add f (task_tree pt), child_task_cnt := (child_task_cnt pt)(f := 0), own_tasks := (own_tasks pt)(f := False)\<rparr>"
    using kt.find_key [OF c(1), of f] assms(2) by (simp add: get_folder_tasks_def keys_def pt'_def)
  show "keys pt' = insert f (keys pt)" "keys_ok (task_tree pt')" "parents pt' = parents pt"
    using kt.add [OF c(1), of f] by (auto simp: e keys_def)
  have "{c. (c, f) \<in> R} = {}" "f \<notin> Own" using c(6,8) assms(2) by blast+
  then show "x \<in> insert f (keys pt) \<Longrightarrow> unat (child_task_cnt pt' x) = card {c. (c, x) \<in> R} \<and> (own_tasks pt' x \<longleftrightarrow> x \<in> Own)"
    using c(4,5) [of x] assms(2) by (cases "x = f") (auto simp: e)
qed

text \<open>One more pair, whose parent may be new in the tree.\<close>

lemma count_pair:
  assumes "counted Own R pt" "few (insert (f, g) R)" "(f, g) \<notin> R"
  defines "s \<equiv> count_child g (fst (get_folder_tasks g True pt))"
  shows "counted Own (insert (f, g) R) s" "keys s = insert g (keys pt)" "parents s = parents pt"
    "child_task_cnt s g > 1 \<or> own_tasks s g \<longleftrightarrow> g \<in> keys pt" "child_task_cnt s g = 1 \<and> \<not> own_tasks s g \<longleftrightarrow> g \<notin> keys pt"
proof -
  let ?s = "fst (get_folder_tasks g True pt)"
  note c = countedD [OF assms(1)]
  have k: "keys ?s = insert g (keys pt)" "keys_ok (task_tree ?s)" "parents ?s = parents pt"
    "x \<in> insert g (keys pt) \<Longrightarrow> unat (child_task_cnt ?s x) = card {c. (c, x) \<in> R} \<and> (own_tasks ?s x \<longleftrightarrow> x \<in> Own)" for x
    using counted_get [OF assms(1), of g] c(1,4,5) by (cases "g \<in> keys pt"; auto)+
  have s: "keys s = keys ?s" "task_tree s = task_tree ?s" "parents s = parents ?s" "own_tasks s = own_tasks ?s"
    "child_task_cnt s = (child_task_cnt ?s)(g := child_task_cnt ?s g + 1)"
    by (simp_all add: s_def count_child_def keys_def)
  have card: "card {c. (c, g) \<in> insert (f, g) R} = card {c. (c, g) \<in> R} + 1" by (rule card_insert_pair [OF c(3) assms(3)])
  have "card {c. (c, g) \<in> insert (f, g) R} < 2 ^ 32" using assms(2) unfolding few_def by blast
  then have g: "unat (child_task_cnt s g) = card {c. (c, g) \<in> R} + 1"
    using k(4) [of g] card unfolding s by (simp add: unat_add_lem [THEN iffD1] fun_upd_same)
  have "{c. (c, x) \<in> insert (f, g) R} = {c. (c, x) \<in> R}" if "x \<noteq> g" for x using that by auto
  then have cnt: "unat (child_task_cnt s x) = card {c. (c, x) \<in> insert (f, g) R} \<and> (own_tasks s x \<longleftrightarrow> x \<in> Own)" if "x \<in> keys s" for x
    using that k card g by (cases "x = g") (simp_all add: s)
  have "x \<in> keys s" if "(y, x) \<in> insert (f, g) R" for x y using that c(6) k(1) s(1) by blast
  moreover have "x \<in> Own \<or> (\<exists>y. (y, x) \<in> insert (f, g) R)" if "x \<in> keys s" for x using that c(7) k(1) s(1) by blast
  moreover have "Own \<subseteq> keys s" using c(8) k(1) s(1) by blast
  moreover have "keys_ok (task_tree s)" using k(2) s(2) by simp
  ultimately show "counted Own (insert (f, g) R) s"
    unfolding counted_def using cnt assms(2) by blast
  show "keys s = insert g (keys pt)" "parents s = parents pt" using k s by simp_all
  have iff: "g \<in> keys pt \<longleftrightarrow> card {c. (c, g) \<in> R} \<noteq> 0 \<or> g \<in> Own"
    using c(6) [of _ g] c(7,8) [of g] finite_children [OF c(3), of g] by (auto simp: card_eq_0_iff)
  show "child_task_cnt s g > 1 \<or> own_tasks s g \<longleftrightarrow> g \<in> keys pt" "child_task_cnt s g = 1 \<and> \<not> own_tasks s g \<longleftrightarrow> g \<notin> keys pt"
    unfolding iff using g k(4) [of g] s(4) by (simp_all add: word_less_nat_alt word_unat_eq_iff card_gt_0_iff finite_children [OF c(3)])
qed

text \<open>One pair less; its parent is in the tree, and stays in it only if it still has work.\<close>

lemma drop_pair:
  assumes "counted Own R pt" "(f, g) \<in> R"
  defines "R' \<equiv> R - {(f, g)}"
  obtains pt' where "drop_child b g pt = Some pt'" "parents pt' = parents pt"
    "has_work g pt' \<Longrightarrow> counted Own R' pt' \<and> keys pt' = keys pt"
    "\<not> has_work g pt' \<Longrightarrow> counted Own R' (free_folder_tasks g pt') \<and> keys (free_folder_tasks g pt') = keys pt - {g}"
proof -
  note c = countedD [OF assms(1)]
  have g: "g \<in> keys pt" using c(6) assms(2) by blast
  have R: "insert (f, g) R' = R" "(f, g) \<notin> R'" "finite R'" using assms(2) c(3) by (auto simp: R'_def)
  have few: "few R'" using few_subset [OF c(2)] by (auto simp: R'_def)
  have card: "card {c. (c, g) \<in> R} = card {c. (c, g) \<in> R'} + 1" using card_insert_pair [OF R(3,2)] unfolding R(1) .
  define pt' where "pt' = pt\<lparr>child_task_cnt := (child_task_cnt pt)(g := child_task_cnt pt g - 1)\<rparr>"
  have g': "unat (child_task_cnt pt g) = card {c. (c, g) \<in> R'} + 1" using c(4) [OF g] card by simp
  then have nz: "child_task_cnt pt g \<noteq> 0" by auto
  have d: "drop_child b g pt = Some pt'" using g c(1) nz by (simp add: drop_child_def pt'_def)
  have e: "keys pt' = keys pt" "task_tree pt' = task_tree pt" "parents pt' = parents pt" "own_tasks pt' = own_tasks pt"
    "child_task_cnt pt' = (child_task_cnt pt)(g := child_task_cnt pt g - 1)" by (simp_all add: pt'_def keys_def)
  have same: "{c. (c, x) \<in> R'} = {c. (c, x) \<in> R}" if "x \<noteq> g" for x using that by (auto simp: R'_def)
  have cnt: "unat (child_task_cnt pt' x) = card {c. (c, x) \<in> R'} \<and> (own_tasks pt' x \<longleftrightarrow> x \<in> Own)" if "x \<in> keys pt" for x
    using that c(4,5) [of x] same [of x] g' unat_minus_one [OF nz] by (cases "x = g") (simp_all add: e)
  have work: "has_work g pt' \<longleftrightarrow> g \<in> Own \<or> (\<exists>c. (c, g) \<in> R')"
    using cnt [OF g] finite_children [OF R(3), of g] by (auto simp: has_work_def unat_zero_iff card_eq_0_iff)
  have into: "x \<in> keys pt" if "(c, x) \<in> R'" for c x using that c(6) by (auto simp: R'_def)
  have others: "x \<in> Own \<or> (\<exists>c. (c, x) \<in> R')" if "x \<in> keys pt" "x \<noteq> g" for x using c(7) [OF that(1)] that same [of x] by blast
  have 1: "counted Own R' pt' \<and> keys pt' = keys pt" if "has_work g pt'"
  proof -
    have "\<forall>x \<in> keys pt. x \<in> Own \<or> (\<exists>c. (c, x) \<in> R')" using others that work by blast
    then show ?thesis using c(1,8) few cnt into unfolding counted_def e by blast
  qed
  have 2: "counted Own R' (free_folder_tasks g pt') \<and> keys (free_folder_tasks g pt') = keys pt - {g}" if "\<not> has_work g pt'"
  proof -
    have k: "keys_ok (task_tree pt')" using c(1) e by simp
    have f: "keys (free_folder_tasks g pt') = keys pt - {g}" "keys_ok (task_tree (free_folder_tasks g pt'))"
      "child_task_cnt (free_folder_tasks g pt') = child_task_cnt pt'" "own_tasks (free_folder_tasks g pt') = own_tasks pt'"
      using k kt.del [OF k, of g] e(1) by (auto simp: free_folder_tasks_def keys_def)
    have n: "g \<notin> Own" "(c, g) \<notin> R'" for c using that work by blast+
    have "\<forall>x \<in> keys pt - {g}. x \<in> Own \<or> (\<exists>c. (c, x) \<in> R')" using others by blast
    moreover have "\<forall>c x. (c, x) \<in> R' \<longrightarrow> x \<in> keys pt - {g}" using into n by blast
    moreover have "Own \<subseteq> keys pt - {g}" using c(8) n by blast
    ultimately show ?thesis
      unfolding counted_def f using cnt f(2) few by blast
  qed
  show ?thesis using that [OF d e(3)] 1 2 by blast
qed

subsection \<open>The climbs\<close>

text \<open>The climbs ask for parents; \<open>P\<close> is what they are told, as long as the cache is \<open>good\<close>.\<close>

definition parent_pairs :: "(u64 \<Rightarrow> u64) \<Rightarrow> (u64 \<times> u64) set" where
  "parent_pairs P = {(c, P c) | c. P c \<noteq> PSYNC_INVALID_FOLDERID}"

text \<open>
  The folders are a tree: every parent is nearer to the root, at a depth \<open>r\<close>, and no folder has \<open>2^32\<close> subfolders.
\<close>

definition folder_tree :: "(u64 \<Rightarrow> u64) \<Rightarrow> (u64 \<Rightarrow> nat) \<Rightarrow> bool" where
  "folder_tree P r \<longleftrightarrow> few (parent_pairs P) \<and> (\<forall>x. P x \<noteq> PSYNC_INVALID_FOLDERID \<longrightarrow> r (P x) < r x)"

lemma lower: "folder_tree P r \<Longrightarrow> P x \<noteq> PSYNC_INVALID_FOLDERID \<Longrightarrow> r (P x) < r x"
  by (simp add: folder_tree_def)

locale parent_lookup =
  fixes up :: lookup and P :: "u64 \<Rightarrow> u64" and good :: "parent_cache \<Rightarrow> bool"
  assumes lookup: "good c \<Longrightarrow> good (fst (up x c)) \<and> snd (up x c) = P x"
begin

lemma look: "good c \<Longrightarrow> \<exists>c'. up x c = (c', P x) \<and> good c'"
  using lookup [of c x] by (cases "up x c") auto

text \<open>Above \<open>f\<close>, the pairs \<open>Q\<close> are what the look-ups say.\<close>

definition above :: "(u64 \<times> u64) set \<Rightarrow> u64 \<Rightarrow> bool" where
  "above Q f \<longleftrightarrow> (\<forall>x g. (f, x) \<in> (parent_pairs P)\<^sup>* \<longrightarrow> ((x, g) \<in> Q \<longleftrightarrow> (x, g) \<in> parent_pairs P))"

lemma aboveD: "above Q f \<Longrightarrow> (f, g) \<in> Q \<longleftrightarrow> P f \<noteq> PSYNC_INVALID_FOLDERID \<and> g = P f"
  unfolding above_def by (auto simp: parent_pairs_def)

lemma above_up: "above Q f \<Longrightarrow> P f \<noteq> PSYNC_INVALID_FOLDERID \<Longrightarrow> above Q (P f)"
  unfolding above_def by (auto simp: parent_pairs_def intro: converse_rtrancl_into_rtrancl)

lemma mark_parents_correct:
  assumes P: "folder_tree P r"
    and "good (parents pt)" "counted Own (edges Q (keys pt - {f})) pt" "f \<in> keys pt" "few Q" "above Q f"
  shows "\<exists>pt'. mark_parents up f pt = Some pt' \<and> good (parents pt') \<and> counted Own (edges Q (keys pt')) pt' \<and> keys pt \<subseteq> keys pt'"
  using assms(2-)
proof (induction "r f" arbitrary: f pt rule: less_induct)
  case less
  note Q = aboveD [OF less.prems(5)]
  obtain c where c: "up f (parents pt) = (c, P f)" "good c" using look [OF less.prems(1)] by blast
  let ?pt = "pt\<lparr>parents := c\<rparr>" and ?E = "edges Q (keys pt - {f})"
  have k: "keys ?pt = keys pt" by (simp add: keys_def)
  have cnt: "counted Own ?E ?pt" using less.prems(2) unfolding counted_def k by simp
  show ?case
  proof (cases "P f = PSYNC_INVALID_FOLDERID")
    case True
    then have "edges Q (keys pt) = ?E" using Q by (auto simp: edges_def)
    with True cnt c k show ?thesis by (subst mark_parents.simps) simp
  next
    case False
    let ?s = "count_child (P f) (fst (get_folder_tasks (P f) True ?pt))"
    have E: "insert (f, P f) ?E = edges Q (keys pt)" using Q False less.prems(3) by (auto simp: edges_def)
    have "few (insert (f, P f) ?E)" unfolding E using less.prems(4) by (rule few_subset) (auto simp: edges_def)
    note p = count_pair [OF cnt this, unfolded k E]
    have n: "(f, P f) \<notin> ?E" by (simp add: edges_def)
    note p = p [OF n]
    have step: "mark_parents up f pt = (if P f \<in> keys pt then Some ?s else mark_parents up (P f) ?s)"
      using False p(4) by (subst mark_parents.simps) (simp add: c Let_def)
    show ?thesis
    proof (cases "P f \<in> keys pt")
      case True
      then show ?thesis using step p c(2) by (simp add: insert_absorb)
    next
      case new: False
      have "edges Q (keys pt) = edges Q (keys ?s - {P f})" using p(2) new by simp
      then obtain pt' where "mark_parents up (P f) ?s = Some pt'" "good (parents pt')" "counted Own (edges Q (keys pt')) pt'" "keys ?s \<subseteq> keys pt'"
        using less.hyps [OF lower [OF P False], of ?s] p c(2) less.prems(4) above_up [OF less.prems(5) False] by auto
      then show ?thesis using step new p(2) by auto
    qed
  qed
qed

lemma clear_parents_correct:
  assumes P: "folder_tree P r"
    and "good (parents pt)" "counted Own (edges (parent_pairs P) (insert f (keys pt))) pt" "f \<notin> keys pt"
  shows "\<exists>pt' g. clear_parents up b f pt = Some (pt', g) \<and> good (parents pt') \<and> counted Own (edges (parent_pairs P) (keys pt')) pt'"
  using assms(2-)
proof (induction "r f" arbitrary: f pt rule: less_induct)
  case less
  let ?Q = "parent_pairs P"
  have Q: "(f, g) \<in> ?Q \<longleftrightarrow> P f \<noteq> PSYNC_INVALID_FOLDERID \<and> g = P f" for g by (auto simp: parent_pairs_def)
  obtain c where c: "up f (parents pt) = (c, P f)" "good c" using look [OF less.prems(1)] by blast
  let ?pt = "pt\<lparr>parents := c\<rparr>" and ?E = "edges ?Q (insert f (keys pt))"
  have k: "keys ?pt = keys pt" by (simp add: keys_def)
  have cnt: "counted Own ?E ?pt" using less.prems(2) unfolding counted_def k by simp
  show ?case
  proof (cases "P f = PSYNC_INVALID_FOLDERID")
    case True
    then have "edges ?Q (keys pt) = ?E" using Q by (auto simp: edges_def)
    with True cnt c k show ?thesis by (subst clear_parents.simps) simp
  next
    case False
    have E: "?E - {(f, P f)} = edges ?Q (keys pt)" using Q less.prems(3) by (auto simp: edges_def)
    have "(f, P f) \<in> ?E" using Q False by (simp add: edges_def)
    from drop_pair [OF cnt this, of b, unfolded k E]
    obtain s where s: "drop_child b (P f) ?pt = Some s" "parents s = c"
      "has_work (P f) s \<Longrightarrow> counted Own (edges ?Q (keys pt)) s \<and> keys s = keys pt"
      "\<not> has_work (P f) s \<Longrightarrow> counted Own (edges ?Q (keys pt)) (free_folder_tasks (P f) s) \<and> keys (free_folder_tasks (P f) s) = keys pt - {P f}"
      by auto
    have step: "clear_parents up b f pt = (if has_work (P f) s then Some (s, P f) else clear_parents up b (P f) (free_folder_tasks (P f) s))"
      using False s(1) by (subst clear_parents.simps) (simp add: c Let_def)
    show ?thesis
    proof (cases "has_work (P f) s")
      case True
      then show ?thesis using step s c(2) by simp
    next
      case False': False
      let ?s = "free_folder_tasks (P f) s"
      have "P f \<in> keys pt" using countedD(6) [OF cnt \<open>(f, P f) \<in> ?E\<close>] k by simp
      then have "edges ?Q (keys pt) = edges ?Q (insert (P f) (keys ?s))" using s(4) [OF False'] by (simp add: insert_absorb)
      then obtain pt' g where "clear_parents up b (P f) ?s = Some (pt', g)" "good (parents pt')" "counted Own (edges ?Q (keys pt')) pt'"
        using less.hyps [OF lower [OF P False], of ?s] s(2) s(4) [OF False'] c(2) by (auto simp: free_folder_tasks_def)
      then show ?thesis using step False' by auto
    qed
  qed
qed

text \<open>The tree is in order: every folder of the tree is counted in its parent, in the pairs \<open>Q\<close>.\<close>

definition tracks :: "(u64 \<times> u64) set \<Rightarrow> u64 set \<Rightarrow> path_tasks \<Rightarrow> bool" where
  "tracks Q Own pt \<longleftrightarrow> good (parents pt) \<and> counted Own (edges Q (keys pt)) pt"

lemma added_correct:
  fixes f :: u64
  assumes "tracks (parent_pairs P) Own pt" "folder_tree P r"
  defines "s \<equiv> fst (get_folder_tasks f True pt)"
  shows "\<exists>pt'. (if has_work f s then Some (set_own f True s) else mark_parents up f (set_own f True s)) = Some pt' \<and>
    tracks (parent_pairs P) (insert f Own) pt'"
proof -
  let ?Q = "parent_pairs P"
  have g: "good (parents pt)" and c: "counted Own (edges ?Q (keys pt)) pt" using assms(1) by (auto simp: tracks_def)
  note d = countedD [OF c]
  have own: "counted (insert f Own) (edges ?Q (insert f (keys pt) - (if f \<in> keys pt then {} else {f}))) (set_own f True s)"
    "keys (set_own f True s) = insert f (keys pt)" "parents (set_own f True s) = parents pt"
  proof -
    have E: "edges ?Q (insert f (keys pt) - (if f \<in> keys pt then {} else {f})) = edges ?Q (keys pt)" by (auto simp: insert_absorb)
    have k: "keys s = insert f (keys pt)" "keys_ok (task_tree s)" "parents s = parents pt"
      "x \<in> insert f (keys pt) \<Longrightarrow> unat (child_task_cnt s x) = card {y. (y, x) \<in> edges ?Q (keys pt)} \<and> (own_tasks s x \<longleftrightarrow> x \<in> Own)" for x
      using counted_get [OF c, of f] d(1,4,5) unfolding s_def by (cases "f \<in> keys pt"; auto)+
    show "counted (insert f Own) (edges ?Q (insert f (keys pt) - (if f \<in> keys pt then {} else {f}))) (set_own f True s)"
      unfolding E counted_def using k d(2,6,7,8) by (auto simp: set_own_def keys_def)
    show "keys (set_own f True s) = insert f (keys pt)" "parents (set_own f True s) = parents pt"
      using k by (simp_all add: set_own_def keys_def)
  qed
  show ?thesis
  proof (cases "f \<in> keys pt")
    case True
    then have "s = pt" using d(1) by (simp add: s_def)
    then have "has_work f s" using counted_work(2) [OF c True] by simp
    then show ?thesis using own g True by (simp add: tracks_def insert_absorb)
  next
    case False
    have "child_task_cnt s f = 0" "\<not> own_tasks s f"
      using False kt.find_key [OF d(1), of f] by (simp_all add: s_def get_folder_tasks_def keys_def)
    then have "\<not> has_work f s" by (simp add: has_work_def)
    moreover have "\<exists>pt'. mark_parents up f (set_own f True s) = Some pt' \<and> good (parents pt') \<and>
        counted (insert f Own) (edges ?Q (keys pt')) pt' \<and> keys (set_own f True s) \<subseteq> keys pt'"
      by (rule mark_parents_correct [OF assms(2)]) (use own False g assms(2) in \<open>auto simp: folder_tree_def above_def\<close>)
    ultimately show ?thesis by (auto simp: tracks_def)
  qed
qed

text \<open>A folder that loses its own tasks and has no subfolder with work goes, and is dropped from its parents.\<close>

lemma gone_correct:
  assumes "tracks (parent_pairs P) Own pt" "f \<in> keys pt" "\<And>c. (c, f) \<notin> edges (parent_pairs P) (keys pt)"
    and P: "folder_tree P r"
  shows "\<exists>pt' g. clear_parents up b f (free_folder_tasks f (set_own f o' pt)) = Some (pt', g) \<and> tracks (parent_pairs P) (Own - {f}) pt'"
proof -
  let ?s = "free_folder_tasks f (set_own f o' pt)" and ?Q = "parent_pairs P"
  have g: "good (parents pt)" and c: "counted Own (edges ?Q (keys pt)) pt" using assms(1) by (auto simp: tracks_def)
  note d = countedD [OF c]
  have k: "keys ?s = keys pt - {f}" "keys_ok (task_tree ?s)" "child_task_cnt ?s = child_task_cnt pt"
    "x \<noteq> f \<Longrightarrow> own_tasks ?s x = own_tasks pt x" "parents ?s = parents pt" for x
    using kt.del [OF d(1), of f] by (auto simp: free_folder_tasks_def set_own_def keys_def)
  have "counted (Own - {f}) (edges ?Q (keys pt)) ?s"
    unfolding counted_def k(1,3) using d(2,4,5,6,7,8) assms(3) k(2,4) by blast
  then have "counted (Own - {f}) (edges ?Q (insert f (keys ?s))) ?s" using assms(2) k(1) by (simp add: insert_absorb)
  from clear_parents_correct [OF P _ this, of b] k g show ?thesis by (auto simp: tracks_def)
qed

lemma set_own_False:
  assumes "tracks (parent_pairs P) Own pt" "f \<in> keys pt"
  shows "has_work f (set_own f False pt) \<longleftrightarrow> (\<exists>c. (c, f) \<in> edges (parent_pairs P) (keys pt))"
    "has_work f (set_own f False pt) \<Longrightarrow> tracks (parent_pairs P) (Own - {f}) (set_own f False pt)"
proof -
  have g: "good (parents pt)" and c: "counted Own (edges (parent_pairs P) (keys pt)) pt" using assms(1) by (auto simp: tracks_def)
  note d = countedD [OF c]
  show w: "has_work f (set_own f False pt) \<longleftrightarrow> (\<exists>c. (c, f) \<in> edges (parent_pairs P) (keys pt))"
    using counted_work(1) [OF c assms(2)] by (simp add: has_work_def set_own_def)
  have k: "keys (set_own f False pt) = keys pt" "parents (set_own f False pt) = parents pt" by (simp_all add: set_own_def keys_def)
  show "tracks (parent_pairs P) (Own - {f}) (set_own f False pt)" if "has_work f (set_own f False pt)"
  proof -
    have o: "task_tree (set_own f False pt) = task_tree pt" "child_task_cnt (set_own f False pt) = child_task_cnt pt"
      "own_tasks (set_own f False pt) x \<longleftrightarrow> own_tasks pt x \<and> x \<noteq> f" for x by (simp_all add: set_own_def)
    have "x \<in> Own - {f} \<or> (\<exists>c. (c, x) \<in> edges (parent_pairs P) (keys pt))" if "x \<in> keys pt" for x
      using d(7) [OF that] w \<open>has_work f (set_own f False pt)\<close> by blast
    then show ?thesis unfolding tracks_def k counted_def o using g d(1,2,4,5,6,8) by blast
  qed
qed

text \<open>A folder \<open>f\<close> has moved from \<open>old\<close> to its parent.\<close>

lemma moved_correct:
  assumes pt: "good (parents pt)" "counted Own (edges (insert (f, old) (parent_pairs P - {(f, P f)})) (keys pt)) pt"
    and f: "f \<in> keys pt" "P f \<noteq> PSYNC_INVALID_FOLDERID" "old \<noteq> P f"
    and few: "few (insert (f, old) (parent_pairs P))" and P: "folder_tree P r"
  shows "\<exists>s pt'. move_counts up (P f) pt = Some s \<and> drop_counts up old s = Some pt' \<and> tracks (parent_pairs P) Own pt'"
proof -
  let ?P = "parent_pairs P" and ?n = "P f"
  let ?Q = "insert (f, old) ?P" and ?R = "edges (insert (f, old) (?P - {(f, ?n)})) (keys pt)"
  let ?s = "count_child ?n (fst (get_folder_tasks ?n True pt))"
  have nP: "(f, ?n) \<in> ?P" using f(2) by (auto simp: parent_pairs_def)
  have E: "insert (f, ?n) ?R = edges ?Q (keys pt)" "(f, ?n) \<notin> ?R" using nP f by (auto simp: edges_def)
  have "few (edges ?Q (keys pt))" using few by (rule few_subset) (auto simp: edges_def)
  note p = count_pair [OF pt(2), of f ?n, unfolded E(1), OF this E(2)]
  have lower': "r x \<le> r y" if "(y, x) \<in> ?P\<^sup>*" for x y
    using that by induction (use lower [OF P] in \<open>fastforce simp: parent_pairs_def\<close>)+
  have above: "above ?Q ?n"
    unfolding above_def using lower' [of ?n f] lower [OF P f(2)] by auto
  obtain s where s: "move_counts up ?n pt = Some s" "good (parents s)" "counted Own (edges ?Q (keys s)) s" "keys pt \<subseteq> keys s"
  proof (cases "?n \<in> keys pt")
    case True
    then have "move_counts up ?n pt = Some ?s" using p(5) by (auto simp: move_counts_def Let_def)
    moreover have "keys ?s = keys pt" using p(2) True by (simp add: insert_absorb)
    ultimately show ?thesis using that p pt(1) by auto
  next
    case False
    then have m: "move_counts up ?n pt = mark_parents up ?n ?s" using p(5) by (auto simp: move_counts_def Let_def)
    have "edges ?Q (keys pt) = edges ?Q (keys ?s - {?n})" using p(2) False by simp
    then have "\<exists>pt'. mark_parents up ?n ?s = Some pt' \<and> good (parents pt') \<and> counted Own (edges ?Q (keys pt')) pt' \<and> keys ?s \<subseteq> keys pt'"
      by (intro mark_parents_correct [OF P]) (use p pt few above in auto)
    with m p(2) that show ?thesis by auto
  qed
  have "(f, old) \<in> edges ?Q (keys s)" using f(1) s(4) by (auto simp: edges_def)
  from drop_pair [OF s(3) this]
  obtain t where t: "drop_child False old s = Some t" "parents t = parents s"
    "has_work old t \<Longrightarrow> counted Own (edges ?Q (keys s) - {(f, old)}) t \<and> keys t = keys s"
    "\<not> has_work old t \<Longrightarrow> counted Own (edges ?Q (keys s) - {(f, old)}) (free_folder_tasks old t) \<and> keys (free_folder_tasks old t) = keys s - {old}"
    by blast
  have E': "edges ?Q (keys s) - {(f, old)} = edges ?P (keys s)" using f(3) by (auto simp: edges_def parent_pairs_def)
  have old: "old \<in> keys s" using countedD(6) [OF s(3) \<open>(f, old) \<in> edges ?Q (keys s)\<close>] .
  obtain pt' where "drop_counts up old s = Some pt'" "tracks ?P Own pt'"
  proof (cases "has_work old t")
    case True
    with t s(2) E' that show ?thesis by (auto simp: drop_counts_def tracks_def)
  next
    case False
    let ?t = "free_folder_tasks old t"
    have "counted Own (edges ?P (insert old (keys ?t))) ?t" "old \<notin> keys ?t" "good (parents ?t)"
      using t(4) [OF False] E' old t(2) s(2) by (auto simp: insert_absorb free_folder_tasks_def)
    from clear_parents_correct [OF P this(3,1,2), of False] False t(1) that show ?thesis
      by (auto simp: drop_counts_def tracks_def)
  qed
  with s(1) show ?thesis by blast
qed

text \<open>The folders of the tree are those with tasks somewhere below them.\<close>

lemma keys_reach:
  assumes "tracks (parent_pairs P) Own pt" and P: "folder_tree P r"
  shows "f \<in> keys pt \<longleftrightarrow> (\<exists>d \<in> Own. (d, f) \<in> (parent_pairs P)\<^sup>*)"
proof
  have c: "counted Own (edges (parent_pairs P) (keys pt)) pt" using assms by (simp add: tracks_def)
  note d = countedD [OF c]
  let ?E = "edges (parent_pairs P) (keys pt)"
  have *: "r g < r c'" if "(c', g) \<in> ?E" for c' g using that lower [OF P] by (auto simp: edges_def parent_pairs_def)
  have "r g < r c'" if "(c', g) \<in> ?E\<^sup>+" for c' g using that by induction (auto dest: * intro: less_trans)
  then have "acyclic ?E" unfolding acyclic_def by blast
  then have "wf ?E" using d(3) finite_acyclic_wf by blast
  then show "f \<in> keys pt \<Longrightarrow> \<exists>d \<in> Own. (d, f) \<in> (parent_pairs P)\<^sup>*"
  proof (induction f)
    case (less f)
    show ?case
    proof (cases "f \<in> Own")
      case False
      then obtain x where x: "(x, f) \<in> ?E" using d(7) [OF less.prems] by blast
      then have "x \<in> keys pt" "(x, f) \<in> parent_pairs P" by (auto simp: edges_def)
      then show ?thesis using less.IH [OF x] by (meson rtrancl.rtrancl_into_rtrancl)
    qed auto
  qed
  assume "\<exists>d \<in> Own. (d, f) \<in> (parent_pairs P)\<^sup>*"
  then obtain x where "x \<in> Own" "(x, f) \<in> (parent_pairs P)\<^sup>*" by blast
  from this(2) show "f \<in> keys pt"
  proof induction
    case base
    show ?case by (rule d(8)) fact
  next
    case (step y z)
    then show ?case using d(6) [of y z] by (simp add: edges_def)
  qed
qed

end

subsection \<open>The parents that the database holds\<close>

text \<open>What the code takes for the parent of a folder.\<close>

definition parent_in :: "(u64 \<Rightarrow> u64 option) \<Rightarrow> u64 \<Rightarrow> u64" where
  "parent_in db f = (if f = 0 then PSYNC_INVALID_FOLDERID else case db f of Some g \<Rightarrow> g | None \<Rightarrow> PSYNC_INVALID_FOLDERID)"

definition cache_good :: "nat \<Rightarrow> (u64 \<Rightarrow> u64 option) \<Rightarrow> parent_cache \<Rightarrow> bool" where
  "cache_good nhash db c \<longleftrightarrow> parent_cache_ok nhash c \<and> coherent nhash db c"

interpretation pc: parent_lookup "get_parent_folder nhash db" "parent_in db" "cache_good nhash db" for nhash db
proof
  show "cache_good nhash db c \<Longrightarrow> cache_good nhash db (fst (get_parent_folder nhash db x c)) \<and> snd (get_parent_folder nhash db x c) = parent_in db x" for c x
    using get_parent_folder_correct(1) [of nhash c db x] lookup_coherent [of nhash c db x] by (simp add: cache_good_def parent_in_def)
qed

text \<open>
  The tree is in order for the database: its counters count the folders of the tree under their parents, the folders of
  \<open>Own\<close> have tasks of their own, and the cache agrees with the database.
\<close>

definition in_order :: "nat \<Rightarrow> (u64 \<Rightarrow> u64 option) \<Rightarrow> u64 set \<Rightarrow> path_tasks \<Rightarrow> bool" where
  "in_order nhash db Own pt \<longleftrightarrow>
     cache_good nhash db (parents pt) \<and> counted Own (edges (parent_pairs (parent_in db)) (keys pt)) pt"

definition has_tasks_below :: "(u64 \<Rightarrow> u64 option) \<Rightarrow> u64 set \<Rightarrow> u64 \<Rightarrow> bool" where
  "has_tasks_below db Own f \<longleftrightarrow> (\<exists>d \<in> Own. (d, f) \<in> (parent_pairs (parent_in db))\<^sup>*)"

lemma tracks_in_order: "pc.tracks nhash db (parent_pairs (parent_in db)) Own pt = in_order nhash db Own pt"
  by (simp add: pc.tracks_def in_order_def)

lemma set_own_same [simp]: "set_own f (own_tasks pt f) pt = pt"
  by (simp add: set_own_def)

lemmas order_added = pc.added_correct [unfolded tracks_in_order]
  and order_gone = pc.gone_correct [unfolded tracks_in_order]
  and order_own = pc.set_own_False [unfolded tracks_in_order]
  and order_moved = pc.moved_correct [unfolded tracks_in_order]
  and order_reach = pc.keys_reach [unfolded tracks_in_order]

lemma in_orderD:
  assumes "in_order nhash db Own pt"
  shows "keys_ok (task_tree pt)" "counted Own (edges (parent_pairs (parent_in db)) (keys pt)) pt" "cache_good nhash db (parents pt)"
  using assms countedD(1) by (auto simp: in_order_def)

text \<open>The status a folder should have: the client's when there are tasks of \<open>Own\<close> below it.\<close>

definition right_status :: "(u64 \<Rightarrow> u64 option) \<Rightarrow> u64 set \<Rightarrow> u32 list \<Rightarrow> u64 \<Rightarrow> nat" where
  "right_status db Own sts f = (if has_tasks_below db Own f then rdunlock_return_in_prog sts else PSYNC_PATH_STATUS_IN_SYNC)"

lemma found_below:
  assumes "in_order nhash db Own pt" "folder_tree (parent_in db) r"
  shows "snd (get_folder_tasks g False pt) \<longleftrightarrow> has_tasks_below db Own g"
  using found_key [OF in_orderD(1) [OF assms(1)]] order_reach [OF assms] by (simp add: has_tasks_below_def)

lemma status_below:
  assumes "in_order nhash db Own pt" "folder_tree (parent_in db) r"
  shows "psync_path_status_drive_folder_locked sts g pt = right_status db Own sts g"
  using found_below [OF assms] by (simp add: psync_path_status_drive_folder_locked_def right_status_def)

lemma not_own: "in_order nhash db Own pt \<Longrightarrow> f \<notin> keys pt \<Longrightarrow> Own - {f} = Own"
  using countedD(8) [OF in_orderD(2)] by blast

lemma drive_fldr_changed_order:
  assumes "in_order PARENT_HASH_SIZE db Own pt" "folder_tree (parent_in db) r"
  shows "\<exists>pt'. ppathstatus_drive_fldr_changed db f changed pt = Some pt' \<and>
    in_order PARENT_HASH_SIZE db (if changed then insert f Own else Own - {f}) pt'"
proof (cases changed)
  case True
  obtain t where g: "get_folder_tasks f True pt = (t, True)" by (cases "get_folder_tasks f True pt") (auto simp: get_folder_tasks_def split: if_splits)
  have "\<exists>pt'. (if has_work f t then Some (set_own f True t) else mark_parents (drive_up db) f (set_own f True t)) = Some pt' \<and>
      in_order PARENT_HASH_SIZE db (insert f Own) pt'"
    unfolding drive_up_def using order_added [OF assms, of f] unfolding g fst_conv .
  moreover have "set_own f True t = t" if "own_tasks t f" using set_own_same [of f t] that by simp
  moreover have "ppathstatus_drive_fldr_changed db f changed pt =
      (if has_work f t then Some (if own_tasks t f then t else set_own f True t) else mark_parents (drive_up db) f (set_own f True t))"
    using True g by (simp add: ppathstatus_drive_fldr_changed_def)
  ultimately show ?thesis using True by (cases "has_work f t"; cases "own_tasks t f") simp_all
next
  case False
  note k = in_orderD(1) [OF assms(1)]
  show ?thesis
  proof (cases "f \<in> keys pt")
    case nin: False
    then have "get_folder_tasks f False pt = (pt, False)" using found_key [OF k, of f] by (simp add: get_folder_tasks_def split: if_splits)
    then show ?thesis using False assms(1) not_own [OF assms(1) nin] by (simp add: ppathstatus_drive_fldr_changed_def)
  next
    case f: True
    note w = order_own [OF assms(1) f] and c = counted_work [OF in_orderD(2) [OF assms(1)] f]
    have own: "child_task_cnt pt f \<noteq> 0 \<longleftrightarrow> has_work f (set_own f False pt)" by (simp add: has_work_def set_own_def)
    show ?thesis
    proof (cases "child_task_cnt pt f = 0")
      case nz: False
      have "in_order PARENT_HASH_SIZE db (Own - {f}) (set_own f False pt)" using w(2) nz own by blast
      moreover have "set_own f False pt = pt" if "\<not> own_tasks pt f" using that by (simp add: set_own_def fun_upd_idem)
      ultimately show ?thesis using False f k nz by (auto simp: ppathstatus_drive_fldr_changed_def)
    next
      case z: True
      then have "own_tasks pt f" using c(2) by (simp add: has_work_def)
      moreover obtain pt' g where "clear_parents (drive_up db) False f (free_folder_tasks f pt) = Some (pt', g)" "in_order PARENT_HASH_SIZE db (Own - {f}) pt'"
        using order_gone [OF assms(1) f _ assms(2), of False "own_tasks pt f"] c(1) z by (auto simp: drive_up_def)
      ultimately show ?thesis using False f k z by (simp add: ppathstatus_drive_fldr_changed_def)
    qed
  qed
qed

text \<open>
  C25. A folder of the drive is shown as in progress exactly when it, or a folder below it, has new files or folders to
  upload: from a tree in order, a change of one folder never fails an assertion, leaves the tree in order, and then a
  folder has a node exactly when some folder with tasks is below it.
\<close>

theorem drive_folder_changed_exact:
  assumes "in_order PARENT_HASH_SIZE db Own pt" "folder_tree (parent_in db) r"
  shows "\<exists>pt'. ppathstatus_drive_fldr_changed db f changed pt = Some pt' \<and>
    in_order PARENT_HASH_SIZE db (if changed then insert f Own else Own - {f}) pt' \<and>
    (\<forall>sts g. psync_path_status_drive_folder_locked sts g pt' = right_status db (if changed then insert f Own else Own - {f}) sts g)"
  using drive_fldr_changed_order [OF assms, of f changed] status_below [OF _ assms(2)] by blast

text \<open>Deleting a folder that has no subfolders.\<close>

lemma fldr_deleted_order:
  assumes "in_order nhash db Own pt" "folder_tree (parent_in db) r" "\<forall>c. parent_in db c \<noteq> f"
  shows "\<exists>pt' g. (if snd (get_folder_tasks f False pt) then clear_parents (get_parent_folder nhash db) b f (free_folder_tasks f pt) else Some (pt, f)) =
      Some (pt', g) \<and> in_order nhash db (Own - {f}) pt'"
proof (cases "f \<in> keys pt")
  case True
  have "(c, f) \<notin> edges (parent_pairs (parent_in db)) (keys pt)" for c using assms(3) by (auto simp: edges_def parent_pairs_def)
  then show ?thesis using order_gone [OF assms(1) True _ assms(2), of b "own_tasks pt f"] True found_key [OF in_orderD(1) [OF assms(1)]] by simp
next
  case False
  then show ?thesis using assms(1) not_own [OF assms(1) False] found_key [OF in_orderD(1) [OF assms(1)]] by simp
qed

lemma forget_order:
  "in_order nhash db Own pt \<Longrightarrow> in_order nhash db Own (pt\<lparr>parents := ppathstatus_del_from_parent_cache nhash g (parents pt)\<rparr>)"
  using del_from_parent_cache_correct(1) [of nhash "parents pt" g] forget_coherent [of nhash "parents pt" db g "db g"]
  by (simp add: in_order_def cache_good_def counted_def keys_def)

lemma parent_in_upd: "f \<noteq> 0 \<Longrightarrow> parent_in (db(f \<mapsto> g)) = (parent_in db)(f := g)"
  by (auto simp: parent_in_def fun_eq_iff)

lemma few_moved:
  assumes "few (parent_pairs P)" "few (parent_pairs (P(f := new)))" "P f \<noteq> PSYNC_INVALID_FOLDERID" "P f \<noteq> new"
  shows "few (insert (f, P f) (parent_pairs (P(f := new))))" (is "few ?S")
proof -
  have 1: "{c. (c, g) \<in> ?S} = {c. (c, g) \<in> parent_pairs (P(f := new))}" if "g \<noteq> P f" for g using that by auto
  have 2: "{c. (c, P f) \<in> ?S} = {c. (c, P f) \<in> parent_pairs P}" using assms(3,4) by (auto simp: parent_pairs_def)
  have "card {c. (c, g) \<in> ?S} < 2 ^ 32" for g
    using 1 [of g] 2 assms(1,2) unfolding few_def by (cases "g = P f") metis+
  then show ?thesis using assms(2) by (simp add: few_def)
qed

lemma fldr_moved_order:
  assumes pt: "in_order PARENT_HASH_SIZE db Own pt" and r: "folder_tree (parent_in db) r" "folder_tree (parent_in (db(f \<mapsto> new))) r'"
    and f: "f \<noteq> 0" "db f = Some old" "old \<noteq> PSYNC_INVALID_FOLDERID" "new \<noteq> PSYNC_INVALID_FOLDERID"
  shows "\<exists>pt'. (case ppathstatus_fldr_moved f old new pt of (st1, runs) \<Rightarrow> if runs then folder_moved (db(f \<mapsto> new)) old new st1 else Some st1) = Some pt' \<and>
    in_order PARENT_HASH_SIZE (db(f \<mapsto> new)) Own pt'"
proof (cases "old = new")
  case True
  then have "db(f \<mapsto> new) = db" using f(2) by auto
  then show ?thesis using True pt by (simp add: ppathstatus_fldr_moved_def)
next
  case False
  let ?db = "db(f \<mapsto> new)" and ?pt = "pt\<lparr>parents := ppathstatus_del_from_parent_cache PARENT_HASH_SIZE f (parents pt)\<rparr>"
  have P: "parent_in ?db = (parent_in db)(f := new)" "parent_in db f = old" using f by (simp_all add: parent_in_upd, simp add: parent_in_def)
  have k: "keys ?pt = keys pt" "parents ?pt = ppathstatus_del_from_parent_cache PARENT_HASH_SIZE f (parents pt)" by (simp_all add: keys_def)
  have good: "cache_good PARENT_HASH_SIZE ?db (parents ?pt)"
    using in_orderD(3) [OF pt] forget_coherent [of PARENT_HASH_SIZE "parents pt" db f "Some new"] del_from_parent_cache_correct(1) [of PARENT_HASH_SIZE "parents pt" f]
    by (simp add: cache_good_def)
  have c: "counted Own (edges (parent_pairs (parent_in db)) (keys pt)) ?pt" using in_orderD(2) [OF pt] unfolding counted_def k by simp
  have m: "ppathstatus_fldr_moved f old new pt = (?pt, f \<in> keys pt)"
    using False found_key [of ?pt f] in_orderD(1) [OF pt] k(1) by (simp add: ppathstatus_fldr_moved_def Let_def)
  show ?thesis
  proof (cases "f \<in> keys pt")
    case True
    have Q: "parent_pairs (parent_in db) = insert (f, old) (parent_pairs (parent_in ?db) - {(f, parent_in ?db f)})"
      using P False f(3,4) by (auto simp: parent_pairs_def)
    have few: "few (insert (f, old) (parent_pairs (parent_in ?db)))"
      using few_moved [of "parent_in db" f new] r P f(3) False by (simp add: folder_tree_def)
    have "\<exists>s pt'. move_counts (get_parent_folder PARENT_HASH_SIZE ?db) (parent_in ?db f) ?pt = Some s \<and>
        drop_counts (get_parent_folder PARENT_HASH_SIZE ?db) old s = Some pt' \<and> in_order PARENT_HASH_SIZE ?db Own pt'"
      by (rule order_moved [OF good _ _ _ _ few r(2)]) (use c [unfolded Q] True P f(4) False in \<open>simp_all add: k(1)\<close>)
    then show ?thesis using True P(1) by (auto simp: m folder_moved_def drive_up_def)
  next
    case nin: False
    have "edges (parent_pairs (parent_in ?db)) (keys pt) = edges (parent_pairs (parent_in db)) (keys pt)"
      using nin P by (auto simp: edges_def parent_pairs_def split: if_splits)
    then have "in_order PARENT_HASH_SIZE ?db Own ?pt" using c good by (simp add: in_order_def k(1))
    then show ?thesis using nin by (simp add: m)
  qed
qed

text \<open>
  C26. A move keeps the tree of the drive in order: the notice forgets the parent of the folder, and after the commit, when
  the database has the new parent, no assertion fails, the counters are those of the new tree, and the folders with
  nodes are those with tasks below them in the new tree.
\<close>

theorem drive_folder_moved_exact:
  assumes "in_order PARENT_HASH_SIZE db Own pt" "folder_tree (parent_in db) r" "folder_tree (parent_in (db(f \<mapsto> new))) r'"
    "f \<noteq> 0" "db f = Some old" "old \<noteq> PSYNC_INVALID_FOLDERID" "new \<noteq> PSYNC_INVALID_FOLDERID"
  shows "\<exists>pt'. (case ppathstatus_fldr_moved f old new pt of (st1, runs) \<Rightarrow> if runs then folder_moved (db(f \<mapsto> new)) old new st1 else Some st1) = Some pt' \<and>
    in_order PARENT_HASH_SIZE (db(f \<mapsto> new)) Own pt' \<and>
    (\<forall>sts g. psync_path_status_drive_folder_locked sts g pt' = right_status (db(f \<mapsto> new)) Own sts g)"
  using fldr_moved_order [OF assms] status_below [OF _ assms(3)] by blast

text \<open>
  Deleting a folder without subfolders keeps the tree of the drive in order: its own tasks are gone with it, and the
  folders above it that had work only through it are clean.
\<close>

theorem drive_folder_deleted_exact:
  assumes "in_order PARENT_HASH_SIZE db Own pt" "folder_tree (parent_in db) r" "\<forall>c. parent_in db c \<noteq> f"
  shows "\<exists>pt'. ppathstatus_fldr_deleted db f pt = Some pt' \<and> in_order PARENT_HASH_SIZE db (Own - {f}) pt' \<and>
    (\<forall>sts g. psync_path_status_drive_folder_locked sts g pt' = right_status db (Own - {f}) sts g)"
  using fldr_deleted_order [OF assms, of False] forget_order status_below [OF _ assms(2)]
  by (fastforce simp: ppathstatus_fldr_deleted_def drive_up_def)

subsection \<open>The syncs\<close>

text \<open>Every sync has a tree of its own, over the same table of local folders; a sync without state has no tasks.\<close>

definition syncs_in_order :: "(u64 \<Rightarrow> u64 option) \<Rightarrow> (u32 \<Rightarrow> u64 set) \<Rightarrow> sync_data \<Rightarrow> bool" where
  "syncs_in_order db Own sd \<longleftrightarrow> (\<forall>s. in_order SYNC_PARENT_HASH_SIZE db (Own s) (get_sync_data s sd))"

lemma empty_in_order:
  assumes "0 < n"
  shows "in_order nhash db {} \<lparr>task_tree = Null, child_task_cnt = (\<lambda>_. 0), own_tasks = (\<lambda>_. False), parents = parent_cache_init n\<rparr>"
  using parent_cache_init_ok [OF assms, of nhash]
  by (simp add: in_order_def cache_good_def coherent_def counted_def keys_def edges_def few_def keys_ok_def)

lemma no_state: "sd s = None \<Longrightarrow> in_order nhash db Own (get_sync_data s sd) \<Longrightarrow> Own = {}"
  using countedD(8) [OF in_orderD(2)] by (fastforce simp: get_sync_data_def keys_def)

lemma put_in_order:
  assumes "syncs_in_order db Own sd" "in_order SYNC_PARENT_HASH_SIZE db O' pt"
  shows "syncs_in_order db (Own(s := O')) (sd(s \<mapsto> pt))"
  using assms by (auto simp: syncs_in_order_def get_sync_data_def)

lemma syncfldr_added_order:
  assumes "syncs_in_order db Own sd" "folder_tree (parent_in db) r"
  shows "\<exists>sd'. ppath_syncfldr_task_added_locked db s f sd = Some sd' \<and> syncs_in_order db (Own(s := insert f (Own s))) sd'"
proof -
  have "in_order SYNC_PARENT_HASH_SIZE db (Own s) (get_sync_data s sd)" using assms(1) by (simp add: syncs_in_order_def)
  from order_added [OF this assms(2), of f] put_in_order [OF assms(1)] show ?thesis
    by (fastforce simp: ppath_syncfldr_task_added_locked_def put_sync_data_def Let_def sync_up_def)
qed

lemma syncs_status:
  assumes "syncs_in_order db Own sd" "folder_tree (parent_in db) r"
  shows "psync_path_status_sync_folder_locked sts t g sd = right_status db (Own t) sts g"
proof -
  have "in_order SYNC_PARENT_HASH_SIZE db (Own t) (get_sync_data t sd)" using assms(1) by (simp add: syncs_in_order_def)
  from status_below [OF this assms(2), of sts g] show ?thesis
    by (cases "sd t") (simp_all add: psync_path_status_sync_folder_locked_def psync_path_status_drive_folder_locked_def get_sync_data_def
      get_folder_tasks_def key_find_set keys_ok_def)
qed

lemma syncfldr_completed_order:
  assumes "syncs_in_order db Own sd" "folder_tree (parent_in db) r"
  shows "\<exists>sd'. ppathstatus_syncfldr_task_completed db busy s f sd = Some sd' \<and>
    syncs_in_order db (if busy then Own else Own(s := Own s - {f})) sd'"
proof (cases "busy \<or> f \<notin> keys (get_sync_data s sd)")
  case True
  have pt: "in_order SYNC_PARENT_HASH_SIZE db (Own s) (get_sync_data s sd)" using assms(1) by (simp add: syncs_in_order_def)
  have "ppathstatus_syncfldr_task_completed db busy s f sd = Some sd"
    using True found_key [OF in_orderD(1) [OF pt], of f]
    by (auto simp: ppathstatus_syncfldr_task_completed_def get_sync_data_def split: option.splits)
  moreover have "Own s - {f} = Own s" if "\<not> busy" using True that not_own [OF pt] by blast
  then have "(if busy then Own else Own(s := Own s - {f})) = Own" by (auto simp: fun_upd_idem)
  ultimately show ?thesis using assms(1) by simp
next
  case False
  let ?pt = "get_sync_data s sd" and ?s = "set_own f False (get_sync_data s sd)"
  have pt: "in_order SYNC_PARENT_HASH_SIZE db (Own s) ?pt" using assms(1) by (simp add: syncs_in_order_def)
  have f: "f \<in> keys ?pt" using False by simp
  then have sd: "sd s = Some ?pt" by (auto simp: get_sync_data_def keys_def split: option.splits)
  have step: "ppathstatus_syncfldr_task_completed db busy s f sd = put_sync_data s sd
      (if has_work f ?s then Some ?s else map_option fst (clear_parents (sync_up db) True f (free_folder_tasks f ?s)))"
    using False f found_key [OF in_orderD(1) [OF pt], of f] by (simp add: ppathstatus_syncfldr_task_completed_def sd)
  have "\<exists>pt'. (if has_work f ?s then Some ?s else map_option fst (clear_parents (sync_up db) True f (free_folder_tasks f ?s))) = Some pt' \<and>
      in_order SYNC_PARENT_HASH_SIZE db (Own s - {f}) pt'"
    using order_own [OF pt f] order_gone [OF pt f _ assms(2), of True False] by (cases "has_work f ?s") (auto simp: sync_up_def)
  then show ?thesis using put_in_order [OF assms(1)] False unfolding step by (fastforce simp: put_sync_data_def)
qed

text \<open>
  C27. A sync shows a folder as in progress exactly when it, or a folder below it, has transfers: adding a task of a folder
  and completing the last one, where \<open>busy\<close> says that others remain, never fail an assertion, keep the trees of all syncs
  in order, and change the folders of this sync only.
\<close>

theorem sync_folder_tasks_exact:
  assumes "syncs_in_order db Own sd" "folder_tree (parent_in db) r"
  shows "\<exists>sd' sd''. ppath_syncfldr_task_added_locked db s f sd = Some sd' \<and> syncs_in_order db (Own(s := insert f (Own s))) sd' \<and>
    ppathstatus_syncfldr_task_completed db busy s f sd = Some sd'' \<and> syncs_in_order db (if busy then Own else Own(s := Own s - {f})) sd'' \<and>
    (\<forall>sts t g. psync_path_status_sync_folder_locked sts t g sd' = right_status db ((Own(s := insert f (Own s))) t) sts g) \<and>
    (\<forall>sts t g. psync_path_status_sync_folder_locked sts t g sd'' = right_status db ((if busy then Own else Own(s := Own s - {f})) t) sts g)"
proof -
  obtain sd' where a: "ppath_syncfldr_task_added_locked db s f sd = Some sd'" "syncs_in_order db (Own(s := insert f (Own s))) sd'"
    using syncfldr_added_order [OF assms] by blast
  obtain sd'' where c: "ppathstatus_syncfldr_task_completed db busy s f sd = Some sd''"
      "syncs_in_order db (if busy then Own else Own(s := Own s - {f})) sd''"
    using syncfldr_completed_order [OF assms] by blast
  show ?thesis using a c syncs_status [OF a(2) assms(2)] syncs_status [OF c(2) assms(2)] by blast
qed

subsection \<open>A small table: folder 7 below the root, folder 9 below 7\<close>

definition small_table :: "u64 \<Rightarrow> u64 option" where
  "small_table = [7 \<mapsto> 0, 9 \<mapsto> 7]"

definition empty_tasks :: path_tasks where
  "empty_tasks = \<lparr>task_tree = Null, child_task_cnt = (\<lambda>_. 0), own_tasks = (\<lambda>_. False), parents = parent_cache_init PARENT_CACHE_SIZE\<rparr>"

lemma few_finite: "finite S \<Longrightarrow> card S < 2 ^ 32 \<Longrightarrow> few S"
proof -
  assume S: "finite S" "card S < 2 ^ 32"
  have "card {c. (c, g) \<in> S} \<le> card (fst ` S)" for g using S(1) by (intro card_mono) (auto intro: image_eqI [of _ fst "(_, g)"])
  then have "card {c. (c, g) \<in> S} \<le> card S" for g using card_image_le [OF S(1), of fst] le_trans by blast
  then show ?thesis using S by (auto simp: few_def intro: le_less_trans)
qed

lemma parent_in_small:
  "parent_in small_table c = (if c = 7 then 0 else if c = 9 then 7 else PSYNC_INVALID_FOLDERID)"
  "parent_in (small_table(9 \<mapsto> 0)) c = (if c = 7 \<or> c = 9 then 0 else PSYNC_INVALID_FOLDERID)"
  by (simp_all add: parent_in_def small_table_def)

lemma parent_in_list: "map (parent_in small_table) [7, 9, 0] = [0, 7, PSYNC_INVALID_FOLDERID]"
  by (simp add: parent_in_small)

lemma small_tree: "folder_tree (parent_in small_table) (\<lambda>x. if x = 0 then 0 else if x = 7 then 1 else 2)"
proof -
  have "parent_pairs (parent_in small_table) \<subseteq> {(7, 0), (9, 7)}" by (auto simp: parent_pairs_def parent_in_small)
  then have "few (parent_pairs (parent_in small_table))" by (rule few_subset [rotated]) (rule few_finite; simp)
  then show ?thesis by (simp add: folder_tree_def parent_in_small)
qed

lemma small_tree_moved: "folder_tree (parent_in (small_table(9 \<mapsto> 0))) (\<lambda>x. if x = 0 then 0 else 1)"
proof -
  have "parent_pairs (parent_in (small_table(9 \<mapsto> 0))) \<subseteq> {(7, 0), (9, 0)}" by (auto simp: parent_pairs_def parent_in_small split: if_splits)
  then have "few (parent_pairs (parent_in (small_table(9 \<mapsto> 0))))" by (rule few_subset [rotated]) (rule few_finite; simp)
  then show ?thesis by (auto simp: folder_tree_def parent_in_small)
qed

lemma empty_tasks_order: "in_order PARENT_HASH_SIZE db {} empty_tasks"
  unfolding empty_tasks_def by (rule empty_in_order) (simp add: PARENT_CACHE_SIZE_def)

lemma no_sync_order: "syncs_in_order db (\<lambda>_. {}) (\<lambda>_. None)"
  unfolding syncs_in_order_def get_sync_data_def option.case by (auto intro!: empty_in_order simp: SYNC_PARENT_CACHE_SIZE_def)

theorem drive_folder_changed_exact_witness:
  "\<exists>pt'. ppathstatus_drive_fldr_changed small_table 9 True empty_tasks = Some pt' \<and>
    in_order PARENT_HASH_SIZE small_table (if True then insert 9 {} else {} - {9}) pt' \<and>
    (\<forall>sts g. psync_path_status_drive_folder_locked sts g pt' = right_status small_table (if True then insert 9 {} else {} - {9}) sts g)"
  by (rule drive_folder_changed_exact [OF empty_tasks_order small_tree])

theorem drive_folder_moved_exact_witness:
  "\<exists>pt. in_order PARENT_HASH_SIZE small_table {9} pt \<and>
    (\<exists>pt'. (case ppathstatus_fldr_moved 9 7 0 pt of (st1, runs) \<Rightarrow> if runs then folder_moved (small_table(9 \<mapsto> 0)) 7 0 st1 else Some st1) = Some pt' \<and>
      in_order PARENT_HASH_SIZE (small_table(9 \<mapsto> 0)) {9} pt' \<and>
      (\<forall>sts g. psync_path_status_drive_folder_locked sts g pt' = right_status (small_table(9 \<mapsto> 0)) {9} sts g))"
proof -
  obtain pt where pt: "in_order PARENT_HASH_SIZE small_table {9} pt"
    using drive_fldr_changed_order [OF empty_tasks_order small_tree, of 9 True] by auto
  have "small_table 9 = Some 7" "(7 :: u64) \<noteq> PSYNC_INVALID_FOLDERID" "0 \<noteq> PSYNC_INVALID_FOLDERID"
    by (simp_all add: small_table_def PSYNC_INVALID_FOLDERID_def)
  with drive_folder_moved_exact [OF pt small_tree small_tree_moved] pt show ?thesis by auto
qed

theorem drive_folder_deleted_exact_witness:
  "\<exists>pt. in_order PARENT_HASH_SIZE small_table {9} pt \<and>
    (\<exists>pt'. ppathstatus_fldr_deleted small_table 9 pt = Some pt' \<and> in_order PARENT_HASH_SIZE small_table ({9} - {9}) pt' \<and>
      (\<forall>sts g. psync_path_status_drive_folder_locked sts g pt' = right_status small_table ({9} - {9}) sts g))"
proof -
  obtain pt where pt: "in_order PARENT_HASH_SIZE small_table {9} pt"
    using drive_fldr_changed_order [OF empty_tasks_order small_tree, of 9 True] by auto
  have "\<forall>c. parent_in small_table c \<noteq> 9" by (auto simp: parent_in_small PSYNC_INVALID_FOLDERID_def)
  with drive_folder_deleted_exact [OF pt small_tree] pt show ?thesis by blast
qed

theorem sync_folder_tasks_exact_witness:
  "\<exists>sd' sd''. ppath_syncfldr_task_added_locked small_table 1 9 (\<lambda>_. None) = Some sd' \<and> syncs_in_order small_table ((\<lambda>_. {})(1 := insert 9 {})) sd' \<and>
    ppathstatus_syncfldr_task_completed small_table False 1 9 (\<lambda>_. None) = Some sd'' \<and>
    syncs_in_order small_table (if False then (\<lambda>_. {}) else (\<lambda>_. {})(1 := {} - {9})) sd'' \<and>
    (\<forall>sts t g. psync_path_status_sync_folder_locked sts t g sd' = right_status small_table (((\<lambda>_. {})(1 := insert 9 {})) t) sts g) \<and>
    (\<forall>sts t g. psync_path_status_sync_folder_locked sts t g sd'' = right_status small_table ((if False then (\<lambda>_. {}) else (\<lambda>_. {})(1 := {} - {9})) t) sts g)"
  by (rule sync_folder_tasks_exact [OF no_sync_order small_tree])

end
