(* ===== verification/Spec2Isabelle.thy ===== *)
theory Spec2Isabelle
  imports PTree PIntervalTree PList PTimer PCrcTables PCrc32c PFastHash PCrypto PSector PApi PApiRequest PLocks PCodec PStrings PPageSort PPageClean PCache PStatus PAdler PBlockHash PDelta PUpload PCryptoLayout PKeyIndex PThrottle PParentCache PPathTasks
begin

text \<open>
  Verification of the core of the pCloud console client.

  The program. The client (\<open>src/pclsync\<close>, a C library, with a C++ front end beside it) mounts a remote drive and
  keeps local folders in step with it. Threads for scanning, uploading, downloading and the FUSE callbacks talk to
  the server through the binary API, keep their state in an SQLite database, and share a set of in-memory
  components: ordered trees, timers, a recursive reader/writer lock, caches, checksums and the file
  cryptography. These components hold the algorithms of the client; the rest moves rows between the database, the
  network and the file system. The theories model the components, one theory for each, from the code under
  \<open>src/pclsync\<close>:

  \<^item> \<open>Prelude\<close>: the machine types, bytes of words in memory, counting of threads, and the interface
    locales \<open>transition_system\<close> (an invariant of all reachable states) and \<open>codec\<close> (a decoder inverts an encoder).
  \<^item> \<open>PTree\<close> (\<open>ptree.c\<close>, \<open>ptree.h\<close>): the intrusive AVL tree. A pointer into the tree is a subtree with
    the frames above it. Insertion and deletion keep the stored heights right, the tree balanced and the in-order
    sequence as specified; the traversals follow it. The locale \<open>ordered_index\<close> is what the users of the tree rely on.
  \<^item> \<open>PIntervalTree\<close> (\<open>pintervaltree.c\<close>): sets of byte ranges on that tree. Adding and removing
    terminate, keep disjoint sorted intervals, and change exactly the bytes of the range.
  \<^item> \<open>PList\<close> (\<open>plist.c\<close>): the bottom-up merge sort of lists, stable and terminating (interpreting
    \<open>list_sorter\<close>), and the extraction of equal pairs.
  \<^item> \<open>PTimer\<close> (\<open>ptimer.c\<close>): the three-level timer wheel and the rounds of its thread, with callbacks and
    other threads that register and stop timers at any point. A timer runs in the first round that reaches the second in
    which it is due, and then again after its interval (\<open>timer_service\<close>).
  \<^item> \<open>PLocks\<close> (\<open>plocks.c\<close>): the reader/writer lock as critical sections of any number of threads, with
    timeouts, signals and spurious wake-ups: mutual exclusion, exact assertions, and no lost wake-up unless a writer
    that was signalled times out.
  \<^item> \<open>PCache\<close> (\<open>pcache.c\<close>): the cache of expiring objects with its 8 locks. It refines one stack of values
    per key (\<open>keyed_stack\<close>) and neither loses nor duplicates a value.
  \<^item> \<open>PStatus\<close> (\<open>pstatus.c\<close>): the status variables, the overall status, and the functions that wait for
    a condition: no wake-up is lost, but overlapping updates can leave a stale overall status.
  \<^item> \<open>PCrcTables\<close>, \<open>PCrc32c\<close>, \<open>PFastHash\<close> (\<open>pcrc32c.c\<close>): the CRC-32C tables, the software and
    the hardware routine, which compute the bit-serial CRC, and the streaming hash, which depends on the
    concatenated input only. \<open>crc_steps\<close> and \<open>crc_instruction\<close> are the interfaces to the step function and to the
    processor instruction.
  \<^item> \<open>PCrypto\<close>, \<open>PSector\<close> (\<open>pcrypto.c\<close>): HMAC, counter mode, names and sectors. Decoding inverts encoding,
    and a sector is accepted exactly when its tag is right.
  \<^item> \<open>PCryptoLayout\<close> (\<open>pfscrypto.c\<close>): the places of data and authentication sectors in an encrypted file. The
    places partition the file, and plain and encrypted sizes determine each other.
  \<^item> \<open>PApi\<close>, \<open>PApiRequest\<close> (\<open>papi.c\<close>): the response parser with its measuring pass, the packing of requests, the
    asynchronous reader over any sequence of packets, and the look-up of fields.
  \<^item> \<open>PCodec\<close> (\<open>putil.c\<close>): base32 and base64, with no access outside of their buffers.
  \<^item> \<open>PStrings\<close> (\<open>plibs.c\<close>, \<open>psynclib.c\<close>, \<open>putil.c\<close>): the patterns of names to ignore, which match what they stand for,
    the test for UTF-8, which counts trailing bytes only, and the reading of numbers.
  \<^item> \<open>PPageSort\<close>, \<open>PPageClean\<close> (\<open>ppagecache.c\<close>): the quicksort and the quickselect with their stacks, and the
    choice of the pages that are dropped from the cache. The locale \<open>comparator\<close> is interpreted on the eight
    comparison functions.
  \<^item> \<open>PAdler\<close>, \<open>PBlockHash\<close>, \<open>PDelta\<close>, \<open>PUpload\<close> (\<open>pnetlibs.c\<close>): the rolling checksum, the open-addressed table of the blocks
    of a remote file, the scan of local files for these blocks through a ring buffer, and the ranges of the
    download, which rebuild the remote file (with the loop of \<open>pdownload.c\<close> that transfers and copies them). The upload scans
    the ranges of a local file for blocks that the server has, and cuts them into a plan from which the server rebuilds
    the local file. Both say what happens to a range that ends behind the end of the file to copy from.
  \<^item> \<open>PKeyIndex\<close>, \<open>PThrottle\<close> (\<open>prunthrottled.c\<close>): the search tree with keys that several files write out over
    \<open>PTree\<close> (\<open>key_set\<close>: the tree as a set of keys), and the runner of throttled callbacks over the timer of \<open>PTimer\<close>: two
    starts of a callback are never closer than its interval, except when its timer was not registered in time for the
    wheel, and a request can always be served.
  \<^item> \<open>PParentCache\<close>, \<open>PPathTasks\<close> (\<open>ppathstatus.c\<close>): the cache of the parents of folders, which gives what the
    database holds, and the trees that count the subfolders with work. Any change, move or deletion of a folder leaves the
    counters exact, so that a folder is shown as in progress exactly when there are tasks below it. The climbs through the
    parents are proved against the locale \<open>parent_lookup\<close>, which the cache over the database provides; they end because
    the folders are a tree.

  How the code is rendered. A struct is a record or a datatype, an array a list, a pointer into a list or tree its
  position or key. Integers are words where the code relies on their width or could overflow (checksums, hashes,
  counters, status words, offsets of encrypted files) and numbers where the buffers bound them. Errors, assertions
  and accesses outside of a buffer are values (\<open>None\<close> or constructors of an outcome type), so that the theorems
  say that they do not happen, or when they do. Code under mutexes is a set of atomic sections, and the state
  of all threads is part of the transition system. Functions outside of the repository are
  parameters: AES, SHA-1 and SHA-512 (mbed TLS), the CRC instruction, the network, the content of files and of queries.

  Termination and bounds. Loops are structural or have a measure; those whose end depends on an invariant are
  partial functions into \<open>option\<close>, and the theorems state that they return a value. The response parser has fuel:
  \<open>response_fuel\<close>, two units per byte and two more, which \<open>calc_fuel_enough\<close> shows to be enough. The checksums of blocks
  are proved for block sizes up to \<open>2 ^ 24\<close> (the length parameter and the sums then fit into 32 bits) and powers of two (the scan masks
  offsets with the block size); the layout for plain sizes up to \<open>2 ^ 44\<close>, the 32-bit sector numbers.

  Not modelled. The synchronisation engine, the FUSE callbacks, the database layer, account and sharing requests, and the
  HTTP and socket code are sequences of SQL statements, API calls and system calls with little
  computation of their own: a model of them would be a model of SQLite, the server and the kernel, which are not
  in the repository. The command line front end prompts and forwards. Word lists, certificates and SQL text are
  data. Within the modelled files, functions that only allocate, free, log or forward are left out; the
  components of the manifest name them.
\<close>

end
